(* ===== verification/Siglog_Prelude.thy ===== *)
theory Siglog_Prelude
  imports Main "HOL-Library.Word"
begin

text \<open>
  Shared vocabulary of the development: machine types, fallible results, the bit tricks of
  Rust's unsigned integers (\<open>leading_zeros\<close>, \<open>trailing_zeros\<close>, \<open>is_power_of_two\<close>), big- and
  little-endian byte codecs, and decimal printing and parsing. A \<open>u64\<close> (or \<open>usize\<close>, \<open>u32\<close>) is
  a \<open>nat\<close>; where an operation of the source can leave the type's range, the model writes the
  check out, because the release profile of the crate sets \<open>overflow-checks = true\<close> and the
  operation then panics. Bytes are \<open>8 word\<close>, text is a list of bytes seen as characters.
\<close>

named_theorems res_simps \<open>rules for fallible results\<close>
named_theorems pow2_simps \<open>rules for powers of two and bit lengths\<close>
named_theorems codec_simps \<open>rules for byte codecs\<close>

type_synonym byte = "8 word"
type_synonym u64 = nat

abbreviation u64_max :: nat where "u64_max \<equiv> 18446744073709551615"
abbreviation i64_max :: nat where "i64_max \<equiv> 9223372036854775807"
abbreviation u16_max :: nat where "u16_max \<equiv> 65535"

lemma u64_max_eq: "u64_max = 2 ^ 64 - 1"
  by simp

lemma i64_max_eq: "i64_max = 2 ^ 63 - 1"
  by simp


subsection \<open>Fallible results\<close>

text \<open>
  \<open>Result<T, E>\<close> is \<open>'e + 'a\<close>. \<open>bind_res\<close> is the question-mark operator followed by the rest
  of the function body.
\<close>

fun bind_res :: "'e + 'a \<Rightarrow> ('a \<Rightarrow> 'e + 'b) \<Rightarrow> 'e + 'b" where
  "bind_res (Inl e) f = Inl e"
| "bind_res (Inr x) f = f x"

fun map_err :: "('e \<Rightarrow> 'f) \<Rightarrow> 'e + 'a \<Rightarrow> 'f + 'a" where
  "map_err g (Inl e) = Inl (g e)"
| "map_err g (Inr x) = Inr x"

fun is_ok :: "'e + 'a \<Rightarrow> bool" where
  "is_ok (Inl e) = False"
| "is_ok (Inr x) = True"

fun ok_or :: "'e \<Rightarrow> 'a option \<Rightarrow> 'e + 'a" where
  "ok_or e None = Inl e"
| "ok_or e (Some x) = Inr x"

lemma bind_res_Inr_iff [res_simps]:
  "bind_res m f = Inr y \<longleftrightarrow> (\<exists>x. m = Inr x \<and> f x = Inr y)"
  by (cases m) auto

lemma bind_res_Inl_iff:
  "bind_res m f = Inl e \<longleftrightarrow> m = Inl e \<or> (\<exists>x. m = Inr x \<and> f x = Inl e)"
  by (cases m) auto

lemma map_err_Inr_iff [res_simps]: "map_err g m = Inr y \<longleftrightarrow> m = Inr y"
  by (cases m) auto

lemma ok_or_Inr_iff [res_simps]: "ok_or e m = Inr y \<longleftrightarrow> m = Some y"
  by (cases m) auto

lemma is_ok_iff [res_simps]: "is_ok m \<longleftrightarrow> (\<exists>x. m = Inr x)"
  by (cases m) auto

text \<open>A loop over a list that stops at the first error (\<open>collect::<Result<Vec<_>>>()\<close>).\<close>

fun map_res :: "('a \<Rightarrow> 'e + 'b) \<Rightarrow> 'a list \<Rightarrow> 'e + 'b list" where
  "map_res f [] = Inr []"
| "map_res f (x # xs) = bind_res (f x) (\<lambda>y. bind_res (map_res f xs) (\<lambda>ys. Inr (y # ys)))"

lemma map_res_Inr_iff [res_simps]:
  "map_res f xs = Inr ys \<longleftrightarrow> list_all2 (\<lambda>x y. f x = Inr y) xs ys"
proof (induction xs arbitrary: ys)
  case (Cons x xs)
  then show ?case by (cases ys) (auto simp: bind_res_Inr_iff)
qed auto

lemma map_res_all_ok: "(\<And>x. x \<in> set xs \<Longrightarrow> f x = Inr (g x)) \<Longrightarrow> map_res f xs = Inr (map g xs)"
  by (induction xs) auto

fun fold_res :: "('a \<Rightarrow> 's \<Rightarrow> 'e + 's) \<Rightarrow> 'a list \<Rightarrow> 's \<Rightarrow> 'e + 's" where
  "fold_res f [] s = Inr s"
| "fold_res f (x # xs) s = bind_res (f x s) (fold_res f xs)"

lemma fold_res_append:
  "fold_res f (xs @ ys) s = bind_res (fold_res f xs s) (fold_res f ys)"
proof (induction xs arbitrary: s)
  case (Cons x xs)
  then show ?case by (cases "f x s") auto
qed simp

text \<open>An invariant of the loop body is an invariant of the loop.\<close>

lemma fold_res_invariant:
  assumes "fold_res f xs s = Inr t" and "P s"
    and "\<And>x s s'. x \<in> set xs \<Longrightarrow> P s \<Longrightarrow> f x s = Inr s' \<Longrightarrow> P s'"
  shows "P t"
  using assms
proof (induction xs arbitrary: s)
  case (Cons x xs)
  from Cons.prems(1) obtain s' where "f x s = Inr s'" and "fold_res f xs s' = Inr t"
    by (auto simp: bind_res_Inr_iff)
  with Cons show ?case by auto
qed simp


subsection \<open>Fallible state changes\<close>

text \<open>
  An asynchronous operation on shared storage returns its result and the storage it leaves behind,
  also when it fails. \<open>bind_st\<close> runs the rest only after success and keeps the storage of a
  failure; \<open>for_st\<close> is a \<open>for\<close> loop whose body ends in a question mark.
\<close>

type_synonym ('s, 'e, 'a) st = "'s \<Rightarrow> ('e + 'a) \<times> 's"

definition ret_st :: "'a \<Rightarrow> ('s, 'e, 'a) st" where
  "ret_st a s = (Inr a, s)"

definition lift_st :: "'e + 'a \<Rightarrow> ('s, 'e, 'a) st" where
  "lift_st r s = (r, s)"

definition bind_st :: "('s, 'e, 'a) st \<Rightarrow> ('a \<Rightarrow> ('s, 'e, 'b) st) \<Rightarrow> ('s, 'e, 'b) st" where
  "bind_st m f s = (case m s of (Inl e, s') \<Rightarrow> (Inl e, s') | (Inr a, s') \<Rightarrow> f a s')"

fun for_st :: "('x \<Rightarrow> ('s, 'e, unit) st) \<Rightarrow> 'x list \<Rightarrow> ('s, 'e, unit) st" where
  "for_st f [] s = (Inr (), s)"
| "for_st f (x # xs) s = (case f x s of (Inl e, s') \<Rightarrow> (Inl e, s') | (Inr _, s') \<Rightarrow> for_st f xs s')"

lemma bind_st_Inr_iff [res_simps]:
  "bind_st m f s = (Inr b, s'') \<longleftrightarrow> (\<exists>a s'. m s = (Inr a, s') \<and> f a s' = (Inr b, s''))"
  by (auto simp: bind_st_def split: prod.splits sum.splits)

lemma ret_st_iff [res_simps]: "ret_st a s = (r, s') \<longleftrightarrow> r = Inr a \<and> s' = s"
  by (auto simp: ret_st_def)

lemma lift_st_iff [res_simps]: "lift_st r s = (r', s') \<longleftrightarrow> r = r' \<and> s' = s"
  by (auto simp: lift_st_def)

lemma snd_lift_st [simp]: "snd (lift_st r s) = s"
  by (simp add: lift_st_def)

lemma snd_ret_st [simp]: "snd (ret_st a s) = s"
  by (simp add: ret_st_def)

text \<open>What every step keeps, the whole run keeps, whether it succeeds or fails.\<close>

lemma bind_st_keeps:
  "P (snd (m s)) \<Longrightarrow> (\<And>a s'. m s = (Inr a, s') \<Longrightarrow> P (snd (f a s'))) \<Longrightarrow> P (snd (bind_st m f s))"
  by (auto simp: bind_st_def split: prod.splits sum.splits)

lemma for_st_keeps:
  "(\<And>x s. x \<in> set xs \<Longrightarrow> P s \<Longrightarrow> P (snd (f x s))) \<Longrightarrow> P s \<Longrightarrow> P (snd (for_st f xs s))"
proof (induction xs arbitrary: s)
  case (Cons x xs)
  have "P (snd (f x s))" using Cons.prems by simp
  then show ?case
    using Cons.IH Cons.prems by (cases "f x s"; cases "fst (f x s)") auto
qed simp


subsection \<open>Key-value stores\<close>

text \<open>
  The contract of a store that is written through fallible operations: a write that succeeds is
  read back, and no write changes what is read under another key. \<open>put_all\<close> facts are what the
  writers of whole trees rely on.
\<close>

locale object_kv =
  fixes valid :: "'k \<Rightarrow> bool"
    and get :: "'s \<Rightarrow> 'k \<Rightarrow> 'v option"
    and put :: "'k \<Rightarrow> 'v \<Rightarrow> ('s, 'e, unit) st"
  assumes put_same: "valid k \<Longrightarrow> put k v s = (Inr (), s') \<Longrightarrow> get s' k = Some v"
    and put_other: "valid k \<Longrightarrow> valid k' \<Longrightarrow> k' \<noteq> k \<Longrightarrow> get (snd (put k v s)) k' = get s k'"
begin

lemma put_all_other:
  assumes "\<forall>(k, v) \<in> set kvs. valid k" and "valid k'" and "k' \<notin> fst ` set kvs"
  shows "get (snd (for_st (\<lambda>(k, v). put k v) kvs s)) k' = get s k'"
proof (rule for_st_keeps [where P = "\<lambda>t. get t k' = get s k'"])
  fix kv t
  assume "kv \<in> set kvs" and "get t k' = get s k'"
  moreover obtain k v where "kv = (k, v)" by (cases kv)
  ultimately show "get (snd ((case kv of (k, v) \<Rightarrow> put k v) t)) k' = get s k'"
    using assms put_other [of k k' v t] by force
qed simp

lemma put_all_same:
  assumes "\<forall>(k, v) \<in> set kvs. valid k" and "distinct (map fst kvs)"
    and "for_st (\<lambda>(k, v). put k v) kvs s = (Inr (), s')" and "(k, v) \<in> set kvs"
  shows "get s' k = Some v"
  using assms
proof (induction kvs arbitrary: s)
  case (Cons kv kvs)
  obtain k0 v0 where kv: "kv = (k0, v0)" by (cases kv)
  from Cons.prems(3) obtain t where put: "put k0 v0 s = (Inr (), t)"
    and rest: "for_st (\<lambda>(k, v). put k v) kvs t = (Inr (), s')"
    by (auto simp: kv split: prod.splits sum.splits)
  show ?case
  proof (cases "(k, v) = (k0, v0)")
    case True
    then have "get t k = Some v" using put put_same Cons.prems(1) kv by auto
    then show ?thesis
      using put_all_other [of kvs k t] rest Cons.prems(1,2) True kv by auto
  next
    case False
    then show ?thesis using Cons.IH [OF _ _ rest] Cons.prems kv by auto
  qed
qed simp

end


subsection \<open>Lists\<close>

lemma take_Suc_nth: "n < length xs \<Longrightarrow> take (Suc n) xs = take n xs @ [xs ! n]"
  by (rule take_Suc_conv_app_nth)

lemma take_drop_split:
  "k \<le> n \<Longrightarrow> take n (drop a xs) = take k (drop a xs) @ take (n - k) (drop (a + k) xs)"
  by (metis add.commute drop_drop le_add_diff_inverse take_add)

lemma nth_append_left: "i < length xs \<Longrightarrow> (xs @ ys) ! i = xs ! i"
  by (simp add: nth_append)

lemma take_append_left: "n \<le> length xs \<Longrightarrow> take n (xs @ ys) = take n xs"
  by simp


subsection \<open>Bit lengths and powers of two\<close>

text \<open>The number of significant bits; \<open>leading_zeros w n\<close> is Rust's method at width \<open>w\<close>.\<close>

fun bit_len :: "nat \<Rightarrow> nat" where
  "bit_len n = (if n = 0 then 0 else Suc (bit_len (n div 2)))"

declare bit_len.simps [simp del]

definition leading_zeros :: "nat \<Rightarrow> nat \<Rightarrow> nat" where
  "leading_zeros w n = w - bit_len n"

fun trailing_zeros :: "nat \<Rightarrow> nat \<Rightarrow> nat" where
  "trailing_zeros w n =
     (if n = 0 then w else if odd n then 0 else Suc (trailing_zeros w (n div 2)))"

declare trailing_zeros.simps [simp del]

definition is_power_of_two :: "nat \<Rightarrow> bool" where
  "is_power_of_two n \<longleftrightarrow> n = 2 ^ (bit_len n - 1)"

lemma bit_len_0 [simp]: "bit_len 0 = 0"
  by (simp add: bit_len.simps)

lemma bit_len_pos: "0 < n \<Longrightarrow> bit_len n = Suc (bit_len (n div 2))"
  by (subst bit_len.simps) simp

lemma bit_len_eq_0_iff [simp]: "bit_len n = 0 \<longleftrightarrow> n = 0"
  by (subst bit_len.simps) simp

lemma bit_len_upper: "n < 2 ^ bit_len n"
proof (induction n rule: bit_len.induct)
  case (1 n)
  then show ?case by (cases "n = 0") (auto simp: bit_len_pos)
qed

lemma bit_len_lower: "0 < n \<Longrightarrow> 2 ^ (bit_len n - 1) \<le> n"
proof (induction n rule: bit_len.induct)
  case (1 n)
  show ?case
  proof (cases "n div 2 = 0")
    case True
    with "1.prems" have "n = 1" by auto
    then show ?thesis by (simp add: bit_len.simps)
  next
    case False
    with "1" have "2 ^ (bit_len (n div 2) - 1) \<le> n div 2" by auto
    moreover obtain b where "bit_len (n div 2) = Suc b"
      using False by (metis bit_len_eq_0_iff not0_implies_Suc)
    ultimately show ?thesis using "1.prems" by (auto simp: bit_len_pos)
  qed
qed

lemma bit_len_unique:
  assumes "2 ^ k \<le> n" and "n < 2 ^ Suc k"
  shows "bit_len n = Suc k"
proof -
  have "0 < n" using assms(1) by (metis gr0I le_zero_eq power_not_zero zero_neq_numeral)
  then have lo: "2 ^ (bit_len n - 1) \<le> n" and hi: "n < 2 ^ bit_len n"
    using bit_len_lower bit_len_upper by auto
  have "(2::nat) ^ k < 2 ^ bit_len n" using assms(1) hi by linarith
  then have "k < bit_len n" by (rule power_less_imp_less_exp [rotated]) simp
  moreover have "(2::nat) ^ (bit_len n - 1) < 2 ^ Suc k" using assms(2) lo by linarith
  then have "bit_len n - 1 < Suc k" by (rule power_less_imp_less_exp [rotated]) simp
  ultimately show ?thesis by simp
qed

lemma bit_len_power [pow2_simps]: "bit_len (2 ^ k) = Suc k"
  by (rule bit_len_unique) auto

lemma bit_len_le: "n < 2 ^ w \<Longrightarrow> bit_len n \<le> w"
proof (cases "n = 0")
  case False
  assume "n < 2 ^ w"
  with bit_len_lower [of n] False have "(2::nat) ^ (bit_len n - 1) < 2 ^ w" by linarith
  then have "bit_len n - 1 < w" by (rule power_less_imp_less_exp [rotated]) simp
  then show ?thesis by simp
qed simp

lemma is_power_of_two_iff: "is_power_of_two n \<longleftrightarrow> (\<exists>k. n = 2 ^ k)"
  unfolding is_power_of_two_def by (auto simp: bit_len_power)

lemma is_power_of_two_power [pow2_simps]: "is_power_of_two (2 ^ k)"
  by (auto simp: is_power_of_two_iff)

lemma trailing_zeros_power [pow2_simps]: "trailing_zeros w (2 ^ k) = k"
proof (induction k)
  case 0
  show ?case by (subst trailing_zeros.simps) simp
next
  case (Suc k)
  then show ?case by (subst trailing_zeros.simps) simp
qed


subsection \<open>Byte codecs\<close>

text \<open>\<open>to_be_bytes\<close>, \<open>from_be_bytes\<close> and their little-endian variants, at a width in bytes.\<close>

fun be_bytes :: "nat \<Rightarrow> nat \<Rightarrow> byte list" where
  "be_bytes 0 x = []"
| "be_bytes (Suc n) x = be_bytes n (x div 256) @ [word_of_nat (x mod 256)]"

definition be_nat :: "byte list \<Rightarrow> nat" where
  "be_nat bs = foldl (\<lambda>a b. a * 256 + unat b) 0 bs"

definition le_bytes :: "nat \<Rightarrow> nat \<Rightarrow> byte list" where
  "le_bytes n x = rev (be_bytes n x)"

definition le_nat :: "byte list \<Rightarrow> nat" where
  "le_nat bs = be_nat (rev bs)"

lemma length_be_bytes [simp, codec_simps]: "length (be_bytes n x) = n"
  by (induction n arbitrary: x) auto

lemma length_le_bytes [simp, codec_simps]: "length (le_bytes n x) = n"
  by (simp add: le_bytes_def)

lemma be_nat_Nil [simp]: "be_nat [] = 0"
  by (simp add: be_nat_def)

lemma be_nat_snoc [simp]: "be_nat (bs @ [b]) = be_nat bs * 256 + unat b"
  by (simp add: be_nat_def)

lemma be_nat_be_bytes: "be_nat (be_bytes n x) = x mod 256 ^ n"
proof (induction n arbitrary: x)
  case (Suc n)
  have "unat (word_of_nat (x mod 256) :: byte) = x mod 256"
    by (simp add: unat_of_nat)
  with Suc have "be_nat (be_bytes (Suc n) x) = ((x div 256) mod 256 ^ n) * 256 + x mod 256"
    by simp
  also have "\<dots> = x mod 256 ^ Suc n"
    by (simp add: mod_mult2_eq mult.commute)
  finally show ?case .
qed simp

lemma unat_byte: "unat (b :: byte) < 256"
  using unsigned_less [of b, where ?'a = nat] by simp

lemma be_nat_bound: "be_nat bs < 256 ^ length bs"
proof (induction bs rule: rev_induct)
  case (snoc b bs)
  have "unat b < 256" by (rule unat_byte)
  moreover have "be_nat bs + 1 \<le> 256 ^ length bs" using snoc by simp
  then have "(be_nat bs + 1) * 256 \<le> 256 ^ length bs * 256" by simp
  ultimately show ?case by simp
qed simp

lemma be_bytes_be_nat [codec_simps]: "be_bytes (length bs) (be_nat bs) = bs"
proof (induction bs rule: rev_induct)
  case (snoc b bs)
  have "unat b < 256" by (rule unat_byte)
  then have "(be_nat bs * 256 + unat b) div 256 = be_nat bs"
    and "(be_nat bs * 256 + unat b) mod 256 = unat b" by auto
  with snoc show ?case by simp
qed simp

lemma be_nat_inj: "length as = length bs \<Longrightarrow> be_nat as = be_nat bs \<Longrightarrow> as = bs"
  by (metis be_bytes_be_nat)

lemma be_nat_be_bytes_small [codec_simps]: "x < 256 ^ n \<Longrightarrow> be_nat (be_bytes n x) = x"
  by (simp add: be_nat_be_bytes)

lemma le_nat_le_bytes_small [codec_simps]: "x < 256 ^ n \<Longrightarrow> le_nat (le_bytes n x) = x"
  by (simp add: le_nat_def le_bytes_def be_nat_be_bytes)

lemma le_bytes_le_nat [codec_simps]: "le_bytes (length bs) (le_nat bs) = bs"
  using be_bytes_be_nat [of "rev bs"] by (simp add: le_nat_def le_bytes_def)


subsection \<open>Decimal text\<close>

definition is_digit :: "char \<Rightarrow> bool" where
  "is_digit c \<longleftrightarrow> 48 \<le> (of_char c :: nat) \<and> (of_char c :: nat) \<le> 57"

definition digit_val :: "char \<Rightarrow> nat" where
  "digit_val c = of_char c - 48"

definition digit_char :: "nat \<Rightarrow> char" where
  "digit_char d = char_of (48 + d)"

text \<open>\<open>to_string\<close> of an unsigned integer.\<close>

fun dec :: "nat \<Rightarrow> string" where
  "dec n = (if n < 10 then [digit_char n] else dec (n div 10) @ [digit_char (n mod 10)])"

declare dec.simps [simp del]

definition dec_val :: "string \<Rightarrow> nat" where
  "dec_val s = foldl (\<lambda>a c. a * 10 + digit_val c) 0 s"

text \<open>\<open>str::parse::<u64>\<close>: an optional plus sign, at least one digit, no overflow.\<close>

definition parse_u64 :: "string \<Rightarrow> nat option" where
  "parse_u64 s =
     (let t = (case s of c # cs \<Rightarrow> if c = CHR ''+'' then cs else s | [] \<Rightarrow> s)
      in if t = [] \<or> \<not> list_all is_digit t then None
         else if dec_val t \<le> u64_max then Some (dec_val t) else None)"

lemma digit_char_facts:
  assumes "d < 10"
  shows "is_digit (digit_char d)" and "digit_val (digit_char d) = d"
proof -
  have "(of_char (char_of (48 + d) :: char) :: nat) = 48 + d"
    using assms by (simp add: of_char_of)
  with assms show "is_digit (digit_char d)" and "digit_val (digit_char d) = d"
    by (simp_all add: is_digit_def digit_val_def digit_char_def)
qed

lemma dec_val_Nil [simp]: "dec_val [] = 0"
  by (simp add: dec_val_def)

lemma dec_val_snoc [simp]: "dec_val (s @ [c]) = dec_val s * 10 + digit_val c"
  by (simp add: dec_val_def)

lemma dec_val_Cons_zero: "dec_val (CHR ''0'' # s) = dec_val s"
  by (simp add: dec_val_def digit_val_def)

lemma dec_val_replicate_zero: "dec_val (replicate k (CHR ''0'') @ s) = dec_val s"
  by (induction k) (auto simp: dec_val_Cons_zero)

lemma dec_not_Nil [simp]: "dec n \<noteq> []"
  by (subst dec.simps) simp

lemma dec_val_dec [simp]: "dec_val (dec n) = n"
proof (induction n rule: dec.induct)
  case (1 n)
  show ?case
  proof (cases "n < 10")
    case True
    then show ?thesis
      using dec_val_snoc [of "[]" "digit_char n"]
      by (subst dec.simps) (simp add: digit_char_facts)
  next
    case False
    with "1" have "dec_val (dec (n div 10)) = n div 10" by simp
    with False show ?thesis
      by (subst dec.simps) (simp add: digit_char_facts)
  qed
qed

lemma dec_digits: "list_all is_digit (dec n)"
proof (induction n rule: dec.induct)
  case (1 n)
  then show ?case
    by (subst dec.simps) (auto simp: digit_char_facts)
qed

lemma dec_inj: "dec m = dec n \<longleftrightarrow> m = n"
  by (metis dec_val_dec)

lemma digit_not_plus: "is_digit c \<Longrightarrow> c \<noteq> CHR ''+''"
  by (auto simp: is_digit_def)

lemma parse_u64_digits:
  assumes "s \<noteq> []" and "list_all is_digit s"
  shows "parse_u64 s = (if dec_val s \<le> u64_max then Some (dec_val s) else None)"
proof -
  obtain c cs where "s = c # cs" and "c \<noteq> CHR ''+''"
    using assms by (cases s) (auto dest: digit_not_plus)
  with assms show ?thesis by (simp add: parse_u64_def)
qed

lemma parse_u64_dec [simp]: "n \<le> u64_max \<Longrightarrow> parse_u64 (dec n) = Some n"
  by (simp add: parse_u64_digits dec_digits)

lemma parse_u64_bound: "parse_u64 s = Some n \<Longrightarrow> n \<le> u64_max"
  by (auto simp: parse_u64_def Let_def split: if_splits list.splits)

lemma dec_length_bound: "n < 10 ^ k \<Longrightarrow> 0 < k \<Longrightarrow> length (dec n) \<le> k"
proof (induction n arbitrary: k rule: dec.induct)
  case (1 n)
  show ?case
  proof (cases "n < 10")
    case True
    with "1.prems" show ?thesis by (subst dec.simps) simp
  next
    case False
    with "1.prems" obtain j where k: "k = Suc j" and "0 < j"
      by (cases k; cases "k - 1") auto
    moreover have "n div 10 < 10 ^ j"
      using "1.prems" k by (simp add: less_mult_imp_div_less mult.commute)
    ultimately show ?thesis
      using "1.IH" False by (subst dec.simps) simp
  qed
qed

end
