(* ===== verification/Types_Paths.thy ===== *)
theory Types_Paths
  imports Siglog_Prelude
begin

text \<open>
  The domain types of \<^verbatim>\<open>src/types.rs\<close>, the error type of \<^verbatim>\<open>src/error.rs\<close> and the tlog-tiles path
  layout of \<^verbatim>\<open>src/api/paths.rs\<close>: printing and parsing of tile paths, the size of a partial tile,
  and the bundle a log index lives in. The text an error carries is for display only and is left
  out; \<open>Panic\<close> is not a variant of the Rust type but stands for an abort of the operation
  (arithmetic overflow, a failed assertion, an index out of range).
\<close>


subsection \<open>Errors and their HTTP status\<close>

datatype error =
    Database | Storage | InvalidPath | NotFound | InvalidEntry | Signing | Merkle | Config
  | Io | Base64 | Internal | IndexFull | Unauthorized | Duplicate nat | Panic

type_synonym 'a res = "error + 'a"

datatype response_body = ErrorText error | InternalServerError

fun into_response :: "error \<Rightarrow> nat \<times> response_body" where
  "into_response NotFound = (404, ErrorText NotFound)"
| "into_response Unauthorized = (401, ErrorText Unauthorized)"
| "into_response (Duplicate i) = (409, ErrorText (Duplicate i))"
| "into_response InvalidPath = (400, ErrorText InvalidPath)"
| "into_response InvalidEntry = (400, ErrorText InvalidEntry)"
| "into_response IndexFull = (503, ErrorText IndexFull)"
| "into_response e = (500, InternalServerError)"


text \<open>
  A call to the database over the network: it runs, it fails before it changes anything, or it runs
  and its answer is lost, so that the caller sees an error although the change is committed.
\<close>

datatype call_outcome = Call_Ok | Call_Failed | Call_Lost

definition fallible :: "call_outcome \<Rightarrow> ('s, error, 'a) st \<Rightarrow> ('s, error, 'a) st" where
  "fallible out m s =
     (case out of Call_Ok \<Rightarrow> m s | Call_Failed \<Rightarrow> (Inl Database, s) | Call_Lost \<Rightarrow> (Inl Database, snd (m s)))"


subsection \<open>Hashes, entries, indices and tile coordinates\<close>

text \<open>A SHA-256 digest is 32 bytes, read as a big-endian 256-bit word.\<close>

type_synonym sha256_hash = "256 word"

definition hash_bytes :: "sha256_hash \<Rightarrow> byte list" where
  "hash_bytes h = be_bytes 32 (unat h)"

definition hash_from_bytes :: "byte list \<Rightarrow> sha256_hash" where
  "hash_from_bytes bs = word_of_nat (be_nat bs)"

text \<open>\<open>Sha256Hash::try_from_slice\<close> accepts exactly 32 bytes.\<close>

definition try_from_slice :: "byte list \<Rightarrow> sha256_hash option" where
  "try_from_slice bs = (if length bs = 32 then Some (hash_from_bytes bs) else None)"

text \<open>The root of the empty tree, SHA-256 of the empty string.\<close>

definition empty_root_hash :: sha256_hash where
  "empty_root_hash =
     0xe3b0c44298fc1c149afbf4c8996fb92427ae41e4649b934ca495991b7852b855"

record entry =
  entry_data :: "byte list"
  entry_leaf_hash :: sha256_hash

text \<open>\<open>Entry::new\<close>; the leaf hash function of \<open>sigstore_merkle\<close> is a parameter.\<close>

definition new_entry :: "(byte list \<Rightarrow> sha256_hash) \<Rightarrow> byte list \<Rightarrow> entry" where
  "new_entry hash_leaf d = \<lparr>entry_data = d, entry_leaf_hash = hash_leaf d\<rparr>"

record sequenced_entry =
  seq_index :: nat
  seq_entry :: entry

definition bundle_index :: "nat \<Rightarrow> nat" where
  "bundle_index idx = idx div 256"

definition bundle_offset :: "nat \<Rightarrow> nat" where
  "bundle_offset idx = idx mod 256"

definition tile_level_new :: "nat \<Rightarrow> nat res" where
  "tile_level_new level = (if level \<le> 63 then Inr level else Inl Panic)"

record tile_id =
  tile_level :: nat
  tile_index :: nat

definition partial_is_full :: "nat \<Rightarrow> bool" where
  "partial_is_full p \<longleftrightarrow> p = 0"

lemma length_hash_bytes [simp]: "length (hash_bytes h) = 32"
  by (simp add: hash_bytes_def)

lemma hash_from_bytes_hash_bytes [simp, codec_simps]: "hash_from_bytes (hash_bytes h) = h"
proof -
  have "unat h < 2 ^ 256" using unsigned_less [of h, where ?'a = nat] by simp
  moreover have "(2::nat) ^ 256 = 256 ^ 32" by simp
  ultimately have "be_nat (be_bytes 32 (unat h)) = unat h"
    by (intro be_nat_be_bytes_small) linarith
  then show ?thesis by (simp add: hash_from_bytes_def hash_bytes_def)
qed

lemma hash_bytes_hash_from_bytes [codec_simps]:
  assumes "length bs = 32"
  shows "hash_bytes (hash_from_bytes bs) = bs"
proof -
  have "be_nat bs < 256 ^ 32" using be_nat_bound [of bs] assms by simp
  then have "unat (word_of_nat (be_nat bs) :: sha256_hash) = be_nat bs"
    by (simp add: unat_of_nat)
  with assms be_bytes_be_nat [of bs] show ?thesis
    by (simp add: hash_from_bytes_def hash_bytes_def)
qed

lemma hash_bytes_inj: "hash_bytes a = hash_bytes b \<longleftrightarrow> a = b"
  by (metis hash_from_bytes_hash_bytes)

lemma try_from_slice_hash_bytes [simp, codec_simps]: "try_from_slice (hash_bytes h) = Some h"
  by (simp add: try_from_slice_def)

lemma bundle_index_offset: "256 * bundle_index idx + bundle_offset idx = idx"
  by (simp add: bundle_index_def bundle_offset_def)


subsection \<open>Path constants and the N format\<close>

definition CHECKPOINT_PATH :: string where "CHECKPOINT_PATH = ''checkpoint''"

definition TILE_HEIGHT :: nat where "TILE_HEIGHT = 8"

definition TILE_WIDTH :: nat where "TILE_WIDTH = 256"

definition ENTRY_BUNDLE_WIDTH :: nat where "ENTRY_BUNDLE_WIDTH = TILE_WIDTH"

text \<open>\<open>format!("{:03}", n)\<close>.\<close>

definition pad3 :: "nat \<Rightarrow> string" where
  "pad3 n = replicate (3 - length (dec n)) (CHR ''0'') @ dec n"

fun format_n_loop :: "nat \<Rightarrow> string \<Rightarrow> string" where
  "format_n_loop n result =
     (if 0 < n
      then format_n_loop (n div 1000) (''x'' @ pad3 (n mod 1000) @ ''/'' @ result)
      else result)"

declare format_n_loop.simps [simp del]

definition format_n :: "nat \<Rightarrow> string" where
  "format_n n = format_n_loop (n div 1000) (pad3 (n mod 1000))"

definition format_n_with_suffix :: "nat \<Rightarrow> nat \<Rightarrow> string" where
  "format_n_with_suffix n partial =
     (if 0 < partial then format_n n @ ''.p/'' @ dec partial else format_n n)"

definition tile_path :: "nat \<Rightarrow> nat \<Rightarrow> nat \<Rightarrow> string" where
  "tile_path level index partial =
     ''tile/'' @ dec level @ ''/'' @ format_n_with_suffix index partial"

definition entries_path :: "nat \<Rightarrow> nat \<Rightarrow> string" where
  "entries_path index partial = ''tile/entries/'' @ format_n_with_suffix index partial"

text \<open>\<open>level.saturating_mul(TILE_HEIGHT)\<close> stops at the largest \<open>u64\<close>.\<close>

definition partial_tile_size :: "nat \<Rightarrow> nat \<Rightarrow> nat \<Rightarrow> nat" where
  "partial_tile_size level index log_size =
     (let shift = min (level * TILE_HEIGHT) u64_max
      in if 64 \<le> shift then 0
         else let size_at_level = log_size div 2 ^ shift;
                  full_tiles = size_at_level div TILE_WIDTH
              in if index < full_tiles then 0 else size_at_level mod TILE_WIDTH)"

definition entries_path_for_log_index :: "nat \<Rightarrow> nat \<Rightarrow> string" where
  "entries_path_for_log_index seq log_size =
     (let bundle = seq div ENTRY_BUNDLE_WIDTH
      in entries_path bundle (partial_tile_size 0 bundle log_size))"


subsection \<open>Parsing\<close>

definition parse_tile_level :: "string \<Rightarrow> nat res" where
  "parse_tile_level level =
     (if level = [] \<or> \<not> list_all is_digit level then Inl InvalidPath
      else case parse_u64 level of
             None \<Rightarrow> Inl InvalidPath
           | Some l \<Rightarrow> if 63 < l then Inl InvalidPath else Inr l)"

text \<open>\<open>str::find\<close> of a pattern and \<open>str::split\<close> at a character.\<close>

fun starts_with :: "string \<Rightarrow> string \<Rightarrow> bool" where
  "starts_with [] s = True"
| "starts_with (p # ps) [] = False"
| "starts_with (p # ps) (c # cs) = (p = c \<and> starts_with ps cs)"

fun find_sub :: "string \<Rightarrow> string \<Rightarrow> nat option" where
  "find_sub pat [] = (if pat = [] then Some 0 else None)"
| "find_sub pat (c # cs) =
     (if starts_with pat (c # cs) then Some 0 else map_option Suc (find_sub pat cs))"

fun split_on :: "char \<Rightarrow> string \<Rightarrow> string list" where
  "split_on sep [] = [[]]"
| "split_on sep (c # cs) =
     (if c = sep then [] # split_on sep cs
      else case split_on sep cs of [] \<Rightarrow> [[c]] | p # ps \<Rightarrow> (c # p) # ps)"

fun x_prefix_ok :: "string list \<Rightarrow> bool" where
  "x_prefix_ok [] = True"
| "x_prefix_ok [part] = (\<not> starts_with ''x'' part)"
| "x_prefix_ok (part # parts) = (starts_with ''x'' part \<and> x_prefix_ok parts)"

definition strip_x :: "string \<Rightarrow> string" where
  "strip_x part = (if starts_with ''x'' part then tl part else part)"

fun parse_parts :: "string list \<Rightarrow> nat \<Rightarrow> nat res" where
  "parse_parts [] index = Inr index"
| "parse_parts (part # parts) index =
     (let digits = strip_x part
      in if length digits \<noteq> 3 \<or> \<not> list_all is_digit digits then Inl InvalidPath
         else case parse_u64 digits of
                None \<Rightarrow> Inl InvalidPath
              | Some n \<Rightarrow>
                  if 1000 \<le> n then Inl InvalidPath
                  else if (u64_max - n) div 1000 < index then Inl InvalidPath
                  else parse_parts parts (index * 1000 + n))"

definition parse_partial :: "string \<Rightarrow> nat res" where
  "parse_partial partial_str =
     (if partial_str = [] \<or> \<not> list_all is_digit partial_str then Inl InvalidPath
      else case parse_u64 partial_str of
             None \<Rightarrow> Inl InvalidPath
           | Some p \<Rightarrow> if 1 \<le> p \<and> p < TILE_WIDTH then Inr p else Inl InvalidPath)"

definition parse_tile_index :: "string \<Rightarrow> (nat \<times> nat) res" where
  "parse_tile_index index_str =
     bind_res
       (case find_sub ''.p/'' index_str of
          Some pos \<Rightarrow>
            bind_res (parse_partial (drop (pos + 3) index_str))
              (\<lambda>p. Inr (take pos index_str, p))
        | None \<Rightarrow> Inr (index_str, 0))
       (\<lambda>(index_part, partial).
          let parts = split_on (CHR ''/'') index_part
          in if \<not> x_prefix_ok parts then Inl InvalidPath
             else bind_res (parse_parts parts 0) (\<lambda>index. Inr (index, partial)))"

definition parse_tile_path :: "string \<Rightarrow> string \<Rightarrow> (nat \<times> nat \<times> nat) res" where
  "parse_tile_path level index =
     bind_res (parse_tile_level level)
       (\<lambda>l. bind_res (parse_tile_index index) (\<lambda>(i, p). Inr (l, i, p)))"


subsection \<open>Lemmas on text\<close>

lemma digit_chars: "is_digit c \<Longrightarrow> c \<noteq> CHR ''/'' \<and> c \<noteq> CHR ''.'' \<and> c \<noteq> CHR ''x''"
  by (auto simp: is_digit_def)

lemma list_all_digit_chars:
  "list_all is_digit s \<Longrightarrow> CHR ''/'' \<notin> set s \<and> CHR ''.'' \<notin> set s \<and> CHR ''x'' \<notin> set s"
  by (auto simp: list_all_iff dest: digit_chars)

lemma split_on_not_Nil [simp]: "split_on c s \<noteq> []"
  by (induction s) (auto split: list.splits)

lemma split_on_single: "c \<notin> set s \<Longrightarrow> split_on c s = [s]"
  by (induction s) auto

lemma split_on_append: "c \<notin> set a \<Longrightarrow> split_on c (a @ c # b) = a # split_on c b"
  by (induction a) auto

lemma find_sub_None: "p \<notin> set s \<Longrightarrow> find_sub (p # ps) s = None"
  by (induction s) auto

lemma starts_with_append [simp]: "starts_with p (p @ s)"
  by (induction p) auto

lemma find_sub_append:
  "p \<notin> set a \<Longrightarrow> find_sub (p # ps) (a @ p # ps @ b) = Some (length a)"
proof (induction a)
  case Nil
  show ?case using starts_with_append [of "p # ps" b] by simp
qed auto

lemma find_sub_partial:
  "CHR ''.'' \<notin> set a \<Longrightarrow> find_sub ''.p/'' (a @ ''.p/'' @ b) = Some (length a)"
  using find_sub_append [of "CHR ''.''" a "''p/''" b] by simp

lemma pad3_facts:
  assumes "n < 1000"
  shows "length (pad3 n) = 3" and "list_all is_digit (pad3 n)" and "dec_val (pad3 n) = n"
proof -
  have "length (dec n) \<le> 3" using dec_length_bound [of n 3] assms by simp
  then show "length (pad3 n) = 3" by (simp add: pad3_def)
  show "list_all is_digit (pad3 n)"
    using dec_digits [of n] by (auto simp: pad3_def list_all_iff is_digit_def)
  show "dec_val (pad3 n) = n" by (simp add: pad3_def dec_val_replicate_zero)
qed

lemma strip_x_x: "strip_x (CHR ''x'' # s) = s"
  by (simp add: strip_x_def)

lemma strip_x_digits: "list_all is_digit s \<Longrightarrow> strip_x s = s"
  by (cases s) (auto simp: strip_x_def dest: digit_chars)

text \<open>The groups of three digits above the last one, most significant first.\<close>

fun x_groups :: "nat \<Rightarrow> string list" where
  "x_groups n = (if 0 < n then x_groups (n div 1000) @ [''x'' @ pad3 (n mod 1000)] else [])"

declare x_groups.simps [simp del]

lemma x_groups_no_slash: "g \<in> set (x_groups n) \<Longrightarrow> CHR ''/'' \<notin> set g \<and> CHR ''.'' \<notin> set g"
proof (induction n rule: x_groups.induct)
  case (1 n)
  have "CHR ''/'' \<notin> set (''x'' @ pad3 (n mod 1000)) \<and> CHR ''.'' \<notin> set (''x'' @ pad3 (n mod 1000))"
    using list_all_digit_chars [OF pad3_facts(2), of "n mod 1000"] by simp
  with "1" show ?case by (subst (asm) x_groups.simps) (auto split: if_splits)
qed

lemma split_format_n_loop:
  "split_on (CHR ''/'') (format_n_loop n r) = x_groups n @ split_on (CHR ''/'') r"
proof (induction n r rule: format_n_loop.induct)
  case (1 n r)
  let ?g = "''x'' @ pad3 (n mod 1000)"
  have "split_on (CHR ''/'') (?g @ CHR ''/'' # r) = ?g # split_on (CHR ''/'') r"
    using list_all_digit_chars [OF pad3_facts(2), of "n mod 1000"]
    by (intro split_on_append) simp
  with "1" show ?case
    by (subst format_n_loop.simps, subst x_groups.simps) simp
qed

lemma format_n_loop_no_dot: "CHR ''.'' \<notin> set r \<Longrightarrow> CHR ''.'' \<notin> set (format_n_loop n r)"
proof (induction n r rule: format_n_loop.induct)
  case (1 n r)
  then show ?case
    using list_all_digit_chars [OF pad3_facts(2), of "n mod 1000"]
    by (subst format_n_loop.simps) auto
qed

lemma format_n_no_dot: "CHR ''.'' \<notin> set (format_n n)"
  using format_n_loop_no_dot list_all_digit_chars [OF pad3_facts(2), of "n mod 1000"]
  by (simp add: format_n_def)

lemma split_format_n:
  "split_on (CHR ''/'') (format_n n) = x_groups (n div 1000) @ [pad3 (n mod 1000)]"
  using list_all_digit_chars [OF pad3_facts(2), of "n mod 1000"]
  by (simp add: format_n_def split_format_n_loop split_on_single)

lemma x_prefix_ok_snoc:
  "x_prefix_ok (gs @ [g]) \<longleftrightarrow> list_all (starts_with ''x'') gs \<and> \<not> starts_with ''x'' g"
proof (induction gs)
  case (Cons a gs)
  then show ?case by (cases gs) auto
qed simp

lemma x_groups_starts: "list_all (starts_with ''x'') (x_groups n)"
proof (induction n rule: x_groups.induct)
  case (1 n)
  then show ?case by (subst x_groups.simps) simp
qed

lemma starts_x_iff: "starts_with ''x'' s \<longleftrightarrow> (\<exists>t. s = CHR ''x'' # t)"
  by (cases s) auto

lemma format_n_x_prefix_ok: "x_prefix_ok (split_on (CHR ''/'') (format_n n))"
proof -
  have "\<not> starts_with ''x'' (pad3 (n mod 1000))"
    using list_all_digit_chars [OF pad3_facts(2), of "n mod 1000"] by (auto simp: starts_x_iff)
  then show ?thesis by (simp add: split_format_n x_prefix_ok_snoc x_groups_starts)
qed

lemma parse_parts_group:
  assumes "g < 1000" and "i * 1000 + g \<le> u64_max"
    and "part = ''x'' @ pad3 g \<or> part = pad3 g"
  shows "parse_parts (part # parts) i = parse_parts parts (i * 1000 + g)"
proof -
  have "strip_x part = pad3 g"
    using assms(3) pad3_facts(2) [OF assms(1)] by (auto simp: strip_x_x strip_x_digits)
  moreover have "pad3 g \<noteq> []" using pad3_facts(1) [OF assms(1)] by auto
  moreover have "\<not> (u64_max - g) div 1000 < i"
  proof -
    have "i * 1000 \<le> u64_max - g" using assms(2) by linarith
    then have "i * 1000 div 1000 \<le> (u64_max - g) div 1000" by (rule div_le_mono)
    then show ?thesis by simp
  qed
  ultimately show ?thesis
    using assms(1) pad3_facts [OF assms(1)] by (simp add: parse_u64_digits)
qed

lemma parse_parts_x_groups:
  "n \<le> u64_max \<Longrightarrow> parse_parts (x_groups n @ ps) 0 = parse_parts ps n"
proof (induction n arbitrary: ps rule: x_groups.induct)
  case (1 n)
  show ?case
  proof (cases "0 < n")
    case True
    have "parse_parts (x_groups n @ ps) 0
        = parse_parts (x_groups (n div 1000) @ (''x'' @ pad3 (n mod 1000)) # ps) 0"
      using True by (subst x_groups.simps) simp
    also have "\<dots> = parse_parts ((''x'' @ pad3 (n mod 1000)) # ps) (n div 1000)"
      using "1" True by simp
    also have "\<dots> = parse_parts ps (n div 1000 * 1000 + n mod 1000)"
      using "1.prems" by (intro parse_parts_group) auto
    finally show ?thesis by simp
  next
    case False
    then show ?thesis by (subst x_groups.simps) simp
  qed
qed

lemma parse_parts_format_n:
  assumes "n \<le> u64_max"
  shows "parse_parts (split_on (CHR ''/'') (format_n n)) 0 = Inr n"
proof -
  have "n div 1000 \<le> u64_max" using assms by linarith
  then have "parse_parts (split_on (CHR ''/'') (format_n n)) 0
      = parse_parts [pad3 (n mod 1000)] (n div 1000)"
    by (simp add: split_format_n parse_parts_x_groups)
  also have "\<dots> = parse_parts [] (n div 1000 * 1000 + n mod 1000)"
    using assms by (intro parse_parts_group) auto
  finally show ?thesis by simp
qed

lemma parse_partial_dec: "1 \<le> p \<Longrightarrow> p < 256 \<Longrightarrow> parse_partial (dec p) = Inr p"
  by (simp add: parse_partial_def dec_digits TILE_WIDTH_def)

lemma parse_format_suffix:
  assumes "n \<le> u64_max" and "p < 256"
  shows "parse_tile_index (format_n_with_suffix n p) = Inr (n, p)"
proof (cases "p = 0")
  case True
  then show ?thesis
    using assms format_n_no_dot [of n]
    by (simp add: parse_tile_index_def format_n_with_suffix_def find_sub_None
        format_n_x_prefix_ok parse_parts_format_n)
next
  case False
  then show ?thesis
    using assms find_sub_partial [OF format_n_no_dot, of n "dec p"]
    by (simp add: parse_tile_index_def format_n_with_suffix_def parse_partial_dec
        format_n_x_prefix_ok parse_parts_format_n)
qed

lemma format_suffix_inj:
  assumes "n \<le> u64_max" and "p < 256" and "n' \<le> u64_max" and "p' < 256"
    and "format_n_with_suffix n p = format_n_with_suffix n' p'"
  shows "n = n' \<and> p = p'"
proof -
  have "(Inr (n, p) :: (nat \<times> nat) res) = Inr (n', p')"
    using parse_format_suffix [OF assms(1,2)] unfolding assms(5)
    by (simp only: parse_format_suffix [OF assms(3,4)])
  then show ?thesis by simp
qed

lemma sep_append_inj:
  "c \<notin> set a \<Longrightarrow> c \<notin> set a' \<Longrightarrow> a @ c # b = a' @ c # b' \<Longrightarrow> a = a' \<and> b = b'"
proof (induction a arbitrary: a')
  case Nil
  then show ?case by (cases a') auto
next
  case (Cons x a)
  then show ?case by (cases a') auto
qed

lemma tile_path_inj:
  assumes "i \<le> u64_max" and "p < 256" and "i' \<le> u64_max" and "p' < 256"
  shows "tile_path l i p = tile_path l' i' p' \<longleftrightarrow> l = l' \<and> i = i' \<and> p = p'"
proof
  assume "tile_path l i p = tile_path l' i' p'"
  then have "dec l @ CHR ''/'' # format_n_with_suffix i p
      = dec l' @ CHR ''/'' # format_n_with_suffix i' p'"
    by (simp add: tile_path_def)
  then have "dec l = dec l' \<and> format_n_with_suffix i p = format_n_with_suffix i' p'"
    using list_all_digit_chars [OF dec_digits] by (intro sep_append_inj) auto
  then show "l = l' \<and> i = i' \<and> p = p'"
    using format_suffix_inj [OF assms] by (simp add: dec_inj)
qed simp

lemma entries_path_inj:
  assumes "i \<le> u64_max" and "p < 256" and "i' \<le> u64_max" and "p' < 256"
  shows "entries_path i p = entries_path i' p' \<longleftrightarrow> i = i' \<and> p = p'"
  using format_suffix_inj [OF assms] by (auto simp: entries_path_def)

text \<open>A hash tile and an entry bundle never share an object.\<close>

lemma tile_path_neq_entries_path: "tile_path l i p \<noteq> entries_path j q"
proof
  assume "tile_path l i p = entries_path j q"
  then have "hd (dec l) = CHR ''e''"
    by (cases "dec l") (auto simp: tile_path_def entries_path_def)
  moreover have "is_digit (hd (dec l))"
    using dec_digits [of l] by (cases "dec l") auto
  ultimately show False by (simp add: is_digit_def)
qed

lemma tile_path_neq_checkpoint: "tile_path l i p \<noteq> CHECKPOINT_PATH"
  and entries_path_neq_checkpoint: "entries_path j q \<noteq> CHECKPOINT_PATH"
  by (simp_all add: tile_path_def entries_path_def CHECKPOINT_PATH_def)


subsection \<open>Sizes of partial tiles\<close>

lemma partial_tile_size_less: "partial_tile_size l i n < 256"
  by (simp add: partial_tile_size_def Let_def TILE_WIDTH_def)

lemma pow_256_eq: "(2::nat) ^ (l * 8) = 256 ^ l"
  by (simp add: power_mult mult.commute [of l])

lemma partial_tile_size_eq:
  assumes "l < 8"
  shows "partial_tile_size l i n =
    (if i < n div 256 ^ l div 256 then 0 else n div 256 ^ l mod 256)"
  using assms by (simp add: partial_tile_size_def Let_def TILE_HEIGHT_def TILE_WIDTH_def
      pow_256_eq min_def)

subsection \<open>Properties\<close>

text \<open>
  Round trip of tile paths: the level and the path suffix that \<open>tile_path\<close> prints parse back
  to the same level, index and partial size, for every level a tile can have and every index.
\<close>

lemma parse_tile_path_roundtrip:
  assumes "level \<le> 63" and "index \<le> u64_max" and "partial < 256"
  shows "parse_tile_path (dec level) (format_n_with_suffix index partial) = Inr (level, index, partial)"
  using assms parse_format_suffix [of index partial]
  by (simp add: parse_tile_path_def parse_tile_level_def dec_digits)

text \<open>
  Distinct tiles are stored under distinct paths: \<open>tile_path\<close> is injective in level, index and
  partial size, and no tile shares a path with an entry bundle or with the checkpoint.
\<close>

lemma storage_paths_disjoint:
  assumes "i \<le> u64_max" and "p < 256" and "i' \<le> u64_max" and "p' < 256"
  shows "(tile_path l i p = tile_path l' i' p' \<longleftrightarrow> (l, i, p) = (l', i', p'))
    \<and> (entries_path i p = entries_path i' p' \<longleftrightarrow> (i, p) = (i', p'))
    \<and> tile_path l i p \<noteq> entries_path i' p'
    \<and> tile_path l i p \<noteq> CHECKPOINT_PATH \<and> entries_path i p \<noteq> CHECKPOINT_PATH"
  using tile_path_inj [OF assms] entries_path_inj [OF assms] tile_path_neq_entries_path
    tile_path_neq_checkpoint entries_path_neq_checkpoint by auto

text \<open>
  The parser also accepts spellings that \<open>tile_path\<close> never prints: a level with leading zeros
  and an index with an empty leading group name the same tile as the canonical path.
\<close>

lemma parse_tile_path_aliases:
  "parse_tile_path ''00'' ''x000/001'' = parse_tile_path ''0'' ''001''
    \<and> parse_tile_path ''0'' ''001'' = Inr (0, 1, 0)
    \<and> ''00'' \<noteq> dec 0 \<and> ''x000/001'' \<noteq> format_n_with_suffix 1 0"
proof -
  have "length (dec 0) = 1" and "length (format_n_with_suffix 1 0) = 3"
    by (simp_all add: dec.simps format_n_with_suffix_def format_n_def format_n_loop.simps pad3_def)
  then have "''00'' \<noteq> dec 0 \<and> ''x000/001'' \<noteq> format_n_with_suffix 1 0" by (auto dest: arg_cong [where f = length])
  then show ?thesis
    by (simp add: parse_tile_path_def parse_tile_level_def parse_tile_index_def parse_u64_def is_digit_def
        digit_val_def strip_x_def dec_val_def Let_def)
qed

end
