(* ===== verification/Merkle_Tree.thy ===== *)
theory Merkle_Tree
  imports Types_Paths
begin

text \<open>
  The abstract specification the log is measured against: the Merkle tree hash of RFC 6962 over a
  list of leaf hashes, the hash of a range of leaves, and the hash of the complete subtree at a
  level and index. The node hash function of \<open>sigstore_merkle\<close> is the parameter \<open>hc\<close>; the
  hash of the empty tree is the parameter \<open>e\<close>. \<open>mth_calls\<close> are the pairs of hashes the
  computation of a root feeds to \<open>hc\<close>: the soundness theorems ask for freedom from collisions
  on such a finite set of pairs only.
\<close>


subsection \<open>The split point\<close>

definition largest_power_of_2_less_than :: "nat \<Rightarrow> nat" where
  "largest_power_of_2_less_than n =
     (if n \<le> 1 then 0 else 2 ^ (63 - leading_zeros 64 (n - 1)))"

definition split_point :: "nat \<Rightarrow> nat" where
  "split_point n = 2 ^ (bit_len (n - 1) - 1)"

lemma split_point_bounds:
  assumes "2 \<le> n"
  shows "0 < split_point n" and "split_point n < n" and "n \<le> 2 * split_point n"
proof -
  have pos: "0 < n - 1" using assms by simp
  then obtain b where b: "bit_len (n - 1) = Suc b" by (metis bit_len_eq_0_iff not0_implies_Suc neq0_conv)
  show "0 < split_point n" by (simp add: split_point_def)
  show "split_point n < n" using bit_len_lower [OF pos] assms by (simp add: split_point_def)
  show "n \<le> 2 * split_point n" using bit_len_upper [of "n - 1"] assms b by (simp add: split_point_def)
qed

lemma split_point_unique:
  assumes "2 ^ k < n" and "n \<le> 2 ^ Suc k"
  shows "split_point n = 2 ^ k"
proof -
  have "bit_len (n - 1) = Suc k" using assms by (intro bit_len_unique) auto
  then show ?thesis by (simp add: split_point_def)
qed

lemma split_point_power: "\<exists>k. split_point n = 2 ^ k"
  by (auto simp: split_point_def)

lemma largest_power_eq:
  assumes "2 \<le> n" and "n \<le> 2 ^ 64"
  shows "largest_power_of_2_less_than n = split_point n"
proof -
  have "bit_len (n - 1) \<le> 64" using assms by (intro bit_len_le) auto
  moreover have "bit_len (n - 1) \<noteq> 0" using assms by simp
  ultimately have "63 - (64 - bit_len (n - 1)) = bit_len (n - 1) - 1" by linarith
  with assms show ?thesis
    by (simp add: largest_power_of_2_less_than_def leading_zeros_def split_point_def)
qed

lemma largest_power_less: "0 < n \<Longrightarrow> largest_power_of_2_less_than n < n"
proof (cases "n \<le> 1")
  case False
  have "(2::nat) ^ (63 - leading_zeros 64 (n - 1)) \<le> 2 ^ (bit_len (n - 1) - 1)"
    unfolding leading_zeros_def by (rule power_increasing) auto
  also have "\<dots> < n" using split_point_bounds(2) [of n] False by (simp add: split_point_def)
  finally show ?thesis using False by (simp add: largest_power_of_2_less_than_def)
qed (simp add: largest_power_of_2_less_than_def)

lemma largest_power_pos: "2 \<le> n \<Longrightarrow> 0 < largest_power_of_2_less_than n"
  by (simp add: largest_power_of_2_less_than_def)


subsection \<open>The Merkle tree hash\<close>

function mth :: "('h \<Rightarrow> 'h \<Rightarrow> 'h) \<Rightarrow> 'h \<Rightarrow> 'h list \<Rightarrow> 'h" where
  "mth hc e D =
     (if D = [] then e
      else if length D = 1 then hd D
      else let k = split_point (length D)
           in hc (mth hc e (take k D)) (mth hc e (drop k D)))"
  by pat_completeness auto

lemma two_le_length: "D \<noteq> [] \<Longrightarrow> length D \<noteq> Suc 0 \<Longrightarrow> 2 \<le> length D"
  by (cases D; cases "tl D") auto

termination mth
proof (relation "measure (\<lambda>(hc, e, D). length D)", goal_cases)
  case (2 hc e D k)
  then show ?case using split_point_bounds(2) [of "length D"] two_le_length [of D] by auto
next
  case (3 hc e D k)
  then show ?case using split_point_bounds(1,2) [of "length D"] two_le_length [of D] by auto
qed simp

declare mth.simps [simp del]

function mth_calls :: "('h \<Rightarrow> 'h \<Rightarrow> 'h) \<Rightarrow> 'h \<Rightarrow> 'h list \<Rightarrow> ('h \<times> 'h) set" where
  "mth_calls hc e D =
     (if length D \<le> 1 then {}
      else let k = split_point (length D)
           in insert (mth hc e (take k D), mth hc e (drop k D))
                (mth_calls hc e (take k D) \<union> mth_calls hc e (drop k D)))"
  by pat_completeness auto

termination mth_calls
proof (relation "measure (\<lambda>(hc, e, D). length D)", goal_cases)
  case (2 hc e D k)
  then show ?case using split_point_bounds(2) [of "length D"] by auto
next
  case (3 hc e D k)
  then show ?case using split_point_bounds(1,2) [of "length D"] by auto
qed simp

declare mth_calls.simps [simp del]

lemma mth_Nil [simp]: "mth hc e [] = e"
  by (subst mth.simps) simp

lemma mth_single [simp]: "mth hc e [x] = x"
  by (subst mth.simps) simp

lemma mth_split:
  "2 \<le> length D \<Longrightarrow>
   mth hc e D = hc (mth hc e (take (split_point (length D)) D)) (mth hc e (drop (split_point (length D)) D))"
  by (subst mth.simps) (auto simp: Let_def)

lemma mth_split_pow:
  assumes "2 ^ k < length D" and "length D \<le> 2 ^ Suc k"
  shows "mth hc e D = hc (mth hc e (take (2 ^ k) D)) (mth hc e (drop (2 ^ k) D))"
proof -
  have "1 \<le> (2::nat) ^ k" by simp
  with assms(1) have "2 \<le> length D" by linarith
  then show ?thesis using mth_split split_point_unique [OF assms] by metis
qed

lemma mth_calls_split:
  "2 \<le> length D \<Longrightarrow> k = split_point (length D) \<Longrightarrow>
   mth_calls hc e D = insert (mth hc e (take k D), mth hc e (drop k D))
     (mth_calls hc e (take k D) \<union> mth_calls hc e (drop k D))"
  by (subst mth_calls.simps) (auto simp: Let_def)

text \<open>The root of a tree determines its leaves, up to a collision among the pairs hashed.\<close>

definition collision_free :: "('h \<Rightarrow> 'h \<Rightarrow> 'h) \<Rightarrow> ('h \<times> 'h) set \<Rightarrow> bool" where
  "collision_free hc A \<longleftrightarrow> inj_on (\<lambda>(a, b). hc a b) A"

lemma collision_free_code [code]:
  "collision_free hc A \<longleftrightarrow>
     (\<forall>p\<in>A. \<forall>q\<in>A. hc (fst p) (snd p) = hc (fst q) (snd q) \<longrightarrow> p = q)"
  unfolding collision_free_def inj_on_def by (simp add: case_prod_beta)

text \<open>A hash function that is injective on small values, at which the theorems are evaluated.\<close>

definition demo_hash :: "sha256_hash \<Rightarrow> sha256_hash \<Rightarrow> sha256_hash" where
  "demo_hash a b = 1000 * a + b + 1"

lemma collision_freeD:
  "collision_free hc A \<Longrightarrow> (a, b) \<in> A \<Longrightarrow> (c, d) \<in> A \<Longrightarrow> hc a b = hc c d \<Longrightarrow> a = c \<and> b = d"
  unfolding collision_free_def by (drule inj_onD [of _ _ "(a, b)" "(c, d)"]) auto

lemma collision_free_mono: "collision_free hc B \<Longrightarrow> A \<subseteq> B \<Longrightarrow> collision_free hc A"
  unfolding collision_free_def by (rule inj_on_subset)

lemma mth_injective:
  assumes "collision_free hc A" and "mth_calls hc e D \<subseteq> A" and "mth_calls hc e E \<subseteq> A"
    and "length D = length E" and "mth hc e D = mth hc e E"
  shows "D = E"
  using assms(2-)
proof (induction "length D" arbitrary: D E rule: less_induct)
  case less
  show ?case
  proof (cases "2 \<le> length D")
    case False
    then consider "D = []" | x where "D = [x]"
      by (cases D; cases "tl D") auto
    then show ?thesis
    proof cases
      case (2 x)
      with less.prems obtain y where "E = [y]" by (cases E; cases "tl E") auto
      with 2 less.prems show ?thesis by simp
    qed (use less.prems in simp)
  next
    case True
    let ?k = "split_point (length D)"
    have k: "0 < ?k" "?k < length D" using split_point_bounds [OF True] by auto
    have E: "2 \<le> length E" "?k = split_point (length E)" using True less.prems by auto
    note cD = mth_calls_split [OF True refl, of hc e]
      and cE = mth_calls_split [OF E, of hc e]
    have "hc (mth hc e (take ?k D)) (mth hc e (drop ?k D))
        = hc (mth hc e (take ?k E)) (mth hc e (drop ?k E))"
      using less.prems(4)
      unfolding mth_split [OF True, of hc e] mth_split [OF E(1), of hc e] E(2) [symmetric] .
    moreover have "(mth hc e (take ?k D), mth hc e (drop ?k D)) \<in> A"
      and "(mth hc e (take ?k E), mth hc e (drop ?k E)) \<in> A"
      using cD cE less.prems(1,2) by blast+
    ultimately have eq: "mth hc e (take ?k D) = mth hc e (take ?k E)"
        "mth hc e (drop ?k D) = mth hc e (drop ?k E)"
      using collision_freeD [OF assms(1)] by blast+
    have sub: "mth_calls hc e (take ?k D) \<subseteq> A" "mth_calls hc e (drop ?k D) \<subseteq> A"
        "mth_calls hc e (take ?k E) \<subseteq> A" "mth_calls hc e (drop ?k E) \<subseteq> A"
      using cD cE less.prems(1,2) by blast+
    have "take ?k D = take ?k E"
      using k less.prems(3) by (intro less.hyps sub eq) simp_all
    moreover have "drop ?k D = drop ?k E"
      using k less.prems(3) by (intro less.hyps sub eq) simp_all
    ultimately show ?thesis by (metis append_take_drop_id)
  qed
qed


subsection \<open>Ranges and complete subtrees\<close>

definition hash_range :: "('h \<Rightarrow> 'h \<Rightarrow> 'h) \<Rightarrow> 'h \<Rightarrow> 'h list \<Rightarrow> nat \<Rightarrow> nat \<Rightarrow> 'h" where
  "hash_range hc e D a b = mth hc e (take (b - a) (drop a D))"

definition node_hash :: "('h \<Rightarrow> 'h \<Rightarrow> 'h) \<Rightarrow> 'h \<Rightarrow> 'h list \<Rightarrow> nat \<Rightarrow> nat \<Rightarrow> 'h" where
  "node_hash hc e D level index = hash_range hc e D (index * 2 ^ level) ((index + 1) * 2 ^ level)"

lemma hash_range_all: "hash_range hc e D 0 (length D) = mth hc e D"
  by (simp add: hash_range_def)

lemma hash_range_prefix: "hash_range hc e D 0 m = mth hc e (take m D)"
  by (simp add: hash_range_def)

lemma hash_range_single: "a < length D \<Longrightarrow> hash_range hc e D a (Suc a) = D ! a"
  by (simp add: hash_range_def take_Suc hd_drop_conv_nth)

lemma hash_range_append: "b \<le> length D \<Longrightarrow> hash_range hc e (D @ L) a b = hash_range hc e D a b"
  by (simp add: hash_range_def)

lemma hash_range_split:
  assumes "a + 2 ^ k < b" and "b \<le> a + 2 ^ Suc k" and "b \<le> length D"
  shows "hash_range hc e D a b = hc (hash_range hc e D a (a + 2 ^ k)) (hash_range hc e D (a + 2 ^ k) b)"
proof -
  have len: "length (take (b - a) (drop a D)) = b - a" using assms by simp
  have "mth hc e (take (b - a) (drop a D))
      = hc (mth hc e (take (2 ^ k) (take (b - a) (drop a D))))
           (mth hc e (drop (2 ^ k) (take (b - a) (drop a D))))"
    using assms by (intro mth_split_pow) (simp_all add: len)
  moreover have "take (2 ^ k) (take (b - a) (drop a D)) = take (2 ^ k) (drop a D)"
    using assms(1) by (simp add: min_absorb1)
  moreover have "drop (2 ^ k) (take (b - a) (drop a D)) = take (b - (a + 2 ^ k)) (drop (a + 2 ^ k) D)"
    by (simp add: drop_take add.commute diff_diff_left)
  ultimately show ?thesis by (simp add: hash_range_def)
qed

lemma node_hash_leaf: "i < length D \<Longrightarrow> node_hash hc e D 0 i = D ! i"
  by (simp add: node_hash_def hash_range_single)

lemma node_hash_Suc:
  assumes "(i + 1) * 2 ^ Suc l \<le> length D"
  shows "node_hash hc e D (Suc l) i = hc (node_hash hc e D l (2 * i)) (node_hash hc e D l (2 * i + 1))"
proof -
  have "hash_range hc e D (i * 2 ^ Suc l) ((i + 1) * 2 ^ Suc l)
      = hc (hash_range hc e D (i * 2 ^ Suc l) (i * 2 ^ Suc l + 2 ^ l))
           (hash_range hc e D (i * 2 ^ Suc l + 2 ^ l) ((i + 1) * 2 ^ Suc l))"
    using assms by (intro hash_range_split) auto
  then show ?thesis by (simp add: node_hash_def algebra_simps)
qed

lemma node_hash_append:
  "(i + 1) * 2 ^ l \<le> length D \<Longrightarrow> node_hash hc e (D @ L) l i = node_hash hc e D l i"
  unfolding node_hash_def by (rule hash_range_append)

lemma hash_range_node:
  "a = i * 2 ^ l \<Longrightarrow> b = (i + 1) * 2 ^ l \<Longrightarrow> hash_range hc e D a b = node_hash hc e D l i"
  by (simp add: node_hash_def)

end
