(* ===== verification/Consistency.thy ===== *)
theory Consistency
  imports Merkle_Tree
begin

text \<open>
  The witness's consistency proof verifier, \<^verbatim>\<open>src/witness/proof.rs\<close>: the case analysis of
  \<open>verify_consistency\<close>, the expected proof length, the walk along the left spine for an old size
  that is a power of two, and the recursion that mirrors proof generation otherwise.
  \<open>ProofPanic\<close> stands for an abort of the Rust code: an overflowing multiplication, an
  underflowing subtraction, or the unbounded recursion that \<open>m > n\<close> would cause. The verifier
  is shown never to abort on tree sizes a witness accepts, and to be sound: an accepted proof
  means the old leaves are a prefix of the new ones, unless two different pairs of hashes that
  were actually hashed collide.
\<close>


subsection \<open>The verifier\<close>

datatype proof_error =
    InvalidSizes nat nat | WrongLength nat nat | OldRootMismatch | NewRootMismatch
  | NonEmptyProofForEqualSize | NonEmptyProofForEmptyOld | InvalidEmptyRoot | ProofPanic

type_synonym hash_fn = "sha256_hash \<Rightarrow> sha256_hash \<Rightarrow> sha256_hash"

function subproof_length :: "nat \<Rightarrow> nat \<Rightarrow> bool \<Rightarrow> proof_error + nat" where
  "subproof_length m n complete =
     (if n < m then Inl ProofPanic
      else if m = n then Inr (if complete then 0 else 1)
      else let k = largest_power_of_2_less_than n
           in if m \<le> k
              then bind_res (subproof_length m k complete) (\<lambda>l. Inr (l + 1))
              else bind_res (subproof_length (m - k) (n - k) False) (\<lambda>l. Inr (1 + l)))"
  by pat_completeness auto

lemma split_shrinks:
  "\<not> n < m \<Longrightarrow> m \<noteq> n \<Longrightarrow> largest_power_of_2_less_than n < n"
  "\<not> n < m \<Longrightarrow> m \<noteq> n \<Longrightarrow> \<not> m \<le> largest_power_of_2_less_than n \<Longrightarrow>
     n - largest_power_of_2_less_than n < n"
  using largest_power_less [of n] largest_power_pos [of n] by auto

termination subproof_length
  by (relation "measure (\<lambda>(m, n, c). n)") (auto dest: split_shrinks)

definition proof_length :: "nat \<Rightarrow> nat \<Rightarrow> proof_error + nat" where
  "proof_length old_size new_size =
     (if old_size = 0 \<or> old_size = new_size then Inr 0
      else if is_power_of_two old_size then
        let old_level = trailing_zeros 64 old_size;
            tree_height = (if is_power_of_two new_size then trailing_zeros 64 new_size
                           else 64 - leading_zeros 64 (new_size - 1))
        in if tree_height < old_level then Inl ProofPanic else Inr (tree_height - old_level)
      else subproof_length old_size new_size True)"

function verify_subproof ::
  "hash_fn \<Rightarrow> nat \<Rightarrow> nat \<Rightarrow> sha256_hash list \<Rightarrow> nat \<Rightarrow> bool
    \<Rightarrow> proof_error + (sha256_hash \<times> sha256_hash) \<times> nat" where
  "verify_subproof hc m n pf idx complete =
     (if n < m then Inl ProofPanic
      else if m = n then
        if complete then Inl (WrongLength (idx + 1) (length pf))
        else if length pf \<le> idx then Inl (WrongLength (idx + 1) (length pf))
        else Inr ((pf ! idx, pf ! idx), idx + 1)
      else let k = largest_power_of_2_less_than n
           in if m \<le> k then
                bind_res (verify_subproof hc m k pf idx complete)
                  (\<lambda>((left_old, left_new), i).
                     if length pf \<le> i then Inl (WrongLength (i + 1) (length pf))
                     else Inr ((left_old, hc left_new (pf ! i)), i + 1))
              else
                bind_res (verify_subproof hc (m - k) (n - k) pf idx False)
                  (\<lambda>((right_old, right_new), i).
                     if length pf \<le> i then Inl (WrongLength (i + 1) (length pf))
                     else Inr ((hc (pf ! i) right_old, hc (pf ! i) right_new), i + 1)))"
  by pat_completeness auto

termination verify_subproof
  by (relation "measure (\<lambda>(hc, m, n, pf, idx, c). n)") (auto dest: split_shrinks)

declare subproof_length.simps [simp del] verify_subproof.simps [simp del]

text \<open>
  The first loop of \<open>verify_power_of_2\<close>: \<open>sz\<close> doubles until it reaches the new size; the
  result carries the running hash and the number of proof hashes used.
\<close>

function verify_power_of_2_loop ::
  "hash_fn \<Rightarrow> nat \<Rightarrow> sha256_hash list \<Rightarrow> nat \<Rightarrow> nat \<Rightarrow> sha256_hash
    \<Rightarrow> proof_error + sha256_hash \<times> nat" where
  "verify_power_of_2_loop hc new_size pf sz proof_idx sr =
     (if sz < new_size then
        if length pf \<le> proof_idx then Inl (WrongLength (proof_idx + 1) (length pf))
        else let sr' = hc sr (pf ! proof_idx)
             in if u64_max < sz * 2 then Inl ProofPanic
                else if new_size < sz * 2 then Inr (sr', proof_idx + 1)
                else verify_power_of_2_loop hc new_size pf (sz * 2) (proof_idx + 1) sr'
      else Inr (sr, proof_idx))"
  by pat_completeness auto
termination
  by (relation "measure (\<lambda>(hc, n, pf, sz, idx, sr). length pf - idx)") auto

declare verify_power_of_2_loop.simps [simp del]

definition verify_power_of_2 ::
  "hash_fn \<Rightarrow> nat \<Rightarrow> nat \<Rightarrow> sha256_hash \<Rightarrow> sha256_hash \<Rightarrow> sha256_hash list \<Rightarrow> proof_error + unit" where
  "verify_power_of_2 hc old_size new_size old_root new_root pf =
     bind_res (verify_power_of_2_loop hc new_size pf old_size 0 old_root)
       (\<lambda>(sr, proof_idx).
          if foldl hc sr (drop proof_idx pf) \<noteq> new_root then Inl NewRootMismatch else Inr ())"

definition verify_consistency_inner ::
  "hash_fn \<Rightarrow> nat \<Rightarrow> nat \<Rightarrow> sha256_hash \<Rightarrow> sha256_hash \<Rightarrow> sha256_hash list \<Rightarrow> proof_error + unit" where
  "verify_consistency_inner hc old_size new_size old_root new_root pf =
     (if old_size = new_size then
        if pf = [] \<and> old_root = new_root then Inr () else Inl OldRootMismatch
      else if is_power_of_two old_size then
        verify_power_of_2 hc old_size new_size old_root new_root pf
      else
        bind_res (verify_subproof hc old_size new_size pf 0 True)
          (\<lambda>((computed_old, computed_new), idx).
             if idx \<noteq> length pf then Inl (WrongLength idx (length pf))
             else if computed_old \<noteq> old_root then Inl OldRootMismatch
             else if computed_new \<noteq> new_root then Inl NewRootMismatch
             else Inr ()))"

definition verify_consistency ::
  "hash_fn \<Rightarrow> nat \<Rightarrow> nat \<Rightarrow> sha256_hash \<Rightarrow> sha256_hash \<Rightarrow> sha256_hash list \<Rightarrow> proof_error + unit" where
  "verify_consistency hc old_size new_size old_root new_root pf =
     (if new_size < old_size then Inl (InvalidSizes old_size new_size)
      else if old_size = new_size then
        if pf \<noteq> [] then Inl NonEmptyProofForEqualSize
        else if old_root \<noteq> new_root then Inl OldRootMismatch
        else Inr ()
      else if old_size = 0 then
        if pf \<noteq> [] then Inl NonEmptyProofForEmptyOld
        else if old_root \<noteq> empty_root_hash then Inl InvalidEmptyRoot
        else Inr ()
      else bind_res (proof_length old_size new_size)
        (\<lambda>expected_len.
           if length pf \<noteq> expected_len then Inl (WrongLength expected_len (length pf))
           else verify_consistency_inner hc old_size new_size old_root new_root pf))"


subsection \<open>The pairs a verification hashes\<close>

definition fold_calls :: "hash_fn \<Rightarrow> sha256_hash \<Rightarrow> sha256_hash list \<Rightarrow> (sha256_hash \<times> sha256_hash) set" where
  "fold_calls hc a ps = (\<lambda>i. (foldl hc a (take i ps), ps ! i)) ` {..<length ps}"

function subproof_calls ::
  "hash_fn \<Rightarrow> nat \<Rightarrow> nat \<Rightarrow> sha256_hash list \<Rightarrow> nat \<Rightarrow> bool \<Rightarrow> (sha256_hash \<times> sha256_hash) set" where
  "subproof_calls hc m n pf idx complete =
     (if n \<le> m then {}
      else let k = largest_power_of_2_less_than n
           in if m \<le> k then
                (case verify_subproof hc m k pf idx complete of
                   Inl e \<Rightarrow> {}
                 | Inr ((left_old, left_new), i) \<Rightarrow>
                     insert (left_new, pf ! i) (subproof_calls hc m k pf idx complete))
              else
                (case verify_subproof hc (m - k) (n - k) pf idx False of
                   Inl e \<Rightarrow> {}
                 | Inr ((right_old, right_new), i) \<Rightarrow>
                     {(pf ! i, right_old), (pf ! i, right_new)}
                     \<union> subproof_calls hc (m - k) (n - k) pf idx False))"
  by pat_completeness auto

termination subproof_calls
proof (relation "measure (\<lambda>(hc, m, n, pf, idx, c). n)", goal_cases)
  case (2 hc m n pf idx complete k s u v x y)
  then show ?case using split_shrinks [of n m] by auto
next
  case (3 hc m n pf idx complete k s u v x y)
  then show ?case using split_shrinks [of n m] by auto
qed simp

declare subproof_calls.simps [simp del]

definition verify_calls ::
  "hash_fn \<Rightarrow> nat \<Rightarrow> nat \<Rightarrow> sha256_hash \<Rightarrow> sha256_hash list \<Rightarrow> (sha256_hash \<times> sha256_hash) set" where
  "verify_calls hc old_size new_size old_root pf =
     (if is_power_of_two old_size then fold_calls hc old_root pf
      else subproof_calls hc old_size new_size pf 0 True)"


subsection \<open>Walking the left spine\<close>

lemma fold_calls_snoc:
  "fold_calls hc a (ps @ [p]) = insert (foldl hc a ps, p) (fold_calls hc a ps)"
proof -
  have "(\<lambda>i. (foldl hc a (take i (ps @ [p])), (ps @ [p]) ! i)) ` {..<length ps} = fold_calls hc a ps"
    unfolding fold_calls_def by (rule image_cong) (auto simp: nth_append)
  then show ?thesis
    by (simp add: fold_calls_def lessThan_Suc)
qed

lemma fold_calls_Cons:
  "fold_calls hc a (p # ps) = insert (a, p) (fold_calls hc (hc a p) ps)"
proof -
  have "{..<length (p # ps)} = insert 0 (Suc ` {..<length ps})"
    by (simp add: lessThan_Suc_eq_insert_0)
  then show ?thesis by (simp add: fold_calls_def image_image)
qed

lemma foldl_collision:
  assumes "collision_free hc A"
  shows "fold_calls hc a ps \<subseteq> A \<Longrightarrow> fold_calls hc b qs \<subseteq> A \<Longrightarrow> length ps = length qs \<Longrightarrow>
    foldl hc a ps = foldl hc b qs \<Longrightarrow> a = b \<and> ps = qs"
proof (induction ps arbitrary: qs rule: rev_induct)
  case (snoc p ps)
  then obtain q qs' where qs: "qs = qs' @ [q]" by (cases qs rule: rev_cases) auto
  with snoc.prems have "hc (foldl hc a ps) p = hc (foldl hc b qs') q" by simp
  moreover have "(foldl hc a ps, p) \<in> A" and "(foldl hc b qs', q) \<in> A"
    using snoc.prems(1,2) by (auto simp: qs fold_calls_snoc)
  ultimately have "foldl hc a ps = foldl hc b qs' \<and> p = q"
    using collision_freeD [OF assms] by blast
  with snoc qs show ?case by (auto simp: fold_calls_snoc)
qed simp

text \<open>The siblings of the left spine of a tree of \<open>n\<close> leaves, from level \<open>l\<close> upwards.\<close>

function spine :: "hash_fn \<Rightarrow> sha256_hash \<Rightarrow> sha256_hash list \<Rightarrow> nat \<Rightarrow> nat \<Rightarrow> sha256_hash list" where
  "spine hc e D n l =
     (if 2 ^ l < n then hash_range hc e D (2 ^ l) (min (2 ^ Suc l) n) # spine hc e D n (Suc l)
      else [])"
  by pat_completeness auto
termination
  by (relation "measure (\<lambda>(hc, e, D, n, l). n - 2 ^ l)") (auto intro: diff_less_mono2)

declare spine.simps [simp del]

lemma prefix_split:
  assumes "2 ^ l < n" and "n \<le> length D"
  shows "mth hc e (take (min (2 ^ Suc l) n) D)
      = hc (mth hc e (take (2 ^ l) D)) (hash_range hc e D (2 ^ l) (min (2 ^ Suc l) n))"
proof -
  have "hash_range hc e D 0 (min (2 ^ Suc l) n)
      = hc (hash_range hc e D 0 (0 + 2 ^ l)) (hash_range hc e D (0 + 2 ^ l) (min (2 ^ Suc l) n))"
    using assms by (intro hash_range_split) auto
  then show ?thesis by (simp add: hash_range_prefix)
qed

lemma prefix_split_calls:
  assumes "2 ^ l < n" and "n \<le> length D"
  shows "mth_calls hc e (take (min (2 ^ Suc l) n) D)
     \<supseteq> insert (mth hc e (take (2 ^ l) D), hash_range hc e D (2 ^ l) (min (2 ^ Suc l) n))
        (mth_calls hc e (take (2 ^ l) D))"
proof -
  let ?T = "take (min (2 ^ Suc l) n) D"
  have len: "length ?T = min (2 ^ Suc l) n" using assms by simp
  have k: "2 ^ l = split_point (length ?T)"
    unfolding len using assms by (intro split_point_unique [symmetric]) auto
  have one: "1 \<le> (2::nat) ^ l" by simp
  have two: "2 \<le> length ?T" unfolding len using assms(1) one by (simp add: min_def)
  have "take (2 ^ l) ?T = take (2 ^ l) D" using assms by (simp add: min_def)
  moreover have "mth hc e (drop (2 ^ l) ?T) = hash_range hc e D (2 ^ l) (min (2 ^ Suc l) n)"
    by (simp add: hash_range_def drop_take)
  ultimately show ?thesis using mth_calls_split [OF two k, of hc e] by auto
qed

lemma spine_root:
  "n = length D \<Longrightarrow> 2 ^ l \<le> n \<Longrightarrow>
    foldl hc (mth hc e (take (2 ^ l) D)) (spine hc e D n l) = mth hc e D"
proof (induction hc e D n l rule: spine.induct)
  case (1 hc e D n l)
  show ?case
  proof (cases "2 ^ l < n")
    case True
    note step = prefix_split [OF True, of D hc e]
    show ?thesis
    proof (cases "2 ^ Suc l \<le> n")
      case le: True
      with "1" True step show ?thesis
        by (subst spine.simps) (simp add: min_absorb1 del: power_Suc)
    next
      case False
      with "1.prems" True step show ?thesis
        by (subst spine.simps, subst spine.simps) (simp add: min_absorb2 del: power_Suc)
    qed
  next
    case False
    with "1.prems" show ?thesis by (subst spine.simps) simp
  qed
qed

lemma spine_calls:
  "n = length D \<Longrightarrow> 2 ^ l \<le> n \<Longrightarrow>
    fold_calls hc (mth hc e (take (2 ^ l) D)) (spine hc e D n l) \<union> mth_calls hc e (take (2 ^ l) D)
      \<subseteq> mth_calls hc e D"
proof (induction hc e D n l rule: spine.induct)
  case (1 hc e D n l)
  show ?case
  proof (cases "2 ^ l < n")
    case True
    note step = prefix_split [OF True, of D hc e]
      and calls = prefix_split_calls [OF True, of D hc e]
    show ?thesis
    proof (cases "2 ^ Suc l \<le> n")
      case le: True
      with "1" True step calls show ?thesis
        by (subst spine.simps) (simp add: min_absorb1 fold_calls_Cons del: power_Suc, blast)
    next
      case False
      with "1.prems" True calls show ?thesis
        by (subst spine.simps, subst spine.simps)
          (simp add: min_absorb2 fold_calls_def lessThan_Suc del: power_Suc)
    qed
  next
    case False
    with "1.prems" show ?thesis by (subst spine.simps) (simp add: fold_calls_def)
  qed
qed

lemma spine_length:
  "2 ^ l \<le> n \<Longrightarrow> 2 ^ (t - 1) < n \<Longrightarrow> n \<le> 2 ^ t \<Longrightarrow> l \<le> t \<Longrightarrow> length (spine hc e D n l) = t - l"
proof (induction hc e D n l rule: spine.induct)
  case (1 hc e D n l)
  show ?case
  proof (cases "2 ^ l < n")
    case True
    then have "(2::nat) ^ l < 2 ^ t" using "1.prems" by linarith
    then have lt: "l < t" by (rule power_less_imp_less_exp [rotated]) simp
    show ?thesis
    proof (cases "Suc l = t")
      case True
      with "1.prems" \<open>2 ^ l < n\<close> show ?thesis
        by (subst spine.simps, subst spine.simps) auto
    next
      case False
      then have "Suc l \<le> t - 1" using lt by simp
      then have "(2::nat) ^ Suc l \<le> 2 ^ (t - 1)" by (rule power_increasing) simp
      with "1.prems" have "2 ^ Suc l \<le> n" by linarith
      with "1.IH" "1.prems" True lt have "length (spine hc e D n (Suc l)) = t - Suc l" by simp
      with True lt show ?thesis by (subst spine.simps) simp
    qed
  next
    case False
    with "1.prems" have n: "n = 2 ^ l" by simp
    with "1.prems"(2) have "t - 1 < l" by (auto dest: power_less_imp_less_exp [rotated])
    with "1.prems"(4) have "t - l = 0" by auto
    with n show ?thesis by (subst spine.simps) simp
  qed
qed


subsection \<open>What the loops compute\<close>

lemma verify_power_of_2_loop_ok:
  "verify_power_of_2_loop hc n pf sz idx sr = Inr (sr', idx') \<Longrightarrow>
    foldl hc sr' (drop idx' pf) = foldl hc sr (drop idx pf)"
proof (induction hc n pf sz idx sr rule: verify_power_of_2_loop.induct)
  case (1 hc n pf sz idx sr)
  show ?case
  proof (cases "sz < n \<and> \<not> length pf \<le> idx")
    case True
    then have "drop idx pf = pf ! idx # drop (Suc idx) pf" by (simp add: Cons_nth_drop_Suc)
    with True "1" show ?thesis
      by (auto simp: verify_power_of_2_loop.simps [of hc n pf sz] Let_def split: if_splits)
  next
    case False
    with "1.prems" show ?thesis
      by (auto simp: verify_power_of_2_loop.simps [of hc n pf sz] split: if_splits)
  qed
qed

lemma verify_power_of_2_sound:
  "verify_power_of_2 hc m n old_root new_root pf = Inr () \<Longrightarrow> foldl hc old_root pf = new_root"
  unfolding verify_power_of_2_def
  by (auto simp: res_simps dest!: verify_power_of_2_loop_ok split: if_splits)

text \<open>With enough proof hashes and sizes up to \<open>2 ^ 63\<close> the loop runs to its end.\<close>

lemma verify_power_of_2_loop_total:
  "2 ^ l \<le> n \<Longrightarrow> n \<le> 2 ^ 63 \<Longrightarrow> length (spine hc e D n l) + idx \<le> length pf \<Longrightarrow>
    \<exists>r. verify_power_of_2_loop hc n pf (2 ^ l) idx sr = Inr r"
proof (induction hc e D n l arbitrary: idx sr rule: spine.induct)
  case (1 hc e D n l)
  show ?case
  proof (cases "2 ^ l < n")
    case True
    then have "(2::nat) ^ l < 2 ^ 63" using "1.prems" by linarith
    then have "l < 63" by (rule power_less_imp_less_exp [rotated]) simp
    then have "Suc l \<le> 63" by simp
    then have "(2::nat) ^ Suc l \<le> 2 ^ 63" by (rule power_increasing) simp
    then have no_overflow: "\<not> u64_max < 2 ^ l * 2" by simp
    have len: "length (spine hc e D n l) = Suc (length (spine hc e D n (Suc l)))"
      using True by (subst spine.simps) simp
    show ?thesis
    proof (cases "n < 2 ^ l * 2")
      case over: True
      with True len no_overflow "1.prems" show ?thesis
        by (subst verify_power_of_2_loop.simps) (simp add: Let_def)
    next
      case False
      then have "\<exists>r. verify_power_of_2_loop hc n pf (2 ^ Suc l) (Suc idx) (hc sr (pf ! idx)) = Inr r"
        using "1.prems" len by (intro "1.IH" [OF True]) (simp_all add: mult.commute)
      with True False len no_overflow "1.prems" show ?thesis
        by (subst verify_power_of_2_loop.simps) (simp add: Let_def mult.commute)
    qed
  next
    case False
    then show ?thesis by (subst verify_power_of_2_loop.simps) simp
  qed
qed

lemma verify_power_of_2_eq:
  assumes "2 ^ l \<le> n" and "n \<le> 2 ^ 63" and "length (spine hc e D n l) \<le> length pf"
  shows "verify_power_of_2 hc (2 ^ l) n old_root new_root pf
    = (if foldl hc old_root pf = new_root then Inr () else Inl NewRootMismatch)"
proof -
  obtain sr i where r: "verify_power_of_2_loop hc n pf (2 ^ l) 0 old_root = Inr (sr, i)"
    using verify_power_of_2_loop_total [OF assms(1,2), of hc e D 0 pf old_root] assms(3) by auto
  then show ?thesis
    using verify_power_of_2_loop_ok [OF r] by (simp add: verify_power_of_2_def)
qed

text \<open>The length the verifier expects is the height difference of the two trees.\<close>

lemma tree_height_bounds:
  assumes "2 ^ l < n" and "n \<le> 2 ^ 64"
    and "t = (if is_power_of_two n then trailing_zeros 64 n else 64 - leading_zeros 64 (n - 1))"
  shows "2 ^ (t - 1) < n" and "n \<le> 2 ^ t" and "l < t"
proof -
  have one: "1 \<le> (2::nat) ^ l" by simp
  then have two: "2 \<le> n" using assms(1) by linarith
  have *: "2 ^ (t - 1) < n \<and> n \<le> 2 ^ t"
  proof (cases "is_power_of_two n")
    case True
    then obtain j where j: "n = 2 ^ j" by (auto simp: is_power_of_two_iff)
    with assms(3) True have "t = j" by (simp add: trailing_zeros_power)
    with j two show ?thesis by (cases j) auto
  next
    case False
    have "bit_len (n - 1) \<le> 64" using assms(2) two by (intro bit_len_le) simp
    with False assms(3) have t: "t = bit_len (n - 1)" by (simp add: leading_zeros_def)
    have "2 ^ (t - 1) \<le> n - 1" using bit_len_lower [of "n - 1"] two unfolding t by simp
    moreover have "n - 1 < 2 ^ t" using bit_len_upper [of "n - 1"] unfolding t .
    ultimately show ?thesis using two by linarith
  qed
  then show "2 ^ (t - 1) < n" and "n \<le> 2 ^ t" by auto
  have "(2::nat) ^ l < 2 ^ t" using * assms(1) by linarith
  then show "l < t" by (rule power_less_imp_less_exp [rotated]) simp
qed

lemma proof_length_power:
  assumes "2 ^ l < n" and "n \<le> 2 ^ 64"
  shows "proof_length (2 ^ l) n = Inr (length (spine hc e D n l))"
proof -
  define t where "t = (if is_power_of_two n then trailing_zeros 64 n else 64 - leading_zeros 64 (n - 1))"
  note b = tree_height_bounds [OF assms t_def]
  have "length (spine hc e D n l) = t - l"
    using assms b by (intro spine_length) auto
  moreover have "\<not> t < l" using b(3) by simp
  ultimately show ?thesis
    using assms(1) unfolding proof_length_def t_def [symmetric]
    by (simp add: is_power_of_two_power trailing_zeros_power Let_def)
qed

lemma not_power_pos: "\<not> is_power_of_two m \<Longrightarrow> m \<noteq> 0 \<Longrightarrow> 3 \<le> m"
proof (rule ccontr)
  assume "\<not> is_power_of_two m" and "m \<noteq> 0" and "\<not> 3 \<le> m"
  then have "m = 2 ^ 0 \<or> m = 2 ^ 1" by auto
  with \<open>\<not> is_power_of_two m\<close> show False using is_power_of_two_power by metis
qed


subsection \<open>Soundness of the recursion\<close>

lemma split_facts:
  assumes "0 < m" and "m < n" and "n \<le> 2 ^ 64" and "k = largest_power_of_2_less_than n"
  shows "k = split_point n" and "0 < k" and "k < n" and "n \<le> 2 * k"
proof -
  have "2 \<le> n" using assms by simp
  then show "k = split_point n" and "0 < k" and "k < n" and "n \<le> 2 * k"
    using assms largest_power_eq [of n] split_point_bounds [of n] by simp_all
qed

lemma split_point_between:
  assumes "2 \<le> n" and "split_point n < m" and "m \<le> n"
  shows "split_point m = split_point n"
proof -
  obtain j where j: "split_point n = 2 ^ j" using split_point_power by blast
  then have "split_point m = 2 ^ j"
    using assms split_point_bounds(3) [of n] by (intro split_point_unique) auto
  with j show ?thesis by simp
qed

lemma mth_take_split:
  assumes "2 \<le> n" and "length E = n" and "k = split_point n" and "k < m" and "m \<le> n"
  shows "mth hc e (take m E) = hc (mth hc e (take k E)) (mth hc e (take (m - k) (drop k E)))"
    and "mth_calls hc e (take m E) =
      insert (mth hc e (take k E), mth hc e (take (m - k) (drop k E)))
        (mth_calls hc e (take k E) \<union> mth_calls hc e (take (m - k) (drop k E)))"
proof -
  have len: "length (take m E) = m" using assms by simp
  have k: "k = split_point (length (take m E))"
    unfolding len using split_point_between [of n m] assms by simp
  have two: "2 \<le> length (take m E)"
    unfolding len using split_point_bounds(1) [of n] assms by simp
  have t: "take k (take m E) = take k E" "drop k (take m E) = take (m - k) (drop k E)"
    using assms by (simp_all add: min_absorb1 drop_take)
  show "mth hc e (take m E) = hc (mth hc e (take k E)) (mth hc e (take (m - k) (drop k E)))"
    using mth_split [OF two, of hc e] unfolding k [symmetric] t .
  show "mth_calls hc e (take m E) =
      insert (mth hc e (take k E), mth hc e (take (m - k) (drop k E)))
        (mth_calls hc e (take k E) \<union> mth_calls hc e (take (m - k) (drop k E)))"
    using mth_calls_split [OF two k, of hc e] unfolding t .
qed

lemma subproof_sound:
  "verify_subproof hc m n pf idx c = Inr ((old_h, new_h), i) \<Longrightarrow> 0 < m \<Longrightarrow> n \<le> 2 ^ 64 \<Longrightarrow>
    length E = n \<Longrightarrow> new_h = mth hc e E \<Longrightarrow> mth_calls hc e E \<subseteq> A \<Longrightarrow>
    subproof_calls hc m n pf idx c \<subseteq> A \<Longrightarrow> collision_free hc A \<Longrightarrow>
    old_h = mth hc e (take m E) \<and> mth_calls hc e (take m E) \<subseteq> A"
proof (induction hc m n pf idx c arbitrary: old_h new_h i E rule: verify_subproof.induct)
  case (1 hc m n pf idx c)
  note run = "1.prems"(1) and pos = "1.prems"(2) and len = "1.prems"(4)
    and root = "1.prems"(5) and calls = "1.prems"(6) and sub = "1.prems"(7)
    and cfD = collision_freeD [OF "1.prems"(8)]
  consider "m = n" | "m < n" | "n < m" by linarith
  then show ?case
  proof cases
    case 1
    with run len root calls show ?thesis
      by (subst (asm) verify_subproof.simps) (auto split: if_splits)
  next
    case 3
    with run show ?thesis by (subst (asm) verify_subproof.simps) simp
  next
    case 2
    define k where "k = largest_power_of_2_less_than n"
    note k = split_facts [OF pos 2 "1.prems"(3) k_def]
    have two: "2 \<le> length E" and kE: "k = split_point (length E)" using pos 2 len k by simp_all
    note E = mth_split [OF two, of hc e, folded kE]
      and cE = mth_calls_split [OF two kE, of hc e]
    have nm: "\<not> n < m" "m \<noteq> n" using 2 by simp_all
    show ?thesis
    proof (cases "m \<le> k")
      case True
      obtain ln j where rec: "verify_subproof hc m k pf idx c = Inr ((old_h, ln), j)"
        and new: "new_h = hc ln (pf ! j)"
        using run nm True unfolding verify_subproof.simps [of hc m n] k_def [symmetric]
        by (auto simp: res_simps Let_def split: if_splits)
      have sc: "insert (ln, pf ! j) (subproof_calls hc m k pf idx c) \<subseteq> A"
        using sub 2 True rec unfolding subproof_calls.simps [of hc m n] k_def [symmetric] by simp
      have ln: "ln = mth hc e (take k E)"
        using cfD [of ln "pf ! j" "mth hc e (take k E)" "mth hc e (drop k E)"]
          sc cE calls root new E by simp
      have "old_h = mth hc e (take m (take k E)) \<and> mth_calls hc e (take m (take k E)) \<subseteq> A"
        using sc cE calls k len "1.prems"(3,8)
        by (intro "1.IH"(1) [OF nm k_def True rec pos _ _ ln]) auto
      then show ?thesis using True by (simp add: min_absorb1)
    next
      case False
      obtain ro rn j where rec: "verify_subproof hc (m - k) (n - k) pf idx False = Inr ((ro, rn), j)"
        and new: "new_h = hc (pf ! j) rn" and old: "old_h = hc (pf ! j) ro"
        using run nm False unfolding verify_subproof.simps [of hc m n] k_def [symmetric]
        by (auto simp: res_simps Let_def split: if_splits)
      have sc: "insert (pf ! j, ro) (insert (pf ! j, rn)
          (subproof_calls hc (m - k) (n - k) pf idx False)) \<subseteq> A"
        using sub 2 False rec unfolding subproof_calls.simps [of hc m n] k_def [symmetric] by simp
      have eq: "pf ! j = mth hc e (take k E) \<and> rn = mth hc e (drop k E)"
        using cfD [of "pf ! j" rn "mth hc e (take k E)" "mth hc e (drop k E)"]
          sc cE calls root new E by simp
      have r: "ro = mth hc e (take (m - k) (drop k E)) \<and> mth_calls hc e (take (m - k) (drop k E)) \<subseteq> A"
        using False eq sc cE calls k len "1.prems"(3,8)
        by (intro "1.IH"(2) [OF nm k_def False rec]) auto
      have nE: "2 \<le> n" using two len by simp
      show ?thesis
        using mth_take_split [OF nE len k(1), of m hc e] False 2 old eq r sc cE calls by auto
    qed
  qed
qed


text \<open>The sizes at which the verifier runs its algorithm, split by the shape of the old size.\<close>

lemma verify_consistency_cases:
  assumes "verify_consistency hc m n old_root new_root pf = Inr ()"
  obtains (same) "m = n" "old_root = new_root"
    | (from_empty) "m = 0" "0 < n" "old_root = empty_root_hash"
    | (power) l where "m = 2 ^ l" "m < n" "proof_length m n = Inr (length pf)"
        "verify_power_of_2 hc m n old_root new_root pf = Inr ()"
    | (general) i where "0 < m" "m < n" "\<not> is_power_of_two m"
        "verify_subproof hc m n pf 0 True = Inr ((old_root, new_root), i)"
proof (cases "m = n \<or> m = 0")
  case True
  with assms same from_empty show ?thesis
    by (auto simp: verify_consistency_def split: if_splits)
next
  case False
  with assms have mn: "0 < m" "m < n"
    and len: "proof_length m n = Inr (length pf)"
    and inner: "verify_consistency_inner hc m n old_root new_root pf = Inr ()"
    by (auto simp: verify_consistency_def res_simps split: if_splits)
  show ?thesis
  proof (cases "is_power_of_two m")
    case pow: True
    then obtain l where "m = 2 ^ l" by (auto simp: is_power_of_two_iff)
    with power mn len inner pow show ?thesis by (simp add: verify_consistency_inner_def)
  next
    case npow: False
    with general mn inner show ?thesis
      by (auto simp: verify_consistency_inner_def res_simps split: if_splits)
  qed
qed

text \<open>An accepted proof to the root of \<open>E\<close> fixes the old root: it is the root of a prefix.\<close>

lemma consistency_old_root:
  assumes ok: "verify_consistency hc m (length E) r (mth hc e E) pf = Inr ()"
    and pos: "0 < m"
    and size: "length E \<le> u64_max"
    and cf: "collision_free hc A"
    and calls: "mth_calls hc e E \<subseteq> A" "verify_calls hc m (length E) r pf \<subseteq> A"
  shows "r = mth hc e (take m E) \<and> mth_calls hc e (take m E) \<subseteq> A"
  using ok
proof (cases rule: verify_consistency_cases)
  case same
  then show ?thesis using calls(1) by simp
next
  case from_empty
  then show ?thesis using pos by simp
next
  case (power l)
  have sz: "length E \<le> 2 ^ 64" using size by simp
  have root: "foldl hc r pf = foldl hc (mth hc e (take (2 ^ l) E)) (spine hc e E (length E) l)"
    using verify_power_of_2_sound [OF power(4)] spine_root [of "length E" E l hc e] power(1,2) by simp
  have sc: "fold_calls hc (mth hc e (take (2 ^ l) E)) (spine hc e E (length E) l) \<subseteq> A"
    and tc: "mth_calls hc e (take (2 ^ l) E) \<subseteq> A"
    using spine_calls [of "length E" E l hc e] power(1,2) calls(1) by auto
  have vc: "fold_calls hc r pf \<subseteq> A"
    using calls(2) power(1) by (simp add: verify_calls_def is_power_of_two_power)
  have "length pf = length (spine hc e E (length E) l)"
    using power(2,3) sz unfolding power(1) by (subst (asm) proof_length_power [of _ _ hc e E]) simp_all
  then show ?thesis using foldl_collision [OF cf vc sc _ root] power(1) tc by simp
next
  case (general i)
  have "subproof_calls hc m (length E) pf 0 True \<subseteq> A"
    using calls(2) general(3) by (simp add: verify_calls_def)
  then show ?thesis
    using general(1,4) size calls(1) cf by (intro subproof_sound) simp_all
qed

lemma consistency_size: "verify_consistency hc m n r r' pf = Inr () \<Longrightarrow> m \<le> n"
  by (auto simp: verify_consistency_def split: if_splits)

lemma consistency_prefix:
  assumes ok: "verify_consistency hc (length D) (length E) (mth hc e D) (mth hc e E) pf = Inr ()"
    and size: "length E \<le> u64_max"
    and cf: "collision_free hc A"
    and calls: "mth_calls hc e D \<subseteq> A" "mth_calls hc e E \<subseteq> A"
      "verify_calls hc (length D) (length E) (mth hc e D) pf \<subseteq> A"
  shows "D = take (length D) E"
proof (cases "D = []")
  case False
  then have "mth hc e D = mth hc e (take (length D) E) \<and> mth_calls hc e (take (length D) E) \<subseteq> A"
    using ok size cf calls(2,3) by (intro consistency_old_root) simp_all
  then show ?thesis
    using consistency_size [OF ok] by (intro mth_injective [OF cf calls(1)]) simp_all
qed simp


subsection \<open>Completeness\<close>

text \<open>The proof of RFC 6962, section 2.1.2, over the leaf hashes of the new tree.\<close>

function rfc_subproof :: "('h \<Rightarrow> 'h \<Rightarrow> 'h) \<Rightarrow> 'h \<Rightarrow> nat \<Rightarrow> 'h list \<Rightarrow> bool \<Rightarrow> 'h list" where
  "rfc_subproof hc e m D complete =
     (if length D \<le> m then if complete then [] else [mth hc e D]
      else let k = split_point (length D)
           in if m = 0 then []
              else if m \<le> k
              then rfc_subproof hc e m (take k D) complete @ [mth hc e (drop k D)]
              else rfc_subproof hc e (m - k) (drop k D) False @ [mth hc e (take k D)])"
  by pat_completeness auto
termination
proof (relation "measure (\<lambda>(hc, e, m, D, c). length D)", goal_cases)
  case (2 hc e m D c k)
  then show ?case using split_point_bounds(2) [of "length D"] by auto
next
  case (3 hc e m D c k)
  then show ?case using split_point_bounds(1,2) [of "length D"] by auto
qed simp

declare rfc_subproof.simps [simp del]

lemma subproof_length_rfc:
  "0 < m \<Longrightarrow> m \<le> length D \<Longrightarrow> length D \<le> 2 ^ 64 \<Longrightarrow>
    subproof_length m (length D) c = Inr (length (rfc_subproof hc e m D c))"
proof (induction hc e m D c rule: rfc_subproof.induct)
  case (1 hc e m D c)
  show ?case
  proof (cases "m = length D")
    case True
    then show ?thesis by (simp add: subproof_length.simps rfc_subproof.simps)
  next
    case False
    then have lt: "m < length D" using "1.prems" by simp
    note k = split_facts [OF "1.prems"(1) lt "1.prems"(3) refl]
    have len: "length (take (split_point (length D)) D) = split_point (length D)" using k by simp
    show ?thesis
      using lt "1.prems" k "1.IH"
      unfolding subproof_length.simps [of m "length D"] rfc_subproof.simps [of hc e m D]
      by (simp add: Let_def len)
  qed
qed

lemma verify_subproof_complete:
  "0 < m \<Longrightarrow> m \<le> length D \<Longrightarrow> length D \<le> 2 ^ 64 \<Longrightarrow>
    (c \<longrightarrow> m < length D \<and> \<not> is_power_of_two m) \<Longrightarrow>
    verify_subproof hc m (length D) (pre @ rfc_subproof hc e m D c @ post) (length pre) c
      = Inr ((mth hc e (take m D), mth hc e D), length pre + length (rfc_subproof hc e m D c))"
proof (induction hc e m D c arbitrary: post rule: rfc_subproof.induct)
  case (1 hc e m D c)
  show ?case
  proof (cases "m = length D")
    case True
    with "1.prems" show ?thesis by (simp add: verify_subproof.simps rfc_subproof.simps nth_append)
  next
    case False
    then have lt: "m < length D" using "1.prems" by simp
    let ?k = "split_point (length D)"
    note k = split_facts [OF "1.prems"(1) lt "1.prems"(3) refl]
    have two: "2 \<le> length D" using lt "1.prems" by simp
    have nm: "\<not> length D \<le> m" "m \<noteq> 0" "\<not> length D < m" "m \<noteq> length D" using lt "1.prems" by simp_all
    have len: "length (take ?k D) = ?k" using k by simp
    show ?thesis
    proof (cases "m \<le> ?k")
      case True
      have "c \<longrightarrow> m < ?k"
        using True "1.prems"(4) split_point_power [of "length D"]
        by (auto simp: is_power_of_two_power le_less)
      then have "verify_subproof hc m ?k (pre @ rfc_subproof hc e m (take ?k D) c
            @ mth hc e (drop ?k D) # post) (length pre) c
          = Inr ((mth hc e (take m D), mth hc e (take ?k D)),
              length pre + length (rfc_subproof hc e m (take ?k D) c))"
        using "1.IH"(1) [OF nm(1) refl nm(2) True, of "mth hc e (drop ?k D) # post"] True "1.prems" k
        by (simp add: len min_absorb1)
      then show ?thesis
        using nm True k mth_split [OF two, of hc e]
        unfolding verify_subproof.simps [of hc m "length D"] rfc_subproof.simps [of hc e m D]
        by (simp add: Let_def nth_append)
    next
      case False
      have "verify_subproof hc (m - ?k) (length D - ?k) (pre @ rfc_subproof hc e (m - ?k) (drop ?k D) False
            @ mth hc e (take ?k D) # post) (length pre) False
          = Inr ((mth hc e (take (m - ?k) (drop ?k D)), mth hc e (drop ?k D)),
              length pre + length (rfc_subproof hc e (m - ?k) (drop ?k D) False))"
        using "1.IH"(2) [OF nm(1) refl nm(2) False, of "mth hc e (take ?k D) # post"] False "1.prems" k
        by simp
      then show ?thesis
        using nm False k mth_split [OF two, of hc e] mth_take_split(1) [OF two refl refl, of m hc e] lt
        unfolding verify_subproof.simps [of hc m "length D"] rfc_subproof.simps [of hc e m D]
        by (simp add: Let_def nth_append)
    qed
  qed
qed

text \<open>For an old size that is a power of two the RFC proof is the left spine.\<close>

lemma spine_snoc:
  "n = length D \<Longrightarrow> 2 ^ j < n \<Longrightarrow> n \<le> 2 ^ Suc j \<Longrightarrow> l \<le> j \<Longrightarrow>
    spine hc e D n l = spine hc e (take (2 ^ j) D) (2 ^ j) l @ [hash_range hc e D (2 ^ j) n]"
proof (induction hc e D n l rule: spine.induct)
  case (1 hc e D n l)
  have "(2::nat) ^ l \<le> 2 ^ j" using "1.prems"(4) by (rule power_increasing) simp
  then have lt: "2 ^ l < n" using "1.prems"(2) by linarith
  show ?case
  proof (cases "l = j")
    case True
    with "1.prems" show ?thesis
      by (subst spine.simps, subst spine.simps, subst spine.simps) (auto simp: min_absorb2)
  next
    case False
    then have le: "Suc l \<le> j" using "1.prems"(4) by simp
    then have pow: "(2::nat) ^ Suc l \<le> 2 ^ j" by (rule power_increasing) simp
    have small: "(2::nat) ^ l < 2 ^ j" using le by (intro power_strict_increasing) simp_all
    have "hash_range hc e (take (2 ^ j) D) (2 ^ l) (2 ^ Suc l) = hash_range hc e D (2 ^ l) (2 ^ Suc l)"
      using hash_range_append [of "2 ^ Suc l" "take (2 ^ j) D" hc e "drop (2 ^ j) D" "2 ^ l"] pow "1.prems"
      by simp
    moreover have "min (2 ^ Suc l) n = 2 ^ Suc l" using pow "1.prems"(2) by linarith
    moreover have "min (2 ^ Suc l) (2 ^ j) = (2::nat) ^ Suc l" using pow by linarith
    ultimately show ?thesis
      using "1.IH" [OF lt "1.prems"(1-3) le] lt small
      unfolding spine.simps [of hc e D n l] spine.simps [of hc e "take (2 ^ j) D" "2 ^ j" l]
      by (simp del: power_Suc)
  qed
qed

lemma rfc_subproof_spine:
  "2 ^ l \<le> length D \<Longrightarrow> rfc_subproof hc e (2 ^ l) D True = spine hc e D (length D) l"
proof (induction "length D" arbitrary: D rule: less_induct)
  case less
  show ?case
  proof (cases "2 ^ l = length D")
    case True
    then show ?thesis by (subst spine.simps, subst rfc_subproof.simps) simp
  next
    case False
    with less.prems have lt: "2 ^ l < length D" by simp
    have "1 \<le> (2::nat) ^ l" by simp
    with lt have two: "2 \<le> length D" by linarith
    obtain j where j: "split_point (length D) = 2 ^ j" using split_point_power by blast
    note b = split_point_bounds [OF two, unfolded j]
    have "(2::nat) ^ l < 2 ^ Suc j" using lt b(3) by simp
    then have "l < Suc j" by (rule power_less_imp_less_exp [rotated]) simp
    then have "l \<le> j" by simp
    moreover have pow: "(2::nat) ^ l \<le> 2 ^ j" using \<open>l \<le> j\<close> by (rule power_increasing) simp
    moreover have "rfc_subproof hc e (2 ^ l) (take (2 ^ j) D) True
        = spine hc e (take (2 ^ j) D) (length (take (2 ^ j) D)) l"
      using b pow by (intro less.hyps) simp_all
    moreover have "mth hc e (drop (2 ^ j) D) = hash_range hc e D (2 ^ j) (length D)"
      by (simp add: hash_range_def)
    ultimately show ?thesis
      using b lt spine_snoc [of "length D" D j l hc e]
      by (subst rfc_subproof.simps) (simp add: j Let_def min_absorb2)
  qed
qed

definition rfc_proof :: "('h \<Rightarrow> 'h \<Rightarrow> 'h) \<Rightarrow> 'h \<Rightarrow> nat \<Rightarrow> 'h list \<Rightarrow> 'h list" where
  "rfc_proof hc e m D = (if m = 0 then [] else rfc_subproof hc e m D True)"

text \<open>A proof has at most one hash more than the height of the tree.\<close>

lemma rfc_subproof_bound: "length D \<le> 2 ^ j \<Longrightarrow> length (rfc_subproof hc e m D c) \<le> j + 1"
proof (induction hc e m D c arbitrary: j rule: rfc_subproof.induct)
  case (1 hc e m D c)
  show ?case
  proof (cases "length D \<le> m \<or> m = 0")
    case True
    then show ?thesis by (subst rfc_subproof.simps) auto
  next
    case False
    then have two: "2 \<le> length D" by linarith
    then obtain i where j: "j = Suc i" using "1.prems" by (cases j) auto
    let ?k = "split_point (length D)"
    note k = split_point_bounds [OF two]
    obtain l where l: "?k = 2 ^ l" using split_point_power by blast
    have "2 ^ l < (2 :: nat) ^ j" using k(2) "1.prems" l by linarith
    then have "l < j" by (metis nat_power_less_imp_less zero_less_numeral)
    then have "l \<le> i" using j by simp
    then have ki: "?k \<le> 2 ^ i" using l by simp
    show ?thesis
    proof (cases "m \<le> ?k")
      case True
      have "length (rfc_subproof hc e m (take ?k D) c) \<le> i + 1"
        using "1.IH"(1) [OF _ refl _ True, of i] False ki by simp
      then show ?thesis using True False j by (subst rfc_subproof.simps) (simp add: Let_def)
    next
      case gt: False
      have "length (rfc_subproof hc e (m - ?k) (drop ?k D) False) \<le> i + 1"
        using "1.IH"(2) [OF _ refl _ gt, of i] False ki k(3) by simp
      then show ?thesis using gt False j by (subst rfc_subproof.simps) (simp add: Let_def)
    qed
  qed
qed

lemma rfc_proof_bound: "length D \<le> 2 ^ j \<Longrightarrow> length (rfc_proof hc e m D) \<le> j + 1"
  using rfc_subproof_bound [of D j hc e m True] by (simp add: rfc_proof_def)

lemma verify_rfc_proof:
  assumes "m \<le> length D" and "length D \<le> 2 ^ 63" and "m = 0 \<Longrightarrow> e = empty_root_hash"
  shows "verify_consistency hc m (length D) (mth hc e (take m D)) (mth hc e D) (rfc_proof hc e m D) = Inr ()"
proof -
  consider "m = 0" | "m = length D" "m \<noteq> 0" | "0 < m" "m < length D" using assms(1) by linarith
  then show ?thesis
  proof cases
    case 1
    with assms(3) show ?thesis by (simp add: verify_consistency_def rfc_proof_def)
  next
    case 2
    then show ?thesis by (simp add: verify_consistency_def rfc_proof_def rfc_subproof.simps)
  next
    case 3
    have sz: "length D \<le> 2 ^ 64" using assms(2) by simp
    show ?thesis
    proof (cases "is_power_of_two m")
      case True
      then obtain l where l: "m = 2 ^ l" by (auto simp: is_power_of_two_iff)
      then have pf: "rfc_proof hc e (2 ^ l) D = spine hc e D (length D) l"
        using 3 by (simp add: rfc_proof_def rfc_subproof_spine)
      show ?thesis
        using 3 assms(2) sz proof_length_power [of l "length D" hc e D]
          verify_power_of_2_eq [of l "length D" hc e D "spine hc e D (length D) l"]
          spine_root [of "length D" D l hc e] True
        unfolding verify_consistency_def verify_consistency_inner_def l pf by simp
    next
      case False
      then have pf: "rfc_proof hc e m D = rfc_subproof hc e m D True"
        using 3 by (simp add: rfc_proof_def)
      have "proof_length m (length D) = Inr (length (rfc_subproof hc e m D True))"
        using 3 False sz subproof_length_rfc [of m D True hc e] by (simp add: proof_length_def)
      then show ?thesis
        using 3 False sz verify_subproof_complete [of m D True hc "[]" e "[]"]
        unfolding verify_consistency_def verify_consistency_inner_def pf by simp
    qed
  qed
qed


subsection \<open>No abort\<close>

lemma subproof_length_no_panic: "m \<le> n \<Longrightarrow> 0 < m \<Longrightarrow> n \<le> 2 ^ 64 \<Longrightarrow> \<exists>l. subproof_length m n c = Inr l"
  using subproof_length_rfc [of m "replicate n (0::nat)" c "\<lambda>a b. a" 0] by simp

lemma verify_subproof_no_panic:
  "m \<le> n \<Longrightarrow> verify_subproof hc m n pf idx c \<noteq> Inl ProofPanic"
proof (induction hc m n pf idx c rule: verify_subproof.induct)
  case (1 hc m n pf idx c)
  show ?case
  proof (cases "m = n")
    case False
    then have lt: "m < n" using "1.prems" by simp
    then have "largest_power_of_2_less_than n \<le> n" using largest_power_less [of n] by simp
    with False lt "1.IH" show ?thesis
      by (subst verify_subproof.simps)
        (auto simp: Let_def bind_res_Inl_iff split: if_splits)
  qed (subst verify_subproof.simps, simp)
qed

lemma verify_consistency_no_panic:
  assumes "n \<le> 2 ^ 63"
  shows "verify_consistency hc m n old_root new_root pf \<noteq> Inl ProofPanic"
proof (cases "0 < m \<and> m < n")
  case True
  then have mn: "0 < m" "m < n" and sz: "n \<le> 2 ^ 64" using assms by simp_all
  show ?thesis
  proof (cases "is_power_of_two m")
    case pow: True
    then obtain l where l: "m = 2 ^ l" by (auto simp: is_power_of_two_iff)
    have "proof_length m n = Inr (length (spine hc 0 [] n l))"
      using mn sz unfolding l by (intro proof_length_power)
    then show ?thesis
      using mn assms pow verify_power_of_2_eq [of l n hc 0 "[]" pf old_root new_root]
      by (simp add: verify_consistency_def verify_consistency_inner_def l)
  next
    case npow: False
    then obtain len where "proof_length m n = Inr len"
      using mn sz subproof_length_no_panic [of m n True] by (auto simp: proof_length_def)
    with mn npow verify_subproof_no_panic [of m n hc pf 0 True] show ?thesis
      by (auto simp: verify_consistency_def verify_consistency_inner_def bind_res_Inl_iff
          split: if_splits)
  qed
qed (auto simp: verify_consistency_def)


subsection \<open>Properties\<close>

text \<open>
  C3. Soundness of \<open>verify_consistency\<close>: when a proof is accepted for the roots of two lists of
  leaves, the old leaves are a prefix of the new ones, provided no two different pairs collide
  among the pairs that the two roots and the verification hash. This covers every branch: equal
  sizes, the empty old tree, the power-of-two walk and the recursive one.
\<close>

theorem verify_consistency_sound:
  assumes "verify_consistency hc (length D) (length E)
      (mth hc empty_root_hash D) (mth hc empty_root_hash E) pf = Inr ()"
    and "length E \<le> u64_max"
    and "collision_free hc (mth_calls hc empty_root_hash D \<union> mth_calls hc empty_root_hash E
      \<union> verify_calls hc (length D) (length E) (mth hc empty_root_hash D) pf)"
  shows "D = take (length D) E"
  using assms by (intro consistency_prefix [where A = "mth_calls hc empty_root_hash D
      \<union> mth_calls hc empty_root_hash E
      \<union> verify_calls hc (length D) (length E) (mth hc empty_root_hash D) pf"]) auto

theorem verify_consistency_sound_witness:
  "[5, 6, 7] = take 3 [5, 6, 7, 8, 9 :: sha256_hash]"
proof -
  let ?D = "[5, 6, 7] :: sha256_hash list" and ?E = "[5, 6, 7, 8, 9] :: sha256_hash list"
  let ?pf = "rfc_proof demo_hash empty_root_hash 3 ?E"
  have "verify_consistency demo_hash (length ?D) (length ?E)
      (mth demo_hash empty_root_hash ?D) (mth demo_hash empty_root_hash ?E) ?pf = Inr ()"
    by code_simp
  moreover have "length ?E \<le> u64_max" by simp
  moreover have "collision_free demo_hash (mth_calls demo_hash empty_root_hash ?D
      \<union> mth_calls demo_hash empty_root_hash ?E
      \<union> verify_calls demo_hash (length ?D) (length ?E) (mth demo_hash empty_root_hash ?D) ?pf)"
    by code_simp
  ultimately have "?D = take (length ?D) ?E" by (rule verify_consistency_sound)
  then show ?thesis by simp
qed

text \<open>
  Completeness of \<open>verify_consistency\<close>: for every old size of a tree of at most \<open>2 ^ 63\<close>
  leaves, the consistency proof of RFC 6962 is accepted, so an honest log is never refused.
\<close>

lemma verify_consistency_accepts_rfc_proof:
  assumes "m \<le> length D" and "length D \<le> 2 ^ 63"
  shows "verify_consistency hc m (length D) (mth hc empty_root_hash (take m D))
      (mth hc empty_root_hash D) (rfc_proof hc empty_root_hash m D) = Inr ()"
  using assms by (intro verify_rfc_proof) simp_all

text \<open>
  C30. \<open>verify_consistency\<close> returns for every input whose new size is at most \<open>2 ^ 63\<close>: no
  multiplication or subtraction of it overflows and its recursion ends, whatever the claimed
  roots, sizes and proof hashes are.
\<close>

theorem verify_consistency_never_panics:
  assumes "new_size \<le> 2 ^ 63"
  shows "verify_consistency hc old_size new_size old_root new_root pf \<noteq> Inl ProofPanic"
  using assms by (rule verify_consistency_no_panic)

theorem verify_consistency_never_panics_witness:
  "verify_consistency demo_hash 6 (2 ^ 63) 1 2 [3] \<noteq> Inl ProofPanic"
  using verify_consistency_never_panics [of "2 ^ 63" demo_hash 6 1 2 "[3]"] by simp

end
