(* ===== verification/Tile_Codec.thy ===== *)
theory Tile_Codec
  imports Types_Paths
begin

text \<open>
  The two serialised objects of \<^verbatim>\<open>src/merkle/tiles.rs\<close>: a hash tile is the concatenation of its
  32-byte hashes, an entry bundle prefixes every entry with its length in two bytes. Both codecs
  are exact inverses: decoding undoes encoding, and whatever decodes was the encoding of the
  result, so a stored object has one reading only.
\<close>


subsection \<open>Hash tiles\<close>

record hash_tile =
  tile_nodes :: "sha256_hash list"

definition empty_tile :: hash_tile where
  "empty_tile = \<lparr>tile_nodes = []\<rparr>"

definition hash_tile_to_bytes :: "hash_tile \<Rightarrow> byte list" where
  "hash_tile_to_bytes tile = concat (map hash_bytes (tile_nodes tile))"

text \<open>\<open>slice::chunks_exact(n)\<close> for a positive \<open>n\<close>: a short remainder is dropped.\<close>

fun chunks_exact :: "nat \<Rightarrow> 'a list \<Rightarrow> 'a list list" where
  "chunks_exact n xs =
     (if n = 0 \<or> length xs < n then [] else take n xs # chunks_exact n (drop n xs))"

declare chunks_exact.simps [simp del]

definition hash_tile_from_bytes :: "byte list \<Rightarrow> hash_tile res" where
  "hash_tile_from_bytes data =
     (if length data mod 32 \<noteq> 0 then Inl InvalidEntry
      else bind_res (map_res (\<lambda>chunk. ok_or InvalidEntry (try_from_slice chunk)) (chunks_exact 32 data))
             (\<lambda>nodes. Inr \<lparr>tile_nodes = nodes\<rparr>))"


subsection \<open>Entry bundles\<close>

record entry_bundle =
  bundle_entries :: "byte list list"

definition empty_bundle :: entry_bundle where
  "empty_bundle = \<lparr>bundle_entries = []\<rparr>"

definition bundle_push :: "entry_bundle \<Rightarrow> byte list \<Rightarrow> entry_bundle" where
  "bundle_push b d = b\<lparr>bundle_entries := bundle_entries b @ [d]\<rparr>"

fun bundle_encode :: "byte list list \<Rightarrow> byte list \<Rightarrow> byte list res" where
  "bundle_encode [] result = Inr result"
| "bundle_encode (d # ds) result =
     (if u16_max < length d then Inl InvalidEntry
      else bundle_encode ds (result @ be_bytes 2 (length d) @ d))"

definition bundle_to_bytes :: "entry_bundle \<Rightarrow> byte list res" where
  "bundle_to_bytes b = bundle_encode (bundle_entries b) []"

function bundle_decode :: "byte list \<Rightarrow> nat \<Rightarrow> byte list list \<Rightarrow> byte list list res" where
  "bundle_decode data off acc =
     (if off < length data then
        if length data < off + 2 then Inl InvalidEntry
        else let len = be_nat [data ! off, data ! (off + 1)]
             in if length data < off + 2 + len then Inl InvalidEntry
                else bundle_decode data (off + 2 + len) (acc @ [take len (drop (off + 2) data)])
      else Inr acc)"
  by pat_completeness auto
termination
  by (relation "measure (\<lambda>(data, off, acc). length data - off)") auto

declare bundle_decode.simps [simp del]

definition bundle_from_bytes :: "byte list \<Rightarrow> entry_bundle res" where
  "bundle_from_bytes data =
     bind_res (bundle_decode data 0 []) (\<lambda>es. Inr \<lparr>bundle_entries = es\<rparr>)"


subsection \<open>Hash tiles: the codec is exact\<close>

lemma chunks_exact_concat:
  assumes "0 < n" and "\<And>c. c \<in> set cs \<Longrightarrow> length c = n"
  shows "chunks_exact n (concat cs) = cs"
  using assms(2)
proof (induction cs)
  case Nil
  show ?case using assms(1) by (subst chunks_exact.simps) simp
next
  case (Cons c cs)
  then show ?case using assms(1) by (subst chunks_exact.simps) simp
qed

lemma chunks_exact_length: "c \<in> set (chunks_exact n xs) \<Longrightarrow> length c = n"
proof (induction n xs rule: chunks_exact.induct)
  case (1 n xs)
  then show ?case by (subst (asm) (2) chunks_exact.simps) (auto split: if_splits)
qed

lemma concat_chunks_exact: "0 < n \<Longrightarrow> length xs mod n = 0 \<Longrightarrow> concat (chunks_exact n xs) = xs"
proof (induction n xs rule: chunks_exact.induct)
  case (1 n xs)
  show ?case
  proof (cases "length xs < n")
    case True
    with "1.prems" show ?thesis by (subst chunks_exact.simps) simp
  next
    case False
    then have "length (drop n xs) mod n = 0"
      using "1.prems" by (simp add: le_mod_geq)
    with "1" False show ?thesis by (subst chunks_exact.simps) auto
  qed
qed

lemma length_chunks_exact: "0 < n \<Longrightarrow> length (chunks_exact n xs) = length xs div n"
proof (induction n xs rule: chunks_exact.induct)
  case (1 n xs)
  then show ?case by (subst chunks_exact.simps) (auto simp: le_div_geq)
qed

lemma length_hash_tile_to_bytes [simp]:
  "length (hash_tile_to_bytes t) = 32 * length (tile_nodes t)"
  by (simp add: hash_tile_to_bytes_def length_concat comp_def sum_list_triv)

lemma hash_tile_decode_encode: "hash_tile_from_bytes (hash_tile_to_bytes t) = Inr t"
proof -
  have "chunks_exact 32 (hash_tile_to_bytes t) = map hash_bytes (tile_nodes t)"
    unfolding hash_tile_to_bytes_def by (rule chunks_exact_concat) auto
  moreover have "map_res (\<lambda>c. ok_or InvalidEntry (try_from_slice c)) (map hash_bytes hs) = Inr hs"
    for hs by (induction hs) auto
  ultimately show ?thesis by (simp add: hash_tile_from_bytes_def)
qed

lemma concat_hash_bytes_inverse:
  assumes "list_all2 (\<lambda>c h. try_from_slice c = Some h) cs hs"
  shows "concat (map hash_bytes hs) = concat cs"
  using assms
  by (induction rule: list_all2_induct)
    (auto simp: try_from_slice_def hash_bytes_hash_from_bytes split: if_splits)

lemma hash_tile_encode_decode:
  assumes "hash_tile_from_bytes data = Inr t"
  shows "hash_tile_to_bytes t = data"
proof -
  from assms have "length data mod 32 = 0"
    and "list_all2 (\<lambda>c h. try_from_slice c = Some h) (chunks_exact 32 data) (tile_nodes t)"
    by (auto simp: hash_tile_from_bytes_def res_simps split: if_splits)
  then show ?thesis
    by (simp add: hash_tile_to_bytes_def concat_hash_bytes_inverse concat_chunks_exact)
qed

lemma hash_tile_from_bytes_ok_iff: "is_ok (hash_tile_from_bytes data) \<longleftrightarrow> length data mod 32 = 0"
proof
  assume len: "length data mod 32 = 0"
  have "map_res (\<lambda>c. ok_or InvalidEntry (try_from_slice c)) (chunks_exact 32 data)
      = Inr (map hash_from_bytes (chunks_exact 32 data))"
    by (rule map_res_all_ok) (auto simp: try_from_slice_def dest: chunks_exact_length)
  with len show "is_ok (hash_tile_from_bytes data)"
    by (simp add: hash_tile_from_bytes_def)
qed (auto simp: hash_tile_from_bytes_def split: if_splits)


subsection \<open>Entry bundles: the codec is exact\<close>

definition frame :: "byte list \<Rightarrow> byte list" where
  "frame d = be_bytes 2 (length d) @ d"

lemma bundle_encode_eq:
  "bundle_encode ds acc =
     (if list_all (\<lambda>d. length d \<le> u16_max) ds then Inr (acc @ concat (map frame ds))
      else Inl InvalidEntry)"
  by (induction ds arbitrary: acc) (auto simp: frame_def)

lemma bundle_decode_done: "length data \<le> off \<Longrightarrow> bundle_decode data off acc = Inr acc"
  by (subst bundle_decode.simps) simp

lemma two_byte_header: "x < 65536 \<Longrightarrow> be_nat (be_bytes 2 x) = x"
  by (rule be_nat_be_bytes_small) simp

lemma be_bytes_2_nth:
  "[be_bytes 2 x ! 0, be_bytes 2 x ! Suc 0] = be_bytes 2 x"
  using length_be_bytes [of 2 x]
  by (cases "be_bytes 2 x"; cases "tl (be_bytes 2 x)") auto

lemma bundle_decode_frame:
  assumes "length d \<le> u16_max"
  shows "bundle_decode (pre @ frame d @ rest) (length pre) acc
       = bundle_decode (pre @ frame d @ rest) (length (pre @ frame d)) (acc @ [d])"
proof -
  let ?data = "pre @ frame d @ rest"
  have hdr: "be_nat [?data ! length pre, ?data ! (length pre + 1)] = length d"
    using assms by (simp add: frame_def nth_append be_bytes_2_nth two_byte_header)
  have body: "take (length d) (drop (length pre + 2) ?data) = d"
    by (simp add: frame_def)
  have len: "length ?data = length pre + 2 + length d + length rest"
    by (simp add: frame_def)
  have "bundle_decode ?data (length pre) acc
      = bundle_decode ?data (length pre + 2 + length d) (acc @ [d])"
    by (subst bundle_decode.simps) (simp only: hdr body len Let_def if_True if_False, simp)
  then show ?thesis by (simp add: frame_def)
qed

lemma bundle_decode_frames:
  assumes "list_all (\<lambda>d. length d \<le> u16_max) ds"
  shows "bundle_decode (pre @ concat (map frame ds)) (length pre) acc = Inr (acc @ ds)"
  using assms
proof (induction ds arbitrary: pre acc)
  case Nil
  show ?case by (simp add: bundle_decode_done)
next
  case (Cons d ds)
  have "bundle_decode (pre @ concat (map frame (d # ds))) (length pre) acc
      = bundle_decode ((pre @ frame d) @ concat (map frame ds)) (length (pre @ frame d)) (acc @ [d])"
    using bundle_decode_frame [of d pre "concat (map frame ds)" acc] Cons.prems by simp
  also have "\<dots> = Inr ((acc @ [d]) @ ds)"
    using Cons.prems by (intro Cons.IH) simp
  finally show ?case by simp
qed

lemma bundle_decode_encode:
  assumes "bundle_to_bytes b = Inr data"
  shows "bundle_from_bytes data = Inr b"
  using assms bundle_decode_frames [of "bundle_entries b" "[]" "[]"]
  by (auto simp: bundle_to_bytes_def bundle_from_bytes_def bundle_encode_eq split: if_splits)

lemma two_bytes_frame:
  fixes x y :: byte
  shows "be_bytes 2 (be_nat [x, y]) = [x, y]"
  using be_bytes_be_nat [of "[x, y]"] by (simp add: numeral_2_eq_2)

lemma two_bytes_bound:
  fixes x y :: byte
  shows "be_nat [x, y] \<le> u16_max"
  using be_nat_bound [of "[x, y]"] by simp

lemma bundle_decode_sound:
  assumes "bundle_decode data off acc = Inr es" and "off \<le> length data"
  shows "\<exists>ds. es = acc @ ds \<and> drop off data = concat (map frame ds)
    \<and> list_all (\<lambda>d. length d \<le> u16_max) ds"
  using assms
proof (induction data off acc rule: bundle_decode.induct)
  case (1 data off acc)
  show ?case
  proof (cases "off < length data")
    case False
    with "1.prems" show ?thesis by (auto simp: bundle_decode.simps [of data off acc])
  next
    case True
    let ?len = "be_nat [data ! off, data ! (off + 1)]"
    let ?d = "take ?len (drop (off + 2) data)"
    from True "1.prems"(1) have le: "\<not> length data < off + 2" "\<not> length data < off + 2 + ?len"
      and rec: "bundle_decode data (off + 2 + ?len) (acc @ [?d]) = Inr es"
      by (auto simp: bundle_decode.simps [of data off acc] Let_def split: if_splits)
    obtain ds where ds: "es = (acc @ [?d]) @ ds" "drop (off + 2 + ?len) data = concat (map frame ds)"
      "list_all (\<lambda>d. length d \<le> u16_max) ds"
      using "1.IH" [OF True le(1) refl le(2) rec] le by auto
    have len_d: "length ?d = ?len" using le by simp
    have "drop off data = [data ! off, data ! (off + 1)] @ drop (off + 2) data"
      using le True by (simp add: Cons_nth_drop_Suc [symmetric])
    also have "drop (off + 2) data = ?d @ drop (off + 2 + ?len) data"
      using append_take_drop_id [of ?len "drop (off + 2) data"]
      by (simp add: add.commute add.left_commute)
    finally have "drop off data = frame ?d @ concat (map frame ds)"
      unfolding frame_def len_d two_bytes_frame ds(2) by (simp only: append_assoc)
    moreover have "length ?d \<le> u16_max" unfolding len_d by (rule two_bytes_bound)
    ultimately show ?thesis using ds by (intro exI [of _ "?d # ds"]) simp
  qed
qed

lemma bundle_encode_decode:
  assumes "bundle_from_bytes data = Inr b"
  shows "bundle_to_bytes b = Inr data"
proof -
  from assms obtain es where es: "bundle_decode data 0 [] = Inr es" "b = \<lparr>bundle_entries = es\<rparr>"
    by (auto simp: bundle_from_bytes_def res_simps)
  from bundle_decode_sound [OF es(1)] have "data = concat (map frame es)"
    and "list_all (\<lambda>d. length d \<le> u16_max) es" by auto
  with es(2) show ?thesis by (simp add: bundle_to_bytes_def bundle_encode_eq)
qed

subsection \<open>Properties\<close>

text \<open>
  Hash tiles: decoding what \<open>to_bytes\<close> writes gives the tile back, and decoding succeeds exactly
  on data whose length is a multiple of 32 and then re-encodes to the same bytes.
\<close>

theorem hash_tile_roundtrip:
  "hash_tile_from_bytes (hash_tile_to_bytes t) = Inr t
    \<and> (is_ok (hash_tile_from_bytes data) \<longleftrightarrow> length data mod 32 = 0)
    \<and> (case hash_tile_from_bytes data of Inr t' \<Rightarrow> hash_tile_to_bytes t' = data | Inl e \<Rightarrow> True)"
  using hash_tile_decode_encode hash_tile_from_bytes_ok_iff hash_tile_encode_decode
  by (auto split: sum.splits)

text \<open>
  Entry bundles: every bundle that can be encoded decodes to itself, and every byte string that
  decodes is the encoding of its bundle, so the format is unambiguous.
\<close>

lemma bundle_roundtrip:
  "bundle_to_bytes b = Inr data \<longleftrightarrow> bundle_from_bytes data = Inr b"
  using bundle_decode_encode bundle_encode_decode by blast

end
