(* ===== verification/Proof_Gen.thy ===== *)
theory Proof_Gen
  imports Consistency Tile_Codec
begin

unbundle bit_operations_syntax

text \<open>
  Proof generation from tiles, \<^verbatim>\<open>src/merkle/proof.rs\<close>: reading a leaf or the root of a complete
  subtree from a tile, hashing an arbitrary range of leaves, consistency proofs and inclusion
  paths. The trait \<open>TileReader\<close> is a function from level, index and partial size; the locale
  \<open>tile_source\<close> states what a reader promises for a tree, and the correctness of every routine
  is proved from that promise alone. Arithmetic that would overflow \<open>u64\<close> in the source is the
  value \<open>Inl Panic\<close>.
\<close>

type_synonym tile_reader = "nat \<Rightarrow> nat \<Rightarrow> nat \<Rightarrow> hash_tile option res"


subsection \<open>Reading hashes from tiles\<close>

definition read_leaf_hash :: "tile_reader \<Rightarrow> nat \<Rightarrow> nat \<Rightarrow> sha256_hash res" where
  "read_leaf_hash rd index tree_size =
     (let tile_index = index div TILE_WIDTH;
          offset = index mod TILE_WIDTH;
          tile_start = tile_index * TILE_WIDTH
      in if u64_max < tile_start + TILE_WIDTH then Inl Panic
         else if tree_size < tile_start then Inl Panic
         else let partial = (if tree_size < tile_start + TILE_WIDTH
                             then min (tree_size - tile_start) 255 else 0)
              in bind_res (rd 0 tile_index partial)
                   (\<lambda>found. bind_res (ok_or NotFound found)
                      (\<lambda>tile. if length (tile_nodes tile) \<le> offset then Inl NotFound
                              else Inr (tile_nodes tile ! offset))))"

text \<open>One pass of \<open>chunks_exact(2)\<close>: an odd hash at the end is dropped.\<close>

fun hash_pairs :: "hash_fn \<Rightarrow> sha256_hash list \<Rightarrow> sha256_hash list" where
  "hash_pairs hc (a # b # hs) = hc a b # hash_pairs hc hs"
| "hash_pairs hc hs = []"

lemma length_hash_pairs [simp]: "length (hash_pairs hc hs) = length hs div 2"
  by (induction hc hs rule: hash_pairs.induct) auto

function fold_nodes :: "hash_fn \<Rightarrow> sha256_hash list \<Rightarrow> sha256_hash list" where
  "fold_nodes hc nodes = (if 1 < length nodes then fold_nodes hc (hash_pairs hc nodes) else nodes)"
  by pat_completeness auto
termination by (relation "measure (\<lambda>(hc, nodes). length nodes)") auto

declare fold_nodes.simps [simp del]

definition try_read_tile_hash :: "hash_fn \<Rightarrow> tile_reader \<Rightarrow> nat \<Rightarrow> nat \<Rightarrow> nat \<Rightarrow> sha256_hash res" where
  "try_read_tile_hash hc rd level index tree_size =
     (let tile_level = level div 8;
          width = 2 ^ (level mod 8);
          bottom_index = index * 2 ^ (level mod 8);
          tile_index = bottom_index div TILE_WIDTH;
          offset = bottom_index mod TILE_WIDTH;
          partial = partial_tile_size tile_level tile_index tree_size
      in bind_res (tile_level_new tile_level)
           (\<lambda>tl. bind_res (rd tl tile_index partial)
              (\<lambda>found. bind_res (ok_or NotFound found)
                 (\<lambda>tile. if length (tile_nodes tile) < offset + width then Inl NotFound
                         else case fold_nodes hc (take width (drop offset (tile_nodes tile))) of
                                [] \<Rightarrow> Inl Panic | h # _ \<Rightarrow> Inr h))))"

function compute_subtree_hash ::
  "hash_fn \<Rightarrow> tile_reader \<Rightarrow> nat \<Rightarrow> nat \<Rightarrow> nat \<Rightarrow> sha256_hash res" where
  "compute_subtree_hash hc rd start end tree_size =
     (if end < start then Inl Panic
      else let count = end - start
      in if count = 0 then Inl InvalidEntry
         else if count = 1 then read_leaf_hash rd start tree_size
         else if is_power_of_two count \<and> start mod count = 0
         then let level = trailing_zeros 64 count
              in try_read_tile_hash hc rd level (start div 2 ^ level) tree_size
         else let k = largest_power_of_2_less_than count
              in bind_res (compute_subtree_hash hc rd start (start + k) tree_size)
                   (\<lambda>left. bind_res (compute_subtree_hash hc rd (start + k) end tree_size)
                      (\<lambda>right. Inr (hc left right))))"
  by pat_completeness auto
termination
proof (relation "measure (\<lambda>(hc, rd, start, end, n). end - start)", goal_cases)
  case (2 hc rd start "end" n count k)
  then show ?case using largest_power_less [of count] by auto
next
  case (3 hc rd start "end" n count k)
  then show ?case using largest_power_less [of count] largest_power_pos [of count] by auto
qed simp

declare compute_subtree_hash.simps [simp del]


subsection \<open>Consistency proofs\<close>

function path_siblings ::
  "hash_fn \<Rightarrow> tile_reader \<Rightarrow> nat \<Rightarrow> nat \<Rightarrow> nat \<Rightarrow> sha256_hash list res" where
  "path_siblings hc rd new_size level path_idx =
     (if 64 \<le> level then Inl Panic
      else if 2 ^ level < new_size then
        let subtree_size = 2 ^ level;
            sibling_idx = path_idx XOR 1;
            sibling_start = sibling_idx * subtree_size
        in if u64_max < sibling_start then Inl Panic
           else bind_res
             (if sibling_start < new_size then
                if u64_max < sibling_start + subtree_size then Inl Panic
                else bind_res (compute_subtree_hash hc rd sibling_start
                       (min (sibling_start + subtree_size) new_size) new_size) (\<lambda>h. Inr [h])
              else Inr [])
             (\<lambda>here. bind_res (path_siblings hc rd new_size (level + 1) (path_idx div 2))
                (\<lambda>above. Inr (here @ above)))
      else Inr [])"
  by pat_completeness auto
termination by (relation "measure (\<lambda>(hc, rd, n, level, idx). 64 - level)") auto

declare path_siblings.simps [simp del]

text \<open>\<open>subproof\<close> returns the hash of its range and appends to the proof it is given.\<close>

function subproof ::
  "hash_fn \<Rightarrow> tile_reader \<Rightarrow> nat \<Rightarrow> nat \<Rightarrow> nat \<Rightarrow> nat \<Rightarrow> bool \<Rightarrow> sha256_hash list
    \<Rightarrow> (sha256_hash \<times> sha256_hash list) res" where
  "subproof hc rd m n base tree_size complete pf =
     (if n < m then Inl Panic
      else if m = n then
        bind_res (compute_subtree_hash hc rd base (base + m) tree_size)
          (\<lambda>h. Inr (h, if complete then pf else pf @ [h]))
      else let k = largest_power_of_2_less_than n
           in if m \<le> k then
                bind_res (subproof hc rd m k base tree_size complete pf)
                  (\<lambda>(left_hash, pf').
                     bind_res (compute_subtree_hash hc rd (base + k) (base + n) tree_size)
                       (\<lambda>right_hash. Inr (hc left_hash right_hash, pf' @ [right_hash])))
              else
                bind_res (compute_subtree_hash hc rd base (base + k) tree_size)
                  (\<lambda>left_hash.
                     bind_res (subproof hc rd (m - k) (n - k) (base + k) tree_size False pf)
                       (\<lambda>(right_hash, pf'). Inr (hc left_hash right_hash, pf' @ [left_hash]))))"
  by pat_completeness auto
termination
  by (relation "measure (\<lambda>(hc, rd, m, n, base, ts, c, pf). n)") (auto dest: split_shrinks)

declare subproof.simps [simp del]

definition proof_nodes ::
  "hash_fn \<Rightarrow> tile_reader \<Rightarrow> nat \<Rightarrow> nat \<Rightarrow> bool \<Rightarrow> sha256_hash list res" where
  "proof_nodes hc rd old_size new_size start_from_old_root =
     (if is_power_of_two old_size
      then path_siblings hc rd new_size (trailing_zeros 64 old_size) 0
      else bind_res (subproof hc rd old_size new_size 0 new_size start_from_old_root [])
             (\<lambda>(h, pf). Inr pf))"

definition generate_consistency_proof_simple ::
  "hash_fn \<Rightarrow> tile_reader \<Rightarrow> nat \<Rightarrow> nat \<Rightarrow> sha256_hash list res" where
  "generate_consistency_proof_simple hc rd old_size new_size =
     (if old_size = 0 \<or> old_size = new_size then Inr []
      else if new_size < old_size then Inl InvalidEntry
      else proof_nodes hc rd old_size new_size True)"


subsection \<open>Inclusion paths\<close>

function inclusion_ranges :: "nat \<Rightarrow> nat \<Rightarrow> nat \<Rightarrow> (nat \<times> nat) list \<Rightarrow> (nat \<times> nat) list" where
  "inclusion_ranges index start end siblings =
     (if 1 < end - start then
        let split = start + largest_power_of_2_less_than (end - start)
        in if index < split
           then inclusion_ranges index start split (siblings @ [(split, end)])
           else inclusion_ranges index split end (siblings @ [(start, split)])
      else siblings)"
  by pat_completeness auto
termination
proof (relation "measure (\<lambda>(index, start, end, s). end - start)", goal_cases)
  case (2 index start "end" siblings split)
  then show ?case using largest_power_less [of "end - start"] by auto
next
  case (3 index start "end" siblings split)
  then show ?case
    using largest_power_less [of "end - start"] largest_power_pos [of "end - start"] by auto
qed simp

declare inclusion_ranges.simps [simp del]

definition generate_inclusion_proof ::
  "hash_fn \<Rightarrow> tile_reader \<Rightarrow> nat \<Rightarrow> nat \<Rightarrow> sha256_hash list res" where
  "generate_inclusion_proof hc rd index tree_size =
     (if tree_size \<le> index then Inl InvalidEntry
      else map_res (\<lambda>(start, end). compute_subtree_hash hc rd start end tree_size)
             (rev (inclusion_ranges index 0 tree_size [])))"


subsection \<open>Folding a row of nodes\<close>

text \<open>The row of \<open>2 ^ w\<close> nodes below node \<open>i\<close> of level \<open>l + w\<close> folds to that node.\<close>

lemma hash_pairs_row:
  "hash_pairs hc (map f [0..<2 * c]) = map (\<lambda>j. hc (f (2 * j)) (f (2 * j + 1))) [0..<c]"
proof (induction c arbitrary: f)
  case (Suc c)
  have row: "[0..<2 * Suc c] = 0 # 1 # map (\<lambda>j. j + 2) [0..<2 * c]"
    by (rule nth_equalityI) (auto simp: nth_Cons' simp del: upt_Suc)
  have col: "[0..<Suc c] = 0 # map Suc [0..<c]"
    by (simp add: upt_conv_Cons map_Suc_upt)
  show ?case
    unfolding row col using Suc.IH [of "\<lambda>j. f (j + 2)"] by (simp add: comp_def)
qed simp

lemma fold_nodes_row:
  "(i + 1) * 2 ^ (l + w) \<le> length D \<Longrightarrow>
    fold_nodes hc (map (\<lambda>j. node_hash hc e D l (i * 2 ^ w + j)) [0..<2 ^ w]) = [node_hash hc e D (l + w) i]"
proof (induction w arbitrary: l)
  case 0
  then show ?case by (subst fold_nodes.simps) simp
next
  case (Suc w)
  have node: "hc (node_hash hc e D l (2 * (i * 2 ^ w + j))) (node_hash hc e D l (2 * (i * 2 ^ w + j) + 1))
      = node_hash hc e D (Suc l) (i * 2 ^ w + j)" if "j < 2 ^ w" for j
  proof (rule node_hash_Suc [symmetric])
    have "(i * 2 ^ w + j + 1) * 2 ^ Suc l \<le> ((i + 1) * 2 ^ w) * 2 ^ Suc l"
      using that by (intro mult_right_mono) simp_all
    also have "\<dots> = (i + 1) * 2 ^ (l + Suc w)" by (simp add: power_add algebra_simps)
    finally show "(i * 2 ^ w + j + 1) * 2 ^ Suc l \<le> length D" using Suc.prems by simp
  qed
  have "fold_nodes hc (map (\<lambda>j. node_hash hc e D l (i * 2 ^ Suc w + j)) [0..<2 * 2 ^ w])
      = fold_nodes hc (map (\<lambda>j. node_hash hc e D (Suc l) (i * 2 ^ w + j)) [0..<2 ^ w])"
  proof -
    have "1 < length (map (\<lambda>j. node_hash hc e D l (i * 2 ^ Suc w + j)) [0..<2 * 2 ^ w])"
      using one_le_power [of "2::nat" w] unfolding length_map length_upt by linarith
    then show ?thesis
      by (subst fold_nodes.simps, simp only: hash_pairs_row if_True)
        (rule arg_cong [where f = "fold_nodes hc"], use node in \<open>auto simp: algebra_simps\<close>)
  qed
  also have "\<dots> = [node_hash hc e D (Suc l + w) i]" using Suc.prems by (intro Suc.IH) simp
  finally show ?case by simp
qed

lemma aligned_offset:
  assumes "w < 8"
  shows "(index * 2 ^ w) mod 256 + 2 ^ w \<le> (256::nat)"
proof -
  have p: "(256::nat) = 2 ^ (8 - w) * 2 ^ w" using assms by (simp flip: power_add)
  have "(index * 2 ^ w) mod 256 = (index mod 2 ^ (8 - w)) * (2::nat) ^ w"
    unfolding p by (rule mod_mult_mult2)
  moreover have "(index mod 2 ^ (8 - w) + 1) * 2 ^ w \<le> 2 ^ (8 - w) * (2::nat) ^ w"
    by (intro mult_right_mono) (simp_all add: Suc_leI)
  ultimately show ?thesis using p by (simp only: add_mult_distrib mult_1)
qed


text \<open>
  The audit path of RFC 6962, section 2.1.1, and the root a verifier computes from a leaf and
  such a path.
\<close>

function rfc_path :: "('h \<Rightarrow> 'h \<Rightarrow> 'h) \<Rightarrow> 'h \<Rightarrow> nat \<Rightarrow> 'h list \<Rightarrow> 'h list" where
  "rfc_path hc e m D =
     (if length D \<le> 1 then []
      else let k = split_point (length D)
           in if m < k then rfc_path hc e m (take k D) @ [mth hc e (drop k D)]
              else rfc_path hc e (m - k) (drop k D) @ [mth hc e (take k D)])"
  by pat_completeness auto
termination
proof (relation "measure (\<lambda>(hc, e, m, D). length D)", goal_cases)
  case (2 hc e m D k)
  then show ?case using split_point_bounds(2) [of "length D"] by auto
next
  case (3 hc e m D k)
  then show ?case using split_point_bounds(1,2) [of "length D"] by auto
qed simp

declare rfc_path.simps [simp del]

function path_root :: "('h \<Rightarrow> 'h \<Rightarrow> 'h) \<Rightarrow> nat \<Rightarrow> nat \<Rightarrow> 'h \<Rightarrow> 'h list \<Rightarrow> 'h" where
  "path_root hc m n leaf path =
     (if n \<le> 1 \<or> path = [] then leaf
      else let k = split_point n
           in if m < k then hc (path_root hc m k leaf (butlast path)) (last path)
              else hc (last path) (path_root hc (m - k) (n - k) leaf (butlast path)))"
  by pat_completeness auto
termination by (relation "measure (\<lambda>(hc, m, n, leaf, path). length path)") auto

declare path_root.simps [simp del]

lemma path_root_rfc_path:
  "m < length D \<Longrightarrow> path_root hc m (length D) (D ! m) (rfc_path hc e m D) = mth hc e D"
proof (induction hc e m D rule: rfc_path.induct)
  case (1 hc e m D)
  show ?case
  proof (cases "length D \<le> 1")
    case True
    with "1.prems" obtain x where "D = [x]" "m = 0" by (cases D) auto
    then show ?thesis by (simp add: path_root.simps)
  next
    case False
    let ?k = "split_point (length D)"
    have two: "2 \<le> length D" using False by simp
    note k = split_point_bounds [OF two]
    show ?thesis
    proof (cases "m < ?k")
      case True
      then have "path_root hc m ?k (D ! m) (rfc_path hc e m (take ?k D)) = mth hc e (take ?k D)"
        using "1.IH"(1) [OF False refl True] k by simp
      then show ?thesis
        using True two mth_split [OF two, of hc e]
        by (subst rfc_path.simps, subst path_root.simps) (simp add: Let_def)
    next
      case ge: False
      then have "path_root hc (m - ?k) (length D - ?k) (D ! m) (rfc_path hc e (m - ?k) (drop ?k D))
          = mth hc e (drop ?k D)"
        using "1.IH"(2) [OF False refl ge] k "1.prems" by simp
      then show ?thesis
        using ge two mth_split [OF two, of hc e]
        by (subst rfc_path.simps, subst path_root.simps) (simp add: Let_def)
    qed
  qed
qed

text \<open>The ranges of the loop, read from the leaf upwards, are those of the audit path.\<close>

definition ranges_ok :: "nat \<Rightarrow> (nat \<times> nat) list \<Rightarrow> bool" where
  "ranges_ok n rs \<longleftrightarrow> list_all (\<lambda>(a, b). a < b \<and> b \<le> n) rs"

lemma inclusion_ranges_path:
  "a \<le> index \<Longrightarrow> index < b \<Longrightarrow> b \<le> length D \<Longrightarrow> length D \<le> 2 ^ 64 \<Longrightarrow> ranges_ok (length D) acc \<Longrightarrow>
    ranges_ok (length D) (inclusion_ranges index a b acc) \<and>
    map (\<lambda>(x, y). hash_range hc e D x y) (rev (inclusion_ranges index a b acc))
      = rfc_path hc e (index - a) (take (b - a) (drop a D))
        @ map (\<lambda>(x, y). hash_range hc e D x y) (rev acc)"
proof (induction index a b acc rule: inclusion_ranges.induct)
  case (1 index a b acc)
  show ?case
  proof (cases "1 < b - a")
    case False
    then show ?thesis
      using "1.prems" by (subst (1 2) inclusion_ranges.simps, subst rfc_path.simps) simp
  next
    case True
    let ?k = "split_point (b - a)"
    have lk: "largest_power_of_2_less_than (b - a) = ?k"
      using True "1.prems" by (intro largest_power_eq) auto
    have k: "0 < ?k" "?k < b - a" using split_point_bounds [of "b - a"] True by auto
    have len: "length (take (b - a) (drop a D)) = b - a" using "1.prems" by simp
    have tk: "take ?k (take (b - a) (drop a D)) = take ?k (drop a D)"
      "drop ?k (take (b - a) (drop a D)) = take (b - (a + ?k)) (drop (a + ?k) D)"
      using k by (simp_all add: min_absorb1 drop_take add.commute)
    have hl: "mth hc e (take ?k (drop a D)) = hash_range hc e D a (a + ?k)"
      and hr: "mth hc e (take (b - (a + ?k)) (drop (a + ?k) D)) = hash_range hc e D (a + ?k) b"
      by (simp_all add: hash_range_def)
    note path = rfc_path.simps [of hc e "index - a" "take (b - a) (drop a D)", unfolded len tk hl hr Let_def]
    show ?thesis
    proof (cases "index < a + ?k")
      case lt: True
      then have "index - a < ?k" using "1.prems"(1) by simp
      then show ?thesis
        using "1.IH"(1) [OF True refl, unfolded lk, OF lt] "1.prems" k True lt
        unfolding path inclusion_ranges.simps [of index a b] lk Let_def
        by (simp add: ranges_ok_def)
    next
      case ge: False
      then have "\<not> index - a < ?k" "index - a - ?k = index - (a + ?k)" by simp_all
      then show ?thesis
        using "1.IH"(2) [OF True refl, unfolded lk, OF ge] "1.prems" k True ge
        unfolding path inclusion_ranges.simps [of index a b] lk Let_def
        by (simp add: ranges_ok_def)
    qed
  qed
qed


subsection \<open>What a tile source promises\<close>

text \<open>
  The bottom row of tile \<open>i\<close> at tile level \<open>l\<close> of a tree: the complete subtrees of \<open>256 ^ l\<close>
  leaves from \<open>256 i\<close> on, 256 of them or as many as the tree has. A tile may hold more hashes
  after its bottom row, up to the 511 nodes of a tree of height 8.
\<close>

definition row_count :: "nat \<Rightarrow> nat \<Rightarrow> nat \<Rightarrow> nat" where
  "row_count n l i = min 256 (n div 256 ^ l - i * 256)"

definition row_ok :: "hash_fn \<Rightarrow> sha256_hash list \<Rightarrow> nat \<Rightarrow> nat \<Rightarrow> sha256_hash list \<Rightarrow> bool" where
  "row_ok hc D l i nodes \<longleftrightarrow>
     row_count (length D) l i \<le> length nodes \<and> length nodes \<le> 511 \<and>
     (\<forall>j < row_count (length D) l i. nodes ! j = node_hash hc empty_root_hash D (8 * l) (i * 256 + j))"

locale tile_source =
  fixes hc :: hash_fn
    and read_tile :: "'s \<Rightarrow> tile_reader"
    and serves :: "'s \<Rightarrow> sha256_hash list \<Rightarrow> bool"
  assumes serves_size: "serves s D \<Longrightarrow> length D \<le> i64_max"
    and serves_tile: "serves s D \<Longrightarrow> l < 8 \<Longrightarrow> i * 256 < length D div 256 ^ l \<Longrightarrow>
      \<exists>tile. read_tile s l i (partial_tile_size l i (length D)) = Inr (Some tile)
        \<and> row_ok hc D l i (tile_nodes tile)"
begin

lemma read_leaf_hash_ok:
  assumes "serves s D" and "index < length D"
  shows "read_leaf_hash (read_tile s) index (length D) = Inr (D ! index)"
proof -
  let ?n = "length D" and ?i = "index div 256"
  have i: "?i * 256 < ?n" using assms(2) by linarith
  then obtain tile where tile: "read_tile s 0 ?i (partial_tile_size 0 ?i ?n) = Inr (Some tile)"
    and row: "row_ok hc D 0 ?i (tile_nodes tile)"
    using serves_tile [OF assms(1), of 0 ?i] by auto
  have off: "index mod 256 < row_count ?n 0 ?i" 
    using assms(2) by (simp add: row_count_def less_diff_conv)
  then have node: "tile_nodes tile ! (index mod 256) = D ! index" "index mod 256 < length (tile_nodes tile)"
    using row assms(2) by (auto simp: row_ok_def node_hash_leaf)
  have part: "partial_tile_size 0 ?i ?n = (if ?n < ?i * 256 + 256 then min (?n - ?i * 256) 255 else 0)"
  proof (cases "?n < ?i * 256 + 256")
    case True
    then have "?n div 256 = ?i" using i by linarith
    then show ?thesis using True i by (simp add: partial_tile_size_eq minus_div_mult_eq_mod [symmetric])
  next
    case False
    then have "?i < ?n div 256" by linarith
    then show ?thesis using False by (simp add: partial_tile_size_eq)
  qed
  show ?thesis
    using serves_size [OF assms(1)] i tile node unfolding part
    by (simp add: read_leaf_hash_def TILE_WIDTH_def)
qed

lemma try_read_tile_hash_ok:
  assumes "serves s D" and "level < 64" and "(index + 1) * 2 ^ level \<le> length D"
  shows "try_read_tile_hash hc (read_tile s) level index (length D)
    = Inr (node_hash hc empty_root_hash D level index)"
proof -
  define l w where "l = level div 8" and "w = level mod 8"
  define b where "b = index * 2 ^ w"
  define i off where "i = b div 256" and "off = b mod 256"
  have level: "8 * l + w = level" and l: "l < 8" and w: "w < 8"
    using assms(2) by (auto simp: l_def w_def)
  have "2 ^ level = 256 ^ l * (2::nat) ^ w"
    by (simp flip: level pow_256_eq add: power_add mult.commute)
  then have "(b + 2 ^ w) * 256 ^ l \<le> length D"
    using assms(3) by (simp add: b_def algebra_simps)
  then have bound: "b + 2 ^ w \<le> length D div 256 ^ l" by (simp add: less_eq_div_iff_mult_less_eq)
  have bi: "b = i * 256 + off" by (simp add: i_def off_def)
  have one: "1 \<le> (2::nat) ^ w" by simp
  have fit: "off + 2 ^ w \<le> row_count (length D) l i"
    using bound aligned_offset [OF w, of index] bi by (simp add: row_count_def off_def b_def)
  have "i * 256 < length D div 256 ^ l" using bound bi one by linarith
  then obtain tile where tile: "read_tile s l i (partial_tile_size l i (length D)) = Inr (Some tile)"
    and row: "row_ok hc D l i (tile_nodes tile)"
    using serves_tile [OF assms(1) l] by blast
  have len: "off + 2 ^ w \<le> length (tile_nodes tile)" using fit row by (simp add: row_ok_def)
  have "take (2 ^ w) (drop off (tile_nodes tile))
      = map (\<lambda>j. node_hash hc empty_root_hash D (8 * l) (index * 2 ^ w + j)) [0..<2 ^ w]"
    using len fit row
    by (intro nth_equalityI) (auto simp: row_ok_def b_def [symmetric] bi add.assoc)
  then have "fold_nodes hc (take (2 ^ w) (drop off (tile_nodes tile)))
      = [node_hash hc empty_root_hash D level index]"
    using fold_nodes_row [of index "8 * l" w D hc empty_root_hash] assms(3) level by simp
  moreover have "tile_level_new l = Inr l" using l by (simp add: tile_level_new_def)
  ultimately show ?thesis
    using tile len
    unfolding try_read_tile_hash_def TILE_WIDTH_def l_def [symmetric] w_def [symmetric]
      b_def [symmetric] i_def [symmetric] off_def [symmetric]
    by (simp add: Let_def not_less flip: i_def off_def)
qed

lemma compute_subtree_hash_ok:
  assumes "serves s D" and "a < b" and "b \<le> length D"
  shows "compute_subtree_hash hc (read_tile s) a b (length D) = Inr (hash_range hc empty_root_hash D a b)"
  using assms(2,3)
proof (induction "b - a" arbitrary: a b rule: less_induct)
  case less
  let ?c = "b - a"
  have sz: "?c \<le> 2 ^ 64" using serves_size [OF assms(1)] less.prems by simp
  consider "?c = 1" | "2 \<le> ?c" "is_power_of_two ?c" "a mod ?c = 0"
    | "2 \<le> ?c" "\<not> (is_power_of_two ?c \<and> a mod ?c = 0)" using less.prems by linarith
  then show ?case
  proof cases
    case 1
    then have "b = Suc a" by simp
    then show ?thesis
      using read_leaf_hash_ok [OF assms(1), of a] less.prems
      by (subst compute_subtree_hash.simps) (simp add: hash_range_single)
  next
    case 2
    then obtain lv where lv: "?c = 2 ^ lv" by (auto simp: is_power_of_two_iff)
    have "(2::nat) ^ lv < 2 ^ 64" using serves_size [OF assms(1)] less.prems unfolding lv [symmetric] by simp
    then have lv64: "lv < 64" by (rule power_less_imp_less_exp [rotated]) simp
    define i where "i = a div 2 ^ lv"
    have a: "a = i * 2 ^ lv" using 2(3) unfolding lv i_def by (simp add: mod_0_imp_dvd)
    have b: "b = (i + 1) * 2 ^ lv" using a lv less.prems by (simp add: algebra_simps)
    have "compute_subtree_hash hc (read_tile s) a b (length D)
        = try_read_tile_hash hc (read_tile s) lv i (length D)"
      using 2 less.prems(1)
      by (subst compute_subtree_hash.simps)
        (auto simp: lv is_power_of_two_power trailing_zeros_power i_def Let_def)
    also have "\<dots> = Inr (node_hash hc empty_root_hash D lv i)"
      using less.prems b lv64 by (intro try_read_tile_hash_ok [OF assms(1)]) simp_all
    finally show ?thesis by (simp only: hash_range_node [OF a b])
  next
    case 3
    let ?k = "largest_power_of_2_less_than ?c"
    have k: "0 < ?k" "?k < ?c" "?c \<le> 2 * ?k"
      using largest_power_eq [OF 3(1) sz] split_point_bounds [OF 3(1)] by simp_all
    obtain j where j: "?k = 2 ^ j" using largest_power_eq [OF 3(1) sz] split_point_power by metis
    have "compute_subtree_hash hc (read_tile s) a (a + ?k) (length D)
        = Inr (hash_range hc empty_root_hash D a (a + ?k))"
      using k less.prems by (intro less.hyps) auto
    moreover have "compute_subtree_hash hc (read_tile s) (a + ?k) b (length D)
        = Inr (hash_range hc empty_root_hash D (a + ?k) b)"
      using k less.prems by (intro less.hyps) auto
    moreover have "hash_range hc empty_root_hash D a b
        = hc (hash_range hc empty_root_hash D a (a + ?k)) (hash_range hc empty_root_hash D (a + ?k) b)"
      using k less.prems unfolding j by (intro hash_range_split) auto
    ultimately show ?thesis
      using 3 less.prems by (subst compute_subtree_hash.simps) (auto simp: Let_def)
  qed
qed

lemma path_siblings_ok:
  assumes "serves s D"
  shows "2 ^ level \<le> length D \<Longrightarrow> level < 64 \<Longrightarrow>
    path_siblings hc (read_tile s) (length D) level 0 = Inr (spine hc empty_root_hash D (length D) level)"
proof (induction "64 - level" arbitrary: level)
  case (Suc d)
  show ?case
  proof (cases "2 ^ level < length D")
    case False
    then show ?thesis
      using Suc.prems by (subst path_siblings.simps, subst spine.simps) simp
  next
    case True
    then have "(2::nat) ^ level < 2 ^ 63" using serves_size [OF assms] by simp
    then have lv: "level < 63" by (rule power_less_imp_less_exp [rotated]) simp
    then have "Suc level \<le> 63" by simp
    then have "(2::nat) ^ Suc level \<le> 2 ^ 63" by (rule power_increasing) simp
    then have no: "\<not> u64_max < (2::nat) ^ level + 2 ^ level" "\<not> u64_max < (2::nat) ^ level" by simp_all
    have sib: "compute_subtree_hash hc (read_tile s) (2 ^ level) (min (2 ^ level + 2 ^ level) (length D)) (length D)
        = Inr (hash_range hc empty_root_hash D (2 ^ level) (min (2 ^ Suc level) (length D)))"
      using True by (subst compute_subtree_hash_ok [OF assms]) (simp_all add: mult_2)
    have rest: "path_siblings hc (read_tile s) (length D) (Suc level) 0
        = Inr (spine hc empty_root_hash D (length D) (Suc level))"
    proof (cases "2 ^ Suc level \<le> length D")
      case True
      then show ?thesis using Suc.hyps lv by simp
    next
      case False
      then show ?thesis
        using lv by (subst path_siblings.simps, subst spine.simps) simp
    qed
    show ?thesis
      using True lv no sib rest
      by (subst path_siblings.simps, subst spine.simps) (simp add: Let_def)
  qed
qed simp

lemma subproof_ok:
  assumes "serves s D"
  shows "0 < m \<Longrightarrow> m \<le> n \<Longrightarrow> base + n \<le> length D \<Longrightarrow>
    subproof hc (read_tile s) m n base (length D) c pf
      = Inr (hash_range hc empty_root_hash D base (base + n),
             pf @ rfc_subproof hc empty_root_hash m (take n (drop base D)) c)"
proof (induction n arbitrary: m base c pf rule: less_induct)
  case (less n)
  let ?D = "take n (drop base D)"
  have len: "length ?D = n" using less.prems by simp
  note hash = compute_subtree_hash_ok [OF assms]
  show ?case
  proof (cases "m = n")
    case True
    then show ?thesis
      using less.prems hash [of base "base + n"]
      by (subst subproof.simps, subst rfc_subproof.simps) (auto simp: hash_range_def)
  next
    case False
    then have lt: "m < n" using less.prems by simp
    have sz: "n \<le> 2 ^ 64" using serves_size [OF assms] less.prems by simp
    let ?k = "split_point n"
    note k = split_facts [OF less.prems(1) lt sz refl]
    have tk: "take ?k ?D = take ?k (drop base D)" "drop ?k ?D = take (n - ?k) (drop (base + ?k) D)"
      using k by (simp_all add: min_absorb1 drop_take add.commute)
    have hl: "compute_subtree_hash hc (read_tile s) base (base + ?k) (length D)
        = Inr (mth hc empty_root_hash (take ?k (drop base D)))"
      and hr: "compute_subtree_hash hc (read_tile s) (base + ?k) (base + n) (length D)
        = Inr (mth hc empty_root_hash (take (n - ?k) (drop (base + ?k) D)))"
      using k less.prems hash [of base "base + ?k"] hash [of "base + ?k" "base + n"]
      by (simp_all add: hash_range_def)
    have "2 \<le> length ?D" using lt less.prems len by simp
    then have root: "hash_range hc empty_root_hash D base (base + n)
        = hc (mth hc empty_root_hash (take ?k (drop base D)))
            (mth hc empty_root_hash (take (n - ?k) (drop (base + ?k) D)))"
      using mth_split [of ?D hc empty_root_hash] unfolding len tk by (simp add: hash_range_def)
    show ?thesis
    proof (cases "m \<le> ?k")
      case True
      then have "subproof hc (read_tile s) m ?k base (length D) c pf
          = Inr (mth hc empty_root_hash (take ?k (drop base D)),
              pf @ rfc_subproof hc empty_root_hash m (take ?k (drop base D)) c)"
        using less.IH [of ?k m base c pf] k less.prems by (simp add: hash_range_def)
      then show ?thesis
        using True lt less.prems(1) k hr root
        unfolding subproof.simps [of _ _ m n] rfc_subproof.simps [of _ _ m ?D] len tk Let_def
        by simp
    next
      case False
      then have "subproof hc (read_tile s) (m - ?k) (n - ?k) (base + ?k) (length D) False pf
          = Inr (mth hc empty_root_hash (take (n - ?k) (drop (base + ?k) D)),
              pf @ rfc_subproof hc empty_root_hash (m - ?k) (take (n - ?k) (drop (base + ?k) D)) False)"
        using less.IH [of "n - ?k" "m - ?k" "base + ?k" False pf] k less.prems
        by (simp add: hash_range_def)
      then show ?thesis
        using False lt less.prems(1) k hl root
        unfolding subproof.simps [of _ _ m n] rfc_subproof.simps [of _ _ m ?D] len tk Let_def
        by simp
    qed
  qed
qed

lemma generate_consistency_ok:
  assumes "serves s D" and "m \<le> length D"
  shows "generate_consistency_proof_simple hc (read_tile s) m (length D) = Inr (rfc_proof hc empty_root_hash m D)"
proof -
  consider "m = 0" | "m = length D" "m \<noteq> 0" | "0 < m" "m < length D" using assms(2) by linarith
  then show ?thesis
  proof cases
    case 3
    show ?thesis
    proof (cases "is_power_of_two m")
      case True
      then obtain l where l: "m = 2 ^ l" by (auto simp: is_power_of_two_iff)
      have "(2::nat) ^ l < 2 ^ 64" using 3 serves_size [OF assms(1)] unfolding l by simp
      then have "l < 64" by (rule power_less_imp_less_exp [rotated]) simp
      then show ?thesis
        using 3 l path_siblings_ok [OF assms(1), of l] rfc_subproof_spine [of l D hc empty_root_hash]
        by (simp add: generate_consistency_proof_simple_def proof_nodes_def rfc_proof_def
            is_power_of_two_power trailing_zeros_power)
    next
      case False
      then show ?thesis
        using 3 subproof_ok [OF assms(1), of m "length D" 0 True "[]"]
        by (simp add: generate_consistency_proof_simple_def proof_nodes_def rfc_proof_def)
    qed
  qed (simp_all add: generate_consistency_proof_simple_def rfc_proof_def rfc_subproof.simps)
qed

lemma generate_inclusion_ok:
  assumes "serves s D" and "index < length D"
  shows "generate_inclusion_proof hc (read_tile s) index (length D) = Inr (rfc_path hc empty_root_hash index D)"
proof -
  let ?rs = "inclusion_ranges index 0 (length D) []"
  have ranges: "ranges_ok (length D) ?rs"
    and path: "map (\<lambda>(x, y). hash_range hc empty_root_hash D x y) (rev ?rs) = rfc_path hc empty_root_hash index D"
    using inclusion_ranges_path [of 0 index "length D" D "[]" hc empty_root_hash] assms(2)
      serves_size [OF assms(1)] by (simp_all add: ranges_ok_def)
  have "map_res (\<lambda>(a, b). compute_subtree_hash hc (read_tile s) a b (length D)) (rev ?rs)
      = Inr (map (\<lambda>(x, y). hash_range hc empty_root_hash D x y) (rev ?rs))"
    using ranges compute_subtree_hash_ok [OF assms(1)]
    by (intro map_res_all_ok) (auto simp: ranges_ok_def list_all_iff)
  then show ?thesis using assms(2) path by (simp add: generate_inclusion_proof_def)
qed

end

end
