(* ===== verification/Tile_Store.thy ===== *)
theory Tile_Store
  imports Tile_Codec
begin

text \<open>
  Object storage, \<^verbatim>\<open>src/storage/opendal.rs\<close>. The \<open>Operator\<close> of the OpenDAL library is the
  record \<open>operator\<close> of its two calls, over any type of backend state; \<open>op_laws\<close> is the behaviour
  the log relies on: a successful write replaces the object under its path, and no write touches
  another path. The methods of \<open>TileStorage\<close> are defined on top, and shown to be three
  independent key-value stores: tiles, entry bundles and the checkpoint.
\<close>


subsection \<open>The backend\<close>

datatype op_read = OpFound "byte list" | OpNotFound | OpFailed

record 's operator =
  op_read :: "'s \<Rightarrow> string \<Rightarrow> op_read"
  op_write :: "string \<Rightarrow> byte list \<Rightarrow> ('s, error, unit) st"

definition op_laws :: "'s operator \<Rightarrow> bool" where
  "op_laws op \<longleftrightarrow>
     (\<forall>p d s s'. op_write op p d s = (Inr (), s') \<longrightarrow> op_read op s' p = OpFound d) \<and>
     (\<forall>p d s q. q \<noteq> p \<longrightarrow> op_read op (snd (op_write op p d s)) q = op_read op s q)"

lemma op_lawsD:
  assumes "op_laws op"
  shows op_read_written: "op_write op p d s = (Inr (), s') \<Longrightarrow> op_read op s' p = OpFound d"
    and op_read_other: "q \<noteq> p \<Longrightarrow> op_read op (snd (op_write op p d s)) q = op_read op s q"
  using assms unfolding op_laws_def by blast+

text \<open>A backend in memory, at which the theorems are evaluated.\<close>

definition memory_op :: "(string \<times> byte list) list operator" where
  "memory_op = \<lparr>op_read = \<lambda>s p. case map_of s p of None \<Rightarrow> OpNotFound | Some d \<Rightarrow> OpFound d,
                op_write = \<lambda>p d s. (Inr (), (p, d) # s)\<rparr>"

lemma memory_op_laws: "op_laws memory_op"
  by (simp add: op_laws_def memory_op_def)


subsection \<open>The storage operations\<close>

definition read_raw :: "'s operator \<Rightarrow> 's \<Rightarrow> string \<Rightarrow> byte list option res" where
  "read_raw op s path =
     (case op_read op s path of
        OpFound data \<Rightarrow> Inr (Some data) | OpNotFound \<Rightarrow> Inr None | OpFailed \<Rightarrow> Inl Storage)"

definition read_checkpoint :: "'s operator \<Rightarrow> 's \<Rightarrow> byte list option res" where
  "read_checkpoint op s =
     (case op_read op s CHECKPOINT_PATH of
        OpFound data \<Rightarrow> Inr (Some data) | OpNotFound \<Rightarrow> Inr None | OpFailed \<Rightarrow> Inl Storage)"

definition write_checkpoint :: "'s operator \<Rightarrow> byte list \<Rightarrow> ('s, error, unit) st" where
  "write_checkpoint op data = op_write op CHECKPOINT_PATH data"

definition read_tile :: "'s operator \<Rightarrow> 's \<Rightarrow> nat \<Rightarrow> nat \<Rightarrow> nat \<Rightarrow> hash_tile option res" where
  "read_tile op s level index partial =
     (case op_read op s (tile_path level index partial) of
        OpFound data \<Rightarrow> bind_res (hash_tile_from_bytes data) (\<lambda>tile. Inr (Some tile))
      | OpNotFound \<Rightarrow> Inr None
      | OpFailed \<Rightarrow> Inl Storage)"

definition write_tile :: "'s operator \<Rightarrow> nat \<Rightarrow> nat \<Rightarrow> nat \<Rightarrow> hash_tile \<Rightarrow> ('s, error, unit) st" where
  "write_tile op level index partial tile =
     op_write op (tile_path level index partial) (hash_tile_to_bytes tile)"

definition read_entry_bundle :: "'s operator \<Rightarrow> 's \<Rightarrow> nat \<Rightarrow> nat \<Rightarrow> entry_bundle option res" where
  "read_entry_bundle op s index partial =
     (case op_read op s (entries_path index partial) of
        OpFound data \<Rightarrow> bind_res (bundle_from_bytes data) (\<lambda>bundle. Inr (Some bundle))
      | OpNotFound \<Rightarrow> Inr None
      | OpFailed \<Rightarrow> Inl Storage)"

definition write_entry_bundle :: "'s operator \<Rightarrow> nat \<Rightarrow> nat \<Rightarrow> entry_bundle \<Rightarrow> ('s, error, unit) st" where
  "write_entry_bundle op index partial bundle =
     bind_st (lift_st (bundle_to_bytes bundle))
       (\<lambda>data. op_write op (entries_path index partial) data)"

definition write_import_object :: "'s operator \<Rightarrow> string \<Rightarrow> byte list \<Rightarrow> bool \<Rightarrow> ('s, error, bool) st" where
  "write_import_object op path data resume s =
     (case read_raw op s path of
        Inl e \<Rightarrow> (Inl e, s)
      | Inr (Some existing) \<Rightarrow>
          if resume \<and> existing = data then (Inr False, s) else (Inl Config, s)
      | Inr None \<Rightarrow> bind_st (op_write op path data) (\<lambda>_. ret_st True) s)"


subsection \<open>Three independent stores\<close>

text \<open>Tile coordinates whose path no other coordinates share.\<close>

fun tile_key :: "nat \<times> nat \<times> nat \<Rightarrow> bool" where
  "tile_key (level, index, partial) \<longleftrightarrow> index \<le> u64_max \<and> partial < 256"

fun bundle_key :: "nat \<times> nat \<Rightarrow> bool" where
  "bundle_key (index, partial) \<longleftrightarrow> index \<le> u64_max \<and> partial < 256"

definition get_tile :: "'s operator \<Rightarrow> 's \<Rightarrow> nat \<times> nat \<times> nat \<Rightarrow> hash_tile option" where
  "get_tile op s k = (case k of (l, i, p) \<Rightarrow>
     case read_tile op s l i p of Inr (Some t) \<Rightarrow> Some t | _ \<Rightarrow> None)"

definition get_bundle :: "'s operator \<Rightarrow> 's \<Rightarrow> nat \<times> nat \<Rightarrow> entry_bundle option" where
  "get_bundle op s k = (case k of (i, p) \<Rightarrow>
     case read_entry_bundle op s i p of Inr (Some b) \<Rightarrow> Some b | _ \<Rightarrow> None)"

lemma get_tile_Some_iff: "get_tile op s (l, i, p) = Some t \<longleftrightarrow> read_tile op s l i p = Inr (Some t)"
  by (auto simp: get_tile_def split: sum.splits option.splits)

lemma get_bundle_Some_iff: "get_bundle op s (i, p) = Some b \<longleftrightarrow> read_entry_bundle op s i p = Inr (Some b)"
  by (auto simp: get_bundle_def split: sum.splits option.splits)

lemma write_tile_same:
  "op_laws op \<Longrightarrow> write_tile op l i p t s = (Inr (), s') \<Longrightarrow> read_tile op s' l i p = Inr (Some t)"
  unfolding write_tile_def
  by (drule (1) op_read_written) (simp add: read_tile_def hash_tile_decode_encode)

lemma write_tile_other:
  assumes "op_laws op" and "tile_key (l, i, p)" and "tile_key (l', i', p')" and "(l', i', p') \<noteq> (l, i, p)"
  shows "read_tile op (snd (write_tile op l i p t s)) l' i' p' = read_tile op s l' i' p'"
proof -
  have "tile_path l' i' p' \<noteq> tile_path l i p"
    using tile_path_inj [of i' p' i p l' l] assms(2-4) by auto
  then show ?thesis by (simp add: write_tile_def read_tile_def op_read_other [OF assms(1)])
qed

lemma write_entry_bundle_same:
  assumes "op_laws op" and "write_entry_bundle op i p b s = (Inr (), s')"
  shows "read_entry_bundle op s' i p = Inr (Some b)"
proof -
  from assms(2) obtain data where "bundle_to_bytes b = Inr data"
    and "op_write op (entries_path i p) data s = (Inr (), s')"
    by (auto simp: write_entry_bundle_def res_simps)
  then show ?thesis
    using op_read_written [OF assms(1)] bundle_decode_encode by (simp add: read_entry_bundle_def)
qed

lemma write_entry_bundle_path:
  "op_laws op \<Longrightarrow> q \<noteq> entries_path i p \<Longrightarrow>
    op_read op (snd (write_entry_bundle op i p b s)) q = op_read op s q"
  unfolding write_entry_bundle_def
  by (rule bind_st_keeps) (auto simp: res_simps op_read_other)

interpretation tiles: object_kv
  "\<lambda>k. op_laws op \<and> tile_key k" "get_tile op" "\<lambda>(l, i, p) t. write_tile op l i p t" for op
proof (unfold_locales, goal_cases)
  case (1 k v s s')
  then show ?case by (cases k) (auto simp: get_tile_Some_iff write_tile_same)
next
  case (2 k k' v s)
  then show ?case by (cases k; cases k') (simp add: get_tile_def write_tile_other)
qed

interpretation bundles: object_kv
  "\<lambda>k. op_laws op \<and> bundle_key k" "get_bundle op" "\<lambda>(i, p) b. write_entry_bundle op i p b" for op
proof (unfold_locales, goal_cases)
  case (1 k v s s')
  then show ?case by (cases k) (auto simp: get_bundle_Some_iff write_entry_bundle_same)
next
  case (2 k k' v s)
  obtain i p i' p' where k: "k = (i, p)" "k' = (i', p')" by (cases k; cases k')
  then have "entries_path i' p' \<noteq> entries_path i p" using 2 entries_path_inj [of i' p' i p] by auto
  then show ?case using 2 by (simp add: k get_bundle_def read_entry_bundle_def write_entry_bundle_path)
qed

interpretation checkpoint: object_kv
  "\<lambda>_. op_laws op" "\<lambda>s (_::unit). case read_checkpoint op s of Inr (Some d) \<Rightarrow> Some d | _ \<Rightarrow> None"
  "\<lambda>_. write_checkpoint op" for op
proof (unfold_locales, goal_cases)
  case (1 k v s s')
  then show ?case by (simp add: write_checkpoint_def read_checkpoint_def op_read_written)
qed simp

text \<open>Writes to one store are not visible in the others.\<close>

lemma write_tile_frame:
  "op_laws op \<Longrightarrow> read_entry_bundle op (snd (write_tile op l i p t s)) j q = read_entry_bundle op s j q"
  "op_laws op \<Longrightarrow> read_checkpoint op (snd (write_tile op l i p t s)) = read_checkpoint op s"
  by (simp_all add: write_tile_def read_entry_bundle_def read_checkpoint_def op_read_other
      tile_path_neq_entries_path [symmetric] tile_path_neq_checkpoint [symmetric])

lemma write_entry_bundle_frame:
  "op_laws op \<Longrightarrow> read_tile op (snd (write_entry_bundle op j q b s)) l i p = read_tile op s l i p"
  "op_laws op \<Longrightarrow> read_checkpoint op (snd (write_entry_bundle op j q b s)) = read_checkpoint op s"
  by (simp_all add: read_tile_def read_checkpoint_def write_entry_bundle_path
      tile_path_neq_entries_path entries_path_neq_checkpoint [symmetric])

lemma write_checkpoint_frame:
  "op_laws op \<Longrightarrow> read_tile op (snd (write_checkpoint op d s)) l i p = read_tile op s l i p"
  "op_laws op \<Longrightarrow> read_entry_bundle op (snd (write_checkpoint op d s)) j q = read_entry_bundle op s j q"
  by (simp_all add: read_tile_def read_entry_bundle_def write_checkpoint_def op_read_other
      tile_path_neq_checkpoint entries_path_neq_checkpoint)

lemmas store_frames = write_tile_frame write_entry_bundle_frame write_checkpoint_frame

end
