(* ===== verification/Integrate.thy ===== *)
theory Integrate
  imports Proof_Gen Tile_Store "HOL-Library.AList"
begin

text \<open>
  Integration of new leaves, \<^verbatim>\<open>src/merkle/integrate.rs\<close>: the compact range is loaded from the
  stored tiles, every leaf is merged into it, the nodes that become complete are collected per
  tile, and the changed tiles are rebuilt on top of the stored ones. The hash maps of the source
  are association lists without duplicate keys. The result is related to the Merkle tree hash of
  the specification: root, compact range and the rows of every tile.
\<close>


subsection \<open>Coordinates\<close>

definition should_store_node :: "nat \<Rightarrow> nat \<Rightarrow> nat \<Rightarrow> bool" where
  "should_store_node level index tree_size \<longleftrightarrow> (index + 1) * 2 ^ level \<le> tree_size"

definition node_to_tile_coords :: "nat \<Rightarrow> nat \<Rightarrow> nat \<times> nat \<times> nat \<times> nat" where
  "node_to_tile_coords level index =
     (let tile_row_width = 2 ^ (TILE_HEIGHT - level mod TILE_HEIGHT)
      in (level div TILE_HEIGHT, index div tile_row_width, level mod TILE_HEIGHT, index mod tile_row_width))"

text \<open>The module's own \<open>partial_tile_size\<close>: unlike the one of the paths module it shifts unchecked.\<close>

definition integrate_partial_tile_size :: "nat \<Rightarrow> nat \<Rightarrow> nat \<Rightarrow> nat res" where
  "integrate_partial_tile_size level index log_size =
     (if 64 \<le> level * TILE_HEIGHT then Inl Panic
      else let size_at_level = log_size div 2 ^ (level * TILE_HEIGHT);
               full_tiles = size_at_level div TILE_WIDTH
           in Inr (if index < full_tiles then 0 else size_at_level mod TILE_WIDTH))"


subsection \<open>Tile mutations\<close>

type_synonym tile_mutator = "((nat \<times> nat) \<times> sha256_hash) list"
type_synonym tile_cache = "((nat \<times> nat) \<times> tile_mutator) list"

definition mutator_set :: "tile_mutator \<Rightarrow> nat \<Rightarrow> nat \<Rightarrow> sha256_hash \<Rightarrow> tile_mutator" where
  "mutator_set nodes level index h = AList.update (level, index) h nodes"

fun flat_offset_loop :: "nat \<Rightarrow> nat \<Rightarrow> nat \<Rightarrow> nat" where
  "flat_offset_loop 0 offset width = offset"
| "flat_offset_loop (Suc level) offset width = flat_offset_loop level (offset + width) (width div 2)"

definition flat_offset :: "nat \<Rightarrow> nat \<Rightarrow> nat" where
  "flat_offset level index = flat_offset_loop level 0 TILE_WIDTH + index"

definition apply_to :: "tile_mutator \<Rightarrow> hash_tile \<Rightarrow> hash_tile" where
  "apply_to nodes tile =
     (let max_offset = fold max (map (\<lambda>((level, index), h). flat_offset level index) nodes) 0;
          padded = tile_nodes tile @ replicate (Suc max_offset - length (tile_nodes tile)) 0
      in tile\<lparr>tile_nodes := fold (\<lambda>((level, index), h) ns. ns[flat_offset level index := h]) nodes padded\<rparr>)"


subsection \<open>The compact range\<close>

type_synonym compact_range = "sha256_hash option list"

text \<open>Growing the vector to hold \<open>level\<close> and storing the hash there.\<close>

definition range_set :: "compact_range \<Rightarrow> nat \<Rightarrow> sha256_hash \<Rightarrow> compact_range" where
  "range_set r level h = (r @ replicate (Suc level - length r) None)[level := Some h]"

definition range_get :: "compact_range \<Rightarrow> nat \<Rightarrow> sha256_hash option" where
  "range_get r level = (if level < length r then r ! level else None)"

fun range_nodes_loop :: "nat \<Rightarrow> nat \<Rightarrow> nat \<Rightarrow> (nat \<times> nat) list \<Rightarrow> (nat \<times> nat) list" where
  "range_nodes_loop sz 0 cumulative_leaves nodes = nodes"
| "range_nodes_loop sz (Suc level) cumulative_leaves nodes =
     (if sz AND 2 ^ level \<noteq> 0
      then range_nodes_loop sz level (cumulative_leaves + 2 ^ level)
             (nodes @ [(level, cumulative_leaves div 2 ^ level)])
      else range_nodes_loop sz level cumulative_leaves nodes)"

definition compute_range_nodes :: "nat \<Rightarrow> (nat \<times> nat) list" where
  "compute_range_nodes sz =
     (if sz = 0 then []
      else let max_level = 63 - leading_zeros 64 sz
           in rev (range_nodes_loop sz (Suc max_level) 0 []))"

fun compute_node_hash :: "hash_fn \<Rightarrow> tile_reader \<Rightarrow> nat \<Rightarrow> nat \<Rightarrow> nat \<Rightarrow> sha256_hash res" where
  "compute_node_hash hc rd 0 index tree_size =
     (case node_to_tile_coords 0 index of (tlev, tidx, _, ni) \<Rightarrow>
        bind_res (integrate_partial_tile_size tlev tidx tree_size)
          (\<lambda>partial. bind_res (rd tlev tidx partial)
             (\<lambda>found. bind_res (ok_or Internal found)
                (\<lambda>tile. if ni < length (tile_nodes tile) then Inr (tile_nodes tile ! ni)
                        else Inl Internal))))"
| "compute_node_hash hc rd (Suc level) index tree_size =
     bind_res (compute_node_hash hc rd level (index * 2) tree_size)
       (\<lambda>left. bind_res (compute_node_hash hc rd level (index * 2 + 1) tree_size)
          (\<lambda>right. Inr (hc left right)))"

definition load_compact_range :: "hash_fn \<Rightarrow> tile_reader \<Rightarrow> nat \<Rightarrow> compact_range res" where
  "load_compact_range hc rd sz =
     fold_res (\<lambda>(level, index) r.
         bind_res (compute_node_hash hc rd level index sz) (\<lambda>h. Inr (range_set r level h)))
       (compute_range_nodes sz) []"


subsection \<open>The tree builder\<close>

record tree_builder =
  tb_from_size :: nat
  tb_size :: nat
  tb_range :: compact_range
  tb_cache :: tile_cache

definition tree_builder_new :: "hash_fn \<Rightarrow> tile_reader \<Rightarrow> nat \<Rightarrow> tree_builder res" where
  "tree_builder_new hc rd from_size =
     bind_res (if from_size = 0 then Inr [] else load_compact_range hc rd from_size)
       (\<lambda>r. Inr \<lparr>tb_from_size = from_size, tb_size = from_size, tb_range = r, tb_cache = []\<rparr>)"

definition set_node :: "nat \<Rightarrow> nat \<Rightarrow> sha256_hash \<Rightarrow> tile_cache \<Rightarrow> tile_cache" where
  "set_node level index h cache =
     (case node_to_tile_coords level index of (tlev, tidx, nl, ni) \<Rightarrow>
        let mutator = (case map_of cache (tlev, tidx) of None \<Rightarrow> [] | Some m \<Rightarrow> m)
        in AList.update (tlev, tidx) (mutator_set mutator nl ni h) cache)"

text \<open>The merge loop of \<open>append\<close>: it ends at a left child or where the range has no sibling.\<close>

function append_loop ::
  "hash_fn \<Rightarrow> nat \<Rightarrow> sha256_hash \<Rightarrow> nat \<Rightarrow> nat \<Rightarrow> compact_range \<Rightarrow> tile_cache
    \<Rightarrow> sha256_hash \<times> nat \<times> compact_range \<times> tile_cache" where
  "append_loop hc sz h index level r cache =
     (if index mod 2 = 1 then
        case range_get r level of
          Some left \<Rightarrow>
            let h' = hc left h; level' = level + 1; index' = index div 2
            in append_loop hc sz h' index' level' (r[level := None])
                 (if should_store_node level' index' sz then set_node level' index' h' cache else cache)
        | None \<Rightarrow> (h, level, r, cache)
      else (h, level, r, cache))"
  by pat_completeness auto
termination
  by (relation "measure (\<lambda>(hc, sz, h, index, level, r, cache). index)") (auto intro: Nat.gr0I)

declare append_loop.simps [simp del]

definition tb_append :: "hash_fn \<Rightarrow> sha256_hash \<Rightarrow> tree_builder \<Rightarrow> tree_builder res" where
  "tb_append hc leaf_hash b =
     (let leaf_index = tb_size b; sz = leaf_index + 1
      in if u64_max < sz then Inl Panic
         else case append_loop hc sz leaf_hash leaf_index 0 (tb_range b)
                     (set_node 0 leaf_index leaf_hash (tb_cache b)) of
                (h, level, r, cache) \<Rightarrow>
                  Inr (b\<lparr>tb_size := sz, tb_range := range_set r level h, tb_cache := cache\<rparr>))"

fun root_loop :: "hash_fn \<Rightarrow> compact_range \<Rightarrow> sha256_hash option \<Rightarrow> sha256_hash option" where
  "root_loop hc [] acc = acc"
| "root_loop hc (None # r) acc = root_loop hc r acc"
| "root_loop hc (Some h # r) acc =
     root_loop hc r (Some (case acc of None \<Rightarrow> h | Some right \<Rightarrow> hc h right))"

definition compute_root :: "hash_fn \<Rightarrow> tree_builder \<Rightarrow> sha256_hash res" where
  "compute_root hc b =
     (if tb_size b = 0 then Inr empty_root_hash else ok_or Internal (root_loop hc (tb_range b) None))"

record integration_result =
  new_size :: nat
  root_hash :: sha256_hash
  result_tiles :: "(tile_id \<times> hash_tile) list"

definition finalize_tile ::
  "tile_reader \<Rightarrow> nat \<Rightarrow> (nat \<times> nat) \<times> tile_mutator \<Rightarrow> (tile_id \<times> hash_tile) res" where
  "finalize_tile rd from_size entry =
     (case entry of ((level, index), mutator) \<Rightarrow>
        bind_res (tile_level_new level) (\<lambda>tlev.
        bind_res (integrate_partial_tile_size level index from_size) (\<lambda>prev_partial.
          let at_level = from_size div 2 ^ (level * TILE_HEIGHT);
              existed = index < (at_level + TILE_WIDTH - 1) div TILE_WIDTH
          in bind_res
               (if \<not> existed then Inr empty_tile
                else bind_res (rd tlev index (if 0 < prev_partial then prev_partial else 0))
                       (\<lambda>found. Inr (case found of None \<Rightarrow> empty_tile | Some t \<Rightarrow> t)))
               (\<lambda>tile. Inr (\<lparr>tile_level = level, tile_index = index\<rparr>, apply_to mutator tile)))))"

definition finalize :: "hash_fn \<Rightarrow> tile_reader \<Rightarrow> tree_builder \<Rightarrow> integration_result res" where
  "finalize hc rd b =
     bind_res (compute_root hc b) (\<lambda>root.
     bind_res (map_res (finalize_tile rd (tb_from_size b)) (tb_cache b)) (\<lambda>tiles.
       Inr \<lparr>new_size = tb_size b, root_hash = root, result_tiles = tiles\<rparr>))"

definition integrate ::
  "hash_fn \<Rightarrow> tile_reader \<Rightarrow> nat \<Rightarrow> sha256_hash list \<Rightarrow> integration_result res" where
  "integrate hc rd from_size leaf_hashes =
     (if leaf_hashes = [] then
        if from_size = 0
        then Inr \<lparr>new_size = from_size, root_hash = empty_root_hash, result_tiles = []\<rparr>
        else Inl Internal
      else bind_res (tree_builder_new hc rd from_size) (\<lambda>b.
           bind_res (fold_res (tb_append hc) leaf_hashes b) (\<lambda>b'. finalize hc rd b')))"


subsection \<open>The compact range of a list of leaves\<close>

text \<open>
  For every bit \<open>j\<close> set in the size the range holds the complete subtree of \<open>2 ^ j\<close> leaves that
  ends where the lower bits begin.
\<close>

definition range_ok :: "hash_fn \<Rightarrow> sha256_hash list \<Rightarrow> compact_range \<Rightarrow> bool" where
  "range_ok hc D r \<longleftrightarrow>
     (\<forall>j. range_get r j = (if odd (length D div 2 ^ j)
        then Some (node_hash hc empty_root_hash D j (length D div 2 ^ j - 1)) else None))"

lemma range_get_set: "range_get (range_set r level h) j = (if j = level then Some h else range_get r j)"
  by (auto simp: range_get_def range_set_def nth_append nth_list_update)

lemma range_get_clear: "range_get (r[level := None]) j = (if j = level then None else range_get r j)"
  by (auto simp: range_get_def nth_list_update)

lemma range_get_Nil [simp]: "range_get [] j = None"
  by (simp add: range_get_def)

lemma range_ok_Nil: "range_ok hc [] []"
  by (simp add: range_ok_def)

lemma odd_half: "odd (q::nat) \<Longrightarrow> q div 2 * 2 = q - 1"
  by presburger

lemma div_pow_odd:
  fixes n :: nat
  shows "odd (n div 2 ^ j) \<Longrightarrow> n div 2 ^ Suc j * 2 ^ Suc j div 2 ^ j = n div 2 ^ j - 1"
proof -
  assume odd: "odd (n div 2 ^ j)"
  have "n div 2 ^ Suc j = n div 2 ^ j div 2" by (metis div_mult2_eq power_Suc2)
  then have "n div 2 ^ Suc j * 2 ^ Suc j div 2 ^ j = n div 2 ^ j div 2 * 2" by simp
  then show ?thesis using odd_half [OF odd] by simp
qed

lemma mult_half: "(q::nat) * p = q div 2 * (2 * p) + (if odd q then p else 0)"
proof (cases "odd q")
  case True
  then obtain k where "q = 2 * k + 1" by (elim oddE)
  then show ?thesis by (simp add: algebra_simps)
next
  case False
  then have "even q" by simp
  then obtain k where "q = 2 * k" by (elim evenE)
  then show ?thesis by simp
qed

lemma div_pow_step:
  fixes n :: nat
  shows "n div 2 ^ j * 2 ^ j = n div 2 ^ Suc j * 2 ^ Suc j + (if odd (n div 2 ^ j) then 2 ^ j else 0)"
proof -
  have half: "n div 2 ^ Suc j = n div 2 ^ j div 2" by (metis div_mult2_eq power_Suc2)
  show ?thesis unfolding half unfolding power_Suc by (rule mult_half)
qed

lemma set_range_nodes_loop:
  "set (range_nodes_loop sz k (sz div 2 ^ k * 2 ^ k) nodes)
    = set nodes \<union> {(j, sz div 2 ^ j - 1) |j. j < k \<and> odd (sz div 2 ^ j)}"
proof (induction k arbitrary: nodes)
  case (Suc k)
  have bit: "sz AND 2 ^ k = 0 \<longleftrightarrow> even (sz div 2 ^ k)"
    by (simp add: and_exp_eq_0_iff_not_bit bit_iff_odd)
  have lt: "j < Suc k \<longleftrightarrow> j = k \<or> j < k" for j by auto
  show ?case
  proof (cases "odd (sz div 2 ^ k)")
    case True
    then have "sz div 2 ^ Suc k * 2 ^ Suc k + 2 ^ k = sz div 2 ^ k * 2 ^ k"
      using div_pow_step [of sz k] by simp
    then show ?thesis
      using True Suc.IH div_pow_odd [OF True] unfolding range_nodes_loop.simps lt
      by (auto simp: bit simp del: power_Suc)
  next
    case False
    then have "sz div 2 ^ Suc k * 2 ^ Suc k = sz div 2 ^ k * 2 ^ k"
      using div_pow_step [of sz k] by simp
    then show ?thesis
      using False Suc.IH unfolding range_nodes_loop.simps lt by (auto simp: bit simp del: power_Suc)
  qed
qed simp

lemma set_compute_range_nodes:
  assumes "sz < 2 ^ 64"
  shows "set (compute_range_nodes sz) = {(j, sz div 2 ^ j - 1) |j. odd (sz div 2 ^ j)}"
proof (cases "sz = 0")
  case False
  have len: "bit_len sz \<le> 64" using assms by (intro bit_len_le) simp
  have "bit_len sz \<noteq> 0" using False by simp
  then have k: "Suc (63 - leading_zeros 64 sz) = bit_len sz"
    using len unfolding leading_zeros_def by linarith
  have "sz < 2 ^ bit_len sz" by (rule bit_len_upper)
  then have zero: "sz div 2 ^ bit_len sz * 2 ^ bit_len sz = 0" by simp
  have "j < bit_len sz" if "odd (sz div 2 ^ j)" for j
  proof (rule ccontr)
    assume "\<not> j < bit_len sz"
    then have "(2::nat) ^ bit_len sz \<le> 2 ^ j" by (intro power_increasing) simp_all
    with \<open>sz < 2 ^ bit_len sz\<close> have "sz < 2 ^ j" by linarith
    with that show False by simp
  qed
  then have "{(j, sz div 2 ^ j - 1) |j. j < bit_len sz \<and> odd (sz div 2 ^ j)}
      = {(j, sz div 2 ^ j - 1) |j. odd (sz div 2 ^ j)}" by blast
  moreover have "compute_range_nodes sz = rev (range_nodes_loop sz (bit_len sz) 0 [])"
    using False unfolding compute_range_nodes_def Let_def k by simp
  ultimately show ?thesis
    using set_range_nodes_loop [of sz "bit_len sz" "[]"] unfolding zero by simp
qed (simp add: compute_range_nodes_def)

lemma integrate_partial_eq:
  "l < 8 \<Longrightarrow> integrate_partial_tile_size l i n = Inr (partial_tile_size l i n)"
  by (simp add: integrate_partial_tile_size_def partial_tile_size_def TILE_HEIGHT_def TILE_WIDTH_def Let_def)

lemma range_get_fold:
  assumes "\<forall>(l, i) \<in> set ns. i = f l"
  shows "range_get (fold (\<lambda>(l, i) r. range_set r l (H l i)) ns r) j
    = (if j \<in> fst ` set ns then Some (H j (f j)) else range_get r j)"
  using assms by (induction ns arbitrary: r) (auto simp: range_get_set)

context tile_source
begin

lemma compute_node_hash_ok:
  assumes "serves s D"
  shows "(index + 1) * 2 ^ level \<le> length D \<Longrightarrow>
    compute_node_hash hc (read_tile s) level index (length D) = Inr (node_hash hc empty_root_hash D level index)"
proof (induction level arbitrary: index)
  case 0
  then have lt: "index < length D" by simp
  let ?i = "index div 256"
  have "?i * 256 < length D" using lt by linarith
  then obtain tile where tile: "read_tile s 0 ?i (partial_tile_size 0 ?i (length D)) = Inr (Some tile)"
    and row: "row_ok hc D 0 ?i (tile_nodes tile)"
    using serves_tile [OF assms, of 0 ?i] by auto
  have "index mod 256 < row_count (length D) 0 ?i"
    using lt by (simp add: row_count_def less_diff_conv)
  then have "tile_nodes tile ! (index mod 256) = node_hash hc empty_root_hash D 0 index"
    and "index mod 256 < length (tile_nodes tile)"
    using row by (auto simp: row_ok_def)
  with tile show ?case
    by (simp add: node_to_tile_coords_def TILE_HEIGHT_def integrate_partial_eq)
next
  case (Suc level)
  have "(index * 2 + 1) * 2 ^ level \<le> length D" "(index * 2 + 1 + 1) * 2 ^ level \<le> length D"
    using Suc.prems by (simp_all add: algebra_simps)
  then show ?case
    using Suc.IH [of "index * 2"] Suc.IH [of "index * 2 + 1"]
      node_hash_Suc [OF Suc.prems, of hc empty_root_hash]
    by (simp add: mult.commute)
qed

lemma load_compact_range_ok:
  assumes "serves s D"
  shows "\<exists>r. load_compact_range hc (read_tile s) (length D) = Inr r \<and> range_ok hc D r"
proof -
  let ?n = "length D" and ?H = "\<lambda>l i. node_hash hc empty_root_hash D l i"
  let ?ns = "compute_range_nodes ?n"
  have ns: "set ?ns = {(j, ?n div 2 ^ j - 1) |j. odd (?n div 2 ^ j)}"
    using serves_size [OF assms] by (intro set_compute_range_nodes) simp
  have node: "compute_node_hash hc (read_tile s) l i ?n = Inr (?H l i)" if "(l, i) \<in> set ?ns" for l i
  proof -
    have "odd (?n div 2 ^ l)" and i: "i = ?n div 2 ^ l - 1" using that ns by auto
    then have "i + 1 = ?n div 2 ^ l" by (simp add: odd_pos)
    then have "(i + 1) * 2 ^ l \<le> ?n" by simp
    then show ?thesis by (rule compute_node_hash_ok [OF assms])
  qed
  have "fold_res (\<lambda>(level, index) r.
      bind_res (compute_node_hash hc (read_tile s) level index ?n) (\<lambda>h. Inr (range_set r level h))) xs r
    = Inr (fold (\<lambda>(l, i) r. range_set r l (?H l i)) xs r)" if "set xs \<subseteq> set ?ns" for xs r
    using that by (induction xs arbitrary: r) (auto simp: node)
  then have "load_compact_range hc (read_tile s) ?n = Inr (fold (\<lambda>(l, i) r. range_set r l (?H l i)) ?ns [])"
    by (simp add: load_compact_range_def)
  moreover have "range_ok hc D (fold (\<lambda>(l, i) r. range_set r l (?H l i)) ?ns [])"
    unfolding range_ok_def
    by (subst range_get_fold [where f = "\<lambda>j. ?n div 2 ^ j - 1"]) (auto simp: ns image_iff)
  ultimately show ?thesis by blast
qed

end


subsection \<open>The root\<close>

lemma mod_pow_step:
  fixes n :: nat
  shows "n mod 2 ^ Suc j = n mod 2 ^ j + (if odd (n div 2 ^ j) then 2 ^ j else 0)"
  using div_pow_step [of n j] div_mult_mod_eq [of n "2 ^ j"] div_mult_mod_eq [of n "2 ^ Suc j"]
  by linarith

lemma range_ok_bound:
  assumes "range_ok hc D r"
  shows "length D < 2 ^ length r"
proof (cases "length D = 0")
  case False
  let ?n = "length D"
  obtain j where j: "bit_len ?n = Suc j" using False by (metis bit_len_eq_0_iff not0_implies_Suc)
  then have "2 ^ j \<le> ?n" "?n < 2 * 2 ^ j" using bit_len_lower [of ?n] bit_len_upper [of ?n] False by auto
  then have "?n div 2 ^ j = 1" by (simp add: div_nat_eqI)
  then have "range_get r j \<noteq> None" using assms by (simp add: range_ok_def)
  then have "Suc j \<le> length r" by (auto simp: range_get_def split: if_splits)
  then have "(2::nat) ^ Suc j \<le> 2 ^ length r" by (intro power_increasing) simp_all
  with \<open>?n < 2 * 2 ^ j\<close> show ?thesis by simp
qed simp

text \<open>The part of the leaves that the levels below \<open>k\<close> of the range cover.\<close>

definition tail_hash :: "hash_fn \<Rightarrow> sha256_hash list \<Rightarrow> nat \<Rightarrow> sha256_hash option" where
  "tail_hash hc D k =
     (if length D mod 2 ^ k = 0 then None
      else Some (hash_range hc empty_root_hash D (length D - length D mod 2 ^ k) (length D)))"

lemma tail_hash_step:
  assumes "range_ok hc D r"
  shows "tail_hash hc D (Suc k) =
    (case range_get r k of
       None \<Rightarrow> tail_hash hc D k
     | Some h \<Rightarrow> Some (case tail_hash hc D k of None \<Rightarrow> h | Some right \<Rightarrow> hc h right))"
proof (cases "odd (length D div 2 ^ k)")
  case False
  then show ?thesis using assms by (simp add: range_ok_def tail_hash_def mod_pow_step del: power_Suc)
next
  case True
  let ?n = "length D" and ?p = "(2::nat) ^ k"
  let ?a = "?n - ?n mod 2 ^ Suc k"
  have step: "?n mod 2 ^ Suc k = ?n mod ?p + ?p" using True mod_pow_step [of ?n k] by simp
  have le: "?n mod ?p + ?p \<le> ?n" using step mod_less_eq_dividend [of ?n "2 ^ Suc k"] by simp
  have mid: "?a + ?p = ?n - ?n mod ?p" using step le by linarith
  have q: "0 < ?n div ?p" using True by (rule odd_pos)
  have fin: "(?n div ?p - 1 + 1) * ?p = ?a + ?p"
    using q mid by (simp add: minus_mod_eq_div_mult)
  then have start: "?a = (?n div ?p - 1) * ?p" by (simp add: algebra_simps)
  have h: "range_get r k = Some (hash_range hc empty_root_hash D ?a (?a + ?p))"
    unfolding hash_range_node [OF start fin [symmetric]] using assms True by (simp add: range_ok_def)
  show ?thesis
  proof (cases "?n mod ?p = 0")
    case zero: True
    then have "?a + ?p = ?n" using mid by simp
    with zero h step show ?thesis by (simp add: tail_hash_def del: power_Suc)
  next
    case False
    have "?n mod ?p < ?p" by simp
    then have "?a + ?p < ?n" and "?n \<le> ?a + (?p + ?p)" using False mid le by linarith+
    then have "hash_range hc empty_root_hash D ?a ?n
        = hc (hash_range hc empty_root_hash D ?a (?a + ?p)) (hash_range hc empty_root_hash D (?a + ?p) ?n)"
      by (intro hash_range_split) (simp_all only: power_Suc mult_2 order_refl)
    with False h step mid show ?thesis by (simp add: tail_hash_def del: power_Suc)
  qed
qed

lemma root_loop_ok:
  assumes "range_ok hc D r"
  shows "k \<le> length r \<Longrightarrow> root_loop hc (drop k r) (tail_hash hc D k) = tail_hash hc D (length r)"
proof (induction "length r - k" arbitrary: k)
  case (Suc d)
  then have k: "k < length r" by simp
  then have get: "range_get r k = r ! k" by (simp add: range_get_def)
  have "root_loop hc (drop k r) (tail_hash hc D k) = root_loop hc (drop (Suc k) r) (tail_hash hc D (Suc k))"
    using tail_hash_step [OF assms, of k] k
    by (cases "r ! k") (simp_all add: get Cons_nth_drop_Suc [symmetric])
  also have "\<dots> = tail_hash hc D (length r)" using Suc k by (intro Suc.hyps) simp_all
  finally show ?case .
qed simp

lemma compute_root_ok:
  assumes "range_ok hc D (tb_range b)" and "tb_size b = length D"
  shows "compute_root hc b = Inr (mth hc empty_root_hash D)"
proof (cases "D = []")
  case False
  then have "tail_hash hc D (length (tb_range b)) = Some (mth hc empty_root_hash D)"
    using range_ok_bound [OF assms(1)] by (simp add: tail_hash_def hash_range_all)
  then show ?thesis
    using False assms root_loop_ok [OF assms(1), of 0]
    by (simp add: compute_root_def tail_hash_def)
qed (use assms in \<open>simp add: compute_root_def\<close>)


subsection \<open>The tile cache\<close>

definition cache_get :: "tile_cache \<Rightarrow> nat \<Rightarrow> nat \<Rightarrow> sha256_hash option" where
  "cache_get cache level index =
     (case node_to_tile_coords level index of (tlev, tidx, nl, ni) \<Rightarrow>
        case map_of cache (tlev, tidx) of None \<Rightarrow> None | Some m \<Rightarrow> map_of m (nl, ni))"

lemma coords_eq:
  "node_to_tile_coords l i = (l div 8, i div 2 ^ (8 - l mod 8), l mod 8, i mod 2 ^ (8 - l mod 8))"
  by (simp add: node_to_tile_coords_def TILE_HEIGHT_def Let_def)

lemma coords_inj: "node_to_tile_coords l i = node_to_tile_coords l' i' \<longleftrightarrow> l = l' \<and> i = i'"
proof
  assume eq: "node_to_tile_coords l i = node_to_tile_coords l' i'"
  then have m: "l mod 8 = l' mod 8" and "l div 8 = l' div 8"
    by (simp_all add: coords_eq)
  then have "l = l'" by (metis div_mult_mod_eq)
  moreover have "i div 2 ^ (8 - l mod 8) = i' div 2 ^ (8 - l mod 8)"
    and "i mod 2 ^ (8 - l mod 8) = i' mod 2 ^ (8 - l mod 8)"
    using eq m by (simp_all add: coords_eq)
  then have "i = i'" by (metis div_mult_mod_eq)
  ultimately show "l = l' \<and> i = i'" by simp
qed simp

lemma cache_get_Nil [simp]: "cache_get [] l i = None"
  by (simp add: cache_get_def split: prod.splits)

lemma cache_get_set_node:
  "cache_get (set_node l i h cache) l' i' = (if l' = l \<and> i' = i then Some h else cache_get cache l' i')"
proof -
  obtain tlev tidx nl ni where c: "node_to_tile_coords l i = (tlev, tidx, nl, ni)" by (metis prod_cases4)
  obtain tlev' tidx' nl' ni' where c': "node_to_tile_coords l' i' = (tlev', tidx', nl', ni')"
    by (metis prod_cases4)
  show ?thesis
    using coords_inj [of l' i' l i]
    by (auto simp: cache_get_def set_node_def mutator_set_def c c' update_conv' Let_def
        split: option.splits)
qed

interpretation cache: object_kv "\<lambda>_. True" "\<lambda>c (l, i). cache_get c l i"
  "\<lambda>(l, i) h c. (Inr () :: error + unit, set_node l i h c)"
  by unfold_locales (auto simp: cache_get_set_node split: if_splits)

definition mutator_wf :: "tile_mutator \<Rightarrow> bool" where
  "mutator_wf m \<longleftrightarrow> m \<noteq> [] \<and> distinct (map fst m) \<and>
     list_all (\<lambda>((nl, ni), h). nl < 8 \<and> ni < 2 ^ (8 - nl)) m"

definition cache_wf :: "tile_cache \<Rightarrow> bool" where
  "cache_wf cache \<longleftrightarrow> distinct (map fst cache) \<and> list_all (\<lambda>(k, m). mutator_wf m) cache"

lemma update_not_Nil: "AList.update k v m \<noteq> []"
  by (cases m) auto

lemma set_update_subset: "set (AList.update k v m) \<subseteq> insert (k, v) (set m)"
  by (induction m) auto

lemma cache_wf_set_node:
  assumes "cache_wf cache"
  shows "cache_wf (set_node l i h cache)"
proof -
  obtain tlev tidx nl ni where c: "node_to_tile_coords l i = (tlev, tidx, nl, ni)" by (metis prod_cases4)
  define m where "m = (case map_of cache (tlev, tidx) of None \<Rightarrow> [] | Some m \<Rightarrow> m)"
  have n: "nl < 8" "ni < 2 ^ (8 - nl)" using c by (auto simp: coords_eq)
  have m: "m = [] \<or> mutator_wf m"
    using assms by (auto simp: m_def cache_wf_def list_all_iff dest!: map_of_SomeD split: option.splits)
  let ?m' = "mutator_set m nl ni h"
  have "mutator_wf ?m'"
    using m n set_update_subset [of "(nl, ni)" h m]
    by (auto simp: mutator_wf_def mutator_set_def list_all_iff update_not_Nil distinct_update)
  moreover have "set_node l i h cache = AList.update (tlev, tidx) ?m' cache"
    by (simp add: set_node_def c m_def)
  ultimately show ?thesis
    using assms set_update_subset [of "(tlev, tidx)" ?m' cache]
    unfolding cache_wf_def list_all_iff by (auto simp: distinct_update)
qed


subsection \<open>Appending a leaf\<close>

lemma should_store_append:
  "should_store_node l i (length D) \<Longrightarrow>
    node_hash hc e (D @ L) l i = node_hash hc e D l i"
  by (simp add: should_store_node_def node_hash_append)

text \<open>The nodes that have become complete since the tree had the leaves \<open>D\<^sub>0\<close>.\<close>

definition fresh_node :: "nat \<Rightarrow> nat \<Rightarrow> nat \<Rightarrow> nat \<Rightarrow> bool" where
  "fresh_node n0 n l i \<longleftrightarrow> should_store_node l i n \<and> \<not> should_store_node l i n0"

definition builder_ok :: "hash_fn \<Rightarrow> nat \<Rightarrow> sha256_hash list \<Rightarrow> tree_builder \<Rightarrow> bool" where
  "builder_ok hc n0 D b \<longleftrightarrow>
     tb_from_size b = n0 \<and> tb_size b = length D \<and> n0 \<le> length D \<and>
     range_ok hc D (tb_range b) \<and> cache_wf (tb_cache b) \<and>
     (\<forall>l i. cache_get (tb_cache b) l i =
        (if fresh_node n0 (length D) l i then Some (node_hash hc empty_root_hash D l i) else None))"

text \<open>The state of the merge loop when it has reached \<open>level\<close>.\<close>

definition loop_ok ::
  "hash_fn \<Rightarrow> nat \<Rightarrow> sha256_hash list \<Rightarrow> sha256_hash \<Rightarrow> sha256_hash \<Rightarrow> nat \<Rightarrow> nat \<Rightarrow> compact_range \<Rightarrow> tile_cache \<Rightarrow> bool" where
  "loop_ok hc n0 D x h index level r cache \<longleftrightarrow>
     (index + 1) * 2 ^ level = length D + 1 \<and>
     h = node_hash hc empty_root_hash (D @ [x]) level index \<and>
     (\<forall>j. range_get r j = (if level \<le> j \<and> odd (length D div 2 ^ j)
        then Some (node_hash hc empty_root_hash D j (length D div 2 ^ j - 1)) else None)) \<and>
     cache_wf cache \<and>
     (\<forall>l i. cache_get cache l i =
        (if fresh_node n0 (length D) l i \<or> l \<le> level \<and> (i + 1) * 2 ^ l = length D + 1
         then Some (node_hash hc empty_root_hash (D @ [x]) l i) else None))"

lemma loop_index: "(index + 1) * 2 ^ level = n + 1 \<Longrightarrow> n div 2 ^ level = (index::nat)"
proof -
  assume "(index + 1) * 2 ^ level = n + 1"
  then have "2 ^ level * index + 2 ^ level = n + 1" by (simp add: algebra_simps)
  moreover have "1 \<le> (2::nat) ^ level" by simp
  ultimately have "2 ^ level * index \<le> n" and "n < 2 ^ level * Suc index"
    unfolding mult_Suc_right by linarith+
  then show ?thesis by (rule div_nat_eqI)
qed

lemma loop_ok_step:
  assumes ok: "loop_ok hc n0 D x h index level r cache" and odd: "odd index"
  obtains left where "range_get r level = Some left"
    and "loop_ok hc n0 D x (hc left h) (index div 2) (level + 1) (r[level := None])
      (set_node (level + 1) (index div 2) (hc left h) cache)"
proof -
  let ?E = "D @ [x]" and ?half = "index div 2"
  have idx: "(index + 1) * 2 ^ level = length D + 1" using ok by (simp add: loop_ok_def)
  note i = loop_index [OF idx]
  have half: "2 * ?half = index - 1" "2 * ?half + 1 = index" using odd by presburger+
  have up: "(?half + 1) * 2 ^ Suc level = length D + 1"
  proof -
    have "(?half + 1) * 2 ^ Suc level = (2 * ?half + 1 + 1) * 2 ^ level" by simp
    then show ?thesis unfolding half(2) idx .
  qed
  have "range_get r level = Some (node_hash hc empty_root_hash D level (index - 1))"
    using ok odd i by (simp add: loop_ok_def)
  moreover have "node_hash hc empty_root_hash D level (index - 1) = node_hash hc empty_root_hash ?E level (index - 1)"
  proof (rule node_hash_append [symmetric])
    have "(index - 1 + 1) * 2 ^ level + 2 ^ level = length D + 1"
      using idx odd by (simp add: odd_pos algebra_simps)
    moreover have "1 \<le> (2::nat) ^ level" by simp
    ultimately show "(index - 1 + 1) * 2 ^ level \<le> length D" by linarith
  qed
  moreover have new: "hc (node_hash hc empty_root_hash ?E level (index - 1)) h
      = node_hash hc empty_root_hash ?E (level + 1) ?half"
    using node_hash_Suc [of ?half level ?E hc empty_root_hash] up half ok by (simp add: loop_ok_def)
  moreover have "loop_ok hc n0 D x (node_hash hc empty_root_hash ?E (level + 1) ?half) ?half (level + 1)
      (r[level := None]) (set_node (level + 1) ?half (node_hash hc empty_root_hash ?E (level + 1) ?half) cache)"
  proof -
    let ?h = "node_hash hc empty_root_hash ?E (level + 1) ?half"
    let ?cache = "set_node (level + 1) ?half ?h cache"
    have node: "(i' + 1) * 2 ^ (level + 1) = length D + 1 \<longleftrightarrow> i' = ?half" for i'
    proof
      assume "(i' + 1) * 2 ^ (level + 1) = length D + 1"
      then have "(i' + 1) * 2 ^ Suc level = (?half + 1) * 2 ^ Suc level" using up by simp
      then have "i' + 1 = ?half + 1" unfolding mult_cancel2 by simp
      then show "i' = ?half" by simp
    qed (use up in simp)
    have "cache_get ?cache l i' = (if fresh_node n0 (length D) l i'
          \<or> l \<le> level + 1 \<and> (i' + 1) * 2 ^ l = length D + 1
        then Some (node_hash hc empty_root_hash ?E l i') else None)" for l i'
    proof (cases "l = level + 1")
      case True
      then show ?thesis using ok node [of i'] by (simp add: loop_ok_def cache_get_set_node del: power_Suc)
    next
      case False
      then have "l \<le> level + 1 \<longleftrightarrow> l \<le> level" by auto
      then show ?thesis using ok False by (simp add: loop_ok_def cache_get_set_node)
    qed
    moreover have "cache_wf ?cache" using ok cache_wf_set_node by (simp add: loop_ok_def)
    moreover have "range_get (r[level := None]) j = (if level + 1 \<le> j \<and> odd (length D div 2 ^ j)
        then Some (node_hash hc empty_root_hash D j (length D div 2 ^ j - 1)) else None)" for j
      using ok by (auto simp: loop_ok_def range_get_clear)
    ultimately show ?thesis using up by (simp add: loop_ok_def)
  qed
  ultimately show ?thesis using that by metis
qed

lemma append_loop_ok:
  assumes "loop_ok hc n0 D x h index level r cache"
  shows "\<exists>h' index' level' r' cache'.
    append_loop hc (length D + 1) h index level r cache = (h', level', r', cache') \<and>
    even index' \<and> loop_ok hc n0 D x h' index' level' r' cache'"
  using assms
proof (induction index arbitrary: h level r cache rule: less_induct)
  case (less index)
  show ?case
  proof (cases "odd index")
    case False
    then show ?thesis using less.prems by (subst append_loop.simps) auto
  next
    case True
    obtain left where left: "range_get r level = Some left"
      and next_ok: "loop_ok hc n0 D x (hc left h) (index div 2) (level + 1) (r[level := None])
        (set_node (level + 1) (index div 2) (hc left h) cache)"
      using loop_ok_step [OF less.prems True] .
    have "should_store_node (level + 1) (index div 2) (length D + 1)"
      using next_ok by (simp add: loop_ok_def should_store_node_def)
    then have "append_loop hc (length D + 1) h index level r cache
        = append_loop hc (length D + 1) (hc left h) (index div 2) (level + 1) (r[level := None])
            (set_node (level + 1) (index div 2) (hc left h) cache)"
      using True left by (subst append_loop.simps) (simp add: odd_iff_mod_2_eq_one Let_def)
    then show ?thesis
      using less.IH [OF _ next_ok] odd_pos [OF True] by simp
  qed
qed

lemma loop_start:
  assumes "builder_ok hc n0 D b"
  shows "loop_ok hc n0 D x x (length D) 0 (tb_range b) (set_node 0 (length D) x (tb_cache b))"
proof -
  have "node_hash hc empty_root_hash (D @ [x]) 0 (length D) = x"
    by (subst node_hash_leaf) simp_all
  then show ?thesis
    using assms cache_wf_set_node
    by (auto simp: builder_ok_def loop_ok_def range_ok_def cache_get_set_node fresh_node_def
        should_store_append)
qed

lemma loop_end_range:
  assumes "loop_ok hc n0 D x h index level r cache" and "even index"
  shows "range_ok hc (D @ [x]) (range_set r level h)"
  unfolding range_ok_def
proof
  fix j
  let ?n = "length D"
  have idx: "(index + 1) * 2 ^ level = Suc ?n" using assms(1) by (simp add: loop_ok_def)
  consider "j < level" | "j = level" | "level < j" by linarith
  then show "range_get (range_set r level h) j = (if odd (length (D @ [x]) div 2 ^ j)
      then Some (node_hash hc empty_root_hash (D @ [x]) j (length (D @ [x]) div 2 ^ j - 1)) else None)"
  proof cases
    case 1
    then obtain d where "level = j + Suc d" using less_iff_Suc_add by auto
    then have "Suc ?n = (index + 1) * 2 * 2 ^ d * 2 ^ j" using idx by (simp add: power_add algebra_simps)
    then have "even (Suc ?n div 2 ^ j)" by simp
    then show ?thesis using 1 assms(1) by (simp add: range_get_set loop_ok_def)
  next
    case 2
    have "Suc ?n div 2 ^ level = index + 1" unfolding idx [symmetric] by simp
    then show ?thesis using 2 assms by (simp add: range_get_set loop_ok_def)
  next
    case 3
    then obtain d where d: "j = level + Suc d" using less_iff_Suc_add by auto
    have "\<not> 2 ^ j dvd Suc ?n"
    proof
      assume "2 ^ j dvd Suc ?n"
      then have "2 ^ Suc d * 2 ^ level dvd (index + 1) * 2 ^ level"
        unfolding idx d by (simp add: power_add ac_simps)
      then have "2 ^ Suc d dvd index + 1" by (subst (asm) dvd_times_right_cancel_iff) simp_all
      then have "2 dvd index + 1" by (rule dvd_trans [rotated]) simp
      then show False using assms(2) by simp
    qed
    then have div: "Suc ?n div 2 ^ j = ?n div 2 ^ j" by (simp add: div_Suc dvd_eq_mod_eq_0)
    have "node_hash hc empty_root_hash (D @ [x]) j (?n div 2 ^ j - 1)
        = node_hash hc empty_root_hash D j (?n div 2 ^ j - 1)" if "odd (?n div 2 ^ j)"
      using odd_pos [OF that] by (intro node_hash_append) simp
    then show ?thesis using 3 assms(1) div by (simp add: range_get_set loop_ok_def)
  qed
qed

lemma loop_end_cache:
  assumes "loop_ok hc n0 D x h index level r cache" and "even index" and "n0 \<le> length D"
  shows "cache_get cache l i = (if fresh_node n0 (length (D @ [x])) l i
    then Some (node_hash hc empty_root_hash (D @ [x]) l i) else None)"
proof -
  let ?n = "length D"
  have idx: "(index + 1) * 2 ^ level = Suc ?n" using assms(1) by (simp add: loop_ok_def)
  have le: "l \<le> level" if eq: "(i + 1) * 2 ^ l = Suc ?n"
  proof (rule ccontr)
    assume "\<not> l \<le> level"
    then obtain d where "l = level + Suc d" using less_iff_Suc_add by (auto simp: not_le)
    then have "((i + 1) * 2 ^ d * 2) * 2 ^ level = (index + 1) * 2 ^ level"
      using eq idx by (simp add: power_add algebra_simps)
    then have "(i + 1) * 2 ^ d * 2 = index + 1" unfolding mult_cancel2 by simp
    then show False using assms(2) by presburger
  qed
  have "fresh_node n0 ?n l i \<or> l \<le> level \<and> (i + 1) * 2 ^ l = Suc ?n \<longleftrightarrow> fresh_node n0 (Suc ?n) l i"
    using le assms(3) unfolding fresh_node_def should_store_node_def by linarith
  then show ?thesis using assms(1) by (simp add: loop_ok_def)
qed

lemma tb_append_ok:
  assumes ok: "builder_ok hc n0 D b" and size: "length D + 1 \<le> u64_max"
  shows "\<exists>b'. tb_append hc x b = Inr b' \<and> builder_ok hc n0 (D @ [x]) b'"
proof -
  obtain h index level r cache where
    loop: "append_loop hc (length D + 1) x (length D) 0 (tb_range b)
        (set_node 0 (length D) x (tb_cache b)) = (h, level, r, cache)"
    and ev: "even index" and inv: "loop_ok hc n0 D x h index level r cache"
    using append_loop_ok [OF loop_start [OF ok, of x]] by blast
  have n0: "n0 \<le> length D" using ok by (simp add: builder_ok_def)
  have "cache_wf cache" using inv by (simp add: loop_ok_def)
  then show ?thesis
    using ok size loop loop_end_range [OF inv ev] loop_end_cache [OF inv ev n0] n0
    by (simp add: tb_append_def builder_ok_def)
qed

lemma tb_append_all_ok:
  "builder_ok hc n0 D b \<Longrightarrow> length D + length L \<le> u64_max \<Longrightarrow>
    \<exists>b'. fold_res (tb_append hc) L b = Inr b' \<and> builder_ok hc n0 (D @ L) b'"
proof (induction L arbitrary: D b)
  case (Cons x L)
  then obtain b1 where "tb_append hc x b = Inr b1" and "builder_ok hc n0 (D @ [x]) b1"
    using tb_append_ok [of hc n0 D b x] by auto
  with Cons.IH [of "D @ [x]" b1] Cons.prems(2) show ?case by simp
qed simp


subsection \<open>Rebuilding a tile\<close>

lemma flat_offset_loop_mono: "offset \<le> flat_offset_loop level offset width"
proof (induction level arbitrary: offset width)
  case (Suc level)
  have "offset + width \<le> flat_offset_loop level (offset + width) (width div 2)" by (rule Suc.IH)
  then show ?case by simp
qed simp

lemma flat_offset_bottom [simp]: "flat_offset 0 i = i"
  by (simp add: flat_offset_def)

lemma flat_offset_inner: "0 < l \<Longrightarrow> 256 \<le> flat_offset l i"
  using flat_offset_loop_mono [of "TILE_WIDTH" "l - 1" "TILE_WIDTH div 2"]
  by (cases l) (simp_all add: flat_offset_def TILE_WIDTH_def)

lemma fold_max_ge: "(x::nat) \<in> set xs \<or> x \<le> a \<Longrightarrow> x \<le> fold max xs a"
proof (induction xs arbitrary: a)
  case (Cons y xs)
  have "x \<in> set xs \<or> x \<le> max y a" using Cons.prems by auto
  then have "x \<le> fold max xs (max y a)" by (rule Cons.IH)
  then show ?case by simp
qed simp

lemma length_fold_update [simp]:
  "length (fold (\<lambda>((l, i), h) ns. ns[f l i := h]) m ns) = length ns"
  by (induction m arbitrary: ns) auto

lemma nth_fold_update:
  "distinct (map fst m) \<Longrightarrow> j < 256 \<Longrightarrow> j < length ns \<Longrightarrow>
    fold (\<lambda>((l, i), h) ns. ns[flat_offset l i := h]) m ns ! j
      = (case map_of m (0, j) of None \<Rightarrow> ns ! j | Some h \<Rightarrow> h)"
proof (induction m arbitrary: ns)
  case (Cons a m)
  obtain l i h where a: "a = ((l, i), h)" by (metis surj_pair)
  have none: "map_of m (0, j) = None" if "(l, i) = (0, j)"
    using that Cons.prems(1) by (simp add: a map_of_eq_None_iff)
  have other: "flat_offset l i \<noteq> j" if "(l, i) \<noteq> (0, j)"
    using that flat_offset_inner [of l i] Cons.prems(2) by (cases "l = 0") auto
  show ?case
  proof (cases "(l, i) = (0, j)")
    case True
    then show ?thesis using Cons none [OF True] by (simp add: a)
  next
    case False
    then have "map_of (a # m) (0, j) = map_of m (0, j)" by (auto simp: a)
    moreover have "ns[flat_offset l i := h] ! j = ns ! j" using other [OF False] by simp
    ultimately show ?thesis 
      using Cons.IH [of "ns[flat_offset l i := h]"] Cons.prems
      by (cases "map_of m (0, j)") (simp_all add: a)
  qed
qed simp

text \<open>After the mutations the bottom row holds the mutated node, or what the tile held before.\<close>

lemma apply_to_row:
  assumes "distinct (map fst m)" and "j < 256"
    and "map_of m (0, j) = Some h \<or> map_of m (0, j) = None \<and> j < length (tile_nodes t) \<and> tile_nodes t ! j = h"
  shows "j < length (tile_nodes (apply_to m t)) \<and> tile_nodes (apply_to m t) ! j = h"
proof -
  let ?max = "fold max (map (\<lambda>((level, index), h). flat_offset level index) m) 0"
  let ?padded = "tile_nodes t @ replicate (Suc ?max - length (tile_nodes t)) 0"
  have "j < length ?padded"
  proof (cases "map_of m (0, j) = None")
    case False
    then have "((0, j), h) \<in> set m" using assms(3) map_of_SomeD by force
    then have "j \<in> set (map (\<lambda>((level, index), h). flat_offset level index) m)"
      by (force simp: image_iff)
    then have "j \<le> ?max" by (intro fold_max_ge) simp
    then show ?thesis by simp
  qed (use assms(3) in auto)
  moreover have "map_of m (0, j) = None \<Longrightarrow> ?padded ! j = h"
    using assms(3) by (auto simp: nth_append)
  ultimately show ?thesis
    using nth_fold_update [OF assms(1,2), of ?padded] assms(3)
    unfolding apply_to_def Let_def by (auto split: option.splits)
qed

lemma flat_offset_loop_eq:
  "l \<le> w \<Longrightarrow> flat_offset_loop l offset (2 ^ w) + 2 ^ (Suc w - l) = offset + 2 ^ Suc w"
proof (induction l arbitrary: offset w)
  case (Suc l)
  then obtain v where w: "w = Suc v" by (cases w) auto
  with Suc.IH [of v "offset + 2 ^ w"] Suc.prems show ?case by simp
qed simp

lemma flat_offset_bound:
  assumes "l < 8" and "i < 2 ^ (8 - l)"
  shows "flat_offset l i < 511"
proof -
  have "flat_offset_loop l 0 256 + 2 ^ (9 - l) = 512"
    using flat_offset_loop_eq [of l 8 0] assms(1) by simp
  moreover have "(2::nat) ^ (9 - l) = 2 * 2 ^ (8 - l)" using assms(1) by (simp add: Suc_diff_Suc flip: power_Suc)
  ultimately show ?thesis using assms(2) by (simp add: flat_offset_def TILE_WIDTH_def)
qed

lemma fold_max_less: "(\<And>x. x \<in> set xs \<Longrightarrow> x < b) \<Longrightarrow> a < b \<Longrightarrow> fold max xs a < b" for a b :: nat
  by (induction xs arbitrary: a) auto

lemma length_apply_to:
  assumes "mutator_wf m" and "length (tile_nodes t) \<le> 511"
  shows "length (tile_nodes (apply_to m t)) \<le> 511"
proof -
  have "fold max (map (\<lambda>((level, index), h). flat_offset level index) m) 0 < 511"
    using assms(1) flat_offset_bound by (intro fold_max_less) (auto simp: mutator_wf_def list_all_iff)
  then show ?thesis using assms(2) by (simp add: apply_to_def Let_def)
qed

lemma row_count_less_iff:
  "j < row_count n l i \<longleftrightarrow> j < 256 \<and> should_store_node (8 * l) (i * 256 + j) n"
proof -
  have p: "(256::nat) ^ l = 2 ^ (8 * l)" by (simp add: power_mult)
  have "should_store_node (8 * l) (i * 256 + j) n \<longleftrightarrow> i * 256 + j + 1 \<le> n div 256 ^ l"
    unfolding should_store_node_def p by (simp add: less_eq_div_iff_mult_less_eq)
  also have "\<dots> \<longleftrightarrow> j < n div 256 ^ l - i * 256" by linarith
  finally show ?thesis by (auto simp: row_count_def)
qed

lemma coords_bottom: "j < 256 \<Longrightarrow> node_to_tile_coords (8 * l) (i * 256 + j) = (l, i, 0, j)"
  by (simp add: coords_eq)

lemma row_ok_iff:
  "row_ok hc D l i nodes \<longleftrightarrow> length nodes \<le> 511 \<and>
    (\<forall>j. j < row_count (length D) l i \<longrightarrow>
       j < length nodes \<and> nodes ! j = node_hash hc empty_root_hash D (8 * l) (i * 256 + j))"
proof (cases "row_count (length D) l i")
  case (Suc c)
  then show ?thesis unfolding row_ok_def by (auto dest: less_le_trans)
qed (simp add: row_ok_def)

text \<open>Rebuilding the tile of a mutator on top of a correct old row gives the new row.\<close>

lemma apply_to_row_ok:
  assumes ok: "builder_ok hc (length D0) (D0 @ L) b"
    and m: "map_of (tb_cache b) (l, i) = Some m"
    and old: "row_ok hc D0 l i (tile_nodes t)"
  shows "row_ok hc (D0 @ L) l i (tile_nodes (apply_to m t))"
  unfolding row_ok_iff
proof (rule conjI, goal_cases)
  case 1
  have "mutator_wf m" using ok map_of_SomeD [OF m] by (auto simp: builder_ok_def cache_wf_def list_all_iff)
  then show ?case using old by (intro length_apply_to) (simp_all add: row_ok_def)
next
  case 2
  show ?case
  proof (intro allI impI)
    fix j
    let ?D = "D0 @ L" and ?k = "i * 256 + j"
    assume "j < row_count (length ?D) l i"
    then have j: "j < 256" and new: "should_store_node (8 * l) ?k (length ?D)"
      by (simp_all add: row_count_less_iff)
    have get: "map_of m (0, j) = (if fresh_node (length D0) (length ?D) (8 * l) ?k
        then Some (node_hash hc empty_root_hash ?D (8 * l) ?k) else None)"
    proof -
      have "cache_get (tb_cache b) (8 * l) ?k = map_of m (0, j)"
        using m by (simp add: cache_get_def coords_bottom [OF j])
      then show ?thesis using ok by (simp add: builder_ok_def)
    qed
    have dist: "distinct (map fst m)"
      using ok map_of_SomeD [OF m] by (auto simp: builder_ok_def cache_wf_def mutator_wf_def list_all_iff)
    show "j < length (tile_nodes (apply_to m t)) \<and>
        tile_nodes (apply_to m t) ! j = node_hash hc empty_root_hash ?D (8 * l) ?k"
    proof (rule apply_to_row [OF dist j])
      show "map_of m (0, j) = Some (node_hash hc empty_root_hash ?D (8 * l) ?k) \<or>
        map_of m (0, j) = None \<and> j < length (tile_nodes t) \<and>
          tile_nodes t ! j = node_hash hc empty_root_hash ?D (8 * l) ?k"
      proof (cases "should_store_node (8 * l) ?k (length D0)")
        case False
        then show ?thesis using get new by (simp add: fresh_node_def)
      next
        case True
        then have "j < row_count (length D0) l i" using j by (simp add: row_count_less_iff)
        then show ?thesis
          using get True old should_store_append [OF True, of hc empty_root_hash L]
          by (auto simp: row_ok_iff fresh_node_def)
      qed
    qed
  qed
qed


subsection \<open>The tiles of a result\<close>

text \<open>Exactly the tiles whose row has grown are returned, each with its new row.\<close>

definition tiles_ok :: "hash_fn \<Rightarrow> nat \<Rightarrow> sha256_hash list \<Rightarrow> (tile_id \<times> hash_tile) list \<Rightarrow> bool" where
  "tiles_ok hc n0 D tiles \<longleftrightarrow>
     distinct (map fst tiles) \<and>
     (\<forall>l i. \<lparr>tile_level = l, tile_index = i\<rparr> \<in> fst ` set tiles
        \<longleftrightarrow> row_count n0 l i < row_count (length D) l i) \<and>
     (\<forall>(tid, t) \<in> set tiles. row_ok hc D (tile_level tid) (tile_index tid) (tile_nodes t))"

lemma row_count_pos_iff: "0 < row_count n l i \<longleftrightarrow> i * 256 < n div 256 ^ l"
  by (auto simp: row_count_def)

lemma row_level_bound:
  assumes "0 < row_count n l i" and "n < 2 ^ 64"
  shows "l < 8"
proof (rule ccontr)
  assume "\<not> l < 8"
  then have "(256::nat) ^ 8 \<le> 256 ^ l" by (intro power_increasing) simp_all
  then have "n < 256 ^ l" using assms(2) by simp
  then show False using assms(1) by (simp add: row_count_pos_iff)
qed

text \<open>A node of a tile and the last node of the bottom row below it end at the same leaf.\<close>

lemma bottom_descendant:
  assumes "nl < 8" and "ni < 2 ^ (8 - nl)"
  defines "j \<equiv> (ni + 1) * 2 ^ nl - 1"
  shows "j < 256"
    and "should_store_node (8 * l + nl) (i * 2 ^ (8 - nl) + ni) n \<longleftrightarrow> should_store_node (8 * l) (i * 256 + j) n"
proof -
  have p: "2 ^ (8 - nl) * 2 ^ nl = (256::nat)" using assms(1) by (simp flip: power_add)
  have "(ni + 1) * 2 ^ nl \<le> 2 ^ (8 - nl) * 2 ^ nl" using assms(2) by (intro mult_right_mono) auto
  moreover have one: "1 \<le> (ni + 1) * (2::nat) ^ nl" by (simp add: Suc_le_eq)
  ultimately show "j < 256" unfolding p j_def by linarith
  have "(i * 2 ^ (8 - nl) + ni + 1) * 2 ^ nl = i * (2 ^ (8 - nl) * 2 ^ nl) + (ni + 1) * 2 ^ nl"
    by (simp add: algebra_simps)
  also have "\<dots> = i * 256 + j + 1" unfolding p j_def using one by linarith
  finally have "(i * 2 ^ (8 - nl) + ni + 1) * 2 ^ (8 * l + nl) = (i * 256 + j + 1) * 2 ^ (8 * l)"
    by (metis mult.assoc mult.commute power_add)
  then show "should_store_node (8 * l + nl) (i * 2 ^ (8 - nl) + ni) n \<longleftrightarrow> should_store_node (8 * l) (i * 256 + j) n"
    by (simp add: should_store_node_def)
qed

lemma cache_keys:
  assumes ok: "builder_ok hc n0 D b"
  shows "(l, i) \<in> fst ` set (tb_cache b) \<longleftrightarrow> row_count n0 l i < row_count (length D) l i"
proof
  assume "(l, i) \<in> fst ` set (tb_cache b)"
  then obtain m where m: "((l, i), m) \<in> set (tb_cache b)" by auto
  then have wf: "mutator_wf m" and dist: "distinct (map fst (tb_cache b))"
    using ok by (auto simp: builder_ok_def cache_wf_def list_all_iff)
  then obtain nl ni h where e: "((nl, ni), h) \<in> set m" by (cases m) (auto simp: mutator_wf_def)
  then have n: "nl < 8" "ni < 2 ^ (8 - nl)" and dm: "distinct (map fst m)"
    using wf by (auto simp: mutator_wf_def list_all_iff)
  have "node_to_tile_coords (8 * l + nl) (i * 2 ^ (8 - nl) + ni) = (l, i, nl, ni)"
    using n by (simp add: coords_eq)
  then have "cache_get (tb_cache b) (8 * l + nl) (i * 2 ^ (8 - nl) + ni) = Some h"
    using map_of_is_SomeI [OF dist m] map_of_is_SomeI [OF dm e] by (simp add: cache_get_def)
  then have "fresh_node n0 (length D) (8 * l + nl) (i * 2 ^ (8 - nl) + ni)"
    using ok by (auto simp: builder_ok_def split: if_splits)
  then have "(ni + 1) * 2 ^ nl - 1 < row_count (length D) l i"
    and "\<not> (ni + 1) * 2 ^ nl - 1 < row_count n0 l i"
    using bottom_descendant [OF n] by (simp_all add: fresh_node_def row_count_less_iff)
  then show "row_count n0 l i < row_count (length D) l i" by linarith
next
  assume lt: "row_count n0 l i < row_count (length D) l i"
  let ?j = "row_count n0 l i"
  have j: "?j < 256" and new: "should_store_node (8 * l) (i * 256 + ?j) (length D)"
    using lt by (simp_all add: row_count_less_iff)
  then have "\<not> should_store_node (8 * l) (i * 256 + ?j) n0"
    using row_count_less_iff [of ?j n0 l i] by simp
  then have "cache_get (tb_cache b) (8 * l) (i * 256 + ?j) \<noteq> None"
    using ok new by (simp add: builder_ok_def fresh_node_def)
  then have "map_of (tb_cache b) (l, i) \<noteq> None"
    by (auto simp: cache_get_def coords_bottom [OF j] split: option.splits)
  then show "(l, i) \<in> fst ` set (tb_cache b)" by (auto simp: map_of_eq_None_iff)
qed

lemma existed_iff: "i < (x + TILE_WIDTH - Suc 0) div TILE_WIDTH \<longleftrightarrow> i * 256 < x"
  unfolding TILE_WIDTH_def by linarith

context tile_source
begin

lemma finalize_tile_ok:
  assumes sv: "serves s D" and ok: "builder_ok hc (length D) (D @ L) b"
    and size: "length (D @ L) < 2 ^ 64" and m: "((l, i), m) \<in> set (tb_cache b)"
  shows "\<exists>t. finalize_tile (read_tile s) (length D) ((l, i), m) = Inr (\<lparr>tile_level = l, tile_index = i\<rparr>, t)
    \<and> row_ok hc (D @ L) l i (tile_nodes t)"
proof -
  let ?n = "length D"
  have key: "(l, i) \<in> fst ` set (tb_cache b)" using m by force
  then have "0 < row_count (length (D @ L)) l i" using cache_keys [OF ok] by (metis gr_zeroI not_less_zero)
  then have l: "l < 8" using size by (rule row_level_bound)
  have "map_of (tb_cache b) (l, i) = Some m"
    using ok m by (intro map_of_is_SomeI) (auto simp: builder_ok_def cache_wf_def)
  note apply_ok = apply_to_row_ok [OF ok this]
  have p: "(2::nat) ^ (l * TILE_HEIGHT) = 256 ^ l" by (simp add: TILE_HEIGHT_def pow_256_eq)
  have lvl: "tile_level_new l = Inr l" using l by (simp add: tile_level_new_def)
  note eqs = finalize_tile_def integrate_partial_eq [OF l] p existed_iff lvl
  show ?thesis
  proof (cases "i * 256 < ?n div 256 ^ l")
    case False
    then have "row_ok hc D l i (tile_nodes empty_tile)" by (simp add: row_ok_iff row_count_def empty_tile_def)
    from apply_ok [OF this] False show ?thesis by (simp add: eqs)
  next
    case True
    then obtain t where t: "read_tile s l i (partial_tile_size l i ?n) = Inr (Some t)"
      and row: "row_ok hc D l i (tile_nodes t)"
      using serves_tile [OF sv l] by blast
    from apply_ok [OF row] True t show ?thesis
      by (cases "partial_tile_size l i ?n") (simp_all add: eqs)
  qed
qed

lemma finalize_ok:
  assumes sv: "serves s D" and ok: "builder_ok hc (length D) (D @ L) b" and size: "length (D @ L) < 2 ^ 64"
  shows "\<exists>tiles. finalize hc (read_tile s) b
      = Inr \<lparr>new_size = length (D @ L), root_hash = mth hc empty_root_hash (D @ L), result_tiles = tiles\<rparr>
    \<and> tiles_ok hc (length D) (D @ L) tiles"
proof -
  let ?id = "\<lambda>((l, i), m). \<lparr>tile_level = l, tile_index = i\<rparr> :: tile_id"
  define f where "f = (\<lambda>e. case finalize_tile (read_tile s) (length D) e of Inr x \<Rightarrow> snd x | Inl _ \<Rightarrow> empty_tile)"
  have each: "finalize_tile (read_tile s) (length D) e = Inr (?id e, f e)
      \<and> row_ok hc (D @ L) (tile_level (?id e)) (tile_index (?id e)) (tile_nodes (f e))"
    if "e \<in> set (tb_cache b)" for e
  proof -
    obtain l i m where e: "e = ((l, i), m)" by (metis surj_pair)
    then show ?thesis using finalize_tile_ok [OF sv ok size, of l i m] that by (auto simp: f_def)
  qed
  let ?tiles = "map (\<lambda>e. (?id e, f e)) (tb_cache b)"
  have "map_res (finalize_tile (read_tile s) (length D)) (tb_cache b) = Inr ?tiles"
    using each by (intro map_res_all_ok) auto
  moreover have "compute_root hc b = Inr (mth hc empty_root_hash (D @ L))"
    using ok by (intro compute_root_ok) (simp_all add: builder_ok_def)
  moreover have "tb_from_size b = length D" "tb_size b = length (D @ L)" using ok by (simp_all add: builder_ok_def)
  moreover have "tiles_ok hc (length D) (D @ L) ?tiles"
  proof -
    have ids: "\<lparr>tile_level = l, tile_index = i\<rparr> \<in> fst ` set ?tiles \<longleftrightarrow> (l, i) \<in> fst ` set (tb_cache b)" for l i
      by (force simp: image_iff)
    let ?G = "\<lambda>(l, i). \<lparr>tile_level = l, tile_index = i\<rparr> :: tile_id"
    have d: "distinct (map fst (tb_cache b))" using ok by (simp add: builder_ok_def cache_wf_def)
    have inj: "inj_on ?G (set (map fst (tb_cache b)))" by (auto simp: inj_on_def)
    have fsts: "map fst ?tiles = map ?G (map fst (tb_cache b))" by auto
    have "distinct (map fst ?tiles)"
      unfolding fsts by (rule distinct_map [THEN iffD2, OF conjI [OF d inj]])
    moreover have "\<forall>(tid, t) \<in> set ?tiles.
        row_ok hc (D @ L) (tile_level tid) (tile_index tid) (tile_nodes t)"
      using each by auto
    ultimately show ?thesis unfolding tiles_ok_def ids cache_keys [OF ok] by blast
  qed
  ultimately show ?thesis by (simp add: finalize_def)
qed

lemma integrate_ok:
  assumes sv: "serves s D" and new: "L \<noteq> []" and size: "length (D @ L) \<le> i64_max"
  shows "\<exists>tiles. integrate hc (read_tile s) (length D) L
      = Inr \<lparr>new_size = length (D @ L), root_hash = mth hc empty_root_hash (D @ L), result_tiles = tiles\<rparr>
    \<and> tiles_ok hc (length D) (D @ L) tiles"
proof -
  obtain r where r: "(if D = [] then Inr [] else load_compact_range hc (read_tile s) (length D)) = Inr r"
    and rok: "range_ok hc D r"
    using load_compact_range_ok [OF sv] range_ok_Nil by (cases "D = []") auto
  let ?b = "\<lparr>tb_from_size = length D, tb_size = length D, tb_range = r, tb_cache = []\<rparr>"
  have "builder_ok hc (length D) D ?b" using rok by (simp add: builder_ok_def fresh_node_def cache_wf_def)
  then obtain b where b: "fold_res (tb_append hc) L ?b = Inr b" "builder_ok hc (length D) (D @ L) b"
    using tb_append_all_ok [of hc "length D" D ?b L] size by auto
  have "tree_builder_new hc (read_tile s) (length D) = Inr ?b"
    using r by (simp add: tree_builder_new_def)
  then show ?thesis
    using finalize_ok [OF sv b(2)] b(1) new size by (simp add: integrate_def)
qed

end


subsection \<open>Storage that serves a tree\<close>

text \<open>Every tile of the tree is stored under the path of its size in that tree.\<close>

definition store_serves :: "hash_fn \<Rightarrow> 's operator \<Rightarrow> 's \<Rightarrow> sha256_hash list \<Rightarrow> bool" where
  "store_serves hc op s D \<longleftrightarrow>
     op_laws op \<and> length D \<le> i64_max \<and>
     (\<forall>l i. l < 8 \<longrightarrow> i * 256 < length D div 256 ^ l \<longrightarrow>
        (\<exists>t. get_tile op s (l, i, partial_tile_size l i (length D)) = Some t
           \<and> row_ok hc D l i (tile_nodes t)))"

interpretation store: tile_source hc "Tile_Store.read_tile op" "store_serves hc op" for hc op
  by unfold_locales (auto simp: store_serves_def get_tile_Some_iff)

lemma store_serves_empty: "op_laws op \<Longrightarrow> store_serves hc op s []"
  by (simp add: store_serves_def)

lemma partial_row:
  assumes "l < 8" and "0 < row_count n l i"
  shows "partial_tile_size l i n = row_count n l i mod 256"
proof -
  let ?x = "n div 256 ^ l"
  have pos: "i * 256 < ?x" using assms(2) by (simp add: row_count_pos_iff)
  show ?thesis
  proof (cases "i < ?x div 256")
    case True
    then have "256 \<le> ?x - i * 256" by linarith
    then have "row_count n l i = 256" by (simp add: row_count_def)
    with True show ?thesis by (simp add: partial_tile_size_eq [OF assms(1)])
  next
    case False
    then have "i = ?x div 256" using pos by linarith
    then have "?x - i * 256 = ?x mod 256" by (simp add: minus_div_mult_eq_mod)
    moreover have "?x mod 256 < 256" by simp
    ultimately have "row_count n l i = ?x mod 256" by (simp add: row_count_def)
    with False show ?thesis by (simp add: partial_tile_size_eq [OF assms(1)])
  qed
qed

lemma row_count_mono: "n0 \<le> n \<Longrightarrow> row_count n0 l i \<le> row_count n l i"
proof -
  assume "n0 \<le> n"
  then have "n0 div 256 ^ l \<le> n div 256 ^ l" by (rule div_le_mono)
  then show ?thesis unfolding row_count_def by linarith
qed

lemma row_count_le: "row_count n l i \<le> 256"
  by (simp add: row_count_def)

lemma row_ok_append:
  assumes "row_ok hc D l i nodes" and "row_count (length (D @ L)) l i = row_count (length D) l i"
  shows "row_ok hc (D @ L) l i nodes"
  unfolding row_ok_iff
proof (rule conjI, use assms(1) in \<open>simp add: row_ok_def\<close>, intro allI impI)
  fix j
  assume "j < row_count (length (D @ L)) l i"
  then have "j < row_count (length D) l i" using assms(2) by simp
  then show "j < length nodes \<and> nodes ! j = node_hash hc empty_root_hash (D @ L) (8 * l) (i * 256 + j)"
    using assms(1) should_store_append [of "8 * l" "i * 256 + j" D hc empty_root_hash L]
    by (simp add: row_ok_iff row_count_less_iff)
qed

text \<open>The write of one tile under its path at the new size.\<close>

definition write_sized_tile :: "'s operator \<Rightarrow> nat \<Rightarrow> tile_id \<times> hash_tile \<Rightarrow> ('s, error, unit) st" where
  "write_sized_tile op n tt =
     (case tt of (tid, t) \<Rightarrow>
        write_tile op (tile_level tid) (tile_index tid) (partial_tile_size (tile_level tid) (tile_index tid) n) t)"

definition tile_kvs :: "nat \<Rightarrow> (tile_id \<times> hash_tile) list \<Rightarrow> ((nat \<times> nat \<times> nat) \<times> hash_tile) list" where
  "tile_kvs n tiles = map (\<lambda>(tid, t).
     ((tile_level tid, tile_index tid, partial_tile_size (tile_level tid) (tile_index tid) n), t)) tiles"

lemma for_st_map: "for_st f (map g xs) s = for_st (\<lambda>x. f (g x)) xs s"
  by (induction xs arbitrary: s) (auto split: prod.splits sum.splits)

lemma write_sized_tiles_kvs:
  "for_st (write_sized_tile op n) tiles s
    = for_st (\<lambda>(k, t). (case k of (l, i, p) \<Rightarrow> write_tile op l i p) t) (tile_kvs n tiles) s"
proof -
  have "write_sized_tile op n = (\<lambda>x. (\<lambda>(k, t). (case k of (l, i, p) \<Rightarrow> write_tile op l i p) t)
      ((\<lambda>(tid, t). ((tile_level tid, tile_index tid,
          partial_tile_size (tile_level tid) (tile_index tid) n), t)) x))"
    by (auto simp: write_sized_tile_def fun_eq_iff)
  then show ?thesis unfolding tile_kvs_def for_st_map by simp
qed

lemma kvs_keys:
  assumes "tiles_ok hc n0 D tiles"
  shows "(l, i, p) \<in> fst ` set (tile_kvs (length D) tiles) \<longleftrightarrow>
    row_count n0 l i < row_count (length D) l i \<and> p = partial_tile_size l i (length D)"
proof -
  have "(l, i, p) \<in> fst ` set (tile_kvs (length D) tiles) \<longleftrightarrow>
      \<lparr>tile_level = l, tile_index = i\<rparr> \<in> fst ` set tiles \<and> p = partial_tile_size l i (length D)"
    by (force simp: tile_kvs_def image_iff)
  then show ?thesis using assms unfolding tiles_ok_def by blast
qed

lemma kvs_distinct: "tiles_ok hc n0 D tiles \<Longrightarrow> distinct (map fst (tile_kvs n tiles))"
proof -
  assume ok: "tiles_ok hc n0 D tiles"
  let ?G = "\<lambda>tid. (tile_level tid, tile_index tid, partial_tile_size (tile_level tid) (tile_index tid) n)"
  have d: "distinct (map fst tiles)" using ok by (simp add: tiles_ok_def)
  have inj: "inj_on ?G (set (map fst tiles))" by (auto simp: inj_on_def)
  have fsts: "map fst (tile_kvs n tiles) = map ?G (map fst tiles)" by (auto simp: tile_kvs_def)
  show ?thesis unfolding fsts by (rule distinct_map [THEN iffD2, OF conjI [OF d inj]])
qed

lemma row_tile_key:
  assumes "0 < row_count n l i" and "n \<le> i64_max"
  shows "tile_key (l, i, partial_tile_size l i n')"
proof -
  have "i * 256 < n div 256 ^ l" using assms(1) by (simp add: row_count_pos_iff)
  also have "\<dots> \<le> n" by simp
  finally show ?thesis using assms(2) partial_tile_size_less by simp
qed

lemma kvs_valid:
  assumes "tiles_ok hc n0 D tiles" and "length D \<le> i64_max" and "op_laws op"
  shows "\<forall>(k, t) \<in> set (tile_kvs (length D) tiles). op_laws op \<and> tile_key k"
proof clarify
  fix l i p t
  assume "((l, i, p), t) \<in> set (tile_kvs (length D) tiles)"
  then have "(l, i, p) \<in> fst ` set (tile_kvs (length D) tiles)" by force
  then have "row_count n0 l i < row_count (length D) l i" "p = partial_tile_size l i (length D)"
    using kvs_keys [OF assms(1)] by blast+
  then show "op_laws op \<and> tile_key (l, i, p)"
    using row_tile_key [of "length D" l i "length D"] assms(2,3) by simp
qed

text \<open>Writing the tiles never disturbs the tree that is stored, even when a write fails.\<close>

lemma write_tiles_keep:
  assumes sv: "store_serves hc op s D" and ok: "tiles_ok hc (length D) (D @ L) tiles"
    and size: "length (D @ L) \<le> i64_max"
  shows "store_serves hc op (snd (for_st (write_sized_tile op (length (D @ L))) tiles s)) D"
proof -
  let ?kvs = "tile_kvs (length (D @ L)) tiles" and ?n = "length D"
  have laws: "op_laws op" using sv by (simp add: store_serves_def)
  have same: "get_tile op (snd (for_st (write_sized_tile op (length (D @ L))) tiles s)) (l, i, partial_tile_size l i ?n)
      = get_tile op s (l, i, partial_tile_size l i ?n)"
    if l: "l < 8" and pos: "0 < row_count ?n l i" for l i
    unfolding write_sized_tiles_kvs
  proof (rule tiles.put_all_other [OF kvs_valid [OF ok size laws]])
    show "op_laws op \<and> tile_key (l, i, partial_tile_size l i ?n)"
      using row_tile_key [OF pos, of ?n] sv by (simp add: store_serves_def)
    show "(l, i, partial_tile_size l i ?n) \<notin> fst ` set ?kvs"
    proof
      assume "(l, i, partial_tile_size l i ?n) \<in> fst ` set ?kvs"
      then have lt: "row_count ?n l i < row_count (length (D @ L)) l i"
        and eq: "partial_tile_size l i ?n = partial_tile_size l i (length (D @ L))"
        using kvs_keys [OF ok] by blast+
      have "row_count ?n l i mod 256 = row_count (length (D @ L)) l i mod 256"
        using eq lt partial_row [OF l pos] partial_row [OF l, of "length (D @ L)" i] by simp
      moreover note row_count_le [of "length (D @ L)" l i]
      ultimately show False using lt pos
        by (cases "row_count (length (D @ L)) l i = 256") auto
    qed
  qed
  show ?thesis
    using sv same unfolding store_serves_def row_count_pos_iff by auto
qed

text \<open>A storage that has the new tiles and otherwise what it had serves the extended tree.\<close>

lemma tiles_step:
  assumes sv: "store_serves hc op s D" and ok: "tiles_ok hc (length D) (D @ L) tiles"
    and size: "length (D @ L) \<le> i64_max"
    and new: "\<And>k t. (k, t) \<in> set (tile_kvs (length (D @ L)) tiles) \<Longrightarrow> get_tile op s' k = Some t"
    and old: "\<And>k. tile_key k \<Longrightarrow> k \<notin> fst ` set (tile_kvs (length (D @ L)) tiles)
      \<Longrightarrow> get_tile op s' k = get_tile op s k"
  shows "store_serves hc op s' (D @ L)"
  unfolding store_serves_def
proof (intro conjI allI impI)
  let ?n = "length D" and ?n' = "length (D @ L)"
  let ?kvs = "tile_kvs ?n' tiles"
  show "op_laws op" using sv by (simp add: store_serves_def)
  show "?n' \<le> i64_max" by (rule size)
  fix l i
  assume l: "l < 8" and "i * 256 < ?n' div 256 ^ l"
  then have pos: "0 < row_count ?n' l i" by (simp add: row_count_pos_iff)
  show "\<exists>t. get_tile op s' (l, i, partial_tile_size l i ?n') = Some t \<and> row_ok hc (D @ L) l i (tile_nodes t)"
  proof (cases "row_count ?n l i < row_count ?n' l i")
    case True
    then have "(l, i, partial_tile_size l i ?n') \<in> fst ` set ?kvs" using kvs_keys [OF ok] by blast
    then obtain t where kv: "((l, i, partial_tile_size l i ?n'), t) \<in> set ?kvs" by force
    then have "row_ok hc (D @ L) l i (tile_nodes t)"
      using ok by (auto simp: tiles_ok_def tile_kvs_def)
    then show ?thesis using new [OF kv] by blast
  next
    case False
    then have eq: "row_count ?n' l i = row_count ?n l i"
      using row_count_mono [of ?n ?n' l i] by simp
    then have part: "partial_tile_size l i ?n' = partial_tile_size l i ?n"
      using partial_row [OF l] pos by metis
    have "(l, i, partial_tile_size l i ?n') \<notin> fst ` set ?kvs" using kvs_keys [OF ok] False by blast
    then have "get_tile op s' (l, i, partial_tile_size l i ?n') = get_tile op s (l, i, partial_tile_size l i ?n')"
      using old [OF row_tile_key [OF pos size]] by blast
    moreover obtain t where "get_tile op s (l, i, partial_tile_size l i ?n) = Some t"
      and "row_ok hc D l i (tile_nodes t)"
      using sv l pos eq unfolding store_serves_def row_count_pos_iff by (metis row_count_pos_iff)
    ultimately show ?thesis using row_ok_append [OF _ eq] part by metis
  qed
qed

lemma write_tiles_serve:
  assumes sv: "store_serves hc op s D" and ok: "tiles_ok hc (length D) (D @ L) tiles"
    and size: "length (D @ L) \<le> i64_max"
    and run: "for_st (write_sized_tile op (length (D @ L))) tiles s = (Inr (), s')"
  shows "store_serves hc op s' (D @ L)"
proof -
  have laws: "op_laws op" using sv by (simp add: store_serves_def)
  note valid = kvs_valid [OF ok size laws] and run' = run [unfolded write_sized_tiles_kvs]
  show ?thesis
  proof (rule tiles_step [OF sv ok size])
    show "get_tile op s' k = Some t" if "(k, t) \<in> set (tile_kvs (length (D @ L)) tiles)" for k t
      using tiles.put_all_same [OF valid kvs_distinct [OF ok] run' that] .
    show "get_tile op s' k = get_tile op s k"
      if "tile_key k" "k \<notin> fst ` set (tile_kvs (length (D @ L)) tiles)" for k
      using tiles.put_all_other [OF valid, of k s] run' laws that by simp
  qed
qed

subsection \<open>Properties\<close>

text \<open>A stored tree of three leaves, used by the witnesses.\<close>

definition demo_store :: "(string \<times> byte list) list" where
  "demo_store = [(tile_path 0 0 3, hash_tile_to_bytes \<lparr>tile_nodes = [5, 6, 7]\<rparr>)]"

lemma demo_lengths:
  "length [5, 6, 7 :: sha256_hash] = 3" "length ([5, 6, 7] @ [8 :: sha256_hash]) = 4"
  by simp_all

lemma demo_store_serves: "store_serves demo_hash memory_op demo_store [5, 6, 7]"
proof -
  have tile: "get_tile memory_op demo_store (0, 0, 3) = Some \<lparr>tile_nodes = [5, 6, 7]\<rparr>"
    by (simp add: get_tile_def read_tile_def memory_op_def demo_store_def hash_tile_decode_encode)
  have part: "partial_tile_size 0 0 3 = 3" by (simp add: partial_tile_size_eq)
  have row: "row_ok demo_hash [5, 6, 7] 0 0 [5, 6, 7]"
  proof -
    have "nodes ! j = node_hash demo_hash empty_root_hash [5, 6, 7] 0 j"
      if "j < length nodes" and "nodes = [5, 6, 7]" for j and nodes :: "sha256_hash list"
      using that by (subst node_hash_leaf) simp_all
    then show ?thesis by (simp add: row_ok_def row_count_def)
  qed
  have only: "l = 0 \<and> i = 0" if "i * 256 < 3 div 256 ^ l" for l i :: nat
  proof (cases l)
    case 0
    then show ?thesis using that by simp
  next
    case (Suc k)
    have "1 \<le> (256::nat) ^ k" by simp
    then have "3 < (256::nat) * 256 ^ k" by linarith
    then have "(3::nat) div 256 ^ Suc k = 0" by simp
    then show ?thesis using that Suc by simp
  qed
  have "\<exists>t. get_tile memory_op demo_store (l, i, partial_tile_size l i 3) = Some t
      \<and> row_ok demo_hash [5, 6, 7] l i (tile_nodes t)" if "i * 256 < 3 div 256 ^ l" for l i
    using only [OF that] tile part row by simp
  then show ?thesis using memory_op_laws unfolding store_serves_def demo_lengths by auto
qed

text \<open>
  C5. Integration computes the Merkle tree hash of RFC 6962: from storage that serves the tree of the
  leaves \<open>D\<close>, integrating \<open>L\<close> succeeds with the size and the root of \<open>D @ L\<close>, and once the
  returned tiles are written under their paths the storage serves the tree of \<open>D @ L\<close>.
\<close>

theorem integrate_correct:
  assumes "store_serves hc op s D" and "L \<noteq> []" and "length (D @ L) \<le> i64_max"
  shows "\<exists>tiles. integrate hc (Tile_Store.read_tile op s) (length D) L
      = Inr \<lparr>new_size = length (D @ L), root_hash = mth hc empty_root_hash (D @ L), result_tiles = tiles\<rparr>
    \<and> (\<forall>s'. for_st (write_sized_tile op (length (D @ L))) tiles s = (Inr (), s')
          \<longrightarrow> store_serves hc op s' (D @ L))"
  using store.integrate_ok [OF assms] write_tiles_serve [OF assms(1) _ assms(3)] by blast

theorem integrate_correct_witness:
  "\<exists>tiles. integrate demo_hash (Tile_Store.read_tile memory_op demo_store) 3 [8]
      = Inr \<lparr>new_size = 4, root_hash = mth demo_hash empty_root_hash [5, 6, 7, 8], result_tiles = tiles\<rparr>"
  using integrate_correct [OF demo_store_serves, of "[8]", unfolded demo_lengths] by auto

text \<open>
  Crash safety of the tile writes: whether the writes of the new tiles all succeed, or one fails
  and the rest never happens, the storage still serves the tree it served before.
\<close>

lemma interrupted_tile_writes_safe:
  assumes "store_serves hc op s D" and "L \<noteq> []" and "length (D @ L) \<le> i64_max"
    and "integrate hc (Tile_Store.read_tile op s) (length D) L = Inr result"
  shows "store_serves hc op (snd (for_st (write_sized_tile op (new_size result)) (result_tiles result) s)) D"
  using store.integrate_ok [OF assms(1-3)] assms(4) write_tiles_keep [OF assms(1) _ assms(3)] by auto

text \<open>
  C7. Proof generation meets verification: for every old size, the consistency proof generated from
  storage that serves a tree is accepted by the witness's verifier for the two roots.
\<close>

theorem generated_consistency_proof_verifies:
  assumes "store_serves hc op s D" and "m \<le> length D"
  shows "\<exists>pf. generate_consistency_proof_simple hc (Tile_Store.read_tile op s) m (length D) = Inr pf
    \<and> verify_consistency hc m (length D) (mth hc empty_root_hash (take m D)) (mth hc empty_root_hash D) pf = Inr ()"
  using store.generate_consistency_ok [OF assms] verify_rfc_proof [OF assms(2), of empty_root_hash hc]
    store.serves_size [OF assms(1)] by simp

theorem generated_consistency_proof_verifies_witness:
  "\<exists>pf. generate_consistency_proof_simple demo_hash (Tile_Store.read_tile memory_op demo_store) 2 3 = Inr pf
    \<and> verify_consistency demo_hash 2 3 (mth demo_hash empty_root_hash [5, 6])
        (mth demo_hash empty_root_hash [5, 6, 7]) pf = Inr ()"
  using generated_consistency_proof_verifies [OF demo_store_serves, of 2, unfolded demo_lengths] by simp

text \<open>
  Inclusion proofs: for every leaf of the stored tree the generated path is the audit path of
  RFC 6962, and folding it from the leaf gives the root; for an index outside the tree the
  generator returns an error.
\<close>

lemma generated_inclusion_proof_correct:
  assumes "store_serves hc op s D"
  shows "if index < length D
    then \<exists>path. generate_inclusion_proof hc (Tile_Store.read_tile op s) index (length D) = Inr path
       \<and> path_root hc index (length D) (D ! index) path = mth hc empty_root_hash D
    else generate_inclusion_proof hc (Tile_Store.read_tile op s) index (length D) = Inl InvalidEntry"
  using store.generate_inclusion_ok [OF assms] path_root_rfc_path
  by (auto simp: generate_inclusion_proof_def)

text \<open>
  Hashing any range of leaves from the stored tiles, across tile boundaries and tile levels, gives
  the Merkle tree hash of that range.
\<close>

lemma compute_subtree_hash_correct:
  assumes "store_serves hc op s D" and "start < stop" and "stop \<le> length D"
  shows "compute_subtree_hash hc (Tile_Store.read_tile op s) start stop (length D)
    = Inr (mth hc empty_root_hash (take (stop - start) (drop start D)))"
  using store.compute_subtree_hash_ok [OF assms] by (simp add: hash_range_def)

end
