(* ===== verification/Log_Database.thy ===== *)
theory Log_Database
  imports Types_Paths
begin

text \<open>
  The sequencing database, \<^verbatim>\<open>src/storage/database.rs\<close>. The four tables are the fields of a record:
  the single row of \<open>log_state\<close>, the mode of \<open>log_config\<close>, and the rows of \<open>rekor_entries\<close>
  and \<open>pending_entries\<close>. Index columns are signed 64-bit integers, converted by \<open>as_u64\<close> and
  \<open>as_i64\<close> as the source casts them. An operation that runs in a transaction changes the record
  only where it commits. The abstraction \<open>db_log\<close> is the list of all entries ever sequenced with
  the number of integrated ones.
\<close>


subsection \<open>Tables\<close>

definition as_u64 :: "int \<Rightarrow> nat" where
  "as_u64 x = nat (x mod 2 ^ 64)"

definition as_i64 :: "nat \<Rightarrow> int" where
  "as_i64 n = (if n < 2 ^ 63 then int n else int n - 2 ^ 64)"

record log_row =
  row_next_index :: int
  row_integrated_size :: int
  row_root_hash :: "byte list option"

record pending_row =
  p_idx :: int
  p_data :: "byte list"
  p_leaf_hash :: "byte list"

record database =
  db_log_state :: "log_row option"
  db_mode :: "string option"
  db_rekor :: "(byte list \<times> int) list"
  db_pending :: "pending_row list"

datatype api_mode = Tessera | Rekor

fun mode_str :: "api_mode \<Rightarrow> string" where
  "mode_str Tessera = ''tessera''"
| "mode_str Rekor = ''rekor''"


subsection \<open>Operations\<close>

record log_state =
  next_index :: nat
  integrated_size :: nat
  state_root_hash :: "sha256_hash option"

definition get_log_state :: "database \<Rightarrow> log_state res" where
  "get_log_state db =
     bind_res (ok_or Internal (db_log_state db)) (\<lambda>row.
       Inr \<lparr>next_index = as_u64 (row_next_index row),
            integrated_size = as_u64 (row_integrated_size row),
            state_root_hash = Option.bind (row_root_hash row) try_from_slice\<rparr>)"

definition pending_count :: "log_state \<Rightarrow> nat res" where
  "pending_count st =
     (if next_index st < integrated_size st then Inl Panic else Inr (next_index st - integrated_size st))"

definition ensure_mode :: "api_mode \<Rightarrow> (database, error, unit) st" where
  "ensure_mode mode db =
     (let db' = (case (db_log_state db, db_mode db) of
                   (Some row, None) \<Rightarrow>
                     db\<lparr>db_mode := Some (if 0 < row_next_index row then ''tessera'' else mode_str mode)\<rparr>
                 | _ \<Rightarrow> db)
      in case db_mode db' of
           None \<Rightarrow> (Inl Internal, db')
         | Some stored \<Rightarrow> if stored = mode_str mode then (Inr (), db') else (Inl Config, db'))"

definition begin_import :: "(database, error, unit) st" where
  "begin_import =
     bind_st (ensure_mode Tessera) (\<lambda>_ db.
       case db_log_state db of
         None \<Rightarrow> (Inl Internal, db)
       | Some row \<Rightarrow>
           if row_next_index row \<noteq> 0 \<or> row_integrated_size row \<noteq> 0 \<or> row_root_hash row \<noteq> None
              \<or> db_pending db \<noteq> []
           then (Inl Config, db) else (Inr (), db))"

definition finish_import :: "nat \<Rightarrow> sha256_hash \<Rightarrow> (database, error, unit) st" where
  "finish_import sz root db =
     (if i64_max < sz then (Inl InvalidEntry, db)
      else case db_log_state db of
             None \<Rightarrow> (Inl Database, db)
           | Some row \<Rightarrow>
               (Inr (), db\<lparr>db_log_state := Some \<lparr>row_next_index = int sz, row_integrated_size = int sz,
                                               row_root_hash = Some (hash_bytes root)\<rparr>\<rparr>))"

text \<open>
  The loop of \<open>sequence_entries\<close> over the working copies of its transaction. Inserting a row whose
  primary key exists is a database error, which aborts the transaction.
\<close>

record seq_txn =
  tx_next :: int
  tx_rekor :: "(byte list \<times> int) list"
  tx_pending :: "pending_row list"
  tx_results :: "sequenced_entry res list"

definition sequence_append :: "entry \<Rightarrow> seq_txn \<Rightarrow> seq_txn res" where
  "sequence_append e tx =
     (let idx = as_u64 (tx_next tx)
      in if tx_next tx = int i64_max then Inl IndexFull
         else if \<exists>row \<in> set (tx_pending tx). p_idx row = as_i64 idx then Inl Database
         else Inr (tx\<lparr>tx_next := tx_next tx + 1,
                      tx_pending := tx_pending tx @
                        [\<lparr>p_idx = as_i64 idx, p_data = entry_data e, p_leaf_hash = hash_bytes (entry_leaf_hash e)\<rparr>],
                      tx_results := tx_results tx @ [Inr \<lparr>seq_index = idx, seq_entry = e\<rparr>]\<rparr>))"

definition sequence_one :: "bool \<Rightarrow> entry \<Rightarrow> seq_txn \<Rightarrow> seq_txn res" where
  "sequence_one deduplicate e tx =
     (if deduplicate then
        let h = hash_bytes (entry_leaf_hash e)
        in case map_of (tx_rekor tx) h of
             Some i \<Rightarrow> Inr (tx\<lparr>tx_results := tx_results tx @ [Inl (Duplicate (as_u64 i))]\<rparr>)
           | None \<Rightarrow> sequence_append e (tx\<lparr>tx_rekor := (h, tx_next tx) # tx_rekor tx\<rparr>)
      else sequence_append e tx)"

definition sequence_entries :: "entry list \<Rightarrow> (database, error, sequenced_entry res list) st" where
  "sequence_entries entries db =
     (if entries = [] then (Inr [], db)
      else case db_log_state db of
        None \<Rightarrow> (Inl Internal, db)
      | Some row \<Rightarrow>
          (case fold_res (sequence_one (db_mode db = Some ''rekor'')) entries
                  \<lparr>tx_next = row_next_index row, tx_rekor = db_rekor db,
                   tx_pending = db_pending db, tx_results = []\<rparr> of
             Inl e \<Rightarrow> (Inl e, db)
           | Inr tx \<Rightarrow>
               (Inr (tx_results tx),
                db\<lparr>db_log_state := Some (row\<lparr>row_next_index := tx_next tx\<rparr>),
                   db_rekor := tx_rekor tx, db_pending := tx_pending tx\<rparr>)))"

record pending_entry =
  pe_index :: nat
  pe_data :: "byte list"
  pe_leaf_hash :: sha256_hash

definition pending_of_row :: "pending_row \<Rightarrow> pending_entry res" where
  "pending_of_row row =
     bind_res (ok_or Internal (try_from_slice (p_leaf_hash row))) (\<lambda>h.
       Inr \<lparr>pe_index = as_u64 (p_idx row), pe_data = p_data row, pe_leaf_hash = h\<rparr>)"

definition get_pending_entries :: "nat \<Rightarrow> nat \<Rightarrow> database \<Rightarrow> pending_entry list res" where
  "get_pending_entries from_index limit db =
     map_res pending_of_row
       (take limit (sort_key p_idx (filter (\<lambda>row. as_i64 from_index \<le> p_idx row) (db_pending db))))"

definition mark_integrated_if_current ::
  "nat \<Rightarrow> nat \<Rightarrow> sha256_hash \<Rightarrow> (database, error, bool) st" where
  "mark_integrated_if_current expected_current_size new_sz root db =
     (if new_sz < expected_current_size then (Inl Internal, db)
      else case db_log_state db of
        None \<Rightarrow> (Inl Internal, db)
      | Some row \<Rightarrow>
          if as_u64 (row_integrated_size row) \<noteq> expected_current_size then (Inr False, db)
          else (Inr True,
                db\<lparr>db_log_state := Some (row\<lparr>row_integrated_size := as_i64 new_sz,
                                              row_root_hash := Some (hash_bytes root)\<rparr>),
                   db_pending := filter (\<lambda>r. \<not> p_idx r < as_i64 new_sz) (db_pending db)\<rparr>))"


subsection \<open>The log a database stands for\<close>

text \<open>
  \<open>db_log db E m\<close>: the entries \<open>E\<close> have been sequenced, the first \<open>m\<close> of them are integrated,
  and the pending table holds exactly the others. In Rekor mode the table of leaf hashes maps
  every leaf hash of the log to its only index.
\<close>

definition pending_row_at :: "entry list \<Rightarrow> nat \<Rightarrow> pending_row" where
  "pending_row_at E k = \<lparr>p_idx = int k, p_data = entry_data (E ! k),
     p_leaf_hash = hash_bytes (entry_leaf_hash (E ! k))\<rparr>"

definition rekor_ok :: "(byte list \<times> int) list \<Rightarrow> entry list \<Rightarrow> bool" where
  "rekor_ok tbl E \<longleftrightarrow>
     distinct (map entry_leaf_hash E) \<and>
     (\<forall>h i. map_of tbl (hash_bytes h) = Some i \<longleftrightarrow>
        (\<exists>k < length E. entry_leaf_hash (E ! k) = h \<and> i = int k))"

definition db_log :: "database \<Rightarrow> entry list \<Rightarrow> nat \<Rightarrow> bool" where
  "db_log db E m \<longleftrightarrow>
     m \<le> length E \<and> length E \<le> i64_max \<and>
     (\<exists>row. db_log_state db = Some row \<and> row_next_index row = int (length E)
        \<and> row_integrated_size row = int m) \<and>
     db_pending db = map (pending_row_at E) [m..<length E] \<and>
     (db_mode db = Some ''rekor'' \<longrightarrow> rekor_ok (db_rekor db) E)"

lemma as_u64_int [simp]: "n \<le> u64_max \<Longrightarrow> as_u64 (int n) = n"
  by (simp add: as_u64_def)

lemma as_i64_small [simp]: "n \<le> i64_max \<Longrightarrow> as_i64 n = int n"
  by (simp add: as_i64_def)

lemma pending_row_at_append:
  "k < length E \<Longrightarrow> pending_row_at (E @ F) k = pending_row_at E k"
  by (simp add: pending_row_at_def nth_append)


subsection \<open>Sequencing refines an append-only list\<close>

definition index_of :: "entry list \<Rightarrow> sha256_hash \<Rightarrow> nat" where
  "index_of E h = length (takeWhile (\<lambda>e. entry_leaf_hash e \<noteq> h) E)"

fun seq_spec :: "bool \<Rightarrow> entry list \<Rightarrow> entry list \<Rightarrow> entry list \<times> sequenced_entry res list" where
  "seq_spec dedup E [] = (E, [])"
| "seq_spec dedup E (e # es) =
     (if dedup \<and> entry_leaf_hash e \<in> entry_leaf_hash ` set E
      then apsnd ((#) (Inl (Duplicate (index_of E (entry_leaf_hash e))))) (seq_spec dedup E es)
      else apsnd ((#) (Inr \<lparr>seq_index = length E, seq_entry = e\<rparr>)) (seq_spec dedup (E @ [e]) es))"

lemma seq_spec_extends: "\<exists>F. fst (seq_spec d E es) = E @ F"
proof (induction es arbitrary: E)
  case (Cons e es)
  from Cons.IH [of E] Cons.IH [of "E @ [e]"] show ?case by auto
qed simp

lemma seq_spec_length: "length E \<le> length (fst (seq_spec d E es))"
  using seq_spec_extends [of d E es] by auto

definition tx_ok :: "bool \<Rightarrow> entry list \<Rightarrow> nat \<Rightarrow> seq_txn \<Rightarrow> bool" where
  "tx_ok dedup E m tx \<longleftrightarrow>
     m \<le> length E \<and> length E \<le> i64_max \<and> tx_next tx = int (length E) \<and>
     tx_pending tx = map (pending_row_at E) [m..<length E] \<and>
     (dedup \<longrightarrow> rekor_ok (tx_rekor tx) E)"

lemma index_of_nth:
  assumes "h \<in> entry_leaf_hash ` set E"
  shows "index_of E h < length E" and "entry_leaf_hash (E ! index_of E h) = h"
  using assms by (induction E) (auto simp: index_of_def)

lemma rekor_ok_lookup:
  assumes "rekor_ok tbl E"
  shows "map_of tbl (hash_bytes h)
    = (if h \<in> entry_leaf_hash ` set E then Some (int (index_of E h)) else None)"
proof (cases "h \<in> entry_leaf_hash ` set E")
  case True
  then show ?thesis using assms index_of_nth [OF True] unfolding rekor_ok_def by auto
next
  case False
  have "map_of tbl (hash_bytes h) = None"
  proof (rule ccontr)
    assume "map_of tbl (hash_bytes h) \<noteq> None"
    then obtain k where "k < length E" and "entry_leaf_hash (E ! k) = h"
      using assms unfolding rekor_ok_def by auto
    then show False using False nth_mem by blast
  qed
  with False show ?thesis by simp
qed

lemma rekor_ok_insert:
  assumes "rekor_ok tbl E" and "entry_leaf_hash e \<notin> entry_leaf_hash ` set E"
  shows "rekor_ok ((hash_bytes (entry_leaf_hash e), int (length E)) # tbl) (E @ [e])"
proof -
  have "distinct (map entry_leaf_hash (E @ [e]))" using assms by (auto simp: rekor_ok_def)
  moreover have "map_of ((hash_bytes (entry_leaf_hash e), int (length E)) # tbl) (hash_bytes h) = Some i \<longleftrightarrow>
      (\<exists>k < length (E @ [e]). entry_leaf_hash ((E @ [e]) ! k) = h \<and> i = int k)" for h i
  proof -
    have rhs: "(\<exists>k < length (E @ [e]). entry_leaf_hash ((E @ [e]) ! k) = h \<and> i = int k) \<longleftrightarrow>
        (\<exists>k < length E. entry_leaf_hash (E ! k) = h \<and> i = int k) \<or> entry_leaf_hash e = h \<and> i = int (length E)"
      by (simp add: Ex_less_Suc nth_append cong: conj_cong) (simp only: disj_commute)
    have tbl: "map_of tbl (hash_bytes h) = Some i \<longleftrightarrow>
        (\<exists>k < length E. entry_leaf_hash (E ! k) = h \<and> i = int k)"
      using assms(1) by (simp add: rekor_ok_def)
    show ?thesis
    proof (cases "h = entry_leaf_hash e")
      case True
      then have "\<not> (\<exists>k < length E. entry_leaf_hash (E ! k) = h \<and> i = int k)"
        using assms(2) by (metis imageI nth_mem)
      with True show ?thesis unfolding rhs by (auto simp: hash_bytes_inj)
    next
      case False
      with tbl show ?thesis unfolding rhs by (simp add: hash_bytes_inj)
    qed
  qed
  ultimately show ?thesis unfolding rekor_ok_def by blast
qed

lemma sequence_append_ok:
  assumes "tx_ok False E m tx" and "length E < i64_max"
  shows "sequence_append e tx = Inr (tx\<lparr>tx_next := int (length (E @ [e])),
      tx_pending := map (pending_row_at (E @ [e])) [m..<length (E @ [e])],
      tx_results := tx_results tx @ [Inr \<lparr>seq_index = length E, seq_entry = e\<rparr>]\<rparr>)"
proof -
  have rows: "map (pending_row_at (E @ [e])) [m..<length (E @ [e])]
      = map (pending_row_at E) [m..<length E]
        @ [\<lparr>p_idx = int (length E), p_data = entry_data e, p_leaf_hash = hash_bytes (entry_leaf_hash e)\<rparr>]"
    using assms(1) by (simp add: tx_ok_def pending_row_at_append) (simp add: pending_row_at_def)
  have "\<not> (\<exists>row \<in> set (tx_pending tx). p_idx row = int (length E))"
    using assms(1) by (auto simp: tx_ok_def pending_row_at_def)
  then show ?thesis
    using assms unfolding rows by (simp add: sequence_append_def tx_ok_def Let_def add.commute)
qed

lemma sequence_append_full:
  "tx_ok False E m tx \<Longrightarrow> length E = i64_max \<Longrightarrow> sequence_append e tx = Inl IndexFull"
  by (simp add: sequence_append_def tx_ok_def)

lemma sequence_one_ok:
  assumes "tx_ok d E m tx"
  shows "if d \<and> entry_leaf_hash e \<in> entry_leaf_hash ` set E
    then sequence_one d e tx
       = Inr (tx\<lparr>tx_results := tx_results tx @ [Inl (Duplicate (index_of E (entry_leaf_hash e)))]\<rparr>)
    else if length E < i64_max
    then \<exists>tx'. sequence_one d e tx = Inr tx' \<and> tx_ok d (E @ [e]) m tx'
       \<and> tx_results tx' = tx_results tx @ [Inr \<lparr>seq_index = length E, seq_entry = e\<rparr>]
    else sequence_one d e tx = Inl IndexFull"
proof -
  have weak: "tx_ok False E m (tx\<lparr>tx_rekor := t\<rparr>)" "tx_ok False E m tx" for t
    using assms by (simp_all add: tx_ok_def)
  have size: "length E \<le> i64_max" "m \<le> length E" using assms by (simp_all add: tx_ok_def)
  show ?thesis
  proof (cases d)
    case False
    then show ?thesis
      using size sequence_append_ok [OF weak(2), of e] sequence_append_full [OF weak(2), of e]
      by (auto simp: sequence_one_def tx_ok_def)
  next
    case True
    then have rk: "rekor_ok (tx_rekor tx) E" and next_eq: "tx_next tx = int (length E)"
      using assms by (simp_all add: tx_ok_def)
    show ?thesis
    proof (cases "entry_leaf_hash e \<in> entry_leaf_hash ` set E")
      case dup: True
      then show ?thesis
        using True size index_of_nth(1) [OF dup] rekor_ok_lookup [OF rk] by (simp add: sequence_one_def)
    next
      case new: False
      have "sequence_one d e tx
          = sequence_append e (tx\<lparr>tx_rekor := (hash_bytes (entry_leaf_hash e), int (length E)) # tx_rekor tx\<rparr>)"
        using True new rekor_ok_lookup [OF rk, of "entry_leaf_hash e"] next_eq by (simp add: sequence_one_def)
      then show ?thesis
        using new size sequence_append_ok [OF weak(1), of e] sequence_append_full [OF weak(1), of e]
          rekor_ok_insert [OF rk new] by (auto simp: tx_ok_def)
    qed
  qed
qed

lemma sequence_fold_ok:
  "tx_ok d E m tx \<Longrightarrow>
    (if length (fst (seq_spec d E es)) \<le> i64_max
     then \<exists>tx'. fold_res (sequence_one d) es tx = Inr tx' \<and> tx_ok d (fst (seq_spec d E es)) m tx'
        \<and> tx_results tx' = tx_results tx @ snd (seq_spec d E es)
     else fold_res (sequence_one d) es tx = Inl IndexFull)"
proof (induction es arbitrary: E tx)
  case Nil
  then show ?case by (simp add: tx_ok_def)
next
  case (Cons e es)
  note one = sequence_one_ok [OF Cons.prems, of e]
  show ?case
  proof (cases "d \<and> entry_leaf_hash e \<in> entry_leaf_hash ` set E")
    case True
    let ?tx = "tx\<lparr>tx_results := tx_results tx @ [Inl (Duplicate (index_of E (entry_leaf_hash e)))]\<rparr>"
    have "tx_ok d E m ?tx" using Cons.prems by (simp add: tx_ok_def)
    from Cons.IH [OF this] one True show ?thesis by auto
  next
    case False
    show ?thesis
    proof (cases "length E < i64_max")
      case lt: True
      from one False lt obtain tx' where "sequence_one d e tx = Inr tx'" "tx_ok d (E @ [e]) m tx'"
        "tx_results tx' = tx_results tx @ [Inr \<lparr>seq_index = length E, seq_entry = e\<rparr>]" by auto
      with Cons.IH [of "E @ [e]" tx'] False show ?thesis by auto
    next
      case full: False
      have "i64_max < length (fst (seq_spec d (E @ [e]) es))"
        using full seq_spec_length [of "E @ [e]" d es] by simp
      with one False full show ?thesis by (auto simp: not_less)
    qed
  qed
qed

lemma sequence_entries_ok:
  assumes "db_log db E m" and spec_def: "spec = seq_spec (db_mode db = Some ''rekor'') E es"
  shows "if length (fst spec) \<le> i64_max
    then \<exists>db'. sequence_entries es db = (Inr (snd spec), db') \<and> db_log db' (fst spec) m
       \<and> db_mode db' = db_mode db
    else sequence_entries es db = (Inl IndexFull, db)"
proof (cases "es = []")
  case True
  then show ?thesis using assms(1) by (simp add: spec_def sequence_entries_def db_log_def)
next
  case False
  let ?d = "db_mode db = Some ''rekor''"
  obtain row where row: "db_log_state db = Some row" "row_next_index row = int (length E)"
    "row_integrated_size row = int m" using assms(1) by (auto simp: db_log_def)
  let ?tx = "\<lparr>tx_next = row_next_index row, tx_rekor = db_rekor db, tx_pending = db_pending db, tx_results = []\<rparr>"
  have "tx_ok ?d E m ?tx" using assms(1) row by (simp add: db_log_def tx_ok_def)
  from sequence_fold_ok [OF this, of es] show ?thesis
    using False row unfolding spec_def [symmetric]
    by (auto simp: sequence_entries_def tx_ok_def db_log_def split: if_splits)
qed


subsection \<open>Reading and integrating pending entries\<close>

definition pending_at :: "entry list \<Rightarrow> nat \<Rightarrow> pending_entry" where
  "pending_at E k = \<lparr>pe_index = k, pe_data = entry_data (E ! k), pe_leaf_hash = entry_leaf_hash (E ! k)\<rparr>"

lemma get_log_state_ok:
  "db_log db E m \<Longrightarrow> \<exists>root. get_log_state db
    = Inr \<lparr>next_index = length E, integrated_size = m, state_root_hash = root\<rparr>"
  by (auto simp: db_log_def get_log_state_def)

lemma get_pending_entries_ok:
  assumes "db_log db E m" and "k \<le> m"
  shows "get_pending_entries k limit db = Inr (map (pending_at E) [m..<min (m + limit) (length E)])"
proof -
  have m: "m \<le> length E" "length E \<le> i64_max" using assms by (simp_all add: db_log_def)
  have all: "filter (\<lambda>row. as_i64 k \<le> p_idx row) (db_pending db) = db_pending db"
    using assms by (auto simp: db_log_def pending_row_at_def intro!: filter_True)
  have "sorted (map p_idx (db_pending db))"
    using assms by (simp add: db_log_def comp_def pending_row_at_def sorted_map sorted_wrt_upt
        sorted_wrt_map strict_sorted_imp_sorted flip: map_map)
  then have sort: "sort_key p_idx (db_pending db) = db_pending db" by (rule sort_key_id_if_sorted)
  have rows: "take limit (db_pending db) = map (pending_row_at E) [m..<min (m + limit) (length E)]"
    using assms m by (simp add: db_log_def take_map take_upt min_def)
  have "map_res pending_of_row (map (pending_row_at E) [m..<min (m + limit) (length E)])
      = Inr (map (\<lambda>row. case pending_of_row row of Inr x \<Rightarrow> x | _ \<Rightarrow> undefined)
          (map (pending_row_at E) [m..<min (m + limit) (length E)]))"
    using m by (intro map_res_all_ok) (auto simp: pending_of_row_def pending_row_at_def)
  also have "\<dots> = Inr (map (pending_at E) [m..<min (m + limit) (length E)])"
    using m by (auto simp: pending_of_row_def pending_row_at_def pending_at_def)
  finally show ?thesis unfolding get_pending_entries_def all sort rows .
qed

lemma mark_integrated_ok:
  assumes "db_log db E m" and "m \<le> n" and "n \<le> length E"
  shows "\<exists>db'. mark_integrated_if_current m n root db = (Inr True, db') \<and> db_log db' E n
    \<and> get_log_state db' = Inr \<lparr>next_index = length E, integrated_size = n, state_root_hash = Some root\<rparr>
    \<and> db_mode db' = db_mode db"
proof -
  have size: "length E \<le> i64_max" "m \<le> length E" using assms by (simp_all add: db_log_def)
  have "[m..<length E] = [m..<n] @ [n..<length E]" using assms by (metis le_add_diff_inverse upt_add_eq_append)
  then have "filter (\<lambda>r. \<not> p_idx r < as_i64 n) (db_pending db) = map (pending_row_at E) [n..<length E]"
    using assms size by (simp add: db_log_def pending_row_at_def filter_map comp_def)
  then show ?thesis
    using assms size by (auto simp: mark_integrated_if_current_def db_log_def get_log_state_def)
qed

lemma mark_integrated_stale:
  assumes "db_log db E m" and "expected \<noteq> m"
  shows "snd (mark_integrated_if_current expected n root db) = db"
    and "fst (mark_integrated_if_current expected n root db) \<noteq> Inr True"
  using assms by (auto simp: db_log_def mark_integrated_if_current_def)

subsection \<open>Properties\<close>

text \<open>
  C22. Sequencing refines appending to a list: on a database that stands for the log \<open>E\<close>, a batch
  gets consecutive indices from the end of the log on (in Rekor mode an entry whose leaf hash is
  in the log gets a duplicate error naming the index of the original), the database then stands
  for the extended log, and a batch that would exhaust the index space changes nothing.
\<close>

theorem sequence_entries_refines:
  assumes "db_log db E m"
  shows "let (E', results) = seq_spec (db_mode db = Some ''rekor'') E es
    in if length E' \<le> i64_max
       then fst (sequence_entries es db) = Inr results \<and> db_log (snd (sequence_entries es db)) E' m
       else sequence_entries es db = (Inl IndexFull, db)"
  using sequence_entries_ok [OF assms refl, of es] by (auto simp: split_beta split: if_splits)

definition empty_db :: "string option \<Rightarrow> database" where
  "empty_db mode = \<lparr>db_log_state = Some \<lparr>row_next_index = 0, row_integrated_size = 0, row_root_hash = None\<rparr>,
     db_mode = mode, db_rekor = [], db_pending = []\<rparr>"

lemma empty_db_log: "db_log (empty_db mode) [] 0"
  by (simp add: db_log_def empty_db_def rekor_ok_def)

theorem sequence_entries_refines_witness:
  "fst (sequence_entries [\<lparr>entry_data = [1], entry_leaf_hash = 5\<rparr>, \<lparr>entry_data = [2], entry_leaf_hash = 5\<rparr>]
      (empty_db (Some ''rekor'')))
    = Inr [Inr \<lparr>seq_index = 0, seq_entry = \<lparr>entry_data = [1], entry_leaf_hash = 5\<rparr>\<rparr>, Inl (Duplicate 0)]"
  using sequence_entries_refines [OF empty_db_log, of "Some ''rekor''"
    "[\<lparr>entry_data = [1], entry_leaf_hash = 5\<rparr>, \<lparr>entry_data = [2], entry_leaf_hash = 5\<rparr>]"]
  by (simp add: empty_db_def index_of_def)

text \<open>
  In Rekor mode a log never holds two entries with the same leaf hash: sequencing keeps the leaf
  hashes distinct, whatever the batch repeats.
\<close>

lemma rekor_log_distinct:
  assumes "db_log db E m" and "db_mode db = Some ''rekor''" and "sequence_entries es db = (Inr results, db')"
  shows "\<exists>E'. db_log db' E' m \<and> distinct (map entry_leaf_hash E')"
proof -
  have "db_log db' (fst (seq_spec True E es)) m" and "db_mode db' = Some ''rekor''"
    using sequence_entries_ok [OF assms(1) refl, of es] assms(2,3) by (auto split: if_splits)
  then show ?thesis by (auto simp: db_log_def rekor_ok_def)
qed

text \<open>
  \<open>mark_integrated_if_current\<close> is a compare-and-swap on the integrated size: at the current size it
  moves the log forward, keeps exactly the later pending entries and stores the root; a worker
  with any other expected size changes nothing and is told so.
\<close>

theorem mark_integrated_cas:
  assumes "db_log db E m" and "expected \<le> n" and "n \<le> length E"
  shows "if expected = m
    then fst (mark_integrated_if_current expected n root db) = Inr True
       \<and> db_log (snd (mark_integrated_if_current expected n root db)) E n
       \<and> get_log_state (snd (mark_integrated_if_current expected n root db))
         = Inr \<lparr>next_index = length E, integrated_size = n, state_root_hash = Some root\<rparr>
    else mark_integrated_if_current expected n root db = (Inr False, db)"
proof (cases "expected = m")
  case True
  then show ?thesis using mark_integrated_ok [OF assms(1), of n root] assms by auto
next
  case False
  have "m \<le> i64_max" using assms by (simp add: db_log_def)
  then show ?thesis using False assms by (auto simp: db_log_def mark_integrated_if_current_def)
qed

end
