(* ===== verification/Sequencer.thy ===== *)
theory Sequencer
  imports Log_Database
begin

text \<open>
  The batching sequencer, \<^verbatim>\<open>src/sequencer/queue.rs\<close>, as a state machine: the worker receives
  requests, keeps a batch and its deadline, and flushes it into the database when it is full, when
  the deadline passes, or when the channel closes. A request is the identity of its one-shot
  response channel with its entry; \<open>sq_sent\<close> records the responses in the order they are sent.
  Every interleaving of arrivals, timeouts and closing is a sequence of events.
\<close>


subsection \<open>The worker\<close>

record sequencer_config =
  batch_max_size :: nat
  batch_max_age :: nat
  channel_size :: nat

definition default_sequencer_config :: sequencer_config where
  "default_sequencer_config = \<lparr>batch_max_size = 256, batch_max_age = 1000, channel_size = 1024\<rparr>"

type_synonym request = "nat \<times> entry"

record seq_worker =
  sq_db :: database
  sq_batch :: "request list"
  sq_deadline :: "nat option"
  sq_sent :: "(nat \<times> nat res) list"
  sq_done :: bool

fun response_of :: "sequenced_entry res \<Rightarrow> nat res" where
  "response_of (Inr se) = Inr (seq_index se)"
| "response_of (Inl e) = Inl e"

definition flush_batch :: "seq_worker \<Rightarrow> seq_worker" where
  "flush_batch w =
     (if sq_batch w = [] then w
      else let requests = sq_batch w
           in case sequence_entries (map snd requests) (sq_db w) of
                (Inr sequenced, db) \<Rightarrow>
                  w\<lparr>sq_db := db, sq_batch := [],
                    sq_sent := sq_sent w @ map (\<lambda>(req, se). (fst req, response_of se)) (zip requests sequenced)\<rparr>
              | (Inl e, db) \<Rightarrow>
                  w\<lparr>sq_db := db, sq_batch := [],
                    sq_sent := sq_sent w @ map (\<lambda>req. (fst req, Inl Internal)) requests\<rparr>)"

text \<open>One turn of the loop per event: a received request, the sleep elapsing, a closed channel.\<close>

datatype seq_event = Recv nat request | Elapsed | Closed

definition receive :: "sequencer_config \<Rightarrow> nat \<Rightarrow> request \<Rightarrow> seq_worker \<Rightarrow> seq_worker" where
  "receive cfg now req w =
     (let w1 = (if sq_batch w = [] then w\<lparr>sq_deadline := Some (now + batch_max_age cfg)\<rparr> else w);
          w2 = w1\<lparr>sq_batch := sq_batch w1 @ [req]\<rparr>
      in if batch_max_size cfg \<le> length (sq_batch w2)
         then (flush_batch w2)\<lparr>sq_deadline := None\<rparr> else w2)"

inductive seq_step :: "sequencer_config \<Rightarrow> seq_worker \<Rightarrow> seq_event \<Rightarrow> seq_worker \<Rightarrow> bool" for cfg where
  step_recv: "\<not> sq_done w \<Longrightarrow> seq_step cfg w (Recv now req) (receive cfg now req w)"
| step_elapsed: "\<not> sq_done w \<Longrightarrow> sq_batch w \<noteq> [] \<Longrightarrow>
    seq_step cfg w Elapsed ((flush_batch w)\<lparr>sq_deadline := None\<rparr>)"
| step_closed: "\<not> sq_done w \<Longrightarrow>
    seq_step cfg w Closed ((if sq_batch w = [] then w else flush_batch w)\<lparr>sq_done := True\<rparr>)"

inductive seq_run :: "sequencer_config \<Rightarrow> seq_worker \<Rightarrow> seq_event list \<Rightarrow> seq_worker \<Rightarrow> bool" for cfg where
  run_start: "seq_run cfg w [] w"
| run_step: "seq_run cfg w evs w' \<Longrightarrow> seq_step cfg w' ev w'' \<Longrightarrow> seq_run cfg w (evs @ [ev]) w''"

inductive_cases seq_stepE: "seq_step cfg w ev w'"
inductive_simps seq_step_simps: "seq_step cfg w (Recv now req) w'" "seq_step cfg w Elapsed w'"
  "seq_step cfg w Closed w'"

definition seq_start :: "database \<Rightarrow> seq_worker" where
  "seq_start db = \<lparr>sq_db = db, sq_batch = [], sq_deadline = None, sq_sent = [], sq_done = False\<rparr>"

fun requests_of :: "seq_event list \<Rightarrow> request list" where
  "requests_of [] = []"
| "requests_of (Recv now req # evs) = req # requests_of evs"
| "requests_of (_ # evs) = requests_of evs"

lemma requests_of_append [simp]: "requests_of (a @ b) = requests_of a @ requests_of b"
  by (induction a rule: requests_of.induct) auto


subsection \<open>What a flush does\<close>

lemma seq_spec_results_length [simp]: "length (snd (seq_spec d E es)) = length es"
  by (induction es arbitrary: E) auto

text \<open>A successful response names the position of the entry in the log.\<close>

lemma seq_spec_results:
  "i < length es \<Longrightarrow> snd (seq_spec d E es) ! i = Inr se \<Longrightarrow>
    seq_index se < length (fst (seq_spec d E es)) \<and> fst (seq_spec d E es) ! seq_index se = es ! i"
proof (induction es arbitrary: E i)
  case (Cons e es)
  obtain F where F: "fst (seq_spec d (E @ [e]) es) = (E @ [e]) @ F" using seq_spec_extends by blast
  show ?case
  proof (cases "d \<and> entry_leaf_hash e \<in> entry_leaf_hash ` set E")
    case True
    then show ?thesis using Cons by (cases i) auto
  next
    case False
    then have step: "seq_spec d E (e # es)
        = apsnd ((#) (Inr \<lparr>seq_index = length E, seq_entry = e\<rparr>)) (seq_spec d (E @ [e]) es)" by auto
    show ?thesis
    proof (cases i)
      case 0
      with step Cons.prems have "se = \<lparr>seq_index = length E, seq_entry = e\<rparr>" by simp
      with step F 0 show ?thesis by simp
    next
      case (Suc j)
      with step Cons.prems Cons.IH [of j "E @ [e]"] show ?thesis by simp
    qed
  qed
qed simp

text \<open>
  The invariant over the requests received so far: they are answered or in the batch, in order;
  the batch is below its limit and has a deadline; successful answers are true of the log.
\<close>

definition answers_true :: "(nat \<times> nat res) list \<Rightarrow> request list \<Rightarrow> entry list \<Rightarrow> bool" where
  "answers_true sent reqs E \<longleftrightarrow>
     (\<forall>k i. k < length sent \<longrightarrow> snd (sent ! k) = Inr i \<longrightarrow> i < length E \<and> E ! i = snd (reqs ! k))"

definition seq_inv :: "sequencer_config \<Rightarrow> nat \<Rightarrow> request list \<Rightarrow> seq_worker \<Rightarrow> bool" where
  "seq_inv cfg m reqs w \<longleftrightarrow>
     map fst (sq_sent w) @ map fst (sq_batch w) = map fst reqs \<and>
     sq_batch w = drop (length (sq_sent w)) reqs \<and>
     (sq_batch w = [] \<or> length (sq_batch w) < batch_max_size cfg) \<and>
     (\<not> sq_done w \<longrightarrow> (sq_deadline w = None \<longleftrightarrow> sq_batch w = [])) \<and>
     (sq_done w \<longrightarrow> sq_batch w = []) \<and>
     (\<exists>E. db_log (sq_db w) E m \<and> answers_true (sq_sent w) reqs E)"

lemma answers_true_append:
  assumes "answers_true sent reqs E" and "length rs = length reqs - length sent"
    and "length sent \<le> length reqs"
    and "\<And>j i. j < length rs \<Longrightarrow> rs ! j = Inr i \<Longrightarrow>
      i < length (E @ F) \<and> (E @ F) ! i = snd (reqs ! (length sent + j))"
  shows "answers_true (sent @ zip ids rs) reqs (E @ F)"
  unfolding answers_true_def
proof (intro allI impI)
  fix k i
  assume k: "k < length (sent @ zip ids rs)" and ans: "snd ((sent @ zip ids rs) ! k) = Inr i"
  show "i < length (E @ F) \<and> (E @ F) ! i = snd (reqs ! k)"
  proof (cases "k < length sent")
    case True
    then have "i < length E \<and> E ! i = snd (reqs ! k)"
      using assms(1) ans by (simp add: answers_true_def nth_append)
    then show ?thesis by (simp add: nth_append)
  next
    case False
    then show ?thesis
      using k ans assms(4) [of "k - length sent" i] by (simp add: nth_append)
  qed
qed

lemma flush_batch_ok:
  assumes ne: "sq_batch w \<noteq> []" and batch: "sq_batch w = drop (length (sq_sent w)) reqs"
    and ids: "map fst (sq_sent w) @ map fst (sq_batch w) = map fst reqs"
    and db: "db_log (sq_db w) E m" and ans: "answers_true (sq_sent w) reqs E"
  shows "\<exists>db' rs E'. flush_batch w
      = w\<lparr>sq_db := db', sq_batch := [], sq_sent := sq_sent w @ zip (map fst (sq_batch w)) rs\<rparr>
    \<and> length rs = length (sq_batch w) \<and> db_log db' E' m
    \<and> answers_true (sq_sent w @ zip (map fst (sq_batch w)) rs) reqs E'"
proof -
  let ?es = "map snd (sq_batch w)"
  define spec where "spec = seq_spec (db_mode (sq_db w) = Some ''rekor'') E ?es"
  have len: "length (sq_sent w) \<le> length reqs" using arg_cong [OF ids, of length] by simp
  show ?thesis
  proof (cases "length (fst spec) \<le> i64_max")
    case True
    then obtain db' where run: "sequence_entries ?es (sq_db w) = (Inr (snd spec), db')"
      and db': "db_log db' (fst spec) m"
      using sequence_entries_ok [OF db spec_def] by auto
    obtain F where F: "fst spec = E @ F" unfolding spec_def using seq_spec_extends by blast
    let ?rs = "map response_of (snd spec)"
    have rl: "length ?rs = length (sq_batch w)" by (simp add: spec_def)
    have "map (\<lambda>(req, se). (fst req, response_of se)) (zip (sq_batch w) (snd spec))
        = zip (map fst (sq_batch w)) ?rs"
      by (simp add: zip_map_map)
    then have "flush_batch w
        = w\<lparr>sq_db := db', sq_batch := [], sq_sent := sq_sent w @ zip (map fst (sq_batch w)) ?rs\<rparr>"
      using ne run by (simp add: flush_batch_def Let_def)
    moreover have "answers_true (sq_sent w @ zip (map fst (sq_batch w)) ?rs) reqs (E @ F)"
    proof (rule answers_true_append [OF ans _ len])
      show "length ?rs = length reqs - length (sq_sent w)" using rl batch by simp
      fix j i
      assume j: "j < length ?rs" and r: "?rs ! j = Inr i"
      then obtain se where se: "snd spec ! j = Inr se" "i = seq_index se"
        by (cases "snd spec ! j") auto
      have jb: "j < length ?es" using j rl by simp
      have "i < length (E @ F) \<and> (E @ F) ! i = ?es ! j"
        using seq_spec_results [OF jb, of _ E se] se unfolding F [symmetric] spec_def by simp
      moreover have "?es ! j = snd (reqs ! (length (sq_sent w) + j))"
        using jb batch len by simp
      ultimately show "i < length (E @ F) \<and> (E @ F) ! i = snd (reqs ! (length (sq_sent w) + j))" by simp
    qed
    ultimately show ?thesis using rl db' F by metis
  next
    case False
    then have run: "sequence_entries ?es (sq_db w) = (Inl IndexFull, sq_db w)"
      using sequence_entries_ok [OF db spec_def] by simp
    let ?rs = "replicate (length (sq_batch w)) (Inl Internal :: nat res)"
    have "map (\<lambda>req. (fst req, Inl Internal)) (sq_batch w) = zip (map fst (sq_batch w)) ?rs"
      by (rule nth_equalityI) auto
    then have "flush_batch w
        = w\<lparr>sq_db := sq_db w, sq_batch := [], sq_sent := sq_sent w @ zip (map fst (sq_batch w)) ?rs\<rparr>"
      using ne run by (simp add: flush_batch_def Let_def)
    moreover have "answers_true (sq_sent w @ zip (map fst (sq_batch w)) ?rs) reqs (E @ [])"
      using ans batch len by (intro answers_true_append) simp_all
    ultimately show ?thesis using db by (metis append_Nil2 length_replicate)
  qed
qed

lemma answers_true_more: "answers_true sent reqs E \<Longrightarrow> length sent \<le> length reqs \<Longrightarrow>
    answers_true sent (reqs @ later) E"
  by (simp add: answers_true_def nth_append)

text \<open>A flush of a non-empty batch leaves nothing unanswered.\<close>

lemma flush_inv:
  assumes "sq_batch w \<noteq> []" and "sq_batch w = drop (length (sq_sent w)) reqs"
    and "map fst (sq_sent w) @ map fst (sq_batch w) = map fst reqs"
    and "db_log (sq_db w) E m" and "answers_true (sq_sent w) reqs E"
  shows "seq_inv cfg m reqs ((flush_batch w)\<lparr>sq_deadline := None\<rparr>)"
    and "seq_inv cfg m reqs ((flush_batch w)\<lparr>sq_done := True\<rparr>)"
proof -
  obtain db' rs E' where f: "flush_batch w
      = w\<lparr>sq_db := db', sq_batch := [], sq_sent := sq_sent w @ zip (map fst (sq_batch w)) rs\<rparr>"
    and rs: "length rs = length (sq_batch w)" and "db_log db' E' m"
    and "answers_true (sq_sent w @ zip (map fst (sq_batch w)) rs) reqs E'"
    using flush_batch_ok [OF assms] by blast
  moreover have "map fst (zip (map fst (sq_batch w)) rs) = map fst (sq_batch w)" using rs by simp
  moreover have "length (sq_sent w) + length (sq_batch w) = length reqs"
    using arg_cong [OF assms(3), of length] by simp
  ultimately show "seq_inv cfg m reqs ((flush_batch w)\<lparr>sq_deadline := None\<rparr>)"
    and "seq_inv cfg m reqs ((flush_batch w)\<lparr>sq_done := True\<rparr>)"
    unfolding f using assms(3) rs by (auto simp: seq_inv_def)
qed

lemma seq_inv_flush:
  assumes "seq_inv cfg m reqs w" and "sq_batch w \<noteq> []"
  shows "seq_inv cfg m reqs ((flush_batch w)\<lparr>sq_deadline := None\<rparr>)"
    and "seq_inv cfg m reqs ((flush_batch w)\<lparr>sq_done := True\<rparr>)"
proof -
  obtain E where "db_log (sq_db w) E m" "answers_true (sq_sent w) reqs E"
    using assms(1) unfolding seq_inv_def by blast
  moreover have "sq_batch w = drop (length (sq_sent w)) reqs"
    and "map fst (sq_sent w) @ map fst (sq_batch w) = map fst reqs"
    using assms(1) unfolding seq_inv_def by blast+
  ultimately show "seq_inv cfg m reqs ((flush_batch w)\<lparr>sq_deadline := None\<rparr>)"
    and "seq_inv cfg m reqs ((flush_batch w)\<lparr>sq_done := True\<rparr>)"
    using flush_inv [OF assms(2)] by blast+
qed

lemma receive_inv:
  assumes inv: "seq_inv cfg m reqs w" and live: "\<not> sq_done w"
  shows "seq_inv cfg m (reqs @ [req]) (receive cfg now req w)"
proof -
  obtain E where E: "db_log (sq_db w) E m" "answers_true (sq_sent w) reqs E"
    using inv by (auto simp: seq_inv_def)
  have ids: "map fst (sq_sent w) @ map fst (sq_batch w) = map fst reqs"
    and batch: "sq_batch w = drop (length (sq_sent w)) reqs"
    using inv unfolding seq_inv_def by blast+
  have len: "length (sq_sent w) \<le> length reqs" using arg_cong [OF ids, of length] by simp
  define w2 where "w2 = (if sq_batch w = [] then w\<lparr>sq_deadline := Some (now + batch_max_age cfg)\<rparr> else w)
    \<lparr>sq_batch := sq_batch w @ [req]\<rparr>"
  have w2: "sq_batch w2 = sq_batch w @ [req]" "sq_sent w2 = sq_sent w" "sq_db w2 = sq_db w"
    "sq_done w2 = sq_done w" "sq_deadline w2 \<noteq> None"
    using inv live by (auto simp: w2_def seq_inv_def)
  have recv: "receive cfg now req w
      = (if batch_max_size cfg \<le> length (sq_batch w2) then (flush_batch w2)\<lparr>sq_deadline := None\<rparr> else w2)"
    by (simp add: receive_def w2_def Let_def)
  have facts: "sq_batch w2 = drop (length (sq_sent w2)) (reqs @ [req])"
    "map fst (sq_sent w2) @ map fst (sq_batch w2) = map fst (reqs @ [req])"
    "db_log (sq_db w2) E m" "answers_true (sq_sent w2) (reqs @ [req]) E"
    using w2 batch len ids E answers_true_more by simp_all
  show ?thesis
  proof (cases "batch_max_size cfg \<le> length (sq_batch w2)")
    case True
    then show ?thesis unfolding recv using flush_inv(1) [OF _ facts] w2(1) by simp
  next
    case False
    then have "receive cfg now req w = w2" by (simp add: recv)
    then show ?thesis
      using False facts live w2(1,4,5) unfolding seq_inv_def by auto
  qed
qed

lemma seq_step_inv:
  assumes "seq_step cfg w ev w'" and "seq_inv cfg m reqs w"
  shows "seq_inv cfg m (reqs @ requests_of [ev]) w'"
  using assms(1)
proof (cases rule: seq_step.cases)
  case (step_recv now req)
  then show ?thesis using receive_inv [OF assms(2)] by simp
next
  case step_elapsed
  then show ?thesis using seq_inv_flush(1) [OF assms(2)] by simp
next
  case step_closed
  show ?thesis
  proof (cases "sq_batch w = []")
    case True
    then show ?thesis using assms(2) step_closed by (simp add: seq_inv_def)
  next
    case False
    then show ?thesis using seq_inv_flush(2) [OF assms(2)] step_closed by simp
  qed
qed

lemma seq_run_inv:
  assumes "seq_run cfg w evs w'" and "w = seq_start db" and "db_log db E m"
  shows "seq_inv cfg m (requests_of evs) w'"
  using assms
proof (induction rule: seq_run.induct)
  case (run_start w)
  then show ?case by (auto simp: seq_inv_def seq_start_def answers_true_def)
next
  case (run_step w evs w' ev w'')
  then show ?case using seq_step_inv [of cfg w' ev w'' m "requests_of evs"] by simp
qed

subsection \<open>Properties\<close>

text \<open>
  C26. After any sequence of arrivals, timeouts and closing, the sequencer has answered every request at
  most once and in order of arrival, the unanswered ones are its batch, and once the channel is
  closed every request has its answer.
\<close>

theorem sequencer_answers_once:
  assumes "seq_run cfg (seq_start db) evs w" and "db_log db E m"
  shows "map fst (sq_sent w) @ map fst (sq_batch w) = map fst (requests_of evs)
    \<and> (sq_done w \<longrightarrow> map fst (sq_sent w) = map fst (requests_of evs))"
  using seq_run_inv [OF assms(1) refl assms(2)] by (auto simp: seq_inv_def)

text \<open>
  C25. A successful answer is true of the log in the database: the index sent for a request is the
  position of that request's entry, after every sequence of events.
\<close>

theorem sequencer_answers_true:
  assumes "seq_run cfg (seq_start db) evs w" and "db_log db E m"
  shows "\<exists>E'. db_log (sq_db w) E' m \<and>
    (\<forall>k i. k < length (sq_sent w) \<longrightarrow> snd (sq_sent w ! k) = Inr i \<longrightarrow>
       i < length E' \<and> E' ! i = snd (requests_of evs ! k))"
  using seq_run_inv [OF assms(1) refl assms(2)] by (auto simp: seq_inv_def answers_true_def)

text \<open>
  C31. A running sequencer holds fewer requests than its batch limit, and it has a deadline exactly when
  it holds any, so no request waits without a timer.
\<close>

theorem sequencer_batch_bounded:
  assumes "seq_run cfg (seq_start db) evs w" and "db_log db E m" and "0 < batch_max_size cfg"
  shows "length (sq_batch w) < batch_max_size cfg
    \<and> (\<not> sq_done w \<longrightarrow> (sq_deadline w = None \<longleftrightarrow> sq_batch w = []))"
  using seq_run_inv [OF assms(1) refl assms(2)] assms(3) by (auto simp: seq_inv_def)

text \<open>A run of two requests with a batch limit of two, used by the witnesses.\<close>

definition demo_config :: sequencer_config where
  "demo_config = \<lparr>batch_max_size = 2, batch_max_age = 1000, channel_size = 4\<rparr>"

definition demo_requests :: "seq_event list" where
  "demo_requests = [Recv 1 (7, \<lparr>entry_data = [1], entry_leaf_hash = 5\<rparr>),
     Recv 2 (8, \<lparr>entry_data = [2], entry_leaf_hash = 6\<rparr>)]"

definition demo_worker :: seq_worker where
  "demo_worker =
     receive demo_config 2 (8, \<lparr>entry_data = [2], entry_leaf_hash = 6\<rparr>)
       (receive demo_config 1 (7, \<lparr>entry_data = [1], entry_leaf_hash = 5\<rparr>) (seq_start (empty_db None)))"

lemma demo_run: "seq_run demo_config (seq_start (empty_db None)) demo_requests demo_worker"
proof -
  let ?w0 = "seq_start (empty_db None)"
  let ?w1 = "receive demo_config 1 (7, \<lparr>entry_data = [1], entry_leaf_hash = 5\<rparr>) ?w0"
  have "\<not> sq_done ?w0" and "\<not> sq_done ?w1" by code_simp+
  note live = this
  have "seq_run demo_config ?w0 (([] @ [Recv 1 (7, \<lparr>entry_data = [1], entry_leaf_hash = 5\<rparr>)])
      @ [Recv 2 (8, \<lparr>entry_data = [2], entry_leaf_hash = 6\<rparr>)]) demo_worker"
    unfolding demo_worker_def
    by (rule run_step [OF run_step [OF run_start step_recv [OF live(1)]] step_recv [OF live(2)]])
  then show ?thesis by (simp add: demo_requests_def)
qed

theorem sequencer_answers_once_witness: "map fst (sq_sent demo_worker) @ map fst (sq_batch demo_worker) = [7, 8]"
  using sequencer_answers_once [OF demo_run empty_db_log] by (simp add: demo_requests_def)

theorem sequencer_answers_true_witness:
  "\<exists>E'. db_log (sq_db demo_worker) E' 0 \<and>
    (\<forall>k i. k < length (sq_sent demo_worker) \<longrightarrow> snd (sq_sent demo_worker ! k) = Inr i \<longrightarrow>
       i < length E' \<and> E' ! i = snd (requests_of demo_requests ! k))"
  using sequencer_answers_true [OF demo_run empty_db_log] .

theorem sequencer_batch_bounded_witness: "length (sq_batch demo_worker) < 2"
  using sequencer_batch_bounded [OF demo_run empty_db_log] by (simp add: demo_config_def)

end
