(* ===== verification/Worker.thy ===== *)
theory Worker
  imports Integrate Sequencer "HOL-Library.Multiset"
begin

text \<open>
  The integration worker of \<^verbatim>\<open>src/worker.rs\<close>: one cycle reads the pending entries, integrates
  their leaf hashes, writes the changed tiles and entry bundles, feeds the verifiable index when
  one is configured, and marks the entries as integrated. The world is the database, the object
  storage and the index; the index is reached through its three calls. Every call may fail, and
  the world of a failed cycle is what the calls before the failure left behind. Here a cycle runs
  undisturbed; in \<open>Worker_Cluster\<close> the same cycle is taken apart into its calls, between which other
  workers and the sequencer run.
\<close>


subsection \<open>The world of a worker\<close>

record ('s, 'v) world =
  w_db :: database
  w_store :: 's
  w_index :: 'v

definition on_db :: "(database, error, 'a) st \<Rightarrow> (('s, 'v) world, error, 'a) st" where
  "on_db m w = (case m (w_db w) of (r, db) \<Rightarrow> (r, w\<lparr>w_db := db\<rparr>))"

definition on_store :: "('s, error, 'a) st \<Rightarrow> (('s, 'v) world, error, 'a) st" where
  "on_store m w = (case m (w_store w) of (r, s) \<Rightarrow> (r, w\<lparr>w_store := s\<rparr>))"

definition on_index :: "('v, error, 'a) st \<Rightarrow> (('s, 'v) world, error, 'a) st" where
  "on_index m w = (case m (w_index w) of (r, v) \<Rightarrow> (r, w\<lparr>w_index := v\<rparr>))"

record 'v index_ops =
  io_index_entry :: "nat \<Rightarrow> byte list \<Rightarrow> ('v, error, unit) st"
  io_flush :: "('v, error, unit) st"
  io_maybe_snapshot :: "('v, error, unit) st"

record worker_config =
  integration_batch_size :: nat
  witness_quorum :: "nat option"


subsection \<open>The environment of a cycle\<close>

text \<open>
  What the calls of one cycle meet: how the three database calls end, which reads of tiles and bundles
  fail, and the order in which the hash map of the bundles is iterated. A failing write is a matter
  of the storage and of the index.
\<close>

type_synonym bundle_group = "nat \<times> byte list list"

record cycle_env =
  ce_state :: call_outcome
  ce_pending :: call_outcome
  ce_mark :: call_outcome
  ce_tile_fails :: "nat \<Rightarrow> nat \<Rightarrow> nat \<Rightarrow> bool"
  ce_bundle_fails :: "nat \<Rightarrow> bool"
  ce_order :: "bundle_group list \<Rightarrow> bundle_group list"

definition order_laws :: "(bundle_group list \<Rightarrow> bundle_group list) \<Rightarrow> bool" where
  "order_laws order \<longleftrightarrow> (\<forall>xs. mset (order xs) = mset xs)"

definition calm_env :: cycle_env where
  "calm_env = \<lparr>ce_state = Call_Ok, ce_pending = Call_Ok, ce_mark = Call_Ok,
     ce_tile_fails = \<lambda>_ _ _. False, ce_bundle_fails = \<lambda>_. False, ce_order = (\<lambda>xs. xs)\<rparr>"

definition flaky_reader :: "(nat \<Rightarrow> nat \<Rightarrow> nat \<Rightarrow> bool) \<Rightarrow> tile_reader \<Rightarrow> tile_reader" where
  "flaky_reader fails rd l i p = (if fails l i p then Inl Storage else rd l i p)"

lemma order_lawsD:
  assumes "order_laws order"
  shows "set (order xs) = set xs" and "distinct (map f xs) \<Longrightarrow> distinct (map f (order xs))"
proof -
  have m: "mset (order xs) = mset xs" using assms by (simp add: order_laws_def)
  then show "set (order xs) = set xs" by (rule mset_eq_setD)
  from m have "mset (map f (order xs)) = mset (map f xs)" by simp
  then show "distinct (map f xs) \<Longrightarrow> distinct (map f (order xs))" using mset_eq_imp_distinct_iff by blast
qed


subsection \<open>Entry bundles\<close>

definition bundle_add :: "pending_entry \<Rightarrow> bundle_group list \<Rightarrow> bundle_group list" where
  "bundle_add e bundles =
     (let bundle_idx = pe_index e div ENTRY_BUNDLE_WIDTH;
          old = (case map_of bundles bundle_idx of None \<Rightarrow> [] | Some es \<Rightarrow> es)
      in AList.update bundle_idx (old @ [pe_data e]) bundles)"

text \<open>The stored prefix that the first bundle of a batch continues, or an empty bundle.\<close>

definition load_bundle :: "'s operator \<Rightarrow> bool \<Rightarrow> nat \<Rightarrow> nat \<Rightarrow> 's \<Rightarrow> entry_bundle res" where
  "load_bundle op fails from bundle_idx s =
     (let existing_partial = (if bundle_idx = from div ENTRY_BUNDLE_WIDTH
                              then from mod ENTRY_BUNDLE_WIDTH else 0)
      in if 0 < existing_partial
         then bind_res (if fails then Inl Storage else read_entry_bundle op s bundle_idx existing_partial)
           (\<lambda>found. bind_res (ok_or Internal found)
              (\<lambda>bundle. if length (bundle_entries bundle) \<noteq> existing_partial then Inl Internal
                        else Inr bundle))
         else Inr \<lparr>bundle_entries = []\<rparr>)"

definition store_bundle :: "'s operator \<Rightarrow> nat \<Rightarrow> bundle_group \<Rightarrow> entry_bundle \<Rightarrow> ('s, error, unit) st" where
  "store_bundle op to be bundle =
     (case be of (bundle_idx, entries) \<Rightarrow>
        let partial = partial_tile_size 0 bundle_idx to
        in write_entry_bundle op bundle_idx partial (fold (\<lambda>e b. bundle_push b e) entries bundle))"

definition write_one_bundle ::
  "'s operator \<Rightarrow> bool \<Rightarrow> nat \<Rightarrow> nat \<Rightarrow> bundle_group \<Rightarrow> ('s, error, unit) st" where
  "write_one_bundle op fails from to be =
     bind_st (\<lambda>s. (load_bundle op fails from (fst be) s, s)) (store_bundle op to be)"

definition write_entry_bundles ::
  "'s operator \<Rightarrow> cycle_env \<Rightarrow> pending_entry list \<Rightarrow> nat \<Rightarrow> nat \<Rightarrow> ('s, error, unit) st" where
  "write_entry_bundles op env pending from to =
     for_st (\<lambda>be. write_one_bundle op (ce_bundle_fails env (fst be)) from to be)
       (ce_order env (fold bundle_add pending []))"


subsection \<open>The integration cycle\<close>

definition index_pending :: "'v index_ops \<Rightarrow> pending_entry list \<Rightarrow> ('v, error, unit) st" where
  "index_pending ops pending =
     bind_st (for_st (\<lambda>e. io_index_entry ops (pe_index e) (pe_data e)) pending) (\<lambda>_. io_flush ops)"

definition run_integration_cycle ::
  "hash_fn \<Rightarrow> 's operator \<Rightarrow> worker_config \<Rightarrow> cycle_env \<Rightarrow> 'v index_ops option
     \<Rightarrow> (('s, 'v) world, error, unit) st" where
  "run_integration_cycle hc op cfg env vindex =
     bind_st (on_db (fallible (ce_state env) (\<lambda>db. (get_log_state db, db)))) (\<lambda>state.
     bind_st (lift_st (pending_count state)) (\<lambda>count.
     if count = 0 then ret_st () else
     bind_st (on_db (fallible (ce_pending env)
         (\<lambda>db. (get_pending_entries (integrated_size state) (integration_batch_size cfg) db, db)))) (\<lambda>pending.
     if pending = [] then ret_st () else
     if map pe_index pending \<noteq> [integrated_size state..<integrated_size state + length pending]
     then lift_st (Inl Internal) else
     bind_st (\<lambda>w. (integrate hc (flaky_reader (ce_tile_fails env) (Tile_Store.read_tile op (w_store w)))
                     (integrated_size state) (map pe_leaf_hash pending), w)) (\<lambda>result.
     bind_st (on_store (for_st (write_sized_tile op (new_size result)) (result_tiles result))) (\<lambda>_.
     bind_st (on_store (write_entry_bundles op env pending (integrated_size state) (new_size result))) (\<lambda>_.
     bind_st (case vindex of None \<Rightarrow> ret_st () | Some ops \<Rightarrow> on_index (index_pending ops pending)) (\<lambda>_.
     bind_st (on_db (fallible (ce_mark env)
         (mark_integrated_if_current (integrated_size state) (new_size result) (root_hash result)))) (\<lambda>marked.
     if \<not> marked then ret_st () else
     case vindex of None \<Rightarrow> ret_st () | Some ops \<Rightarrow> on_index (io_maybe_snapshot ops)))))))))"


subsection \<open>Grouping pending entries\<close>

definition bundle_range :: "nat \<Rightarrow> nat \<Rightarrow> nat \<Rightarrow> nat list" where
  "bundle_range m n b = [max m (b * 256)..<min n (b * 256 + 256)]"

lemma filter_bundle: "filter (\<lambda>k. k div 256 = b) [m..<n] = bundle_range m n b"
proof (induction n)
  case (Suc n)
  have "n div 256 = b \<longleftrightarrow> b * 256 \<le> n \<and> n < b * 256 + 256" by linarith
  with Suc show ?case
    by (cases "m \<le> n"; cases "b * 256 \<le> n"; cases "n < b * 256 + 256")
      (auto simp: bundle_range_def min_def max_def)
qed (simp add: bundle_range_def)

lemma map_of_bundle_fold:
  "map_of (fold bundle_add (map (pending_at E) ks) []) b =
     (let hits = filter (\<lambda>k. k div 256 = b) ks
      in if hits = [] then None else Some (map (\<lambda>k. entry_data (E ! k)) hits))"
proof (induction ks rule: rev_induct)
  case (snoc k ks)
  then show ?case
    by (auto simp: bundle_add_def update_conv' pending_at_def ENTRY_BUNDLE_WIDTH_def TILE_WIDTH_def
        Let_def split: if_splits)
qed simp

lemma distinct_bundle_fold: "distinct (map fst bs) \<Longrightarrow> distinct (map fst (fold bundle_add es bs))"
  by (induction es arbitrary: bs) (auto simp: bundle_add_def Let_def distinct_update)


subsection \<open>Storage that serves the entries\<close>

definition bundle_data :: "entry list \<Rightarrow> nat \<Rightarrow> nat \<Rightarrow> byte list list" where
  "bundle_data E n b = map (\<lambda>k. entry_data (E ! k)) [b * 256..<min n (b * 256 + 256)]"

definition bundles_serve :: "'s operator \<Rightarrow> 's \<Rightarrow> entry list \<Rightarrow> nat \<Rightarrow> bool" where
  "bundles_serve op s E n \<longleftrightarrow>
     op_laws op \<and> n \<le> length E \<and> n \<le> i64_max \<and>
     (\<forall>b. b * 256 < n \<longrightarrow>
        get_bundle op s (b, partial_tile_size 0 b n) = Some \<lparr>bundle_entries = bundle_data E n b\<rparr>)"

lemma row_count_0: "row_count n 0 b = min 256 (n - b * 256)"
  by (simp add: row_count_def)

lemma bundle_partial: "b * 256 < n \<Longrightarrow> partial_tile_size 0 b n = min 256 (n - b * 256) mod 256"
  using partial_row [of 0 n b] by (simp add: row_count_0)

text \<open>The bundle that a batch from \<open>m\<close> to \<open>n\<close> writes for index \<open>b\<close>.\<close>

definition new_bundle_kv :: "entry list \<Rightarrow> nat \<Rightarrow> nat \<Rightarrow> (nat \<times> nat) \<times> entry_bundle" where
  "new_bundle_kv E n b = ((b, partial_tile_size 0 b n), \<lparr>bundle_entries = bundle_data E n b\<rparr>)"

lemma fold_bundle_push: "fold (\<lambda>e b. bundle_push b e) es b = b\<lparr>bundle_entries := bundle_entries b @ es\<rparr>"
  by (induction es arbitrary: b) (auto simp: bundle_push_def)

lemma upt_split: "a \<le> b \<Longrightarrow> b \<le> c \<Longrightarrow> [a..<b] @ [b..<c] = [a..<c]"
  by (metis le_add_diff_inverse upt_add_eq_append)

lemma bundle_range_nonempty: "bundle_range m n b \<noteq> [] \<Longrightarrow> max m (b * 256) < min n (b * 256 + 256)"
  unfolding bundle_range_def upt_eq_Nil_conv by linarith

lemma load_bundle_ok:
  assumes sv: "bundles_serve op s E m" and hits: "bundle_range m n b \<noteq> []"
  shows "\<exists>bu. load_bundle op False m b s = Inr bu
    \<and> bundle_entries bu @ map (\<lambda>k. entry_data (E ! k)) (bundle_range m n b) = bundle_data E n b"
proof -
  have r: "max m (b * 256) < min n (b * 256 + 256)" using hits by (rule bundle_range_nonempty)
  show ?thesis
  proof (cases "b = m div 256 \<and> 0 < m mod 256")
    case True
    then have b: "b = m div 256" and pos: "0 < m mod 256" by simp_all
    have lt: "b * 256 < m" "m < b * 256 + 256" 
      unfolding b using pos div_mult_mod_eq [of m 256] mod_less_divisor [of 256 m] by linarith+
    then have part: "partial_tile_size 0 b m = m mod 256"
      using bundle_partial [OF lt(1)] b by (simp add: minus_div_mult_eq_mod min_absorb2)
    have old: "bundle_data E m b = map (\<lambda>k. entry_data (E ! k)) [b * 256..<m]"
      using lt by (simp add: bundle_data_def min_absorb1)
    have read: "read_entry_bundle op s b (m mod 256) = Inr (Some \<lparr>bundle_entries = bundle_data E m b\<rparr>)"
      using sv lt(1) part by (metis bundles_serve_def get_bundle_Some_iff)
    have len: "length (bundle_data E m b) = m mod 256"
      unfolding old length_map length_upt unfolding b by (rule minus_div_mult_eq_mod)
    have new: "bundle_data E m b @ map (\<lambda>k. entry_data (E ! k)) (bundle_range m n b) = bundle_data E n b"
      using lt r unfolding old bundle_data_def bundle_range_def
      by (simp flip: map_append add: upt_split max_absorb1)
    show ?thesis
      using True read len new by (simp add: load_bundle_def ENTRY_BUNDLE_WIDTH_def TILE_WIDTH_def Let_def)
  next
    case False
    have "m \<le> b * 256"
    proof (rule ccontr)
      assume "\<not> m \<le> b * 256"
      then have "b = m div 256" using r by linarith
      with \<open>\<not> m \<le> b * 256\<close> have "0 < m mod 256" using div_mult_mod_eq [of m 256] by linarith
      with \<open>b = m div 256\<close> have "b = m div 256 \<and> 0 < m mod 256" by simp
      with False show False by simp
    qed
    then have new: "map (\<lambda>k. entry_data (E ! k)) (bundle_range m n b) = bundle_data E n b"
      by (simp add: bundle_range_def bundle_data_def max_absorb2)
    show ?thesis
      using False new by (auto simp: load_bundle_def ENTRY_BUNDLE_WIDTH_def TILE_WIDTH_def Let_def)
  qed
qed

lemma load_bundle_flaky: "load_bundle op fails m b s = Inr bu \<Longrightarrow> load_bundle op False m b s = Inr bu"
  by (cases fails) (auto simp: load_bundle_def Let_def split: if_splits)

lemma store_bundle_eq:
  "bundle_entries bu @ es = data \<Longrightarrow>
    store_bundle op n (b, es) bu = write_entry_bundle op b (partial_tile_size 0 b n) \<lparr>bundle_entries = data\<rparr>"
  by (cases bu) (simp add: store_bundle_def fold_bundle_push)

lemma write_one_bundle_run:
  assumes sv: "bundles_serve op s E m" and hits: "bundle_range m n b \<noteq> []"
  shows "(\<exists>e. write_one_bundle op fails m n (b, map (\<lambda>k. entry_data (E ! k)) (bundle_range m n b)) s = (Inl e, s))
    \<or> write_one_bundle op fails m n (b, map (\<lambda>k. entry_data (E ! k)) (bundle_range m n b)) s
      = write_entry_bundle op b (partial_tile_size 0 b n) \<lparr>bundle_entries = bundle_data E n b\<rparr> s"
proof (cases "load_bundle op fails m b s")
  case (Inl e)
  then show ?thesis by (simp add: write_one_bundle_def bind_st_def)
next
  case (Inr bu)
  then have "bundle_entries bu @ map (\<lambda>k. entry_data (E ! k)) (bundle_range m n b) = bundle_data E n b"
    using load_bundle_flaky load_bundle_ok [OF sv hits] by fastforce
  then show ?thesis using Inr by (simp add: write_one_bundle_def bind_st_def store_bundle_eq)
qed

lemma for_st_cong:
  assumes "P s" and "\<And>x t. x \<in> set xs \<Longrightarrow> P t \<Longrightarrow> f x t = g x t"
    and "\<And>x t. x \<in> set xs \<Longrightarrow> P t \<Longrightarrow> P (snd (g x t))"
  shows "for_st f xs s = for_st g xs s"
  using assms
proof (induction xs arbitrary: s)
  case (Cons x xs)
  have eq: "f x s = g x s" and keep: "P (snd (g x s))" using Cons.prems by simp_all
  have "for_st f xs (snd (g x s)) = for_st g xs (snd (g x s))"
    using Cons.prems(2,3) by (intro Cons.IH keep) simp_all
  then show ?case by (cases "g x s"; cases "fst (g x s)") (simp_all add: eq)
qed simp

text \<open>A loop that succeeds runs every loop whose body does the same where it succeeds.\<close>

lemma for_st_success:
  assumes "for_st f xs s = (Inr (), s')" and "P s"
    and "\<And>x t t'. x \<in> set xs \<Longrightarrow> P t \<Longrightarrow> f x t = (Inr (), t') \<Longrightarrow> g x t = (Inr (), t') \<and> P t'"
  shows "for_st g xs s = (Inr (), s')"
  using assms
proof (induction xs arbitrary: s)
  case (Cons x xs)
  from Cons.prems(1) obtain t where t: "f x s = (Inr (), t)" "for_st f xs t = (Inr (), s')"
    by (auto split: prod.splits sum.splits)
  then have "g x s = (Inr (), t)" and "P t" using Cons.prems(2,3) by auto
  moreover from this have "for_st g xs t = (Inr (), s')" using Cons.IH [OF t(2)] Cons.prems(3) by auto
  ultimately show ?case by simp
qed simp

text \<open>The bundles a batch touches, and that their paths are new.\<close>

definition touched :: "nat \<Rightarrow> nat \<Rightarrow> nat \<Rightarrow> bool" where
  "touched m n b \<longleftrightarrow> bundle_range m n b \<noteq> []"

lemma touched_iff: "m \<le> n \<Longrightarrow> touched m n b \<longleftrightarrow> row_count m 0 b < row_count n 0 b"
  unfolding touched_def bundle_range_def row_count_0 by (simp add: min_def max_def) linarith

lemma touched_fresh:
  assumes "m \<le> n" and "touched m n b" and "b' * 256 < m"
  shows "(b', partial_tile_size 0 b' m) \<noteq> (b, partial_tile_size 0 b n)"
proof
  assume "(b', partial_tile_size 0 b' m) = (b, partial_tile_size 0 b n)"
  then have b: "b' = b" and eq: "partial_tile_size 0 b m = partial_tile_size 0 b n" by auto
  have lt: "min 256 (m - b * 256) < min 256 (n - b * 256)"
    using assms(1,2) touched_iff by (simp add: row_count_0)
  have "min 256 (m - b * 256) mod 256 = min 256 (n - b * 256) mod 256"
    using eq assms b bundle_partial [of b m] bundle_partial [of b n] by simp
  moreover have "0 < min 256 (m - b * 256)" using assms(3) b by simp
  ultimately show False using lt by (cases "min 256 (n - b * 256) = 256") auto
qed

lemma bundle_key_ok: "b * 256 < n \<Longrightarrow> n \<le> i64_max \<Longrightarrow> bundle_key (b, partial_tile_size 0 b n')"
  using partial_tile_size_less by simp

lemma touched_bound: "touched m n b \<Longrightarrow> b * 256 < n"
  using bundle_range_nonempty [of m n b] by (simp add: touched_def)

lemma bundle_write_keeps:
  assumes sv: "bundles_serve op s E m" and "m \<le> n" and "n \<le> i64_max" and "touched m n b"
  shows "bundles_serve op (snd (write_entry_bundle op b (partial_tile_size 0 b n) v s)) E m"
proof -
  have laws: "op_laws op" and m: "m \<le> i64_max" using sv by (simp_all add: bundles_serve_def)
  have "get_bundle op (snd (write_entry_bundle op b (partial_tile_size 0 b n) v s)) (b', partial_tile_size 0 b' m)
      = get_bundle op s (b', partial_tile_size 0 b' m)" if "b' * 256 < m" for b'
    using bundles.put_other [of op "(b, partial_tile_size 0 b n)" "(b', partial_tile_size 0 b' m)" v s]
      laws bundle_key_ok [OF that m] bundle_key_ok [OF touched_bound [OF assms(4)] assms(3)]
      touched_fresh [OF assms(2,4) that] by simp
  then show ?thesis using sv by (simp add: bundles_serve_def)
qed

text \<open>The groups of a contiguous batch are the touched bundles.\<close>

lemma batch_groups:
  assumes "(b, es) \<in> set (fold bundle_add (map (pending_at E) [m..<n]) [])"
  shows "touched m n b" and "es = map (\<lambda>k. entry_data (E ! k)) (bundle_range m n b)"
proof -
  have "map_of (fold bundle_add (map (pending_at E) [m..<n]) []) b = Some es"
    using assms distinct_bundle_fold [of "[]"] by (intro map_of_is_SomeI) simp_all
  then show "touched m n b" and "es = map (\<lambda>k. entry_data (E ! k)) (bundle_range m n b)"
    unfolding map_of_bundle_fold filter_bundle
    by (auto simp: touched_def Let_def split: if_splits)
qed

lemma batch_group_exists:
  assumes "touched m n b"
  shows "b \<in> fst ` set (fold bundle_add (map (pending_at E) [m..<n]) [])"
proof -
  have "map_of (fold bundle_add (map (pending_at E) [m..<n]) []) b \<noteq> None"
    using assms unfolding map_of_bundle_fold filter_bundle touched_def by (simp add: Let_def)
  then show ?thesis by (simp only: map_of_eq_None_iff not_not)
qed

definition write_bundle_kv :: "'s operator \<Rightarrow> (nat \<times> nat) \<times> entry_bundle \<Rightarrow> ('s, error, unit) st" where
  "write_bundle_kv op kv = (case kv of (k, v) \<Rightarrow> (case k of (i, p) \<Rightarrow> write_entry_bundle op i p) v)"

text \<open>One group of a batch: it is written as the new bundle of its index, or not at all.\<close>

lemma batch_group_run:
  assumes sv: "bundles_serve op s E m" and g: "(b, es) \<in> set (fold bundle_add (map (pending_at E) [m..<n]) [])"
  shows "(\<exists>e. write_one_bundle op fails m n (b, es) s = (Inl e, s))
    \<or> write_one_bundle op fails m n (b, es) s = write_bundle_kv op (new_bundle_kv E n b) s"
  using write_one_bundle_run [OF sv, of n b fails] batch_groups [OF g]
  by (simp add: write_bundle_kv_def new_bundle_kv_def touched_def)

lemma batch_group_keep:
  assumes "bundles_serve op s E m" and "m \<le> n" and "n \<le> i64_max"
    and g: "(b, es) \<in> set (fold bundle_add (map (pending_at E) [m..<n]) [])"
  shows "bundles_serve op (snd (write_one_bundle op fails m n (b, es) s)) E m"
  using batch_group_run [OF assms(1) g, of fails] bundle_write_keeps [OF assms(1-3) batch_groups(1) [OF g]] assms(1)
  by (auto simp: write_bundle_kv_def new_bundle_kv_def)

lemma write_entry_bundles_keep:
  assumes "bundles_serve op s E m" and "m \<le> n" and "n \<le> i64_max" and "order_laws (ce_order env)"
  shows "bundles_serve op (snd (write_entry_bundles op env (map (pending_at E) [m..<n]) m n s)) E m"
  unfolding write_entry_bundles_def
proof (rule for_st_keeps [where P = "\<lambda>t. bundles_serve op t E m"])
  fix be :: bundle_group and t
  assume be: "be \<in> set (ce_order env (fold bundle_add (map (pending_at E) [m..<n]) []))" and t: "bundles_serve op t E m"
  have "(fst be, snd be) \<in> set (fold bundle_add (map (pending_at E) [m..<n]) [])"
    using be unfolding order_lawsD(1) [OF assms(4)] by simp
  from batch_group_keep [OF t assms(2,3) this]
  show "bundles_serve op (snd (write_one_bundle op (ce_bundle_fails env (fst be)) m n be t)) E m" by simp
qed (rule assms(1))

text \<open>A storage that has the touched bundles and otherwise what it had serves the new size.\<close>

lemma bundles_step:
  assumes sv: "bundles_serve op s E m" and mn: "m \<le> n" and n: "n \<le> i64_max" "n \<le> length E"
    and new: "\<And>b. touched m n b \<Longrightarrow>
      get_bundle op s' (b, partial_tile_size 0 b n) = Some \<lparr>bundle_entries = bundle_data E n b\<rparr>"
    and old: "\<And>b. b * 256 < n \<Longrightarrow> \<not> touched m n b \<Longrightarrow>
      get_bundle op s' (b, partial_tile_size 0 b n) = get_bundle op s (b, partial_tile_size 0 b n)"
  shows "bundles_serve op s' E n"
proof -
  have "get_bundle op s' (b, partial_tile_size 0 b n) = Some \<lparr>bundle_entries = bundle_data E n b\<rparr>"
    if b: "b * 256 < n" for b
  proof (cases "touched m n b")
    case False
    have "min 256 (m - b * 256) = min 256 (n - b * 256)"
      using touched_iff [OF mn, of b] False mn by (simp add: row_count_0) linarith
    then have bm: "b * 256 < m" and ends: "min n (b * 256 + 256) = min m (b * 256 + 256)"
      using b mn by linarith+
    then have "partial_tile_size 0 b n = partial_tile_size 0 b m"
      using bundle_partial [OF bm] bundle_partial [OF b] \<open>min 256 (m - b * 256) = min 256 (n - b * 256)\<close> by simp
    then show ?thesis using old [OF b False] sv bm ends by (simp add: bundles_serve_def bundle_data_def)
  qed (rule new)
  then show ?thesis using sv n by (simp add: bundles_serve_def)
qed

lemma write_entry_bundles_serve:
  assumes sv: "bundles_serve op s E m" and mn: "m \<le> n" and n: "n \<le> i64_max" "n \<le> length E"
    and order: "order_laws (ce_order env)"
    and run: "write_entry_bundles op env (map (pending_at E) [m..<n]) m n s = (Inr (), s')"
  shows "bundles_serve op s' E n"
proof -
  define gs where "gs = ce_order env (fold bundle_add (map (pending_at E) [m..<n]) [])"
  let ?kvs = "map (\<lambda>(b, es). new_bundle_kv E n b) gs"
  have laws: "op_laws op" using sv by (simp add: bundles_serve_def)
  have set_gs: "set gs = set (fold bundle_add (map (pending_at E) [m..<n]) [])"
    unfolding gs_def by (rule order_lawsD(1) [OF order])
  have "for_st (\<lambda>be. write_bundle_kv op (case be of (b, es) \<Rightarrow> new_bundle_kv E n b)) gs s = (Inr (), s')"
  proof (rule for_st_success [where P = "\<lambda>t. bundles_serve op t E m"])
    fix be :: bundle_group and t t'
    assume "be \<in> set gs" and t: "bundles_serve op t E m"
      and one: "write_one_bundle op (ce_bundle_fails env (fst be)) m n be t = (Inr (), t')"
    moreover obtain b es where be: "be = (b, es)" by (cases be)
    ultimately have g: "(b, es) \<in> set (fold bundle_add (map (pending_at E) [m..<n]) [])" using set_gs by simp
    show "write_bundle_kv op (case be of (b, es) \<Rightarrow> new_bundle_kv E n b) t = (Inr (), t') \<and> bundles_serve op t' E m"
      using batch_group_run [OF t g, of "ce_bundle_fails env b"] batch_group_keep [OF t mn n(1) g, of "ce_bundle_fails env b"]
        one unfolding be by (elim disjE exE) (simp_all only: fst_conv snd_conv prod.case prod.inject sum.distinct HOL.simp_thms)
  qed (use sv run gs_def in \<open>simp_all add: write_entry_bundles_def\<close>)
  then have run': "for_st (\<lambda>(k, v). (case k of (i, p) \<Rightarrow> write_entry_bundle op i p) v) ?kvs s = (Inr (), s')"
    unfolding write_bundle_kv_def [abs_def, symmetric] for_st_map by (simp add: write_bundle_kv_def [abs_def])
  have group: "touched m n b" if "(b, es) \<in> set gs" for b es using batch_groups(1) that set_gs by blast
  have valid: "\<forall>(k, v) \<in> set ?kvs. op_laws op \<and> bundle_key k"
  proof
    fix kv
    assume "kv \<in> set ?kvs"
    then obtain b es where "kv = new_bundle_kv E n b" and "(b, es) \<in> set gs" by auto
    then show "case kv of (k, v) \<Rightarrow> op_laws op \<and> bundle_key k"
      using laws bundle_key_ok [OF touched_bound [OF group] n(1)] by (simp add: new_bundle_kv_def)
  qed
  have fsts: "map fst ?kvs = map (\<lambda>b. (b, partial_tile_size 0 b n)) (map fst gs)"
    by (auto simp: new_bundle_kv_def)
  have d: "distinct (map fst gs)"
    unfolding gs_def by (rule order_lawsD(2) [OF order distinct_bundle_fold]) simp
  have inj: "inj_on (\<lambda>b. (b, partial_tile_size 0 b n)) (set (map fst gs))" by (auto simp: inj_on_def)
  have dist: "distinct (map fst ?kvs)"
    unfolding fsts by (rule distinct_map [THEN iffD2, OF conjI [OF d inj]])
  show ?thesis
  proof (rule bundles_step [OF sv mn n])
    fix b assume "touched m n b"
    then have "b \<in> fst ` set gs" using batch_group_exists set_gs by simp
    then have "((b, partial_tile_size 0 b n), \<lparr>bundle_entries = bundle_data E n b\<rparr>) \<in> set ?kvs"
      by (force simp: new_bundle_kv_def image_iff)
    then show "get_bundle op s' (b, partial_tile_size 0 b n) = Some \<lparr>bundle_entries = bundle_data E n b\<rparr>"
      by (rule bundles.put_all_same [OF valid dist run'])
  next
    fix b assume "b * 256 < n" "\<not> touched m n b"
    moreover from this have "(b, partial_tile_size 0 b n) \<notin> fst ` set ?kvs"
      using group by (auto simp: new_bundle_kv_def)
    ultimately show "get_bundle op s' (b, partial_tile_size 0 b n) = get_bundle op s (b, partial_tile_size 0 b n)"
      using bundles.put_all_other [OF valid, of "(b, partial_tile_size 0 b n)" s] run' laws
        bundle_key_ok [OF _ n(1)] by simp
  qed
qed


subsection \<open>The invariant of the whole log\<close>

definition leaves :: "entry list \<Rightarrow> nat \<Rightarrow> sha256_hash list" where
  "leaves E m = map entry_leaf_hash (take m E)"

definition stored_root :: "database \<Rightarrow> sha256_hash option" where
  "stored_root db = (case get_log_state db of Inr st \<Rightarrow> state_root_hash st | Inl _ \<Rightarrow> None)"

definition sys_ok :: "hash_fn \<Rightarrow> 's operator \<Rightarrow> entry list \<Rightarrow> nat \<Rightarrow> ('s, 'v) world \<Rightarrow> bool" where
  "sys_ok hc op E m w \<longleftrightarrow>
     db_log (w_db w) E m \<and>
     store_serves hc op (w_store w) (leaves E m) \<and>
     bundles_serve op (w_store w) E m \<and>
     (0 < m \<longrightarrow> stored_root (w_db w) = Some (mth hc empty_root_hash (leaves E m)))"

lemma length_leaves: "m \<le> length E \<Longrightarrow> length (leaves E m) = m"
  by (simp add: leaves_def)

lemma leaves_extend:
  assumes "m \<le> n" and "n \<le> length E"
  shows "leaves E n = leaves E m @ map (\<lambda>k. entry_leaf_hash (E ! k)) [m..<n]"
proof -
  have "take n E = take m E @ map ((!) E) [m..<n]"
    using assms by (intro nth_equalityI) (auto simp: nth_append)
  then show ?thesis by (simp add: leaves_def comp_def)
qed

lemma tiles_keep_bundles:
  assumes "bundles_serve op s E m"
  shows "bundles_serve op (snd (for_st (write_sized_tile op n) tiles s)) E m"
proof (rule for_st_keeps [where P = "\<lambda>t. bundles_serve op t E m"])
  fix x t
  assume "bundles_serve op t E m"
  then show "bundles_serve op (snd (write_sized_tile op n x t)) E m"
    by (cases x) (simp add: bundles_serve_def get_bundle_def write_sized_tile_def store_frames)
qed (rule assms)

lemma store_bundle_frame:
  "op_laws op \<Longrightarrow> Tile_Store.read_tile op (snd (store_bundle op n be bu t)) l i p = Tile_Store.read_tile op t l i p"
  by (cases be) (simp add: store_bundle_def Let_def store_frames)

lemma write_one_bundle_frame:
  assumes "op_laws op"
  shows "Tile_Store.read_tile op (snd (write_one_bundle op fails m n be t)) l i p = Tile_Store.read_tile op t l i p"
  unfolding write_one_bundle_def by (rule bind_st_keeps) (auto simp: store_bundle_frame assms)

lemma bundles_keep_tiles:
  assumes "store_serves hc op s D"
  shows "store_serves hc op (snd (write_entry_bundles op env pending m n s)) D"
  unfolding write_entry_bundles_def
proof (rule for_st_keeps [where P = "\<lambda>t. store_serves hc op t D"])
  fix be :: "nat \<times> byte list list" and t
  assume "store_serves hc op t D"
  then show "store_serves hc op (snd (write_one_bundle op (ce_bundle_fails env (fst be)) m n be t)) D"
    by (simp add: store_serves_def get_tile_def write_one_bundle_frame)
qed (rule assms)

text \<open>The calls that write storage, in the order of the cycle.\<close>

lemma cycle_writes:
  assumes ok: "sys_ok hc op E m w" and n: "m < n" "n \<le> length E"
    and res: "tiles_ok hc m (leaves E n) tiles"
    and order: "order_laws (ce_order env)"
    and r1: "for_st (write_sized_tile op n) tiles (w_store w) = (r1, s1)"
    and r2: "write_entry_bundles op env (map (pending_at E) [m..<n]) m n s1 = (r2, s2)"
  shows "sys_ok hc op E m (w\<lparr>w_store := s1\<rparr>)" and "sys_ok hc op E m (w\<lparr>w_store := s2\<rparr>)"
    and "r1 = Inr () \<Longrightarrow> r2 = Inr () \<Longrightarrow> store_serves hc op s2 (leaves E n) \<and> bundles_serve op s2 E n"
proof -
  have le: "m \<le> length E" "m \<le> n" and size: "length E \<le> i64_max"
    using ok n by (simp_all add: sys_ok_def db_log_def)
  define L where "L = map (\<lambda>k. entry_leaf_hash (E ! k)) [m..<n]"
  have ext: "leaves E n = leaves E m @ L" unfolding L_def by (rule leaves_extend [OF le(2) n(2)])
  have sv: "store_serves hc op (w_store w) (leaves E m)" and bs: "bundles_serve op (w_store w) E m"
    using ok by (simp_all add: sys_ok_def)
  have len: "length (leaves E m @ L) = n" "length (leaves E m) = m"
    using length_leaves [OF n(2)] length_leaves [OF le(1)] ext by simp_all
  have ts: "tiles_ok hc (length (leaves E m)) (leaves E m @ L) tiles" using res ext len by simp
  have small: "length (leaves E m @ L) \<le> i64_max" using len size n by simp
  have nsmall: "n \<le> i64_max" using n size by simp
  have s1m: "store_serves hc op s1 (leaves E m)"
    using write_tiles_keep [OF sv ts small] r1 len by simp
  have b1m: "bundles_serve op s1 E m" using tiles_keep_bundles [OF bs, of n tiles] r1 by simp
  have s2m: "store_serves hc op s2 (leaves E m)" using bundles_keep_tiles [OF s1m] r2 by (metis snd_conv)
  have b2m: "bundles_serve op s2 E m"
    using write_entry_bundles_keep [OF b1m le(2) nsmall order] r2 by simp
  show "sys_ok hc op E m (w\<lparr>w_store := s1\<rparr>)" and "sys_ok hc op E m (w\<lparr>w_store := s2\<rparr>)"
    using ok s1m b1m s2m b2m by (simp_all add: sys_ok_def)
  assume ok1: "r1 = Inr ()" and ok2: "r2 = Inr ()"
  have "store_serves hc op s1 (leaves E n)"
    using write_tiles_serve [OF sv ts small] r1 ok1 len ext by simp
  then have "store_serves hc op s2 (leaves E n)" using bundles_keep_tiles r2 by (metis snd_conv)
  moreover have "bundles_serve op s2 E n"
    using write_entry_bundles_serve [OF b1m le(2) nsmall n(2) order] r2 ok2 by simp
  ultimately show "store_serves hc op s2 (leaves E n) \<and> bundles_serve op s2 E n" by simp
qed

text \<open>The reads at the start of a cycle, and the result of the integration.\<close>

lemma cycle_reads:
  assumes ok: "sys_ok hc op E m w" and n: "n = min (m + k) (length E)"
  shows "\<exists>root. get_log_state (w_db w) = Inr \<lparr>next_index = length E, integrated_size = m, state_root_hash = root\<rparr>"
    and "get_pending_entries m k (w_db w) = Inr (map (pending_at E) [m..<n])"
    and "m \<le> n" and "n \<le> length E"
    and "m < n \<Longrightarrow> \<exists>tiles. integrate hc (Tile_Store.read_tile op (w_store w)) m
           (map pe_leaf_hash (map (pending_at E) [m..<n]))
         = Inr \<lparr>new_size = n, root_hash = mth hc empty_root_hash (leaves E n), result_tiles = tiles\<rparr>
         \<and> tiles_ok hc m (leaves E n) tiles"
proof -
  have db: "db_log (w_db w) E m" and sv: "store_serves hc op (w_store w) (leaves E m)"
    using ok by (simp_all add: sys_ok_def)
  then have le: "m \<le> length E" "length E \<le> i64_max" by (simp_all add: db_log_def)
  show "\<exists>root. get_log_state (w_db w) = Inr \<lparr>next_index = length E, integrated_size = m, state_root_hash = root\<rparr>"
    by (rule get_log_state_ok [OF db])
  show "get_pending_entries m k (w_db w) = Inr (map (pending_at E) [m..<n])"
    unfolding n by (rule get_pending_entries_ok [OF db order.refl])
  show mn: "m \<le> n" and nE: "n \<le> length E" using le n by simp_all
  assume "m < n"
  let ?L = "map (\<lambda>k. entry_leaf_hash (E ! k)) [m..<n]"
  have ext: "leaves E n = leaves E m @ ?L" by (rule leaves_extend [OF mn nE])
  have len: "length (leaves E m) = m" "length (leaves E m @ ?L) = n"
    using length_leaves [OF le(1)] length_leaves [OF nE] ext by simp_all
  have hashes: "map pe_leaf_hash (map (pending_at E) [m..<n]) = ?L" by (simp add: pending_at_def)
  have "length (leaves E m @ ?L) \<le> i64_max" using len nE le by simp
  then show "\<exists>tiles. integrate hc (Tile_Store.read_tile op (w_store w)) m
           (map pe_leaf_hash (map (pending_at E) [m..<n]))
         = Inr \<lparr>new_size = n, root_hash = mth hc empty_root_hash (leaves E n), result_tiles = tiles\<rparr>
         \<and> tiles_ok hc m (leaves E n) tiles"
    using store.integrate_ok [OF sv, of ?L] \<open>m < n\<close> len unfolding hashes ext by simp
qed

text \<open>A read that fails can only turn an integration into an error, never change its result.\<close>

definition reader_le :: "tile_reader \<Rightarrow> tile_reader \<Rightarrow> bool" where
  "reader_le rd rd' \<longleftrightarrow> (\<forall>l i p. rd l i p = rd' l i p \<or> (\<exists>e. rd l i p = Inl e))"

lemma reader_leD: "reader_le rd rd' \<Longrightarrow> rd l i p = Inr x \<Longrightarrow> rd' l i p = Inr x"
  unfolding reader_le_def by (metis sum.distinct(1))

lemma flaky_reader_le: "reader_le (flaky_reader fails rd) rd"
  by (simp add: reader_le_def flaky_reader_def)

lemma fold_res_mono:
  "(\<And>x s t. f x s = Inr t \<Longrightarrow> g x s = Inr t) \<Longrightarrow> fold_res f xs s = Inr t \<Longrightarrow> fold_res g xs s = Inr t"
  by (induction xs arbitrary: s) (auto simp: bind_res_Inr_iff)

lemma bind_res_mono:
  assumes "bind_res m f = Inr y" and "\<And>x. m = Inr x \<Longrightarrow> m' = Inr x"
    and "\<And>x. f x = Inr y \<Longrightarrow> f' x = Inr y"
  shows "bind_res m' f' = Inr y"
  using assms by (auto simp: bind_res_Inr_iff)

lemma compute_node_hash_le:
  assumes "reader_le rd rd'"
  shows "compute_node_hash hc rd level index n = Inr h \<Longrightarrow> compute_node_hash hc rd' level index n = Inr h"
proof (induction level arbitrary: index h)
  case 0
  obtain a b c d where eq: "node_to_tile_coords 0 index = (a, b, c, d)" by (metis surj_pair)
  from 0 show ?case
    unfolding compute_node_hash.simps eq prod.case by (elim bind_res_mono) (auto dest: reader_leD [OF assms])
qed (auto simp: bind_res_Inr_iff)

lemma finalize_tile_le:
  assumes "reader_le rd rd'" and "finalize_tile rd m e = Inr tt"
  shows "finalize_tile rd' m e = Inr tt"
proof -
  obtain l i mut where e: "e = ((l, i), mut)" by (metis surj_pair)
  from assms(2) show ?thesis
    unfolding finalize_tile_def e prod.case Let_def
    by (elim bind_res_mono) (auto dest: reader_leD [OF assms(1)] simp: bind_res_Inr_iff split: if_splits)
qed

lemma integrate_le:
  assumes le: "reader_le rd rd'" and run: "integrate hc rd m L = Inr result"
  shows "integrate hc rd' m L = Inr result"
proof -
  have load: "load_compact_range hc rd m = Inr r \<Longrightarrow> load_compact_range hc rd' m = Inr r" for r
    unfolding load_compact_range_def
    by (rule fold_res_mono) (auto simp: bind_res_Inr_iff dest!: compute_node_hash_le [OF le])
  have tiles: "map_res (finalize_tile rd n) es = Inr ts \<Longrightarrow> map_res (finalize_tile rd' n) es = Inr ts" for n es ts
    unfolding map_res_Inr_iff by (erule list_all2_mono) (rule finalize_tile_le [OF le])
  show ?thesis
    using run load tiles unfolding integrate_def tree_builder_new_def finalize_def bind_res_Inr_iff
    by (auto simp: bind_res_Inr_iff split: if_splits)
qed

lemma fallible_simps [simp]:
  "fallible Call_Ok m s = m s"
  "fallible Call_Failed m s = (Inl Database, s)"
  "fallible Call_Lost m s = (Inl Database, snd (m s))"
  by (simp_all add: fallible_def)

lemma fallible_query: "fallible out (\<lambda>s. (f s, s)) s = (if out = Call_Ok then f s else Inl Database, s)"
  by (cases out) simp_all

text \<open>The rest of a cycle after the integration, over the outcomes of the calls in turn.\<close>

definition finish_cycle ::
  "'s operator \<Rightarrow> cycle_env \<Rightarrow> 'v index_ops option \<Rightarrow> pending_entry list \<Rightarrow> nat \<Rightarrow> integration_result
    \<Rightarrow> (('s, 'v) world, error, unit) st" where
  "finish_cycle op env vindex pending m result =
     bind_st (on_store (for_st (write_sized_tile op (new_size result)) (result_tiles result))) (\<lambda>_.
     bind_st (on_store (write_entry_bundles op env pending m (new_size result))) (\<lambda>_.
     bind_st (case vindex of None \<Rightarrow> ret_st () | Some ops \<Rightarrow> on_index (index_pending ops pending)) (\<lambda>_.
     bind_st (on_db (fallible (ce_mark env) (mark_integrated_if_current m (new_size result) (root_hash result)))) (\<lambda>marked.
     if \<not> marked then ret_st () else
     case vindex of None \<Rightarrow> ret_st () | Some ops \<Rightarrow> on_index (io_maybe_snapshot ops)))))"

lemma sys_ok_index [simp]: "sys_ok hc op E m (w\<lparr>w_index := v\<rparr>) = sys_ok hc op E m w"
  by (simp add: sys_ok_def)

lemma index_step_frame:
  assumes "(case vindex of None \<Rightarrow> ret_st () | Some ops \<Rightarrow> on_index (f ops)) w = (r, w')"
  shows "\<exists>v. w' = w\<lparr>w_index := v\<rparr>"
  using assms by (cases vindex; cases w) (auto simp: on_index_def ret_st_def split: prod.splits)

lemma index_step_eq:
  assumes "(case vindex of None \<Rightarrow> ret_st () | Some ops \<Rightarrow> on_index (f ops)) w = (r, w')"
  shows "(case vindex of None \<Rightarrow> ret_st () | Some ops \<Rightarrow> f ops) (w_index w) = (r, w_index w')"
  using assms by (cases vindex; cases w) (auto simp: on_index_def ret_st_def split: prod.splits)

text \<open>
  How a cycle ends: before the index is touched, with a failure of the index, with the mark failing
  or losing its answer after the index has the whole batch, or with the new size recorded; then the
  index may be snapshotted.
\<close>

definition cycle_end ::
  "hash_fn \<Rightarrow> 's operator \<Rightarrow> 'v index_ops option \<Rightarrow> entry list \<Rightarrow> nat \<Rightarrow> nat
     \<Rightarrow> ('s, 'v) world \<Rightarrow> unit res \<Rightarrow> ('s, 'v) world \<Rightarrow> bool" where
  "cycle_end hc op vindex E m n w r w' \<longleftrightarrow>
     sys_ok hc op E m w' \<and> w_index w' = w_index w \<and> (r = Inr () \<longrightarrow> n = m)
   \<or> sys_ok hc op E m w' \<and> r \<noteq> Inr ()
       \<and> (case vindex of None \<Rightarrow> ret_st () | Some ops \<Rightarrow> index_pending ops (map (pending_at E) [m..<n])) (w_index w)
           = (r, w_index w')
   \<or> (sys_ok hc op E m w' \<or> sys_ok hc op E n w') \<and> r \<noteq> Inr ()
       \<and> (case vindex of None \<Rightarrow> ret_st () | Some ops \<Rightarrow> index_pending ops (map (pending_at E) [m..<n])) (w_index w)
           = (Inr (), w_index w')
   \<or> sys_ok hc op E n w'
       \<and> (\<exists>v. (case vindex of None \<Rightarrow> ret_st () | Some ops \<Rightarrow> index_pending ops (map (pending_at E) [m..<n])) (w_index w)
             = (Inr (), v)
           \<and> (case vindex of None \<Rightarrow> ret_st () | Some ops \<Rightarrow> io_maybe_snapshot ops) v = (r, w_index w'))"

lemma finish_cycle_end:
  assumes ok: "sys_ok hc op E m w" and n: "m < n" "n \<le> length E" and order: "order_laws (ce_order env)"
    and res: "tiles_ok hc m (leaves E n) tiles"
    and result: "result = \<lparr>new_size = n, root_hash = mth hc empty_root_hash (leaves E n), result_tiles = tiles\<rparr>"
    and run: "finish_cycle op env vindex (map (pending_at E) [m..<n]) m result w = (r, w')"
  shows "cycle_end hc op vindex E m n w r w'"
proof -
  obtain r1 s1 where r1: "for_st (write_sized_tile op n) tiles (w_store w) = (r1, s1)" by fastforce
  obtain r2 s2 where r2: "write_entry_bundles op env (map (pending_at E) [m..<n]) m n s1 = (r2, s2)" by fastforce
  obtain r3 w3 where r3: "(case vindex of None \<Rightarrow> ret_st ()
      | Some ops \<Rightarrow> on_index (index_pending ops (map (pending_at E) [m..<n]))) (w\<lparr>w_store := s2\<rparr>) = (r3, w3)"
    by fastforce
  then obtain v where w3: "w3 = w\<lparr>w_store := s2, w_index := v\<rparr>" using index_step_frame [OF r3] by auto
  note writes = cycle_writes [OF ok n res order r1 r2]
  have db: "db_log (w_db w) E m" using ok by (simp add: sys_ok_def)
  obtain db' where mark: "mark_integrated_if_current m n (mth hc empty_root_hash (leaves E n)) (w_db w) = (Inr True, db')"
    and log: "db_log db' E n"
    and root: "stored_root db' = Some (mth hc empty_root_hash (leaves E n))"
    using mark_integrated_ok [OF db _ n(2), of "mth hc empty_root_hash (leaves E n)"] n
    by (auto simp: stored_root_def)
  note steps = run [unfolded finish_cycle_def result]
  have new: "sys_ok hc op E n (w3\<lparr>w_db := db'\<rparr>)" if "r1 = Inr ()" "r2 = Inr ()"
    using writes(3) [OF that] log root w3 by (simp add: sys_ok_def)
  have old: "sys_ok hc op E m w3" using writes(2) w3 by simp
  consider "\<exists>e. r1 = Inl e" | "r1 = Inr ()" "\<exists>e. r2 = Inl e"
    | "r1 = Inr ()" "r2 = Inr ()" "\<exists>e. r3 = Inl e" | "r1 = Inr ()" "r2 = Inr ()" "r3 = Inr ()"
    by (metis old.sum.exhaust old.unit.exhaust)
  then show ?thesis
  proof cases
    case 1
    then show ?thesis using steps r1 writes(1) by (auto simp: cycle_end_def bind_st_def on_store_def)
  next
    case 2
    then show ?thesis using steps r1 r2 writes(2) by (auto simp: cycle_end_def bind_st_def on_store_def)
  next
    case 3
    then have "r = r3" "w' = w3" using steps r1 r2 r3 by (auto simp: bind_st_def on_store_def)
    then show ?thesis using 3(3) old index_step_eq [OF r3] by (auto simp: cycle_end_def)
  next
    case 4
    have indexed: "(case vindex of None \<Rightarrow> ret_st () | Some ops \<Rightarrow> index_pending ops (map (pending_at E) [m..<n]))
        (w_index w) = (Inr (), v)"
      using index_step_eq [OF r3] 4(3) w3 by simp
    show ?thesis
    proof (cases "ce_mark env")
      case Call_Ok
      let ?w = "w\<lparr>w_store := s2, w_index := v, w_db := db'\<rparr>"
      have snap: "(case vindex of None \<Rightarrow> ret_st () | Some ops \<Rightarrow> on_index (io_maybe_snapshot ops)) ?w = (r, w')"
        using steps r1 r2 r3 w3 mark 4 Call_Ok by (simp add: bind_st_def on_store_def on_db_def)
      then obtain v' where "w' = ?w\<lparr>w_index := v'\<rparr>" using index_step_frame by blast
      then have "sys_ok hc op E n w'" using new [OF 4(1,2)] w3 by (simp add: sys_ok_def)
      then show ?thesis using indexed index_step_eq [OF snap] by (simp add: cycle_end_def)
    next
      case Call_Failed
      then have "r = Inl Database" "w' = w3"
        using steps r1 r2 r3 w3 4 by (simp_all add: bind_st_def on_store_def on_db_def)
      then show ?thesis using old indexed w3 by (simp add: cycle_end_def)
    next
      case Call_Lost
      then have "r = Inl Database" "w' = w3\<lparr>w_db := db'\<rparr>"
        using steps r1 r2 r3 w3 mark 4 by (simp_all add: bind_st_def on_store_def on_db_def)
      then show ?thesis using new [OF 4(1,2)] indexed w3 by (simp add: cycle_end_def)
    qed
  qed
qed

lemma integration_cycle_end:
  assumes ok: "sys_ok hc op E m w" and order: "order_laws (ce_order env)"
    and run: "run_integration_cycle hc op cfg env vindex w = (r, w')"
    and n: "n = min (m + integration_batch_size cfg) (length E)"
  shows "cycle_end hc op vindex E m n w r w'"
proof -
  note reads = cycle_reads [OF ok n]
  obtain root where state: "get_log_state (w_db w)
      = Inr \<lparr>next_index = length E, integrated_size = m, state_root_hash = root\<rparr>" using reads(1) by blast
  have le: "m \<le> length E" using reads by simp
  have early: "cycle_end hc op vindex E m n w r w'" if "w' = w" "r = Inr () \<Longrightarrow> n = m"
    using ok that by (simp add: cycle_end_def)
  note defs = run_integration_cycle_def bind_st_def lift_st_def ret_st_def pending_count_def on_db_def fallible_query
  show ?thesis
  proof (cases "ce_state env = Call_Ok \<and> (m < length E \<longrightarrow> ce_pending env = Call_Ok)")
    case False
    then show ?thesis using run state le by (intro early) (auto simp: defs split: if_splits)
  next
    case calls: True
    show ?thesis
    proof (cases "m < n")
      case False
      then have "n = m" using reads(3) by simp
      moreover have "w' = w"
        using run state le reads(2) False n calls by (cases "m = length E") (auto simp: defs)
      ultimately show ?thesis by (intro early) simp_all
    next
      case True
      let ?int = "integrate hc (flaky_reader (ce_tile_fails env) (Tile_Store.read_tile op (w_store w))) m
        (map pe_leaf_hash (map (pending_at E) [m..<n]))"
      have "map pe_index (map (pending_at E) [m..<n]) = [m..<m + length (map (pending_at E) [m..<n])]"
        using True by (simp add: pending_at_def comp_def)
      then have rest: "(case ?int of Inl e \<Rightarrow> (Inl e, w)
          | Inr result \<Rightarrow> finish_cycle op env vindex (map (pending_at E) [m..<n]) m result w) = (r, w')"
        using run state le reads(2,4) True n calls
        by (simp add: defs finish_cycle_def split: sum.splits)
      show ?thesis
      proof (cases ?int)
        case (Inl e)
        then show ?thesis using rest by (intro early) auto
      next
        case (Inr result)
        then obtain tiles where
          result: "result = \<lparr>new_size = n, root_hash = mth hc empty_root_hash (leaves E n), result_tiles = tiles\<rparr>"
          and tiles: "tiles_ok hc m (leaves E n) tiles"
          using reads(5) [OF True] integrate_le [OF flaky_reader_le Inr] by auto
        show ?thesis
          using rest Inr by (intro finish_cycle_end [OF ok True reads(4) order tiles result]) simp
      qed
    qed
  qed
qed

subsection \<open>Sequencing behind a worker\<close>

lemma leaves_append: "m \<le> length E \<Longrightarrow> leaves (E @ F) m = leaves E m"
  by (simp add: leaves_def)

lemma bundles_serve_append: "bundles_serve op s E m \<Longrightarrow> bundles_serve op s (E @ F) m"
proof -
  assume sv: "bundles_serve op s E m"
  then have "m \<le> length E" by (simp add: bundles_serve_def)
  then have "bundle_data (E @ F) m b = bundle_data E m b" for b
    by (auto simp: bundle_data_def nth_append)
  with sv show ?thesis by (simp add: bundles_serve_def)
qed

lemma sys_ok_sequence:
  assumes "sys_ok hc op E m w"
  shows "\<exists>F. sys_ok hc op (E @ F) m (w\<lparr>w_db := snd (fallible out (sequence_entries es) (w_db w))\<rparr>)"
proof (cases "out = Call_Failed")
  case True
  then show ?thesis using assms by (intro exI [of _ "[]"]) simp
next
  case False
  let ?d = "db_mode (w_db w) = Some ''rekor''"
  have db: "db_log (w_db w) E m" using assms by (simp add: sys_ok_def)
  then have m: "m \<le> length E" by (simp add: db_log_def)
  obtain r db' where run: "sequence_entries es (w_db w) = (r, db')" by fastforce
  then have after: "snd (fallible out (sequence_entries es) (w_db w)) = db'"
    using False by (cases out) simp_all
  obtain F where F: "fst (seq_spec ?d E es) = E @ F" using seq_spec_extends by blast
  have root: "stored_root db' = stored_root (w_db w)"
  proof -
    have "db' = w_db w \<or> (\<exists>row tx. db_log_state (w_db w) = Some row \<and>
        db_log_state db' = Some (row\<lparr>row_next_index := tx\<rparr>))"
      using run by (auto simp: sequence_entries_def split: if_splits option.splits sum.splits)
    then show ?thesis by (auto simp: stored_root_def get_log_state_def)
  qed
  show ?thesis
  proof (cases "length (E @ F) \<le> i64_max")
    case True
    then have "db_log db' (E @ F) m"
      using sequence_entries_ok [OF db refl, of es] run F by auto
    then show ?thesis
      using assms m after root bundles_serve_append [of op "w_store w" E m F] leaves_append [OF m, of F]
      by (auto simp: sys_ok_def)
  next
    case False
    then have "db' = w_db w" using sequence_entries_ok [OF db refl, of es] run F by simp
    then show ?thesis using assms after by (intro exI [of _ "[]"]) simp
  qed
qed


subsection \<open>A first log\<close>

text \<open>A new log over an empty memory backend, used by the witnesses.\<close>

definition demo_world :: "((string \<times> byte list) list, unit) world" where
  "demo_world = \<lparr>w_db = empty_db None, w_store = [], w_index = ()\<rparr>"

lemma demo_world_ok: "sys_ok hc memory_op [] 0 demo_world"
  using store_serves_empty [OF memory_op_laws] empty_db_log
  by (simp add: sys_ok_def demo_world_def leaves_def bundles_serve_def memory_op_laws)

end
