(* ===== verification/Text_Format.thy ===== *)
theory Text_Format
  imports Types_Paths
begin

text \<open>
  The string operations of Rust's standard library that the text formats use. A \<open>string\<close> is the
  list of the bytes of a UTF-8 text, so lengths and slices count bytes as in the source, and
  \<open>trim\<close> removes the encodings of the Unicode white space characters.
\<close>


subsection \<open>Operations\<close>

definition str_bytes :: "string \<Rightarrow> byte list" where
  "str_bytes s = map (\<lambda>c. word_of_nat (of_char c)) s"

definition bytes_str :: "byte list \<Rightarrow> string" where
  "bytes_str bs = map (\<lambda>b. char_of (unat b)) bs"

text \<open>The white space characters of one byte, and those of two and three bytes.\<close>

definition is_ws1 :: "char \<Rightarrow> bool" where
  "is_ws1 c \<longleftrightarrow> (of_char c :: nat) \<in> {9, 10, 11, 12, 13, 32}"

definition is_ws2 :: "char \<Rightarrow> char \<Rightarrow> bool" where
  "is_ws2 a b \<longleftrightarrow> (of_char a :: nat) = 0xC2 \<and> (of_char b :: nat) \<in> {0x85, 0xA0}"

definition is_ws3 :: "char \<Rightarrow> char \<Rightarrow> char \<Rightarrow> bool" where
  "is_ws3 a b c \<longleftrightarrow>
     (let x = (of_char a :: nat); y = (of_char b :: nat); z = (of_char c :: nat)
      in x = 0xE1 \<and> y = 0x9A \<and> z = 0x80
         \<or> x = 0xE2 \<and> y = 0x80 \<and> (0x80 \<le> z \<and> z \<le> 0x8A \<or> z \<in> {0xA8, 0xA9, 0xAF})
         \<or> x = 0xE2 \<and> y = 0x81 \<and> z = 0x9F
         \<or> x = 0xE3 \<and> y = 0x80 \<and> z = 0x80)"

fun trim_start :: "string \<Rightarrow> string" where
  "trim_start (a # s) =
     (if is_ws1 a then trim_start s
      else case s of
             [] \<Rightarrow> [a]
           | b # t \<Rightarrow>
               if is_ws2 a b then trim_start t
               else case t of
                      [] \<Rightarrow> [a, b]
                    | c # u \<Rightarrow> if is_ws3 a b c then trim_start u else a # b # c # u)"
| "trim_start [] = []"

text \<open>The same from the other end, on the reversed bytes.\<close>

fun trim_rev :: "string \<Rightarrow> string" where
  "trim_rev (a # s) =
     (if is_ws1 a then trim_rev s
      else case s of
             [] \<Rightarrow> [a]
           | b # t \<Rightarrow>
               if is_ws2 b a then trim_rev t
               else case t of
                      [] \<Rightarrow> [a, b]
                    | c # u \<Rightarrow> if is_ws3 c b a then trim_rev u else a # b # c # u)"
| "trim_rev [] = []"

declare trim_start.simps(1) [simp del] trim_rev.simps(1) [simp del]

definition trim_end :: "string \<Rightarrow> string" where
  "trim_end s = rev (trim_rev (rev s))"

definition trim :: "string \<Rightarrow> string" where
  "trim s = trim_end (trim_start s)"

text \<open>\<open>str::lines\<close>: a line that ends in a line feed loses a carriage return before it.\<close>

definition newline :: char where "newline = CHR 0x0A"

definition strip_cr :: "string \<Rightarrow> string" where
  "strip_cr s = (if s \<noteq> [] \<and> last s = CHR 0x0D then butlast s else s)"

definition lines :: "string \<Rightarrow> string list" where
  "lines s =
     (let parts = split_on newline s
      in map strip_cr (butlast parts) @ (if last parts = [] then [] else [last parts]))"

text \<open>\<open>join\<close> with a line feed.\<close>

fun join_lines :: "string list \<Rightarrow> string" where
  "join_lines [] = []"
| "join_lines [l] = l"
| "join_lines (l # ls) = l @ newline # join_lines ls"

text \<open>\<open>splitn\<close> with a character and \<open>splitn(2, _)\<close> with a string.\<close>

fun splitn :: "nat \<Rightarrow> char \<Rightarrow> string \<Rightarrow> string list" where
  "splitn 0 c s = []"
| "splitn (Suc 0) c s = [s]"
| "splitn (Suc n) c s =
     (case find_sub [c] s of None \<Rightarrow> [s] | Some i \<Rightarrow> take i s # splitn n c (drop (Suc i) s))"

definition split2 :: "string \<Rightarrow> string \<Rightarrow> (string \<times> string) option" where
  "split2 sep s =
     (case find_sub sep s of None \<Rightarrow> None | Some i \<Rightarrow> Some (take i s, drop (i + length sep) s))"

text \<open>\<open>format!("{:08x}")\<close> and \<open>u32::from_str_radix(_, 16)\<close>.\<close>

definition hex_char :: "nat \<Rightarrow> char" where
  "hex_char d = char_of (if d < 10 then 48 + d else 87 + d)"

fun hex_digits :: "nat \<Rightarrow> nat \<Rightarrow> string" where
  "hex_digits 0 n = []"
| "hex_digits (Suc k) n = hex_digits k (n div 16) @ [hex_char (n mod 16)]"

definition hex_value :: "char \<Rightarrow> nat option" where
  "hex_value c =
     (let x = of_char c
      in if 48 \<le> x \<and> x \<le> 57 then Some (x - 48)
         else if 97 \<le> x \<and> x \<le> 102 then Some (x - 87)
         else if 65 \<le> x \<and> x \<le> 70 then Some (x - 55) else None)"

fun hex_fold :: "string \<Rightarrow> nat \<Rightarrow> nat option" where
  "hex_fold [] acc = Some acc"
| "hex_fold (c # cs) acc = (case hex_value c of None \<Rightarrow> None | Some d \<Rightarrow> hex_fold cs (acc * 16 + d))"

definition u32_from_hex :: "string \<Rightarrow> nat option" where
  "u32_from_hex s =
     (let t = (case s of c # cs \<Rightarrow> if c = CHR ''+'' then cs else s | [] \<Rightarrow> s)
      in if t = [] then None
         else case hex_fold t 0 of
                None \<Rightarrow> None | Some n \<Rightarrow> if n < 2 ^ 32 then Some n else None)"

text \<open>\<open>str::from_utf8\<close> accepts these byte sequences.\<close>

definition utf8_cont :: "byte \<Rightarrow> bool" where
  "utf8_cont b \<longleftrightarrow> 0x80 \<le> unat b \<and> unat b \<le> 0xBF"

definition utf8_second :: "byte \<Rightarrow> byte \<Rightarrow> bool" where
  "utf8_second a b \<longleftrightarrow> utf8_cont b
     \<and> (unat a = 0xE0 \<longrightarrow> 0xA0 \<le> unat b) \<and> (unat a = 0xED \<longrightarrow> unat b \<le> 0x9F)
     \<and> (unat a = 0xF0 \<longrightarrow> 0x90 \<le> unat b) \<and> (unat a = 0xF4 \<longrightarrow> unat b \<le> 0x8F)"

fun utf8_ok :: "byte list \<Rightarrow> bool" where
  "utf8_ok [] = True"
| "utf8_ok (a # s) =
     (if unat a < 0x80 then utf8_ok s
      else case s of
             [] \<Rightarrow> False
           | b # t \<Rightarrow>
               if 0xC2 \<le> unat a \<and> unat a \<le> 0xDF then utf8_cont b \<and> utf8_ok t
               else case t of
                      [] \<Rightarrow> False
                    | c # u \<Rightarrow>
                        if 0xE0 \<le> unat a \<and> unat a \<le> 0xEF then utf8_second a b \<and> utf8_cont c \<and> utf8_ok u
                        else case u of
                               [] \<Rightarrow> False
                             | d # v \<Rightarrow>
                                 0xF0 \<le> unat a \<and> unat a \<le> 0xF4 \<and> utf8_second a b
                                 \<and> utf8_cont c \<and> utf8_cont d \<and> utf8_ok v)"

declare utf8_ok.simps(2) [simp del]


subsection \<open>Facts\<close>

text \<open>A printable ASCII character other than the space neither starts nor ends white space.\<close>

definition plain :: "char \<Rightarrow> bool" where
  "plain c \<longleftrightarrow> 33 \<le> (of_char c :: nat) \<and> (of_char c :: nat) \<le> 126"

lemma utf8_ok_append: "utf8_ok a \<Longrightarrow> utf8_ok b \<Longrightarrow> utf8_ok (a @ b)"
proof (induction a rule: utf8_ok.induct)
  case (2 a s)
  then show ?case
    unfolding append_Cons utf8_ok.simps(2) [of a] by (auto split: list.splits if_splits)
qed simp

lemma utf8_ok_plain: "list_all plain s \<Longrightarrow> utf8_ok (str_bytes s)"
proof (induction s)
  case (Cons c s)
  then have "(of_char c :: nat) < 128" by (simp add: plain_def)
  then have "unat (word_of_nat (of_char c) :: byte) < 128" by (simp add: unat_of_nat take_bit_eq_mod)
  with Cons show ?case by (simp add: str_bytes_def utf8_ok.simps(2))
qed (simp add: str_bytes_def)

lemma str_bytes_append: "str_bytes (a @ b) = str_bytes a @ str_bytes b"
  by (simp add: str_bytes_def)

lemma plain_not_ws:
  assumes "plain c"
  shows "\<not> is_ws1 c" and "\<not> is_ws2 c b" and "\<not> is_ws2 b c"
    and "\<not> is_ws3 c b d" and "\<not> is_ws3 d b c"
  using assms by (auto simp: plain_def is_ws1_def is_ws2_def is_ws3_def Let_def)

lemma trim_start_plain: "plain c \<Longrightarrow> trim_start (c # s) = c # s"
  by (auto simp: trim_start.simps plain_not_ws split: list.splits)

lemma trim_rev_plain: "plain c \<Longrightarrow> trim_rev (c # s) = c # s"
  by (auto simp: trim_rev.simps plain_not_ws split: list.splits)

lemma trim_end_plain: "s \<noteq> [] \<Longrightarrow> plain (last s) \<Longrightarrow> trim_end s = s"
  by (cases s rule: rev_cases) (auto simp: trim_end_def trim_rev_plain)

lemma trim_plain: "plain (hd s) \<Longrightarrow> s \<noteq> [] \<Longrightarrow> plain (last s) \<Longrightarrow> trim s = s"
  by (cases s) (auto simp: trim_def trim_start_plain trim_end_plain)

lemma newline_ws: "is_ws1 newline"
  by (simp add: is_ws1_def newline_def)

lemma trim_end_newline: "trim_end (s @ [newline]) = trim_end s"
  by (simp add: trim_end_def trim_rev.simps newline_ws)

lemma plain_not_newline: "plain c \<Longrightarrow> c \<noteq> newline"
  by (auto simp: plain_def newline_def)

lemma digit_plain: "is_digit c \<Longrightarrow> plain c"
  by (auto simp: is_digit_def plain_def)

lemma find_sub_char:
  "c \<notin> set a \<Longrightarrow> find_sub [c] (a @ c # b) = Some (length a)"
  using find_sub_append [of c a "[]" b] by simp

lemma splitn_step:
  "c \<notin> set a \<Longrightarrow> 0 < n \<Longrightarrow> splitn (Suc n) c (a @ c # b) = a # splitn n c b"
  by (cases n) (simp_all add: find_sub_char)

text \<open>A separator of two line feeds after text that has none and does not end in one.\<close>

lemma find_sub_blank:
  "(\<forall>i. Suc i < length a \<longrightarrow> \<not> (a ! i = newline \<and> a ! Suc i = newline)) \<Longrightarrow>
    a \<noteq> [] \<Longrightarrow> last a \<noteq> newline \<Longrightarrow>
    find_sub [newline, newline] (a @ [newline, newline] @ b) = Some (length a)"
proof (induction a)
  case (Cons x a)
  show ?case
  proof (cases "a = []")
    case True
    then show ?thesis using Cons.prems(3) by simp
  next
    case False
    have "find_sub [newline, newline] (a @ [newline, newline] @ b) = Some (length a)"
    proof (rule Cons.IH)
      show "\<forall>i. Suc i < length a \<longrightarrow> \<not> (a ! i = newline \<and> a ! Suc i = newline)"
        using Cons.prems(1) by (metis length_Cons not_less_eq nth_Cons_Suc)
    qed (use Cons.prems False in simp_all)
    moreover have "\<not> (x = newline \<and> hd a = newline)"
      using spec [OF Cons.prems(1), of 0] False by (auto simp: hd_conv_nth)
    ultimately show ?thesis using False by (cases a) auto
  qed
qed simp

lemma no_blank_join:
  "newline \<notin> set a \<Longrightarrow> \<forall>i. Suc i < length b \<longrightarrow> \<not> (b ! i = newline \<and> b ! Suc i = newline) \<Longrightarrow>
    b \<noteq> [] \<Longrightarrow> hd b \<noteq> newline \<Longrightarrow>
    \<forall>i. Suc i < length (a @ newline # b) \<longrightarrow> \<not> ((a @ newline # b) ! i = newline \<and> (a @ newline # b) ! Suc i = newline)"
proof (induction a)
  case Nil
  then show ?case by (auto simp: nth_Cons hd_conv_nth split: nat.splits)
next
  case (Cons x a)
  then show ?case by (auto simp: nth_Cons split: nat.splits)
qed

lemma find_sub_no_blank:
  "\<forall>i. Suc i < length s \<longrightarrow> \<not> (s ! i = newline \<and> s ! Suc i = newline) \<Longrightarrow> find_sub [newline, newline] s = None"
proof (induction s)
  case (Cons c s)
  have "\<forall>i. Suc i < length s \<longrightarrow> \<not> (s ! i = newline \<and> s ! Suc i = newline)"
    using Cons.prems by (metis length_Cons not_less_eq nth_Cons_Suc)
  then have "find_sub [newline, newline] s = None" by (rule Cons.IH)
  moreover have "\<not> starts_with [newline, newline] (c # s)"
    using spec [OF Cons.prems, of 0] by (cases s) auto
  ultimately show ?case by simp
qed simp

lemma no_blank_single:
  "newline \<notin> set b \<Longrightarrow> \<forall>i. Suc i < length b \<longrightarrow> \<not> (b ! i = newline \<and> b ! Suc i = newline)"
  by (metis Suc_lessD nth_mem)

lemma split_on_lines:
  "(\<forall>p \<in> set (ps @ [q]). newline \<notin> set p) \<Longrightarrow>
    split_on newline (concat (map (\<lambda>p. p @ [newline]) ps) @ q) = ps @ [q]"
  by (induction ps) (auto simp: split_on_single split_on_append)

lemma strip_cr_plain: "s = [] \<or> last s \<noteq> CHR 0x0D \<Longrightarrow> strip_cr s = s"
  by (auto simp: strip_cr_def)

lemma lines_join:
  assumes "\<forall>p \<in> set (ps @ [q]). newline \<notin> set p" and "\<forall>p \<in> set ps. p = [] \<or> last p \<noteq> CHR 0x0D" and "q \<noteq> []"
  shows "lines (concat (map (\<lambda>p. p @ [newline]) ps) @ q) = ps @ [q]"
proof -
  have "map strip_cr ps = ps" using assms(2) by (intro map_idI) (auto simp: strip_cr_plain)
  then show ?thesis using assms by (simp add: lines_def split_on_lines)
qed

lemma hex_char_value: "d < 16 \<Longrightarrow> hex_value (hex_char d) = Some d"
proof -
  assume d: "d < 16"
  then have "(of_char (hex_char d) :: nat) = (if d < 10 then 48 + d else 87 + d)"
    by (simp add: hex_char_def of_char_of)
  with d show ?thesis by (auto simp: hex_value_def Let_def)
qed

lemma hex_char_plain: "d < 16 \<Longrightarrow> plain (hex_char d) \<and> hex_char d \<noteq> CHR ''+''"
proof -
  assume d: "d < 16"
  then have "(of_char (hex_char d) :: nat) = (if d < 10 then 48 + d else 87 + d)"
    by (simp add: hex_char_def of_char_of)
  with d show ?thesis by (auto simp: plain_def split: if_splits)
qed

lemma length_hex_digits [simp]: "length (hex_digits k n) = k"
  by (induction k arbitrary: n) auto

lemma hex_digits_plain: "c \<in> set (hex_digits k n) \<Longrightarrow> plain c \<and> c \<noteq> CHR ''+''"
  by (induction k arbitrary: n) (auto simp: hex_char_plain)

lemma hex_fold_append:
  "hex_fold (a @ b) acc = (case hex_fold a acc of None \<Rightarrow> None | Some m \<Rightarrow> hex_fold b m)"
  by (induction a arbitrary: acc) (auto split: option.splits)

lemma hex_fold_digits: "hex_fold (hex_digits k n) acc = Some (acc * 16 ^ k + n mod 16 ^ k)"
proof (induction k arbitrary: n)
  case (Suc k)
  have "n mod (16 * 16 ^ k) = 16 * (n div 16 mod 16 ^ k) + n mod 16"
    by (rule mod_mult2_eq)
  with Suc show ?case by (simp add: hex_fold_append hex_char_value algebra_simps)
qed simp

lemma u32_from_hex_digits: "n < 2 ^ 32 \<Longrightarrow> u32_from_hex (hex_digits 8 n) = Some n"
proof -
  assume n: "n < 2 ^ 32"
  obtain c cs where s: "hex_digits 8 n = c # cs" by (cases "hex_digits 8 n") (auto dest: arg_cong [of _ _ length])
  then have "c \<noteq> CHR ''+''" using hex_digits_plain [of c 8 n] by simp
  moreover have "hex_fold (c # cs) 0 = Some n"
    using hex_fold_digits [of 8 n 0] n unfolding s by simp
  ultimately show ?thesis using n unfolding s by (simp add: u32_from_hex_def)
qed

lemma str_bytes_inverse [simp]: "bytes_str (str_bytes s) = s"
proof -
  have "unat (word_of_nat (of_char c) :: byte) = (of_char c :: nat)" for c
    by (simp add: unat_of_nat take_bit_eq_mod)
  then show ?thesis by (simp add: str_bytes_def bytes_str_def comp_def)
qed

lemma length_str_bytes [simp]: "length (str_bytes s) = length s"
  by (simp add: str_bytes_def)

lemma str_bytes_inj: "str_bytes a = str_bytes b \<longleftrightarrow> a = b"
  by (metis str_bytes_inverse)


subsection \<open>Trimming twice, and lines that all end in a line feed\<close>

lemma trim_start_cons:
  "trim_start (a # s) = a # s \<or> (\<exists>u t. s = u @ t \<and> trim_start (a # s) = trim_start t)"
proof (cases "is_ws1 a")
  case True
  then show ?thesis by (intro disjI2 exI [of _ "[]"] exI [of _ s]) (simp add: trim_start.simps(1))
next
  case one: False
  show ?thesis
  proof (cases s)
    case Nil
    then show ?thesis using one by (simp add: trim_start.simps(1))
  next
    case s: (Cons b t)
    show ?thesis
    proof (cases "is_ws2 a b")
      case True
      then show ?thesis using one s by (intro disjI2 exI [of _ "[b]"] exI [of _ t]) (simp add: trim_start.simps(1))
    next
      case two: False
      show ?thesis
      proof (cases t)
        case Nil
        then show ?thesis using one two s by (simp add: trim_start.simps(1))
      next
        case (Cons c u)
        then show ?thesis
          using one two s by (cases "is_ws3 a b c") (auto simp: trim_start.simps(1) intro: exI [of _ "[b, c]"])
      qed
    qed
  qed
qed

lemma trim_rev_cons:
  "trim_rev (a # s) = a # s \<or> (\<exists>u t. s = u @ t \<and> trim_rev (a # s) = trim_rev t)"
proof (cases "is_ws1 a")
  case True
  then show ?thesis by (intro disjI2 exI [of _ "[]"] exI [of _ s]) (simp add: trim_rev.simps(1))
next
  case one: False
  show ?thesis
  proof (cases s)
    case Nil
    then show ?thesis using one by (simp add: trim_rev.simps(1))
  next
    case s: (Cons b t)
    show ?thesis
    proof (cases "is_ws2 b a")
      case True
      then show ?thesis using one s by (intro disjI2 exI [of _ "[b]"] exI [of _ t]) (simp add: trim_rev.simps(1))
    next
      case two: False
      show ?thesis
      proof (cases t)
        case Nil
        then show ?thesis using one two s by (simp add: trim_rev.simps(1))
      next
        case (Cons c u)
        then show ?thesis
          using one two s by (cases "is_ws3 c b a") (auto simp: trim_rev.simps(1) intro: exI [of _ "[b, c]"])
      qed
    qed
  qed
qed

lemma trim_start_fixed: "trim_start (trim_start s) = trim_start s \<and> (\<exists>u. s = u @ trim_start s)"
proof (induction "length s" arbitrary: s rule: less_induct)
  case less
  show ?case
  proof (cases s)
    case (Cons a r)
    consider "trim_start s = s" | u t where "r = u @ t" "trim_start s = trim_start t"
      using trim_start_cons [of a r] Cons by auto
    then show ?thesis
    proof cases
      case 2
      then have "trim_start (trim_start t) = trim_start t \<and> (\<exists>u. t = u @ trim_start t)"
        using less Cons by simp
      then show ?thesis using 2 Cons by (metis append_Cons append_assoc)
    qed simp
  qed simp
qed

lemma trim_rev_fixed: "trim_rev (trim_rev s) = trim_rev s \<and> (\<exists>u. s = u @ trim_rev s)"
proof (induction "length s" arbitrary: s rule: less_induct)
  case less
  show ?case
  proof (cases s)
    case (Cons a r)
    consider "trim_rev s = s" | u t where "r = u @ t" "trim_rev s = trim_rev t"
      using trim_rev_cons [of a r] Cons by auto
    then show ?thesis
    proof cases
      case 2
      then have "trim_rev (trim_rev t) = trim_rev t \<and> (\<exists>u. t = u @ trim_rev t)"
        using less Cons by simp
      then show ?thesis using 2 Cons by (metis append_Cons append_assoc)
    qed simp
  qed simp
qed

text \<open>A string that does not start with white space has no prefix that does.\<close>

lemma length_trim_start: "length (trim_start s) \<le> length s"
  using trim_start_fixed [of s] by (metis length_append le_add2)

lemma trim_start_prefix_fixed:
  assumes "trim_start (u @ v) = u @ v"
  shows "trim_start u = u"
proof (cases u)
  case (Cons a s)
  have short: "length (trim_start w) < length (a # s @ v)" if "length w \<le> length (s @ v)" for w
    using that length_trim_start [of w] by simp
  have "\<not> is_ws1 a" using assms short [of "s @ v"] by (auto simp: Cons trim_start.simps(1))
  moreover have "s = b # t \<Longrightarrow> \<not> is_ws2 a b" for b t
    using assms \<open>\<not> is_ws1 a\<close> short [of "t @ v"] by (auto simp: Cons trim_start.simps(1) split: if_splits)
  moreover have "s = b # c # t \<Longrightarrow> \<not> is_ws2 a b \<Longrightarrow> \<not> is_ws3 a b c" for b c t
    using assms \<open>\<not> is_ws1 a\<close> short [of "t @ v"] by (auto simp: Cons trim_start.simps(1) split: if_splits)
  ultimately show ?thesis by (auto simp: Cons trim_start.simps(1) split: list.splits)
qed simp

lemma trim_trim: "trim (trim s) = trim s"
proof -
  let ?t = "trim_start s"
  obtain u where "rev ?t = u @ trim_rev (rev ?t)" using trim_rev_fixed by blast
  then have "?t = trim_end ?t @ rev u" by (metis rev_append rev_rev_ident trim_end_def)
  then have "trim_start (trim_end ?t) = trim_end ?t" using trim_start_prefix_fixed trim_start_fixed by metis
  then show ?thesis using trim_rev_fixed by (simp add: trim_def trim_end_def)
qed

lemma lines_terminated:
  assumes "\<forall>p \<in> set ps. newline \<notin> set p \<and> (p = [] \<or> last p \<noteq> CHR 0x0D)"
  shows "lines (concat (map (\<lambda>p. p @ [newline]) ps)) = ps"
proof -
  have "map strip_cr ps = ps" using assms by (intro map_idI) (auto simp: strip_cr_plain)
  then show ?thesis using assms split_on_lines [of ps "[]"] by (simp add: lines_def)
qed

lemma join_lines_terminated:
  "ps \<noteq> [] \<Longrightarrow> concat (map (\<lambda>p. p @ [newline]) ps) = join_lines ps @ [newline]"
  by (induction ps rule: join_lines.induct) auto

end
