(* ===== verification/Checkpoint.thy ===== *)
theory Checkpoint
  imports Text_Format
begin

text \<open>
  Checkpoints and signed notes, \<^verbatim>\<open>src/checkpoint/signer.rs\<close>: key identifiers, note keys, signature
  lines, and the text of a checkpoint with its signatures. Base64, SHA-256 and Ed25519 are library
  code and the record \<open>crypto\<close> of the calls made to them; \<open>b64_laws\<close>, \<open>sha_laws\<close> and
  \<open>ed_laws\<close> say what the module relies on: base64 decodes what it encodes, uses its alphabet and at most four characters per byte,
  a digest has 32 bytes, the public key of a seed has 32 bytes and is a point, a signature has 64
  bytes and verifies under the key of its seed.
\<close>


subsection \<open>Library calls\<close>

record crypto =
  b64_encode :: "byte list \<Rightarrow> string"
  b64_decode :: "string \<Rightarrow> byte list option"
  sha256 :: "byte list \<Rightarrow> byte list"
  ed_public :: "byte list \<Rightarrow> byte list"
  ed_sign :: "byte list \<Rightarrow> byte list \<Rightarrow> byte list"
  ed_verify :: "byte list \<Rightarrow> byte list \<Rightarrow> byte list \<Rightarrow> bool"
  ed_key_ok :: "byte list \<Rightarrow> bool"
  ed_weak :: "byte list \<Rightarrow> bool"

definition b64_laws :: "crypto \<Rightarrow> bool" where
  "b64_laws cr \<longleftrightarrow>
     (\<forall>bs. b64_decode cr (b64_encode cr bs) = Some bs \<and> list_all plain (b64_encode cr bs)
        \<and> (bs \<noteq> [] \<longrightarrow> b64_encode cr bs \<noteq> []) \<and> length (b64_encode cr bs) \<le> 4 * length bs)"

definition sha_laws :: "crypto \<Rightarrow> bool" where
  "sha_laws cr \<longleftrightarrow> (\<forall>bs. length (sha256 cr bs) = 32)"

definition ed_laws :: "crypto \<Rightarrow> bool" where
  "ed_laws cr \<longleftrightarrow>
     (\<forall>seed msg. length (ed_sign cr seed msg) = 64
        \<and> length (ed_public cr seed) = 32 \<and> ed_key_ok cr (ed_public cr seed)
        \<and> ed_verify cr (ed_public cr seed) msg (ed_sign cr seed msg))"


subsection \<open>Keys\<close>

definition ALG_ED25519 :: byte where "ALG_ED25519 = 1"

definition ALG_COSIGNATURE_V1 :: byte where "ALG_COSIGNATURE_V1 = 4"

record checkpoint_signer =
  signer_name :: string
  signing_key :: "byte list"
  signer_key_id :: "byte list"

definition compute_key_id_with_alg :: "crypto \<Rightarrow> string \<Rightarrow> byte list \<Rightarrow> byte \<Rightarrow> byte list" where
  "compute_key_id_with_alg cr name key alg =
     take 4 (sha256 cr (str_bytes name @ str_bytes [newline] @ [alg] @ key))"

definition compute_key_id :: "crypto \<Rightarrow> string \<Rightarrow> byte list \<Rightarrow> byte list" where
  "compute_key_id cr name key = compute_key_id_with_alg cr name key ALG_ED25519"

definition key_id_as_u32 :: "byte list \<Rightarrow> nat" where
  "key_id_as_u32 kid = be_nat kid"

definition from_note_key :: "crypto \<Rightarrow> string \<Rightarrow> checkpoint_signer res" where
  "from_note_key cr key_str =
     (let parts = splitn 5 (CHR ''+'') (trim key_str)
      in if length parts \<noteq> 5 \<or> parts ! 0 \<noteq> ''PRIVATE'' \<or> parts ! 1 \<noteq> ''KEY'' then Inl Config
         else let name = parts ! 2; expected_hash_hex = parts ! 3
              in if length expected_hash_hex \<noteq> 8 then Inl Config
                 else bind_res (ok_or Config (u32_from_hex expected_hash_hex)) (\<lambda>expected_hash.
                      bind_res (ok_or Config (b64_decode cr (parts ! 4))) (\<lambda>key_data.
                        if length key_data \<noteq> 33 then Inl Config
                        else if key_data ! 0 \<noteq> ALG_ED25519 then Inl Config
                        else let seed = take 32 (drop 1 key_data);
                                 kid = compute_key_id cr name (ed_public cr seed)
                             in if key_id_as_u32 kid \<noteq> expected_hash then Inl Config
                                else Inr \<lparr>signer_name = name, signing_key = seed, signer_key_id = kid\<rparr>)))"

definition from_seed :: "crypto \<Rightarrow> string \<Rightarrow> byte list \<Rightarrow> checkpoint_signer" where
  "from_seed cr name seed =
     \<lparr>signer_name = name, signing_key = seed, signer_key_id = compute_key_id cr name (ed_public cr seed)\<rparr>"

definition verification_key :: "crypto \<Rightarrow> checkpoint_signer \<Rightarrow> string" where
  "verification_key cr s =
     signer_name s @ ''+'' @ hex_digits 8 (key_id_as_u32 (signer_key_id s)) @ ''+'' @
       b64_encode cr (ALG_ED25519 # ed_public cr (signing_key s))"

definition to_note_key :: "crypto \<Rightarrow> checkpoint_signer \<Rightarrow> string" where
  "to_note_key cr s =
     ''PRIVATE+KEY+'' @ signer_name s @ ''+'' @ hex_digits 8 (key_id_as_u32 (signer_key_id s)) @ ''+'' @
       b64_encode cr (ALG_ED25519 # signing_key s)"


subsection \<open>Checkpoints and signatures\<close>

record checkpoint =
  cp_origin :: string
  cp_size :: nat
  cp_root :: sha256_hash

definition origin_new :: "string \<Rightarrow> string res" where
  "origin_new origin =
     (if origin = [] then Inl Config
      else if newline \<in> set origin \<or> CHR 0x0D \<in> set origin then Inl Config
      else Inr origin)"

definition to_body :: "crypto \<Rightarrow> checkpoint \<Rightarrow> string" where
  "to_body cr cp =
     cp_origin cp @ [newline] @ dec (cp_size cp) @ [newline] @ b64_encode cr (hash_bytes (cp_root cp)) @ [newline]"

record checkpoint_signature =
  sig_name :: string
  sig_key_id :: "byte list"
  sig_bytes :: "byte list"
  sig_timestamp :: "nat option"

definition cosignature_v1_message :: "nat \<Rightarrow> string \<Rightarrow> string" where
  "cosignature_v1_message timestamp body =
     ''cosignature/v1'' @ [newline] @ ''time '' @ dec timestamp @ [newline] @ body"

definition cosignature_v1_key_id :: "crypto \<Rightarrow> checkpoint_signer \<Rightarrow> byte list" where
  "cosignature_v1_key_id cr s =
     compute_key_id_with_alg cr (signer_name s) (ed_public cr (signing_key s)) ALG_COSIGNATURE_V1"

definition cosign_v1 :: "crypto \<Rightarrow> checkpoint_signer \<Rightarrow> checkpoint \<Rightarrow> nat \<Rightarrow> checkpoint_signature" where
  "cosign_v1 cr s cp timestamp =
     \<lparr>sig_name = signer_name s, sig_key_id = cosignature_v1_key_id cr s,
      sig_bytes = ed_sign cr (signing_key s) (str_bytes (cosignature_v1_message timestamp (to_body cr cp))),
      sig_timestamp = Some timestamp\<rparr>"

text \<open>\<open>cosign_now\<close> with the clock's reading, \<open>None\<close> when the clock is before 1970.\<close>

definition cosign_now :: "crypto \<Rightarrow> checkpoint_signer \<Rightarrow> nat option \<Rightarrow> checkpoint \<Rightarrow> checkpoint_signature res" where
  "cosign_now cr s now cp =
     (case now of None \<Rightarrow> Inl Signing | Some timestamp \<Rightarrow> Inr (cosign_v1 cr s cp timestamp))"

text \<open>The em dash and a space, four bytes.\<close>

definition sig_prefix :: string where
  "sig_prefix = [CHR 0xE2, CHR 0x80, CHR 0x94, CHR '' '']"

definition to_line :: "crypto \<Rightarrow> checkpoint_signature \<Rightarrow> string" where
  "to_line cr sg =
     (let sig_data = sig_key_id sg @ (case sig_timestamp sg of None \<Rightarrow> [] | Some ts \<Rightarrow> be_bytes 8 ts) @ sig_bytes sg
      in sig_prefix @ sig_name sg @ '' '' @ b64_encode cr sig_data)"

definition from_line :: "crypto \<Rightarrow> string \<Rightarrow> checkpoint_signature res" where
  "from_line cr text_line =
     (let line = trim text_line
      in if \<not> starts_with sig_prefix line then Inl Config
         else let parts = splitn 2 (CHR '' '') (drop 4 line)
              in if length parts \<noteq> 2 then Inl Config
                 else bind_res (ok_or Config (b64_decode cr (parts ! 1))) (\<lambda>sig_data.
                        if length sig_data = 68
                        then Inr \<lparr>sig_name = parts ! 0, sig_key_id = take 4 sig_data,
                                  sig_bytes = drop 4 sig_data, sig_timestamp = None\<rparr>
                        else if length sig_data = 76
                        then Inr \<lparr>sig_name = parts ! 0, sig_key_id = take 4 sig_data,
                                  sig_bytes = drop 12 sig_data,
                                  sig_timestamp = Some (be_nat (take 8 (drop 4 sig_data)))\<rparr>
                        else Inl Config))"

record signed_checkpoint =
  sc_checkpoint :: checkpoint
  sc_signer_name :: string
  sc_key_id :: "byte list"
  sc_signature :: "byte list"

definition sign :: "crypto \<Rightarrow> checkpoint_signer \<Rightarrow> checkpoint \<Rightarrow> signed_checkpoint" where
  "sign cr s cp =
     \<lparr>sc_checkpoint = cp, sc_signer_name = signer_name s, sc_key_id = signer_key_id s,
      sc_signature = ed_sign cr (signing_key s) (str_bytes (to_body cr cp))\<rparr>"

definition signed_to_text :: "crypto \<Rightarrow> signed_checkpoint \<Rightarrow> string" where
  "signed_to_text cr sc =
     trim_end (to_body cr (sc_checkpoint sc)) @ [newline] @ sig_prefix @ sc_signer_name sc @ '' '' @
       b64_encode cr (sc_key_id sc @ sc_signature sc) @ [newline]"

record cosigned_checkpoint =
  co_checkpoint :: checkpoint
  co_signatures :: "checkpoint_signature list"

definition into_cosigned :: "signed_checkpoint \<Rightarrow> cosigned_checkpoint" where
  "into_cosigned sc =
     \<lparr>co_checkpoint = sc_checkpoint sc,
      co_signatures = [\<lparr>sig_name = sc_signer_name sc, sig_key_id = sc_key_id sc,
                        sig_bytes = sc_signature sc, sig_timestamp = None\<rparr>]\<rparr>"

definition plain_signature :: "crypto \<Rightarrow> checkpoint_signer \<Rightarrow> checkpoint \<Rightarrow> checkpoint_signature" where
  "plain_signature cr s cp =
     \<lparr>sig_name = signer_name s, sig_key_id = signer_key_id s,
      sig_bytes = ed_sign cr (signing_key s) (str_bytes (to_body cr cp)), sig_timestamp = None\<rparr>"

definition cosigned_new :: "crypto \<Rightarrow> checkpoint \<Rightarrow> checkpoint_signer \<Rightarrow> cosigned_checkpoint" where
  "cosigned_new cr cp s = \<lparr>co_checkpoint = cp, co_signatures = [plain_signature cr s cp]\<rparr>"

definition add_signature :: "crypto \<Rightarrow> checkpoint_signer \<Rightarrow> cosigned_checkpoint \<Rightarrow> cosigned_checkpoint" where
  "add_signature cr s co =
     co\<lparr>co_signatures := co_signatures co @ [plain_signature cr s (co_checkpoint co)]\<rparr>"

definition add_cosignature_v1 ::
  "crypto \<Rightarrow> checkpoint_signer \<Rightarrow> nat \<Rightarrow> cosigned_checkpoint \<Rightarrow> cosigned_checkpoint" where
  "add_cosignature_v1 cr s timestamp co =
     co\<lparr>co_signatures := co_signatures co @ [cosign_v1 cr s (co_checkpoint co) timestamp]\<rparr>"

definition has_signature_from :: "cosigned_checkpoint \<Rightarrow> string \<Rightarrow> bool" where
  "has_signature_from co name \<longleftrightarrow> (\<exists>sg \<in> set (co_signatures co). sig_name sg = name)"

definition merge_signatures :: "cosigned_checkpoint \<Rightarrow> cosigned_checkpoint \<Rightarrow> cosigned_checkpoint" where
  "merge_signatures other co =
     fold (\<lambda>sg co. if has_signature_from co (sig_name sg) then co
                   else co\<lparr>co_signatures := co_signatures co @ [sg]\<rparr>) (co_signatures other) co"

definition add_signature_line :: "crypto \<Rightarrow> string \<Rightarrow> cosigned_checkpoint \<Rightarrow> cosigned_checkpoint res" where
  "add_signature_line cr line co =
     bind_res (from_line cr line) (\<lambda>sg.
       Inr (if has_signature_from co (sig_name sg) then co
            else co\<lparr>co_signatures := co_signatures co @ [sg]\<rparr>))"


subsection \<open>The text of a checkpoint\<close>

definition to_text :: "crypto \<Rightarrow> cosigned_checkpoint \<Rightarrow> string" where
  "to_text cr co =
     trim_end (to_body cr (co_checkpoint co)) @ [newline, newline] @
       concat (map (\<lambda>sg. to_line cr sg @ [newline]) (co_signatures co))"

definition parse_body :: "crypto \<Rightarrow> string \<Rightarrow> checkpoint res" where
  "parse_body cr body =
     (let body_lines = lines body
      in if length body_lines < 3 then Inl Config
         else bind_res (origin_new (body_lines ! 0)) (\<lambda>origin.
              bind_res (ok_or Config (parse_u64 (body_lines ! 1))) (\<lambda>sz.
              bind_res (ok_or Config (b64_decode cr (body_lines ! 2))) (\<lambda>root_hash_bytes.
                if length root_hash_bytes \<noteq> 32 then Inl Config
                else Inr \<lparr>cp_origin = origin, cp_size = sz, cp_root = hash_from_bytes root_hash_bytes\<rparr>))))"

definition from_text :: "crypto \<Rightarrow> string \<Rightarrow> cosigned_checkpoint res" where
  "from_text cr text =
     (case split2 [newline, newline] (trim text) of
        None \<Rightarrow> Inl Config
      | Some (body, sig_section) \<Rightarrow>
          bind_res (parse_body cr body) (\<lambda>cp.
          bind_res (map_res (from_line cr) (filter (starts_with sig_prefix) (lines sig_section))) (\<lambda>sigs.
            if sigs = [] then Inl Config
            else Inr \<lparr>co_checkpoint = cp, co_signatures = sigs\<rparr>)))"


subsection \<open>Lines and keys parse back\<close>

lemma b64D:
  assumes "b64_laws cr"
  shows "b64_decode cr (b64_encode cr bs) = Some bs" and "c \<in> set (b64_encode cr bs) \<Longrightarrow> plain c"
    and "bs \<noteq> [] \<Longrightarrow> b64_encode cr bs \<noteq> []" and "newline \<notin> set (b64_encode cr bs)"
    and "bs \<noteq> [] \<Longrightarrow> plain (last (b64_encode cr bs))"
  using assms plain_not_newline by (fastforce simp: b64_laws_def list_all_iff)+

lemma key_id_length: "sha_laws cr \<Longrightarrow> length (compute_key_id_with_alg cr name key alg) = 4"
  by (simp add: compute_key_id_with_alg_def sha_laws_def)

lemma key_id_u32_bound: "length kid = 4 \<Longrightarrow> key_id_as_u32 kid < 2 ^ 32"
  using be_nat_bound [of kid] by (simp add: key_id_as_u32_def)

lemma plus_not_hex: "CHR ''+'' \<notin> set (hex_digits k n)"
  using hex_digits_plain by blast

lemma note_key_parts:
  assumes "CHR ''+'' \<notin> set name" and "CHR ''+'' \<notin> set h"
  shows "splitn 5 (CHR ''+'') (''PRIVATE+KEY+'' @ name @ ''+'' @ h @ ''+'' @ b) = [''PRIVATE'', ''KEY'', name, h, b]"
proof -
  have split: "''PRIVATE+KEY+'' @ name @ ''+'' @ h @ ''+'' @ b
      = ''PRIVATE'' @ CHR ''+'' # (''KEY'' @ CHR ''+'' # (name @ CHR ''+'' # (h @ CHR ''+'' # b)))"
    by simp
  have five: "(5::nat) = Suc 4" "(4::nat) = Suc 3" "(3::nat) = Suc 2" "(2::nat) = Suc 1" by simp_all
  have "CHR ''+'' \<notin> set ''PRIVATE''" and "CHR ''+'' \<notin> set ''KEY''" by simp_all
  then show ?thesis
    unfolding split using assms by (subst five(1), subst splitn_step, simp, simp, subst five(2),
      subst splitn_step, simp, simp, subst five(3), subst splitn_step, simp, simp, subst five(4), subst splitn_step) simp_all
qed

lemma note_key_roundtrip:
  assumes "b64_laws cr" and "sha_laws cr" and "CHR ''+'' \<notin> set name" and "length seed = 32"
  shows "from_note_key cr (to_note_key cr (from_seed cr name seed)) = Inr (from_seed cr name seed)"
proof -
  let ?kid = "compute_key_id cr name (ed_public cr seed)"
  let ?h = "hex_digits 8 (key_id_as_u32 ?kid)"
  let ?b = "b64_encode cr (ALG_ED25519 # seed)"
  have len: "length ?kid = 4" using key_id_length [OF assms(2)] by (simp add: compute_key_id_def)
  have key: "to_note_key cr (from_seed cr name seed) = ''PRIVATE+KEY+'' @ name @ ''+'' @ ?h @ ''+'' @ ?b"
    by (simp add: to_note_key_def from_seed_def)
  have "plain (CHR ''P'')" by (simp add: plain_def)
  then have "trim (''PRIVATE+KEY+'' @ name @ ''+'' @ ?h @ ''+'' @ ?b) = ''PRIVATE+KEY+'' @ name @ ''+'' @ ?h @ ''+'' @ ?b"
    using b64D(3,5) [OF assms(1), of "ALG_ED25519 # seed"] by (intro trim_plain) simp_all
  then show ?thesis
    using note_key_parts [OF assms(3) plus_not_hex, of 8 "key_id_as_u32 ?kid" ?b]
      u32_from_hex_digits [OF key_id_u32_bound [OF len]] b64D(1) [OF assms(1)] assms(4)
    unfolding key from_note_key_def by (simp add: from_seed_def)
qed

definition signature_wf :: "checkpoint_signature \<Rightarrow> bool" where
  "signature_wf sg \<longleftrightarrow>
     CHR '' '' \<notin> set (sig_name sg) \<and> newline \<notin> set (sig_name sg) \<and>
     length (sig_key_id sg) = 4 \<and> length (sig_bytes sg) = 64 \<and>
     (case sig_timestamp sg of None \<Rightarrow> True | Some ts \<Rightarrow> ts \<le> u64_max)"

lemma trim_start_prefix: "trim_start (sig_prefix @ s) = sig_prefix @ s"
  by (simp add: sig_prefix_def trim_start.simps is_ws1_def is_ws2_def is_ws3_def)

lemma starts_prefix [simp]: "starts_with sig_prefix (sig_prefix @ s)"
  by (rule starts_with_append)

lemma length_sig_prefix [simp]: "length sig_prefix = 4"
  by (simp add: sig_prefix_def)

lemma to_line_shape:
  assumes "b64_laws cr" and "signature_wf sg"
  shows "\<exists>b. to_line cr sg = sig_prefix @ sig_name sg @ CHR '' '' # b \<and> b \<noteq> [] \<and> plain (last b)
    \<and> newline \<notin> set b
    \<and> b64_decode cr b = Some (sig_key_id sg @ (case sig_timestamp sg of None \<Rightarrow> [] | Some ts \<Rightarrow> be_bytes 8 ts) @ sig_bytes sg)"
proof -
  let ?d = "sig_key_id sg @ (case sig_timestamp sg of None \<Rightarrow> [] | Some ts \<Rightarrow> be_bytes 8 ts) @ sig_bytes sg"
  have "?d \<noteq> []" using assms(2) by (auto simp: signature_wf_def)
  then show ?thesis using b64D(1,3,4,5) [OF assms(1), of ?d] by (simp add: to_line_def)
qed

lemma line_roundtrip:
  assumes "b64_laws cr" and "signature_wf sg"
  shows "from_line cr (to_line cr sg) = Inr sg"
proof -
  obtain b where line: "to_line cr sg = sig_prefix @ sig_name sg @ CHR '' '' # b" and b: "b \<noteq> []" "plain (last b)"
    and dec: "b64_decode cr b = Some (sig_key_id sg @ (case sig_timestamp sg of None \<Rightarrow> [] | Some ts \<Rightarrow> be_bytes 8 ts) @ sig_bytes sg)"
    using to_line_shape [OF assms] by blast
  have "trim_end (sig_prefix @ sig_name sg @ CHR '' '' # b) = sig_prefix @ sig_name sg @ CHR '' '' # b"
    using b by (intro trim_end_plain) simp_all
  then have trim: "trim (to_line cr sg) = sig_prefix @ sig_name sg @ CHR '' '' # b"
    unfolding line trim_def trim_start_prefix .
  have parts: "splitn 2 (CHR '' '') (sig_name sg @ CHR '' '' # b) = [sig_name sg, b]"
    using splitn_step [of "CHR '' ''" "sig_name sg" 1 b] assms(2) by (simp add: signature_wf_def numeral_2_eq_2)
  show ?thesis
    using assms(2) dec parts unfolding from_line_def trim
    by (cases "sig_timestamp sg") (auto simp: signature_wf_def be_nat_be_bytes_small)
qed


subsection \<open>The text of a checkpoint parses back\<close>

definition checkpoint_wf :: "checkpoint \<Rightarrow> bool" where
  "checkpoint_wf cp \<longleftrightarrow> origin_new (cp_origin cp) = Inr (cp_origin cp) \<and> plain (hd (cp_origin cp)) \<and> cp_size cp \<le> u64_max"

definition body_text :: "crypto \<Rightarrow> checkpoint \<Rightarrow> string" where
  "body_text cr cp =
     cp_origin cp @ newline # (dec (cp_size cp) @ newline # b64_encode cr (hash_bytes (cp_root cp)))"

lemma dec_line: "newline \<notin> set (dec n)" "dec n \<noteq> []" "hd (dec n) \<noteq> newline"  "last (dec n) \<noteq> CHR 0x0D"
proof -
  have digits: "c \<in> set (dec n) \<Longrightarrow> plain c" for c
    using dec_digits [of n] digit_plain by (auto simp: list_all_iff)
  show ne: "dec n \<noteq> []" using dec_digits [of n] by (cases "dec n") auto
  show "newline \<notin> set (dec n)" using digits plain_not_newline by blast
  then show "hd (dec n) \<noteq> newline" using ne by (metis list.set_sel(1))
  have "plain (last (dec n))" using digits ne by simp
  then show "last (dec n) \<noteq> CHR 0x0D" by (auto simp: plain_def)
qed

lemma hash_line:
  assumes "b64_laws cr"
  shows "b64_encode cr (hash_bytes h) \<noteq> []" and "plain (last (b64_encode cr (hash_bytes h)))"
    and "hd (b64_encode cr (hash_bytes h)) \<noteq> newline" and "newline \<notin> set (b64_encode cr (hash_bytes h))"
proof -
  have "hash_bytes h \<noteq> []" by (metis length_hash_bytes list.size(3) zero_neq_numeral)
  then show ne: "b64_encode cr (hash_bytes h) \<noteq> []" and "plain (last (b64_encode cr (hash_bytes h)))"
    using b64D(3,5) [OF assms] by blast+
  show nl: "newline \<notin> set (b64_encode cr (hash_bytes h))" by (rule b64D(4) [OF assms])
  show "hd (b64_encode cr (hash_bytes h)) \<noteq> newline" using ne nl by (metis list.set_sel(1))
qed

lemma body_trim:
  assumes "b64_laws cr"
  shows "trim_end (to_body cr cp) = body_text cr cp"
proof -
  have "to_body cr cp = body_text cr cp @ [newline]" by (simp add: to_body_def body_text_def)
  moreover have "trim_end (body_text cr cp) = body_text cr cp"
    using hash_line [OF assms] by (intro trim_end_plain) (simp_all add: body_text_def)
  ultimately show ?thesis by (simp add: trim_end_newline)
qed

lemma body_no_blank:
  assumes "b64_laws cr" and "checkpoint_wf cp"
  shows "find_sub [newline, newline] (body_text cr cp @ [newline, newline] @ s) = Some (length (body_text cr cp))"
proof (rule find_sub_blank)
  have "newline \<notin> set (cp_origin cp)"
    using assms(2) by (auto simp: checkpoint_wf_def origin_new_def split: if_splits)
  then show "\<forall>i. Suc i < length (body_text cr cp) \<longrightarrow> \<not> (body_text cr cp ! i = newline \<and> body_text cr cp ! Suc i = newline)"
    unfolding body_text_def using dec_line hash_line [OF assms(1)]
    by (intro no_blank_join no_blank_single) simp_all
  show "body_text cr cp \<noteq> []" by (simp add: body_text_def)
  show "last (body_text cr cp) \<noteq> newline"
    using hash_line [OF assms(1)] plain_not_newline by (simp add: body_text_def)
qed

lemma parse_body_text:
  assumes "b64_laws cr" and "checkpoint_wf cp"
  shows "parse_body cr (body_text cr cp) = Inr cp"
proof -
  let ?b = "b64_encode cr (hash_bytes (cp_root cp))"
  have origin: "newline \<notin> set (cp_origin cp)" "CHR 0x0D \<notin> set (cp_origin cp)" "cp_origin cp \<noteq> []"
    using assms(2) by (auto simp: checkpoint_wf_def origin_new_def split: if_splits)
  then have cr: "last (cp_origin cp) \<noteq> CHR 0x0D" by (metis last_in_set)
  have body: "body_text cr cp = concat (map (\<lambda>p. p @ [newline]) [cp_origin cp, dec (cp_size cp)]) @ ?b"
    by (simp add: body_text_def)
  have "lines (body_text cr cp) = [cp_origin cp, dec (cp_size cp)] @ [?b]"
    unfolding body by (rule lines_join) (use origin cr dec_line hash_line [OF assms(1)] in simp_all)
  then show ?thesis
    using assms(2) b64D(1) [OF assms(1)] by (simp add: parse_body_def checkpoint_wf_def)
qed

lemma to_line_ends:
  assumes "b64_laws cr" and "signature_wf sg"
  shows "newline \<notin> set (to_line cr sg)" and "to_line cr sg \<noteq> []" and "plain (last (to_line cr sg))"
    and "last (to_line cr sg) \<noteq> CHR 0x0D" and "starts_with sig_prefix (to_line cr sg)"
proof -
  obtain b where line: "to_line cr sg = sig_prefix @ sig_name sg @ CHR '' '' # b" and b: "b \<noteq> []" "plain (last b)" "newline \<notin> set b"
    using to_line_shape [OF assms] by blast
  show "newline \<notin> set (to_line cr sg)"
    using b(3) assms(2) unfolding line by (auto simp: signature_wf_def sig_prefix_def newline_def)
  show "to_line cr sg \<noteq> []" and "starts_with sig_prefix (to_line cr sg)" unfolding line by simp_all
  show "plain (last (to_line cr sg))" using b unfolding line by simp
  then show "last (to_line cr sg) \<noteq> CHR 0x0D" by (auto simp: plain_def)
qed

lemma from_lines:
  assumes "b64_laws cr" and "\<forall>sg \<in> set (ss @ [sg]). signature_wf sg"
  shows "map_res (from_line cr)
      (filter (starts_with sig_prefix) (lines (concat (map (\<lambda>sg. to_line cr sg @ [newline]) ss) @ to_line cr sg)))
    = Inr (ss @ [sg])"
proof -
  have ends: "\<And>s. s \<in> set (ss @ [sg]) \<Longrightarrow> signature_wf s" using assms(2) by blast
  have "lines (concat (map (\<lambda>p. p @ [newline]) (map (to_line cr) ss)) @ to_line cr sg) = map (to_line cr) ss @ [to_line cr sg]"
    by (rule lines_join) (use to_line_ends [OF assms(1)] ends in auto)
  then have lines: "lines (concat (map (\<lambda>sg. to_line cr sg @ [newline]) ss) @ to_line cr sg) = map (to_line cr) (ss @ [sg])"
    by (simp add: comp_def)
  have "filter (starts_with sig_prefix) (map (to_line cr) (ss @ [sg])) = map (to_line cr) (ss @ [sg])"
    using to_line_ends(5) [OF assms(1)] ends by (intro filter_True) auto
  then show ?thesis
    unfolding lines using line_roundtrip [OF assms(1)] ends
    by (simp only: map_res_Inr_iff list_all2_map1) (simp add: list_all2_same)
qed

lemma to_text_shape:
  assumes "b64_laws cr" and "checkpoint_wf cp" and "signature_wf sg"
  shows "trim (to_text cr \<lparr>co_checkpoint = cp, co_signatures = ss @ [sg]\<rparr>) =
    body_text cr cp @ [newline, newline] @ concat (map (\<lambda>sg. to_line cr sg @ [newline]) ss) @ to_line cr sg"
proof -
  let ?t = "body_text cr cp @ [newline, newline] @ concat (map (\<lambda>sg. to_line cr sg @ [newline]) ss) @ to_line cr sg"
  have whole: "to_text cr \<lparr>co_checkpoint = cp, co_signatures = ss @ [sg]\<rparr> = ?t @ [newline]"
    by (simp add: to_text_def body_trim [OF assms(1)])
  obtain c s where origin: "cp_origin cp = c # s" and c: "plain c"
    using assms(2) by (cases "cp_origin cp") (auto simp: checkpoint_wf_def origin_new_def)
  have "?t @ [newline] = c # (s @ drop (Suc (length s)) (?t @ [newline]))"
    by (simp add: body_text_def origin)
  then have "trim_start (?t @ [newline]) = ?t @ [newline]"
    using trim_start_plain [OF c] by metis
  moreover have "trim_end ?t = ?t"
    using to_line_ends(2,3) [OF assms(1,3)] by (intro trim_end_plain) simp_all
  ultimately show ?thesis unfolding whole trim_def using trim_end_newline by metis
qed

lemma text_roundtrip:
  assumes "b64_laws cr" and "checkpoint_wf (co_checkpoint co)"
    and "co_signatures co \<noteq> []" and "\<forall>sg \<in> set (co_signatures co). signature_wf sg"
  shows "from_text cr (to_text cr co) = Inr co"
proof -
  obtain ss sg where sigs: "co_signatures co = ss @ [sg]"
    using assms(3) by (cases "co_signatures co" rule: rev_cases) auto
  let ?S = "concat (map (\<lambda>sg. to_line cr sg @ [newline]) ss) @ to_line cr sg"
  have co: "co = \<lparr>co_checkpoint = co_checkpoint co, co_signatures = ss @ [sg]\<rparr>"
    using sigs by simp
  have "trim (to_text cr co) = body_text cr (co_checkpoint co) @ [newline, newline] @ ?S"
    using to_text_shape [OF assms(1,2), of sg ss] assms(4) co sigs by simp
  then have "split2 [newline, newline] (trim (to_text cr co)) = Some (body_text cr (co_checkpoint co), ?S)"
    using body_no_blank [OF assms(1,2), of ?S] by (simp add: split2_def)
  moreover have "map_res (from_line cr) (filter (starts_with sig_prefix) (lines ?S)) = Inr (ss @ [sg])"
    using from_lines [OF assms(1), of ss sg] assms(4) sigs by simp
  ultimately show ?thesis
    using parse_body_text [OF assms(1,2)] co by (simp add: from_text_def)
qed


text \<open>
  The text of a \<open>SignedCheckpoint\<close> has no blank line before its signature, so the parser of cosigned
  checkpoints refuses it.
\<close>

lemma signed_text_rejected:
  assumes "b64_laws cr" and "checkpoint_wf (sc_checkpoint sc)" and "newline \<notin> set (sc_signer_name sc)"
    and "sc_key_id sc @ sc_signature sc \<noteq> []"
  shows "from_text cr (signed_to_text cr sc) = Inl Config"
proof -
  let ?cp = "sc_checkpoint sc" and ?b = "b64_encode cr (sc_key_id sc @ sc_signature sc)"
  let ?line = "sig_prefix @ sc_signer_name sc @ '' '' @ ?b"
  let ?t = "cp_origin ?cp @ newline # (dec (cp_size ?cp) @ newline # (b64_encode cr (hash_bytes (cp_root ?cp)) @ newline # ?line))"
  have whole: "signed_to_text cr sc = ?t @ [newline]"
    by (simp add: signed_to_text_def body_trim [OF assms(1)] body_text_def)
  obtain c s where origin: "cp_origin ?cp = c # s" and c: "plain c"
    using assms(2) by (cases "cp_origin ?cp") (auto simp: checkpoint_wf_def origin_new_def)
  have nl: "newline \<notin> set (cp_origin ?cp)" "newline \<notin> set ?line" "hd ?line \<noteq> newline"
    using assms(2,3) b64D(4) [OF assms(1)] by (auto simp: checkpoint_wf_def origin_new_def sig_prefix_def newline_def split: if_splits)
  have "trim_start (?t @ [newline]) = ?t @ [newline]" using trim_start_plain [OF c] by (simp add: origin)
  moreover have "trim_end ?t = ?t" using b64D(3,5) [OF assms(1,4)] by (intro trim_end_plain) simp_all
  ultimately have trim: "trim (signed_to_text cr sc) = ?t" unfolding whole trim_def using trim_end_newline by metis
  have "find_sub [newline, newline] ?t = None"
    using nl dec_line hash_line [OF assms(1)]
    by (intro find_sub_no_blank no_blank_join no_blank_single) simp_all
  then show ?thesis unfolding from_text_def trim split2_def by simp
qed


subsection \<open>What a signature covers\<close>

lemma body_parts:
  assumes "b64_laws cr" and "origin_new (cp_origin cp) = Inr (cp_origin cp)"
  shows "split_on newline (to_body cr cp) = [cp_origin cp, dec (cp_size cp), b64_encode cr (hash_bytes (cp_root cp)), []]"
proof -
  have "newline \<notin> set (cp_origin cp)"
    using assms(2) by (auto simp: origin_new_def split: if_splits)
  then show ?thesis
    using split_on_lines [of "[cp_origin cp, dec (cp_size cp), b64_encode cr (hash_bytes (cp_root cp))]" "[]"]
      dec_line(1) hash_line(4) [OF assms(1)] by (simp add: to_body_def)
qed

lemma cosignature_parts:
  assumes "b64_laws cr" and "origin_new (cp_origin cp) = Inr (cp_origin cp)"
  shows "split_on newline (cosignature_v1_message ts (to_body cr cp)) =
    [''cosignature/v1'', ''time '' @ dec ts, cp_origin cp, dec (cp_size cp), b64_encode cr (hash_bytes (cp_root cp)), []]"
proof -
  have "newline \<notin> set (cp_origin cp)"
    using assms(2) by (auto simp: origin_new_def split: if_splits)
  moreover have "newline \<notin> set ''cosignature/v1''" and "newline \<notin> set (''time '' @ dec ts)"
    using dec_line(1) [of ts] by (simp_all add: newline_def)
  ultimately show ?thesis
    using split_on_lines [of "[''cosignature/v1'', ''time '' @ dec ts, cp_origin cp, dec (cp_size cp), b64_encode cr (hash_bytes (cp_root cp))]" "[]"]
      dec_line(1) hash_line(4) [OF assms(1)] by (simp add: to_body_def cosignature_v1_message_def)
qed

lemma b64_inject: "b64_laws cr \<Longrightarrow> b64_encode cr a = b64_encode cr b \<longleftrightarrow> a = b"
  using b64D(1) by (metis option.inject)

lemma signed_messages:
  assumes "b64_laws cr" and "origin_new (cp_origin a) = Inr (cp_origin a)" and "origin_new (cp_origin b) = Inr (cp_origin b)"
  shows "str_bytes (to_body cr a) = str_bytes (to_body cr b) \<longleftrightarrow> a = b"
    and "str_bytes (cosignature_v1_message t (to_body cr a)) = str_bytes (cosignature_v1_message u (to_body cr b)) \<longleftrightarrow> t = u \<and> a = b"
    and "str_bytes (cosignature_v1_message t (to_body cr a)) \<noteq> str_bytes (to_body cr b)"
proof -
  have eq: "cp_origin a = cp_origin b \<Longrightarrow> cp_size a = cp_size b \<Longrightarrow> cp_root a = cp_root b \<Longrightarrow> a = b" by simp
  show "str_bytes (to_body cr a) = str_bytes (to_body cr b) \<longleftrightarrow> a = b"
    using arg_cong [where f = "split_on newline", of "to_body cr a" "to_body cr b"]
    unfolding str_bytes_inj body_parts [OF assms(1,2)] body_parts [OF assms(1,3)]
    by (auto simp: dec_inj b64_inject [OF assms(1)] hash_bytes_inj intro: eq)
  show "str_bytes (cosignature_v1_message t (to_body cr a)) = str_bytes (cosignature_v1_message u (to_body cr b)) \<longleftrightarrow> t = u \<and> a = b"
    using arg_cong [where f = "split_on newline", of "cosignature_v1_message t (to_body cr a)" "cosignature_v1_message u (to_body cr b)"]
    unfolding str_bytes_inj cosignature_parts [OF assms(1,2)] cosignature_parts [OF assms(1,3)]
    by (auto simp: dec_inj b64_inject [OF assms(1)] hash_bytes_inj intro: eq)
  show "str_bytes (cosignature_v1_message t (to_body cr a)) \<noteq> str_bytes (to_body cr b)"
    using arg_cong [where f = "\<lambda>s. length (split_on newline s)", of "cosignature_v1_message t (to_body cr a)" "to_body cr b"]
    unfolding str_bytes_inj cosignature_parts [OF assms(1,2)] body_parts [OF assms(1,3)] by auto
qed


subsection \<open>One signature per signer\<close>

lemma merge_step_names:
  "distinct (map sig_name (co_signatures co)) \<Longrightarrow>
    (let co' = fold (\<lambda>sg co. if has_signature_from co (sig_name sg) then co
                   else co\<lparr>co_signatures := co_signatures co @ [sg]\<rparr>) sgs co
     in distinct (map sig_name (co_signatures co')) \<and> co_checkpoint co' = co_checkpoint co
        \<and> sig_name ` set (co_signatures co') = sig_name ` set (co_signatures co) \<union> sig_name ` set sgs
        \<and> (\<exists>ys. co_signatures co' = co_signatures co @ ys \<and> set ys \<subseteq> set sgs))"
proof (induction sgs arbitrary: co)
  case (Cons sg sgs)
  let ?co = "if has_signature_from co (sig_name sg) then co else co\<lparr>co_signatures := co_signatures co @ [sg]\<rparr>"
  have "distinct (map sig_name (co_signatures ?co))" using Cons.prems by (auto simp: has_signature_from_def)
  note IH = Cons.IH [OF this]
  show ?case
  proof (cases "has_signature_from co (sig_name sg)")
    case True
    then have "sig_name sg \<in> sig_name ` set (co_signatures co)" by (auto simp: has_signature_from_def intro: rev_image_eqI)
    then show ?thesis using IH True by (auto simp: Let_def)
  next
    case False
    then show ?thesis using IH by (auto simp: Let_def)
  qed
qed simp


subsection \<open>Properties\<close>

text \<open>An instance of the library calls, for the witnesses: base 16 for base64, sums for digests.\<close>

definition demo_char :: "nat \<Rightarrow> char" where "demo_char d = char_of (65 + d)"

fun demo_decode :: "string \<Rightarrow> byte list option" where
  "demo_decode [] = Some []"
| "demo_decode [c] = None"
| "demo_decode (c # d # s) =
     (if 65 \<le> (of_char c :: nat) \<and> (of_char c :: nat) < 81 \<and> 65 \<le> (of_char d :: nat) \<and> (of_char d :: nat) < 81
      then map_option (\<lambda>bs. word_of_nat ((of_char c - 65) * 16 + (of_char d - 65)) # bs) (demo_decode s) else None)"

definition demo_encode :: "byte list \<Rightarrow> string" where
  "demo_encode bs = concat (map (\<lambda>b. [demo_char (unat b div 16), demo_char (unat b mod 16)]) bs)"

definition demo_crypto :: crypto where
  "demo_crypto =
     \<lparr>b64_encode = demo_encode, b64_decode = demo_decode, sha256 = (\<lambda>bs. replicate 32 (sum_list bs)),
      ed_public = (\<lambda>seed. take 32 (seed @ replicate 32 0)),
      ed_sign = (\<lambda>seed msg. replicate 64 (sum_list (take 32 (seed @ replicate 32 0)) + sum_list msg)),
      ed_verify = (\<lambda>key msg sg. sg = replicate 64 (sum_list key + sum_list msg)),
      ed_key_ok = (\<lambda>key. True), ed_weak = (\<lambda>key. False)\<rparr>"

lemma demo_char_value: "d < 16 \<Longrightarrow> (of_char (demo_char d) :: nat) = 65 + d"
  by (simp add: demo_char_def of_char_of)

lemma demo_decode_encode: "demo_decode (demo_encode bs) = Some bs"
proof (induction bs)
  case (Cons b bs)
  have "unat b < 256" by (rule unat_byte)
  then have "unat b div 16 < 16" by (simp add: less_mult_imp_div_less)
  moreover have "unat b div 16 * 16 + unat b mod 16 = unat b" by simp
  ultimately show ?case using Cons by (simp add: demo_encode_def demo_char_value)
qed (simp add: demo_encode_def)

lemma demo_b64 [simp]: "b64_laws demo_crypto"
proof -
  have "plain (demo_char (unat b div 16)) \<and> plain (demo_char (unat b mod 16))" for b :: byte
  proof -
    have "unat b < 256" by (rule unat_byte)
    then have "unat b div 16 < 16" by (simp add: less_mult_imp_div_less)
    then show ?thesis by (simp add: plain_def demo_char_value)
  qed
  then have "list_all plain (demo_encode bs)" for bs by (induction bs) (simp_all add: demo_encode_def)
  moreover have "bs \<noteq> [] \<Longrightarrow> demo_encode bs \<noteq> []" for bs by (cases bs) (simp_all add: demo_encode_def)
  moreover have "length (demo_encode bs) \<le> 4 * length bs" for bs by (induction bs) (simp_all add: demo_encode_def)
  ultimately show ?thesis by (simp add: b64_laws_def demo_crypto_def demo_decode_encode)
qed

lemma demo_sha [simp]: "sha_laws demo_crypto"
  by (simp add: sha_laws_def demo_crypto_def)

lemma demo_ed [simp]: "ed_laws demo_crypto"
  by (simp add: ed_laws_def demo_crypto_def min_def)

text \<open>C27. A cosigned checkpoint, formatted and parsed, comes back as it was: every signature with its
  name, key id, timestamp and bytes, in order, and the origin, size and root hash. The origin is one
  that \<open>Origin::new\<close> accepts and starts with a printable character, names hold no space or line feed.\<close>

theorem checkpoint_text_roundtrip:
  assumes "b64_laws cr" and "checkpoint_wf (co_checkpoint co)"
    and "co_signatures co \<noteq> []" and "\<forall>sg \<in> set (co_signatures co). signature_wf sg"
  shows "from_text cr (to_text cr co) = Inr co"
  using assms by (rule text_roundtrip)

definition demo_checkpoint :: checkpoint where
  "demo_checkpoint = \<lparr>cp_origin = ''log'', cp_size = 7, cp_root = 5\<rparr>"

definition demo_signature :: "checkpoint_signature" where
  "demo_signature = \<lparr>sig_name = ''w'', sig_key_id = [1, 2, 3, 4], sig_bytes = replicate 64 9, sig_timestamp = Some 17\<rparr>"

lemma demo_wf [simp]: "checkpoint_wf demo_checkpoint" "signature_wf demo_signature"
  by (simp_all add: checkpoint_wf_def demo_checkpoint_def origin_new_def plain_def newline_def
      signature_wf_def demo_signature_def)

theorem checkpoint_text_roundtrip_witness:
  "from_text demo_crypto (to_text demo_crypto \<lparr>co_checkpoint = demo_checkpoint, co_signatures = [demo_signature]\<rparr>)
    = Inr \<lparr>co_checkpoint = demo_checkpoint, co_signatures = [demo_signature]\<rparr>"
  by (rule checkpoint_text_roundtrip) simp_all

text \<open>A private note key exported from a signer is imported as the same signer: name, seed and the
  key id recomputed from the public key, which the import compares with the exported hash.\<close>

theorem note_key_import:
  assumes "b64_laws cr" and "sha_laws cr" and "CHR ''+'' \<notin> set name" and "length seed = 32"
  shows "from_note_key cr (to_note_key cr (from_seed cr name seed)) = Inr (from_seed cr name seed)"
  using assms by (rule note_key_roundtrip)

text \<open>The signed bytes determine what was signed: equal checkpoint bodies are equal checkpoints,
  equal cosignature messages have the same timestamp and checkpoint, and no cosignature message is a
  checkpoint body, so a cosignature never counts as a log signature.\<close>

lemma signed_messages_unambiguous:
  assumes "b64_laws cr" and "origin_new (cp_origin a) = Inr (cp_origin a)" and "origin_new (cp_origin b) = Inr (cp_origin b)"
  shows "(str_bytes (to_body cr a) = str_bytes (to_body cr b) \<longleftrightarrow> a = b)
    \<and> (str_bytes (cosignature_v1_message t (to_body cr a)) = str_bytes (cosignature_v1_message u (to_body cr b)) \<longleftrightarrow> t = u \<and> a = b)
    \<and> str_bytes (cosignature_v1_message t (to_body cr a)) \<noteq> str_bytes (to_body cr b)"
  using signed_messages [OF assms] by blast

text \<open>Merging adds signatures of signers that have none yet and nothing else: the old signatures
  stay in place, every signer of either side is there, and no signer appears twice.\<close>

theorem merge_signatures_one_per_signer:
  assumes "distinct (map sig_name (co_signatures co))"
  shows "let co' = merge_signatures other co
    in distinct (map sig_name (co_signatures co')) \<and> co_checkpoint co' = co_checkpoint co
       \<and> sig_name ` set (co_signatures co') = sig_name ` set (co_signatures co) \<union> sig_name ` set (co_signatures other)
       \<and> (\<exists>ys. co_signatures co' = co_signatures co @ ys \<and> set ys \<subseteq> set (co_signatures other))"
  using merge_step_names [OF assms] unfolding merge_signatures_def .

end
