(* ===== verification/Witness_Verifier.thy ===== *)
theory Witness_Verifier
  imports Checkpoint
begin

text \<open>
  Verification keys and the checks on checkpoint signatures, \<^verbatim>\<open>src/witness/verifier.rs\<close>: parsing of
  \<open>name+hash+base64\<close> keys, the check of a log signature, of a witness cosignature, and of a whole
  checkpoint against the configuration of its log.
\<close>


subsection \<open>Keys\<close>

record log_config =
  lc_origin :: string
  lc_vkey :: string
  lc_url :: "string option"
  lc_verifying_key :: "byte list"
  lc_key_id :: "byte list"
  lc_key_name :: string

definition parse_vkey :: "crypto \<Rightarrow> string \<Rightarrow> (string \<times> byte \<times> byte list \<times> byte list) res" where
  "parse_vkey cr vkey =
     (let parts = splitn 3 (CHR ''+'') (trim vkey)
      in if length parts \<noteq> 3 then Inl Config
         else let name = parts ! 0; hash_hex = parts ! 1; key_base64 = parts ! 2
              in if length hash_hex \<noteq> 8 then Inl Config
                 else bind_res (ok_or Config (u32_from_hex hash_hex)) (\<lambda>expected_hash.
                      bind_res (ok_or Config (b64_decode cr key_base64)) (\<lambda>key_data.
                        if length key_data \<noteq> 33 then Inl Config
                        else if key_data ! 0 \<noteq> ALG_ED25519 \<and> key_data ! 0 \<noteq> 4 then Inl Config
                        else let key = take 32 (drop 1 key_data)
                             in if \<not> ed_key_ok cr key then Inl Config
                                else if ed_weak cr key then Inl Config
                                else let kid = compute_key_id_with_alg cr name key (key_data ! 0)
                                     in if key_id_as_u32 kid \<noteq> expected_hash then Inl Config
                                        else Inr (name, key_data ! 0, kid, key))))"

definition new_witness :: "crypto \<Rightarrow> string \<Rightarrow> log_config res" where
  "new_witness cr vkey =
     bind_res (parse_vkey cr vkey) (\<lambda>(key_name, _, kid, key).
       Inr \<lparr>lc_origin = [], lc_vkey = vkey, lc_url = None, lc_verifying_key = key,
            lc_key_id = kid, lc_key_name = key_name\<rparr>)"

definition log_config_new :: "crypto \<Rightarrow> string \<Rightarrow> string \<Rightarrow> log_config res" where
  "log_config_new cr origin vkey =
     bind_res (new_witness cr vkey) (\<lambda>config.
     bind_res (parse_vkey cr vkey) (\<lambda>(_, alg, _, _).
       if alg \<noteq> ALG_ED25519 then Inl Config else Inr (config\<lparr>lc_origin := origin\<rparr>)))"

definition with_url :: "crypto \<Rightarrow> string \<Rightarrow> string \<Rightarrow> string \<Rightarrow> log_config res" where
  "with_url cr origin vkey url =
     bind_res (log_config_new cr origin vkey) (\<lambda>config. Inr (config\<lparr>lc_url := Some url\<rparr>))"


subsection \<open>Signatures\<close>

definition verify_signature :: "crypto \<Rightarrow> log_config \<Rightarrow> checkpoint_signature \<Rightarrow> byte list \<Rightarrow> unit res" where
  "verify_signature cr cfg sg body =
     (if sig_timestamp sg \<noteq> None \<or> sig_key_id sg \<noteq> lc_key_id cfg \<or> sig_name sg \<noteq> lc_key_name cfg
      then Inl Signing
      else if ed_verify cr (lc_verifying_key cfg) body (sig_bytes sg) then Inr () else Inl Signing)"

definition verify_cosignature :: "crypto \<Rightarrow> log_config \<Rightarrow> checkpoint_signature \<Rightarrow> byte list \<Rightarrow> unit res" where
  "verify_cosignature cr cfg sg body =
     (let alg = (if sig_timestamp sg \<noteq> None then 4 else 1);
          kid = compute_key_id_with_alg cr (lc_key_name cfg) (lc_verifying_key cfg) alg
      in if sig_key_id sg \<noteq> kid \<or> sig_name sg \<noteq> lc_key_name cfg then Inl Signing
         else bind_res
           (case sig_timestamp sg of
              Some ts \<Rightarrow> if utf8_ok body then Inr (str_bytes (cosignature_v1_message ts (bytes_str body))) else Inl Signing
            | None \<Rightarrow> Inr body)
           (\<lambda>message. if ed_verify cr (lc_verifying_key cfg) message (sig_bytes sg) then Inr () else Inl Signing))"

definition verify :: "crypto \<Rightarrow> log_config \<Rightarrow> cosigned_checkpoint \<Rightarrow> unit res" where
  "verify cr cfg co =
     (if cp_origin (co_checkpoint co) \<noteq> lc_origin cfg then Inl Config
      else case find (\<lambda>s. is_ok (verify_signature cr cfg s (str_bytes (to_body cr (co_checkpoint co))))) (co_signatures co) of
             None \<Rightarrow> Inl Config
           | Some log_sig \<Rightarrow> verify_signature cr cfg log_sig (str_bytes (to_body cr (co_checkpoint co))))"


subsection \<open>Facts\<close>

lemma vkey_parts:
  assumes "CHR ''+'' \<notin> set name" and "CHR ''+'' \<notin> set h"
  shows "splitn 3 (CHR ''+'') (name @ ''+'' @ h @ ''+'' @ b) = [name, h, b]"
proof -
  have split: "name @ ''+'' @ h @ ''+'' @ b = name @ CHR ''+'' # (h @ CHR ''+'' # b)" by simp
  have three: "(3::nat) = Suc 2" "(2::nat) = Suc 1" by simp_all
  show ?thesis
    unfolding split using assms
    by (subst three(1), subst splitn_step, simp, simp, subst three(2), subst splitn_step) simp_all
qed

text \<open>The key that \<open>verification_key\<close> prints, for either algorithm byte.\<close>

definition vkey_text :: "crypto \<Rightarrow> string \<Rightarrow> byte \<Rightarrow> byte list \<Rightarrow> string" where
  "vkey_text cr name alg key =
     name @ ''+'' @ hex_digits 8 (key_id_as_u32 (compute_key_id_with_alg cr name key alg)) @ ''+'' @
       b64_encode cr (alg # key)"

definition key_name_ok :: "string \<Rightarrow> bool" where
  "key_name_ok name \<longleftrightarrow> CHR ''+'' \<notin> set name \<and> (name = [] \<or> plain (hd name))"

lemma parse_vkey_text:
  assumes "b64_laws cr" and "sha_laws cr" and "key_name_ok name" and "length key = 32"
    and "ed_key_ok cr key" and "\<not> ed_weak cr key" and "alg = 1 \<or> alg = 4"
  shows "parse_vkey cr (vkey_text cr name alg key) = Inr (name, alg, compute_key_id_with_alg cr name key alg, key)"
proof -
  let ?kid = "compute_key_id_with_alg cr name key alg"
  let ?h = "hex_digits 8 (key_id_as_u32 ?kid)" and ?b = "b64_encode cr (alg # key)"
  have name: "CHR ''+'' \<notin> set name" using assms(3) by (simp add: key_name_ok_def)
  have "plain (CHR ''+'')" by (simp add: plain_def)
  then have "plain (hd (name @ ''+'' @ ?h @ ''+'' @ ?b))"
    using assms(3) by (cases name) (auto simp: key_name_ok_def)
  then have "trim (vkey_text cr name alg key) = name @ ''+'' @ ?h @ ''+'' @ ?b"
    using b64D(3,5) [OF assms(1), of "alg # key"] unfolding vkey_text_def by (intro trim_plain) simp_all
  then show ?thesis
    using vkey_parts [OF name plus_not_hex, of 8 "key_id_as_u32 ?kid" ?b] assms(4-7)
      u32_from_hex_digits [OF key_id_u32_bound [OF key_id_length [OF assms(2)]]] b64D(1) [OF assms(1)]
    unfolding parse_vkey_def by (auto simp: ALG_ED25519_def)
qed

lemma verify_signature_iff:
  "verify_signature cr cfg sg body = Inr () \<longleftrightarrow>
     sig_timestamp sg = None \<and> sig_key_id sg = lc_key_id cfg \<and> sig_name sg = lc_key_name cfg
     \<and> ed_verify cr (lc_verifying_key cfg) body (sig_bytes sg)"
  by (auto simp: verify_signature_def)

lemma verify_iff:
  "verify cr cfg co = Inr () \<longleftrightarrow>
     cp_origin (co_checkpoint co) = lc_origin cfg \<and>
     (\<exists>sg \<in> set (co_signatures co). verify_signature cr cfg sg (str_bytes (to_body cr (co_checkpoint co))) = Inr ())"
  by (auto simp: verify_def is_ok_iff find_None_iff find_Some_iff split: option.splits)

lemma body_utf8:
  assumes "b64_laws cr" and "utf8_ok (str_bytes (cp_origin cp))"
  shows "utf8_ok (str_bytes (to_body cr cp))"
proof -
  have "list_all plain (dec n)" for n
    using dec_digits [of n] by (auto simp: list_all_iff digit_plain)
  then have "utf8_ok (str_bytes (dec (cp_size cp)))" by (rule utf8_ok_plain)
  moreover have "utf8_ok (str_bytes (b64_encode cr bs))" for bs
    using assms(1) by (intro utf8_ok_plain) (simp add: b64_laws_def)
  moreover have "utf8_ok (str_bytes [newline])" by (simp add: str_bytes_def newline_def utf8_ok.simps(2))
  ultimately show ?thesis
    using assms(2) unfolding to_body_def str_bytes_append by (intro utf8_ok_append)
qed


lemma verification_key_text:
  "verification_key cr (from_seed cr name seed) = vkey_text cr name ALG_ED25519 (ed_public cr seed)"
  by (simp add: verification_key_def from_seed_def vkey_text_def compute_key_id_def)


subsection \<open>Properties\<close>

text \<open>C28. The verifier accepts a checkpoint exactly when its origin is the configured one and one of
  its signatures is a plain note signature with the configured name and key id whose bytes verify
  over the checkpoint's body.\<close>

theorem verify_accepts_iff:
  "verify cr cfg co = Inr () \<longleftrightarrow>
     cp_origin (co_checkpoint co) = lc_origin cfg \<and>
     (\<exists>sg. List.member (co_signatures co) sg \<and> sig_timestamp sg = None \<and> sig_key_id sg = lc_key_id cfg
        \<and> sig_name sg = lc_key_name cfg
        \<and> ed_verify cr (lc_verifying_key cfg) (str_bytes (to_body cr (co_checkpoint co))) (sig_bytes sg))"
  by (auto simp: verify_iff verify_signature_iff)

text \<open>The printed verification key of a signer configures a log whose verifier accepts the
  checkpoints that signer signs.\<close>

lemma signer_is_verified:
  assumes "b64_laws cr" and "sha_laws cr" and "ed_laws cr" and "key_name_ok name"
    and "\<not> ed_weak cr (ed_public cr seed)"
  shows "\<exists>cfg. log_config_new cr (cp_origin cp) (verification_key cr (from_seed cr name seed)) = Inr cfg
     \<and> verify cr cfg (cosigned_new cr cp (from_seed cr name seed)) = Inr ()"
proof -
  have "parse_vkey cr (verification_key cr (from_seed cr name seed))
      = Inr (name, ALG_ED25519, compute_key_id_with_alg cr name (ed_public cr seed) ALG_ED25519, ed_public cr seed)"
    unfolding verification_key_text using assms
    by (intro parse_vkey_text) (simp_all add: ed_laws_def ALG_ED25519_def)
  then show ?thesis
    using assms(3) by (simp add: log_config_new_def new_witness_def verify_iff verify_signature_iff
        cosigned_new_def plain_signature_def from_seed_def compute_key_id_def ed_laws_def)
qed

text \<open>C29. A timestamped cosignature verifies under the witness's key, printed with either algorithm
  byte, for the body it was made for; the check of log signatures refuses it for every body, and a
  cosignature key cannot configure a log.\<close>

theorem cosignature_is_not_a_log_signature:
  assumes "b64_laws cr" and "sha_laws cr" and "ed_laws cr" and "key_name_ok name"
    and "\<not> ed_weak cr (ed_public cr seed)" and "utf8_ok (str_bytes (cp_origin cp))"
    and "alg = 1 \<or> alg = 4"
  shows "\<exists>cfg. new_witness cr (vkey_text cr name alg (ed_public cr seed)) = Inr cfg
     \<and> verify_cosignature cr cfg (cosign_v1 cr (from_seed cr name seed) cp ts) (str_bytes (to_body cr cp)) = Inr ()
     \<and> verify_signature cr cfg (cosign_v1 cr (from_seed cr name seed) cp ts) body = Inl Signing
     \<and> (alg = 4 \<longrightarrow> log_config_new cr origin (vkey_text cr name alg (ed_public cr seed)) = Inl Config)"
proof -
  have "parse_vkey cr (vkey_text cr name alg (ed_public cr seed))
      = Inr (name, alg, compute_key_id_with_alg cr name (ed_public cr seed) alg, ed_public cr seed)"
    using assms by (intro parse_vkey_text) (simp_all add: ed_laws_def)
  then show ?thesis
    using assms(3) body_utf8 [OF assms(1,6)]
    by (auto simp: log_config_new_def new_witness_def verify_cosignature_def verify_signature_def cosign_v1_def
        from_seed_def cosignature_v1_key_id_def ALG_COSIGNATURE_V1_def ALG_ED25519_def ed_laws_def)
qed

theorem cosignature_is_not_a_log_signature_witness:
  "\<exists>cfg. new_witness demo_crypto (vkey_text demo_crypto ''w'' 4 (ed_public demo_crypto [7])) = Inr cfg
     \<and> verify_signature demo_crypto cfg (cosign_v1 demo_crypto (from_seed demo_crypto ''w'' [7]) demo_checkpoint 9) [] = Inl Signing"
proof -
  have "\<not> ed_weak demo_crypto (ed_public demo_crypto [7])" by (simp add: demo_crypto_def)
  moreover have "utf8_ok (str_bytes (cp_origin demo_checkpoint))"
    by (intro utf8_ok_plain) (simp add: demo_checkpoint_def plain_def)
  moreover have "key_name_ok ''w''" by (simp add: key_name_ok_def plain_def)
  ultimately show ?thesis
    using cosignature_is_not_a_log_signature [of demo_crypto "''w''" "[7]" demo_checkpoint 4 9 "[]"] by auto
qed

end
