(* ===== verification/Witness_Store.thy ===== *)
theory Witness_Store
  imports Witness_Verifier Log_Database
begin

text \<open>
  The table of witnessed checkpoints, \<^verbatim>\<open>src/witness/state.rs\<close>: one row per log origin, initialised on
  first use and changed only by a conditional update that names the state it was verified against.
  The column \<open>updated_at\<close> is written and never read and is left out. The contract towards the
  witness is the locale \<open>cas_table\<close>, a map of registers with compare-and-swap.
\<close>


subsection \<open>Rows and operations\<close>

record witness_row =
  wr_origin :: string
  wr_size :: int
  wr_root_hash :: "byte list"
  wr_checkpoint :: string

type_synonym witness_table = "witness_row list"

record witnessed_state =
  ws_origin :: string
  ws_size :: nat
  ws_root :: sha256_hash

definition row_state :: "witness_row \<Rightarrow> witnessed_state res" where
  "row_state row =
     bind_res (ok_or Internal (try_from_slice (wr_root_hash row))) (\<lambda>root.
       Inr \<lparr>ws_origin = wr_origin row, ws_size = as_u64 (wr_size row), ws_root = root\<rparr>)"

definition witness_get :: "string \<Rightarrow> witness_table \<Rightarrow> witnessed_state option res" where
  "witness_get origin t =
     (case find (\<lambda>row. wr_origin row = origin) t of
        None \<Rightarrow> Inr None
      | Some row \<Rightarrow> bind_res (row_state row) (\<lambda>s. Inr (Some s)))"

definition insert_initial :: "string \<Rightarrow> witness_table \<Rightarrow> witness_table" where
  "insert_initial origin t =
     (if \<exists>row \<in> set t. wr_origin row = origin then t
      else t @ [\<lparr>wr_origin = origin, wr_size = 0, wr_root_hash = hash_bytes empty_root_hash, wr_checkpoint = []\<rparr>])"

definition get_or_init :: "string \<Rightarrow> (witness_table, error, witnessed_state) st" where
  "get_or_init origin t =
     (case witness_get origin t of
        Inl e \<Rightarrow> (Inl e, t)
      | Inr (Some s) \<Rightarrow> (Inr s, t)
      | Inr None \<Rightarrow>
          let t' = insert_initial origin t
          in (bind_res (witness_get origin t') (ok_or Internal), t'))"

definition matching :: "witnessed_state \<Rightarrow> witness_row \<Rightarrow> bool" where
  "matching expected row \<longleftrightarrow>
     wr_origin row = ws_origin expected \<and> wr_size row = as_i64 (ws_size expected)
     \<and> wr_root_hash row = hash_bytes (ws_root expected)"

definition update_in ::
  "witnessed_state \<Rightarrow> nat \<Rightarrow> sha256_hash \<Rightarrow> string \<Rightarrow> (witness_table, error, bool) st" where
  "update_in expected sz root text t =
     (if sz < ws_size expected \<or> (sz = ws_size expected \<and> root \<noteq> ws_root expected) then (Inl InvalidEntry, t)
      else if i64_max < sz then (Inl InvalidEntry, t)
      else (Inr (length (filter (matching expected) t) = 1),
            map (\<lambda>row. if matching expected row
                       then row\<lparr>wr_size := int sz, wr_root_hash := hash_bytes root, wr_checkpoint := text\<rparr>
                       else row) t))"

definition lock_in :: "witnessed_state \<Rightarrow> (witness_table, error, bool) st" where
  "lock_in expected t =
     (Inr (length (filter (matching expected) t) = 1),
      map (\<lambda>row. if matching expected row then row\<lparr>wr_size := wr_size row\<rparr> else row) t)"

definition witness_list :: "witness_table \<Rightarrow> witnessed_state list res" where
  "witness_list t = map_res row_state t"


subsection \<open>The contract\<close>

text \<open>A list of changes that leads from one value to another without a gap.\<close>

fun chained :: "'v \<Rightarrow> ('v \<times> 'v) list \<Rightarrow> 'v \<Rightarrow> bool" where
  "chained a [] z \<longleftrightarrow> a = z"
| "chained a ((x, y) # cs) z \<longleftrightarrow> x = a \<and> chained y cs z"

lemma chained_append: "chained a (cs @ ds) z \<longleftrightarrow> (\<exists>m. chained a cs m \<and> chained m ds z)"
  by (induction cs arbitrary: a) auto

lemma chained_order:
  assumes "chained a cs z" and "(x, u) \<in> set cs" and "(y, v) \<in> set cs"
  shows "\<exists>ds. set ds \<subseteq> set cs \<and> (chained u ds v \<or> chained v ds u)"
  using assms
proof (induction cs arbitrary: a)
  case (Cons c cs)
  obtain p q where c: "c = (p, q)" by (cases c)
  have tail: "chained q cs z" using Cons.prems(1) by (simp add: c)
  have to: "(x, w) \<in> set cs \<Longrightarrow> \<exists>ds. set ds \<subseteq> set cs \<and> chained q ds w" for x w
  proof -
    assume "(x, w) \<in> set cs"
    then obtain ds es where "cs = ds @ (x, w) # es" by (meson split_list)
    then have "chained q (ds @ [(x, w)]) w" and "set (ds @ [(x, w)]) \<subseteq> set cs"
      using tail by (auto simp: chained_append)
    then show ?thesis by blast
  qed
  have nil: "chained q [] q" by simp
  consider "(x, u) = c" "(y, v) = c" | "(x, u) = c" "(y, v) \<in> set cs" | "(x, u) \<in> set cs" "(y, v) = c"
    | "(x, u) \<in> set cs" "(y, v) \<in> set cs"
    using Cons.prems(2,3) by auto
  then show ?case
  proof cases
    case 1
    then have "u = q" "v = q" using c by simp_all
    then show ?thesis using nil by (metis empty_set empty_subsetI)
  next
    case 2
    then obtain ds where "set ds \<subseteq> set cs" "chained q ds v" using to by blast
    then show ?thesis using 2 c by (intro exI [of _ ds]) auto
  next
    case 3
    then obtain ds where "set ds \<subseteq> set cs" "chained q ds u" using to by blast
    then show ?thesis using 3 c by (intro exI [of _ ds]) auto
  next
    case 4
    then obtain ds where "set ds \<subseteq> set cs" "chained u ds v \<or> chained v ds u" using Cons.IH [OF tail] by blast
    then show ?thesis by (intro exI [of _ ds]) auto
  qed
qed simp

definition changes :: "'k \<Rightarrow> ('k \<times> 'v \<times> 'v) list \<Rightarrow> ('v \<times> 'v) list" where
  "changes k h = map snd (filter (\<lambda>c. fst c = k) h)"

lemma changes_snoc: "changes k (h @ [(j, c)]) = changes k h @ (if j = k then [c] else [])"
  by (simp add: changes_def)

locale cas_table =
  fixes ok :: "'t \<Rightarrow> bool"
    and read :: "'t \<Rightarrow> 'k \<Rightarrow> 'v option"
    and init :: "'k \<Rightarrow> 't \<Rightarrow> 't"
    and first :: 'v
    and cas :: "'k \<Rightarrow> 'v \<Rightarrow> 'v \<Rightarrow> 't \<Rightarrow> bool \<times> 't"
    and valid :: "'v \<Rightarrow> 'v \<Rightarrow> bool"
  assumes init_ok: "ok t \<Longrightarrow> ok (init k t)"
    and init_read: "ok t \<Longrightarrow> read (init k t) = (if read t k = None then (read t)(k \<mapsto> first) else read t)"
    and cas_ok: "ok t \<Longrightarrow> valid old new \<Longrightarrow> ok (snd (cas k old new t))"
    and cas_won: "ok t \<Longrightarrow> valid old new \<Longrightarrow> fst (cas k old new t) \<longleftrightarrow> read t k = Some old"
    and cas_read: "ok t \<Longrightarrow> valid old new \<Longrightarrow>
      read (snd (cas k old new t)) = (if read t k = Some old then (read t)(k \<mapsto> new) else read t)"
begin

text \<open>The history of a key explains its value: a chain of won swaps from the first value.\<close>

definition explained :: "('k \<times> 'v \<times> 'v) list \<Rightarrow> 't \<Rightarrow> bool" where
  "explained h t \<longleftrightarrow> (\<forall>k v. read t k = Some v \<longrightarrow> chained first (changes k h) v) \<and>
     (\<forall>k. read t k = None \<longrightarrow> changes k h = [])"

lemma explained_init: "ok t \<Longrightarrow> explained h t \<Longrightarrow> explained h (init k t)"
  by (simp add: explained_def init_read)

lemma explained_cas:
  assumes "ok t" and "valid old new" and "explained h t"
  shows "explained (if fst (cas k old new t) then h @ [(k, old, new)] else h) (snd (cas k old new t))"
proof (cases "read t k = Some old")
  case True
  then have "chained first (changes k h) old" using assms(3) by (simp add: explained_def)
  then show ?thesis
    using True assms by (simp add: explained_def cas_read cas_won changes_snoc chained_append)
next
  case False
  then show ?thesis using assms by (simp add: explained_def cas_read cas_won)
qed

end


subsection \<open>The table keeps the contract\<close>

definition table_ok :: "witness_table \<Rightarrow> bool" where
  "table_ok t \<longleftrightarrow> distinct (map wr_origin t) \<and>
     (\<forall>row \<in> set t. length (wr_root_hash row) = 32 \<and> 0 \<le> wr_size row \<and> wr_size row \<le> int i64_max)"

definition witnessed :: "witness_table \<Rightarrow> string \<Rightarrow> (nat \<times> sha256_hash) option" where
  "witnessed t origin =
     map_option (\<lambda>row. (nat (wr_size row), hash_from_bytes (wr_root_hash row))) (find (\<lambda>row. wr_origin row = origin) t)"

definition table_cas ::
  "string \<Rightarrow> string \<Rightarrow> nat \<times> sha256_hash \<Rightarrow> (nat \<times> sha256_hash) \<Rightarrow> witness_table \<Rightarrow> bool \<times> witness_table" where
  "table_cas text origin old new t =
     (case update_in \<lparr>ws_origin = origin, ws_size = fst old, ws_root = snd old\<rparr> (fst new) (snd new) text t of
        (Inr b, t') \<Rightarrow> (b, t') | (Inl e, t') \<Rightarrow> (False, t'))"

definition advance_ok :: "nat \<times> sha256_hash \<Rightarrow> nat \<times> sha256_hash \<Rightarrow> bool" where
  "advance_ok old new \<longleftrightarrow> fst old \<le> fst new \<and> (fst old = fst new \<longrightarrow> snd old = snd new) \<and> fst new \<le> i64_max"


lemma find_origin_iff:
  assumes "distinct (map wr_origin t)"
  shows "find (\<lambda>row. wr_origin row = origin) t = Some row \<longleftrightarrow> row \<in> set t \<and> wr_origin row = origin"
  using assms by (induction t) (auto simp: image_iff)

lemma matching_iff:
  assumes "table_ok t" and "row \<in> set t" and "n \<le> i64_max"
  shows "matching \<lparr>ws_origin = origin, ws_size = n, ws_root = r\<rparr> row \<longleftrightarrow>
    wr_origin row = origin \<and> nat (wr_size row) = n \<and> hash_from_bytes (wr_root_hash row) = r"
proof -
  have "length (wr_root_hash row) = 32" and "0 \<le> wr_size row" using assms by (auto simp: table_ok_def)
  moreover from this have "wr_root_hash row = hash_bytes r \<longleftrightarrow> hash_from_bytes (wr_root_hash row) = r"
    using hash_bytes_hash_from_bytes by auto
  ultimately show ?thesis using assms(3) by (auto simp: matching_def as_i64_def)
qed

lemma matching_count:
  assumes "table_ok t" and "n \<le> i64_max"
  shows "length (filter (matching \<lparr>ws_origin = origin, ws_size = n, ws_root = r\<rparr>) t) = 1
    \<longleftrightarrow> witnessed t origin = Some (n, r)"
proof -
  let ?M = "matching \<lparr>ws_origin = origin, ws_size = n, ws_root = r\<rparr>"
  have "distinct t" and dist: "distinct (map wr_origin t)" using assms(1) by (auto simp: table_ok_def distinct_map)
  then have "length (filter ?M t) = card {row \<in> set t. ?M row}"
    by (metis distinct_card distinct_filter set_filter)
  also have "\<dots> = 1 \<longleftrightarrow> (\<exists>row \<in> set t. ?M row)"
  proof
    assume "\<exists>row \<in> set t. ?M row"
    then obtain row where row: "row \<in> set t" "?M row" by blast
    have "{x \<in> set t. ?M x} = {row}"
      using row dist by (auto simp: matching_def distinct_map inj_on_def)
    then show "card {row \<in> set t. ?M row} = 1" by simp
  qed (auto simp: card_1_singleton_iff)
  also have "\<dots> \<longleftrightarrow> witnessed t origin = Some (n, r)"
    using matching_iff [OF assms(1) _ assms(2)] find_origin_iff [OF dist, of origin]
    by (auto simp: witnessed_def)
  finally show ?thesis .
qed


lemma find_map_origin:
  "(\<And>row. wr_origin (f row) = wr_origin row) \<Longrightarrow>
    find (\<lambda>row. wr_origin row = k) (map f t) = map_option f (find (\<lambda>row. wr_origin row = k) t)"
  by (induction t) auto

lemma update_in_valid:
  assumes "advance_ok (n, r) (sz, root)"
  shows "update_in \<lparr>ws_origin = origin, ws_size = n, ws_root = r\<rparr> sz root text t =
    (Inr (fst (table_cas text origin (n, r) (sz, root) t)), snd (table_cas text origin (n, r) (sz, root) t))"
  using assms by (auto simp: update_in_def table_cas_def advance_ok_def)

lemma table_cas_eq:
  assumes "advance_ok (n, r) (sz, root)"
  shows "table_cas text origin (n, r) (sz, root) t =
    (length (filter (matching \<lparr>ws_origin = origin, ws_size = n, ws_root = r\<rparr>) t) = 1,
     map (\<lambda>row. if matching \<lparr>ws_origin = origin, ws_size = n, ws_root = r\<rparr> row
                then row\<lparr>wr_size := int sz, wr_root_hash := hash_bytes root, wr_checkpoint := text\<rparr> else row) t)"
  using assms by (auto simp: update_in_def table_cas_def advance_ok_def)

lemma table_cas_ok:
  assumes "table_ok t" and "advance_ok (n, r) (sz, root)"
  shows "table_ok (snd (table_cas text origin (n, r) (sz, root) t))"
proof -
  let ?f = "\<lambda>row. if matching \<lparr>ws_origin = origin, ws_size = n, ws_root = r\<rparr> row
                then row\<lparr>wr_size := int sz, wr_root_hash := hash_bytes root, wr_checkpoint := text\<rparr> else row"
  have "map wr_origin (map ?f t) = map wr_origin t" by simp
  then show ?thesis
    using assms unfolding table_cas_eq [OF assms(2)] snd_conv table_ok_def
    by (auto simp: advance_ok_def simp del: map_map)
qed

lemma table_cas_read:
  assumes "table_ok t" and "advance_ok (n, r) (sz, root)"
  shows "witnessed (snd (table_cas text origin (n, r) (sz, root) t)) =
    (if witnessed t origin = Some (n, r) then (witnessed t)(origin \<mapsto> (sz, root)) else witnessed t)"
proof
  fix k
  let ?M = "matching \<lparr>ws_origin = origin, ws_size = n, ws_root = r\<rparr>"
  let ?f = "\<lambda>row. if ?M row
                then row\<lparr>wr_size := int sz, wr_root_hash := hash_bytes root, wr_checkpoint := text\<rparr> else row"
  have dist: "distinct (map wr_origin t)" using assms(1) by (simp add: table_ok_def)
  have n: "n \<le> i64_max" using assms(2) by (simp add: advance_ok_def)
  have w: "witnessed (snd (table_cas text origin (n, r) (sz, root) t)) k =
      map_option (\<lambda>row. (nat (wr_size row), hash_from_bytes (wr_root_hash row)))
        (map_option ?f (find (\<lambda>row. wr_origin row = k) t))"
    unfolding table_cas_eq [OF assms(2)] snd_conv witnessed_def by (subst find_map_origin) simp_all
  show "witnessed (snd (table_cas text origin (n, r) (sz, root) t)) k =
    (if witnessed t origin = Some (n, r) then (witnessed t)(origin \<mapsto> (sz, root)) else witnessed t) k"
  proof (cases "find (\<lambda>row. wr_origin row = k) t")
    case None
    then have "witnessed t k = None" by (simp add: witnessed_def)
    then show ?thesis unfolding w using None by auto
  next
    case (Some row)
    then have row: "row \<in> set t" "wr_origin row = k" using find_origin_iff [OF dist] by auto
    have wk: "witnessed t k = Some (nat (wr_size row), hash_from_bytes (wr_root_hash row))"
      using Some by (simp add: witnessed_def)
    have "?M row \<longleftrightarrow> k = origin \<and> witnessed t k = Some (n, r)"
      using matching_iff [OF assms(1) row(1) n] row(2) wk by auto
    then show ?thesis unfolding w Some using wk by auto
  qed
qed

lemma insert_initial_ok: "table_ok t \<Longrightarrow> table_ok (insert_initial origin t)"
  by (auto simp: table_ok_def insert_initial_def)

lemma find_append: "find P (xs @ ys) = (case find P xs of None \<Rightarrow> find P ys | Some x \<Rightarrow> Some x)"
  by (induction xs) auto

lemma insert_initial_read:
  "witnessed (insert_initial origin t) =
    (if witnessed t origin = None then (witnessed t)(origin \<mapsto> (0, empty_root_hash)) else witnessed t)"
proof (cases "\<exists>row \<in> set t. wr_origin row = origin")
  case True
  then show ?thesis by (auto simp: insert_initial_def witnessed_def find_None_iff)
next
  case False
  then have none: "find (\<lambda>row. wr_origin row = origin) t = None" by (auto simp: find_None_iff)
  show ?thesis
    using False none by (auto simp: insert_initial_def witnessed_def find_append fun_eq_iff split: option.splits)
qed

interpretation rows: cas_table table_ok witnessed insert_initial "(0, empty_root_hash)" "table_cas cptext" advance_ok
  for cptext :: string
proof unfold_locales
  fix t k and old new :: "nat \<times> sha256_hash"
  assume ok: "table_ok t" and valid: "advance_ok old new"
  then have n: "fst old \<le> i64_max" by (simp add: advance_ok_def)
  show "table_ok (snd (table_cas cptext k old new t))"
    using table_cas_ok [OF ok] valid by (cases old, cases new) auto
  show "fst (table_cas cptext k old new t) \<longleftrightarrow> witnessed t k = Some old"
    using matching_count [OF ok n] valid table_cas_eq by (cases old, cases new) auto
  show "witnessed (snd (table_cas cptext k old new t)) = (if witnessed t k = Some old then (witnessed t)(k \<mapsto> new) else witnessed t)"
    using table_cas_read [OF ok] valid by (cases old, cases new) auto
qed (simp_all add: insert_initial_ok insert_initial_read)

definition state_at :: "string \<Rightarrow> nat \<times> sha256_hash \<Rightarrow> witnessed_state" where
  "state_at origin v = \<lparr>ws_origin = origin, ws_size = fst v, ws_root = snd v\<rparr>"

lemma row_state_ok:
  assumes "table_ok t" and "row \<in> set t"
  shows "row_state row = Inr (state_at (wr_origin row) (nat (wr_size row), hash_from_bytes (wr_root_hash row)))"
proof -
  have "length (wr_root_hash row) = 32" "0 \<le> wr_size row" "wr_size row \<le> int i64_max"
    using assms by (auto simp: table_ok_def)
  moreover from this have "as_u64 (wr_size row) = nat (wr_size row)" by (simp add: as_u64_def)
  ultimately show ?thesis by (simp add: row_state_def state_at_def try_from_slice_def)
qed

lemma witness_get_eq:
  assumes "table_ok t"
  shows "witness_get origin t = Inr (map_option (state_at origin) (witnessed t origin))"
proof (cases "find (\<lambda>row. wr_origin row = origin) t")
  case (Some row)
  then have "row \<in> set t" "wr_origin row = origin"
    using find_origin_iff [of t] assms by (auto simp: table_ok_def)
  then show ?thesis using row_state_ok [OF assms] Some by (simp add: witness_get_def witnessed_def)
qed (simp add: witness_get_def witnessed_def)

lemma get_or_init_eq:
  assumes "table_ok t"
  shows "get_or_init origin t =
    (Inr (state_at origin (case witnessed t origin of None \<Rightarrow> (0, empty_root_hash) | Some v \<Rightarrow> v)),
     if witnessed t origin = None then insert_initial origin t else t)"
  using witness_get_eq [OF assms] witness_get_eq [OF insert_initial_ok [OF assms]]
  by (auto simp: get_or_init_def insert_initial_read split: option.splits)

end
