(* ===== verification/Witness.thy ===== *)
theory Witness
  imports Witness_Store Consistency
begin

text \<open>
  The witness, \<^verbatim>\<open>src/witness/mod.rs\<close> and \<^verbatim>\<open>src/witness/handlers.rs\<close>: the request format, the
  decision whether to cosign a checkpoint, the HTTP answers, and the witness as a state machine in
  which any number of requests run interleaved, one database statement at a time. Texts of error
  messages are left out. The clock is an argument, \<open>None\<close> before 1970.
\<close>


subsection \<open>Requests\<close>

record add_checkpoint_request =
  rq_old_size :: nat
  rq_proof :: "sha256_hash list"
  rq_checkpoint :: string

definition MAX_PROOF_HASHES :: nat where "MAX_PROOF_HASHES = 64"

fun proof_lines :: "crypto \<Rightarrow> string list \<Rightarrow> sha256_hash list \<Rightarrow> (sha256_hash list \<times> string list) res" where
  "proof_lines cr [] hs = Inr (hs, [])"
| "proof_lines cr (l # ls) hs =
     (if l = [] then Inr (hs, ls)
      else if MAX_PROOF_HASHES \<le> length hs then Inl InvalidEntry
      else bind_res (ok_or InvalidEntry (b64_decode cr l)) (\<lambda>bs.
             if length bs \<noteq> 32 then Inl InvalidEntry
             else proof_lines cr ls (hs @ [hash_from_bytes bs])))"

definition from_ascii :: "crypto \<Rightarrow> string \<Rightarrow> add_checkpoint_request res" where
  "from_ascii cr body =
     (case lines body of
        [] \<Rightarrow> Inl InvalidEntry
      | old_line # rest \<Rightarrow>
          if \<not> starts_with ''old '' old_line then Inl InvalidEntry
          else bind_res (ok_or InvalidEntry (parse_u64 (trim (drop 4 old_line)))) (\<lambda>old_size.
               bind_res (proof_lines cr rest []) (\<lambda>(hs, ls).
                 if join_lines ls = [] then Inl InvalidEntry
                 else Inr \<lparr>rq_old_size = old_size, rq_proof = hs, rq_checkpoint = join_lines ls\<rparr>)))"


subsection \<open>Errors\<close>

datatype witness_error =
    Conflict nat | UnknownLog string | InvalidSignature | InvalidProof | BadRequest | WitnessInternal

fun status_code :: "witness_error \<Rightarrow> nat" where
  "status_code (Conflict _) = 409"
| "status_code (UnknownLog _) = 404"
| "status_code InvalidSignature = 403"
| "status_code InvalidProof = 422"
| "status_code BadRequest = 400"
| "status_code WitnessInternal = 500"


subsection \<open>The decision\<close>

record witness =
  wit_signer :: checkpoint_signer
  wit_logs :: "log_config list"

text \<open>Steps 1 to 4 of \<open>add_checkpoint\<close> read no state.\<close>

definition check_request :: "crypto \<Rightarrow> witness \<Rightarrow> add_checkpoint_request \<Rightarrow> witness_error + cosigned_checkpoint" where
  "check_request cr wit rq =
     bind_res (map_err (\<lambda>_. BadRequest) (from_text cr (rq_checkpoint rq))) (\<lambda>co.
       let origin = cp_origin (co_checkpoint co); new_size = cp_size (co_checkpoint co)
       in case find (\<lambda>l. lc_origin l = origin) (wit_logs wit) of
            None \<Rightarrow> Inl (UnknownLog origin)
          | Some log_config \<Rightarrow>
              bind_res (map_err (\<lambda>_. InvalidSignature) (verify cr log_config co)) (\<lambda>_.
                if i64_max < new_size then Inl BadRequest
                else if new_size < rq_old_size rq then Inl BadRequest
                else Inr co))"

text \<open>Steps 6 and 7, with the state that was read.\<close>

definition decide ::
  "hash_fn \<Rightarrow> witnessed_state \<Rightarrow> add_checkpoint_request \<Rightarrow> checkpoint \<Rightarrow> witness_error + unit" where
  "decide hc state rq cp =
     (let new_size = cp_size cp; new_root = cp_root cp
      in if rq_old_size rq \<noteq> ws_size state then Inl (Conflict (ws_size state))
         else if new_size = 0 \<and> new_root \<noteq> ws_root state then Inl InvalidProof
         else if 0 < ws_size state then
           if new_size < ws_size state then Inl BadRequest
           else if new_size = ws_size state then
             if new_root \<noteq> ws_root state then Inl InvalidProof else Inr ()
           else map_err (\<lambda>_. InvalidProof)
                  (verify_consistency hc (ws_size state) new_size (ws_root state) new_root (rq_proof rq))
         else if rq_proof rq \<noteq> [] then Inl InvalidProof
         else Inr ())"

definition internal_st :: "('s, error, 'a) st \<Rightarrow> ('s, witness_error, 'a) st" where
  "internal_st m s = (case m s of (r, s') \<Rightarrow> (map_err (\<lambda>_. WitnessInternal) r, s'))"

definition add_checkpoint ::
  "crypto \<Rightarrow> hash_fn \<Rightarrow> witness \<Rightarrow> nat option \<Rightarrow> add_checkpoint_request
    \<Rightarrow> (witness_table, witness_error, checkpoint_signature) st" where
  "add_checkpoint cr hc wit now rq =
     bind_st (lift_st (check_request cr wit rq)) (\<lambda>co.
       let cp = co_checkpoint co
       in bind_st (internal_st (get_or_init (cp_origin cp))) (\<lambda>state.
          bind_st (lift_st (decide hc state rq cp)) (\<lambda>_.
          bind_st (internal_st (update_in state (cp_size cp) (cp_root cp) (rq_checkpoint rq))) (\<lambda>updated.
            if \<not> updated then
              bind_st (internal_st (get_or_init (cp_origin cp))) (\<lambda>current.
                lift_st (Inl (Conflict (ws_size current))))
            else lift_st (map_err (\<lambda>_. WitnessInternal) (cosign_now cr (wit_signer wit) now cp))))))"

definition get_state :: "string \<Rightarrow> witness_table \<Rightarrow> witnessed_state option res" where
  "get_state origin t = witness_get origin t"

definition ready :: "witness_table \<Rightarrow> unit res" where
  "ready t = bind_res (witness_list t) (\<lambda>_. Inr ())"


subsection \<open>HTTP answers\<close>

text \<open>A body is an exact text, or a text that starts as given and goes on with a message.\<close>

datatype response_text = Exact string | Message string

record response =
  resp_status :: nat
  resp_type :: "string option"
  resp_body :: response_text

definition CONTENT_TYPE_TLOG_SIZE :: string where
  "CONTENT_TYPE_TLOG_SIZE = ''text/x.tlog.size''"

definition plain_response :: "nat \<Rightarrow> response_text \<Rightarrow> response" where
  "plain_response status body = \<lparr>resp_status = status, resp_type = None, resp_body = body\<rparr>"

fun witness_error_to_response :: "witness_error \<Rightarrow> response" where
  "witness_error_to_response (Conflict n) =
     \<lparr>resp_status = 409, resp_type = Some CONTENT_TYPE_TLOG_SIZE, resp_body = Exact (dec n @ [newline])\<rparr>"
| "witness_error_to_response (UnknownLog origin) = plain_response 404 (Exact (''unknown log: '' @ origin))"
| "witness_error_to_response InvalidSignature = plain_response 403 (Message ''invalid signature: '')"
| "witness_error_to_response InvalidProof = plain_response 422 (Message ''invalid proof: '')"
| "witness_error_to_response BadRequest = plain_response 400 (Message ''bad request: '')"
| "witness_error_to_response WitnessInternal = plain_response 500 (Exact ''internal error'')"

definition handle_add_checkpoint ::
  "crypto \<Rightarrow> hash_fn \<Rightarrow> witness \<Rightarrow> nat option \<Rightarrow> byte list \<Rightarrow> witness_table \<Rightarrow> response \<times> witness_table" where
  "handle_add_checkpoint cr hc wit now body t =
     (if \<not> utf8_ok body then (plain_response 400 (Message ''invalid UTF-8: ''), t)
      else case from_ascii cr (bytes_str body) of
             Inl e \<Rightarrow> (plain_response 400 (Message ''parse error: ''), t)
           | Inr rq \<Rightarrow>
               (case add_checkpoint cr hc wit now rq t of
                  (Inr cosig, t') \<Rightarrow> (plain_response 200 (Exact (to_line cr cosig)), t')
                | (Inl e, t') \<Rightarrow> (witness_error_to_response e, t')))"

definition get_witnessed_checkpoint :: "string \<Rightarrow> witness_table \<Rightarrow> response" where
  "get_witnessed_checkpoint origin t =
     (case get_state origin t of
        Inr (Some _) \<Rightarrow> plain_response 200 (Exact ''checkpoint found'')
      | Inr None \<Rightarrow> plain_response 404 (Exact ''no witnessed checkpoint'')
      | Inl e \<Rightarrow> plain_response 500 (Exact ''internal error''))"

definition handle_ready :: "witness_table \<Rightarrow> response" where
  "handle_ready t =
     (case ready t of
        Inr _ \<Rightarrow> plain_response 200 (Exact ''ready'')
      | Inl e \<Rightarrow> plain_response 500 (Exact ''not ready''))"


subsection \<open>Requests in flight\<close>

text \<open>
  A request after \<open>check_request\<close> is at one of these points. The flag tells whether it is reading
  the state for its decision or, after a lost update, for the conflict it reports.
\<close>

datatype phase =
    Reading bool | Inserting bool | Rereading bool | Deciding witnessed_state
  | Answered "witness_error + checkpoint_signature"

record process =
  pr_request :: add_checkpoint_request
  pr_checkpoint :: checkpoint
  pr_phase :: phase

type_synonym commit = "string \<times> (nat \<times> sha256_hash) \<times> (nat \<times> sha256_hash)"

definition with_state :: "bool \<Rightarrow> witnessed_state \<Rightarrow> phase" where
  "with_state lost state = (if lost then Answered (Inl (Conflict (ws_size state))) else Deciding state)"

fun advance ::
  "crypto \<Rightarrow> hash_fn \<Rightarrow> witness \<Rightarrow> nat option \<Rightarrow> add_checkpoint_request \<Rightarrow> checkpoint \<Rightarrow> phase
    \<Rightarrow> witness_table \<Rightarrow> phase \<times> witness_table" where
  "advance cr hc wit now rq cp (Reading lost) t =
     (case witness_get (cp_origin cp) t of
        Inl e \<Rightarrow> (Answered (Inl WitnessInternal), t)
      | Inr None \<Rightarrow> (Inserting lost, t)
      | Inr (Some state) \<Rightarrow> (with_state lost state, t))"
| "advance cr hc wit now rq cp (Inserting lost) t = (Rereading lost, insert_initial (cp_origin cp) t)"
| "advance cr hc wit now rq cp (Rereading lost) t =
     (case witness_get (cp_origin cp) t of
        Inr (Some state) \<Rightarrow> (with_state lost state, t)
      | _ \<Rightarrow> (Answered (Inl WitnessInternal), t))"
| "advance cr hc wit now rq cp (Deciding state) t =
     (case decide hc state rq cp of
        Inl e \<Rightarrow> (Answered (Inl e), t)
      | Inr _ \<Rightarrow>
          (case update_in state (cp_size cp) (cp_root cp) (rq_checkpoint rq) t of
             (Inl e, t') \<Rightarrow> (Answered (Inl WitnessInternal), t')
           | (Inr True, t') \<Rightarrow>
               (Answered (map_err (\<lambda>_. WitnessInternal) (cosign_now cr (wit_signer wit) now cp)), t')
           | (Inr False, t') \<Rightarrow> (Reading True, t')))"
| "advance cr hc wit now rq cp (Answered r) t = (Answered r, t)"


text \<open>
  The system: the table, the requests that passed \<open>check_request\<close> in the order of their arrival,
  and the history of the updates that changed the table.
\<close>

record witness_system =
  sy_table :: witness_table
  sy_procs :: "process list"
  sy_history :: "commit list"

definition value_of :: "witnessed_state \<Rightarrow> nat \<times> sha256_hash" where
  "value_of state = (ws_size state, ws_root state)"

definition target :: "checkpoint \<Rightarrow> nat \<times> sha256_hash" where
  "target cp = (cp_size cp, cp_root cp)"

definition new_commits :: "hash_fn \<Rightarrow> process \<Rightarrow> witness_table \<Rightarrow> commit list" where
  "new_commits hc p t =
     (case pr_phase p of
        Deciding state \<Rightarrow>
          if decide hc state (pr_request p) (pr_checkpoint p) = Inr ()
             \<and> fst (update_in state (cp_size (pr_checkpoint p)) (cp_root (pr_checkpoint p)) (rq_checkpoint (pr_request p)) t) = Inr True
          then [(cp_origin (pr_checkpoint p), value_of state, target (pr_checkpoint p))] else []
      | _ \<Rightarrow> [])"

fun finished :: "phase \<Rightarrow> bool" where
  "finished (Answered r) = True"
| "finished _ = False"

inductive witness_step :: "crypto \<Rightarrow> hash_fn \<Rightarrow> witness \<Rightarrow> witness_system \<Rightarrow> witness_system \<Rightarrow> bool"
  for cr hc wit where
  arrive: "check_request cr wit rq = Inr co \<Longrightarrow>
    witness_step cr hc wit sy
      (sy\<lparr>sy_procs := sy_procs sy @ [\<lparr>pr_request = rq, pr_checkpoint = co_checkpoint co, pr_phase = Reading False\<rparr>]\<rparr>)"
| progress: "i < length (sy_procs sy) \<Longrightarrow> p = sy_procs sy ! i \<Longrightarrow>
    advance cr hc wit now (pr_request p) (pr_checkpoint p) (pr_phase p) (sy_table sy) = (ph, t) \<Longrightarrow>
    witness_step cr hc wit sy
      \<lparr>sy_table = t, sy_procs = (sy_procs sy)[i := p\<lparr>pr_phase := ph\<rparr>],
       sy_history = sy_history sy @ new_commits hc p (sy_table sy)\<rparr>"
| database_error: "i < length (sy_procs sy) \<Longrightarrow> p = sy_procs sy ! i \<Longrightarrow> \<not> finished (pr_phase p) \<Longrightarrow>
    witness_step cr hc wit sy
      (sy\<lparr>sy_procs := (sy_procs sy)[i := p\<lparr>pr_phase := Answered (Inl WitnessInternal)\<rparr>]\<rparr>)"

inductive_cases witness_stepE: "witness_step cr hc wit sy sy'"

definition witness_start :: witness_system where
  "witness_start = \<lparr>sy_table = [], sy_procs = [], sy_history = []\<rparr>"

abbreviation witness_reachable :: "crypto \<Rightarrow> hash_fn \<Rightarrow> witness \<Rightarrow> witness_system \<Rightarrow> bool" where
  "witness_reachable cr hc wit sy \<equiv> (witness_step cr hc wit)\<^sup>*\<^sup>* witness_start sy"

text \<open>A cosignature on a checkpoint was returned by some request.\<close>

definition cosigned :: "witness_system \<Rightarrow> checkpoint \<Rightarrow> bool" where
  "cosigned sy cp \<longleftrightarrow> (\<exists>p \<in> set (sy_procs sy). pr_checkpoint p = cp \<and> (\<exists>sg. pr_phase p = Answered (Inr sg)))"


subsection \<open>Links between witnessed states\<close>

definition link :: "hash_fn \<Rightarrow> sha256_hash list set \<Rightarrow> nat \<times> sha256_hash \<Rightarrow> nat \<times> sha256_hash \<Rightarrow> bool" where
  "link hc pfs old new \<longleftrightarrow> fst new \<le> i64_max \<and>
     (old = new \<or> fst old = 0 \<and> 0 < fst new \<or>
      0 < fst old \<and> fst old < fst new \<and>
        (\<exists>pf \<in> pfs. verify_consistency hc (fst old) (fst new) (snd old) (snd new) pf = Inr ()))"

definition link_calls :: "hash_fn \<Rightarrow> sha256_hash list set \<Rightarrow> nat \<times> sha256_hash \<Rightarrow> nat \<times> sha256_hash
    \<Rightarrow> (sha256_hash \<times> sha256_hash) set" where
  "link_calls hc pfs old new = (\<Union>pf \<in> pfs. verify_calls hc (fst old) (fst new) (snd old) pf)"

lemma link_mono: "link hc pfs old new \<Longrightarrow> pfs \<subseteq> pfs' \<Longrightarrow> link hc pfs' old new"
  by (auto simp: link_def)

lemma decide_link:
  assumes "decide hc state rq cp = Inr ()" and "cp_size cp \<le> i64_max"
  shows "link hc {rq_proof rq} (value_of state) (target cp) \<and> advance_ok (value_of state) (target cp)"
  using assms by (auto simp: decide_def link_def value_of_def target_def advance_ok_def Let_def
      map_err_Inr_iff split: if_splits)

text \<open>The end of a chain of links fixes its beginning.\<close>

lemma chain_back:
  assumes "chained a cs z" and "\<forall>(x, y) \<in> set cs. link hc pfs x y"
  shows "fst a \<le> fst z \<and> (fst a = fst z \<longrightarrow> snd a = snd z)"
  using assms
proof (induction cs arbitrary: a)
  case (Cons c cs)
  obtain y where "c = (a, y)" and "chained y cs z" using Cons.prems(1) by (cases c) auto
  with Cons have "fst y \<le> fst z \<and> (fst y = fst z \<longrightarrow> snd y = snd z)" and "link hc pfs a y" by auto
  then show ?case by (auto simp: link_def)
qed simp

lemma chain_root:
  assumes "chained a cs z" and "\<forall>(x, y) \<in> set cs. link hc pfs x y \<and> link_calls hc pfs x y \<subseteq> A"
    and "length E = fst z" and "snd z = mth hc e E" and "mth_calls hc e E \<subseteq> A" and "collision_free hc A"
    and "length E \<le> u64_max" and "0 < fst a"
  shows "snd a = mth hc e (take (fst a) E) \<and> mth_calls hc e (take (fst a) E) \<subseteq> A"
  using assms(1,2,8)
proof (induction cs arbitrary: a)
  case Nil
  then show ?case using assms(3-5) by simp
next
  case (Cons c cs)
  obtain y where c: "c = (a, y)" and rest: "chained y cs z" using Cons.prems(1) by (cases c) auto
  have l: "link hc pfs a y" and lc: "link_calls hc pfs a y \<subseteq> A" using Cons.prems(2) by (auto simp: c)
  have links: "\<forall>(x, y) \<in> set cs. link hc pfs x y \<and> link_calls hc pfs x y \<subseteq> A" using Cons.prems(2) by auto
  have "0 < fst y" using l Cons.prems(3) by (auto simp: link_def)
  note IH = Cons.IH [OF rest links this]
  have y: "fst y \<le> length E" using chain_back [OF rest] links assms(3) by fastforce
  show ?case
  proof (cases "a = y")
    case False
    then obtain pf where pf: "pf \<in> pfs" "verify_consistency hc (fst a) (fst y) (snd a) (snd y) pf = Inr ()" "fst a \<le> fst y"
      using l Cons.prems(3) by (auto simp: link_def)
    have calls: "verify_calls hc (fst a) (fst y) (snd a) pf \<subseteq> A" using lc pf(1) by (auto simp: link_calls_def)
    have "snd a = mth hc e (take (fst a) (take (fst y) E)) \<and> mth_calls hc e (take (fst a) (take (fst y) E)) \<subseteq> A"
      using pf(2) IH calls y assms(6,7) Cons.prems(3)
      by (intro consistency_old_root [where pf = pf]) simp_all
    then show ?thesis using pf(3) by (simp add: min_absorb1)
  qed (use IH in simp)
qed


subsection \<open>The invariant\<close>

definition proofs :: "witness_system \<Rightarrow> sha256_hash list set" where
  "proofs sy = (\<lambda>p. rq_proof (pr_request p)) ` set (sy_procs sy)"

definition process_ok :: "crypto \<Rightarrow> witness \<Rightarrow> commit list \<Rightarrow> process \<Rightarrow> bool" where
  "process_ok cr wit h p \<longleftrightarrow>
     (\<exists>co. check_request cr wit (pr_request p) = Inr co \<and> co_checkpoint co = pr_checkpoint p) \<and>
     (case pr_phase p of
        Deciding state \<Rightarrow> ws_origin state = cp_origin (pr_checkpoint p)
      | Answered (Inr sg) \<Rightarrow>
          (\<exists>old. (cp_origin (pr_checkpoint p), old, target (pr_checkpoint p)) \<in> set h) \<and>
          (\<exists>ts. sg = cosign_v1 cr (wit_signer wit) (pr_checkpoint p) ts)
      | _ \<Rightarrow> True)"

definition system_ok :: "crypto \<Rightarrow> hash_fn \<Rightarrow> witness \<Rightarrow> witness_system \<Rightarrow> bool" where
  "system_ok cr hc wit sy \<longleftrightarrow>
     table_ok (sy_table sy) \<and> rows.explained (sy_history sy) (sy_table sy) \<and>
     (\<forall>(origin, old, new) \<in> set (sy_history sy). link hc (proofs sy) old new) \<and>
     (\<forall>p \<in> set (sy_procs sy). process_ok cr wit (sy_history sy) p)"

lemma check_request_ok:
  assumes "check_request cr wit rq = Inr co"
  shows "from_text cr (rq_checkpoint rq) = Inr co" and "cp_size (co_checkpoint co) \<le> i64_max"
    and "rq_old_size rq \<le> cp_size (co_checkpoint co)"
    and "\<exists>l \<in> set (wit_logs wit). lc_origin l = cp_origin (co_checkpoint co) \<and> verify cr l co = Inr ()"
proof -
  obtain l where l: "find (\<lambda>l. lc_origin l = cp_origin (co_checkpoint co)) (wit_logs wit) = Some l"
    and "verify cr l co = Inr ()" and *: "from_text cr (rq_checkpoint rq) = Inr co"
      "\<not> i64_max < cp_size (co_checkpoint co)" "\<not> cp_size (co_checkpoint co) < rq_old_size rq"
  proof -
    obtain co' where co': "from_text cr (rq_checkpoint rq) = Inr co'"
      using assms by (cases "from_text cr (rq_checkpoint rq)") (simp_all add: check_request_def)
    obtain l where l: "find (\<lambda>l. lc_origin l = cp_origin (co_checkpoint co')) (wit_logs wit) = Some l"
      using assms co' by (cases "find (\<lambda>l. lc_origin l = cp_origin (co_checkpoint co')) (wit_logs wit)")
        (simp_all add: check_request_def Let_def)
    have v: "verify cr l co' = Inr ()"
      using assms co' l by (cases "verify cr l co'") (simp_all add: check_request_def Let_def)
    have "co' = co" using assms by (simp add: check_request_def Let_def co' l v split: if_splits)
    then show ?thesis
      using that l v co' assms by (simp add: check_request_def Let_def split: if_splits)
  qed
  then show "from_text cr (rq_checkpoint rq) = Inr co" and "cp_size (co_checkpoint co) \<le> i64_max"
    and "rq_old_size rq \<le> cp_size (co_checkpoint co)" by simp_all
  show "\<exists>l \<in> set (wit_logs wit). lc_origin l = cp_origin (co_checkpoint co) \<and> verify cr l co = Inr ()"
    using l \<open>verify cr l co = Inr ()\<close> by (auto simp: find_Some_iff)
qed

lemma update_in_cas:
  assumes "ws_origin state = cp_origin cp" and "advance_ok (value_of state) (target cp)"
  shows "update_in state (cp_size cp) (cp_root cp) cptext t =
    (Inr (fst (table_cas cptext (cp_origin cp) (value_of state) (target cp) t)),
     snd (table_cas cptext (cp_origin cp) (value_of state) (target cp) t))"
proof -
  have "state = \<lparr>ws_origin = cp_origin cp, ws_size = ws_size state, ws_root = ws_root state\<rparr>"
    using assms(1) by simp
  then show ?thesis
    using update_in_valid [of "ws_size state" "ws_root state" "cp_size cp" "cp_root cp" "cp_origin cp" cptext t] assms(2)
    unfolding value_of_def target_def by metis
qed

lemma advance_deciding:
  assumes "process_ok cr wit h p" and "pr_phase p = Deciding state"
    and "decide hc state (pr_request p) (pr_checkpoint p) = Inr ()"
  shows "let c = table_cas (rq_checkpoint (pr_request p)) (cp_origin (pr_checkpoint p)) (value_of state) (target (pr_checkpoint p)) t
    in advance cr hc wit now (pr_request p) (pr_checkpoint p) (pr_phase p) t =
        (if fst c then Answered (map_err (\<lambda>_. WitnessInternal) (cosign_now cr (wit_signer wit) now (pr_checkpoint p)))
         else Reading True, snd c)
     \<and> new_commits hc p t = (if fst c then [(cp_origin (pr_checkpoint p), value_of state, target (pr_checkpoint p))] else [])
     \<and> advance_ok (value_of state) (target (pr_checkpoint p))
     \<and> link hc {rq_proof (pr_request p)} (value_of state) (target (pr_checkpoint p))"
proof -
  have origin: "ws_origin state = cp_origin (pr_checkpoint p)" and "cp_size (pr_checkpoint p) \<le> i64_max"
    using assms(1,2) unfolding process_ok_def by (simp, metis check_request_ok(2))
  then have ok: "link hc {rq_proof (pr_request p)} (value_of state) (target (pr_checkpoint p))"
      "advance_ok (value_of state) (target (pr_checkpoint p))"
    using decide_link [OF assms(3)] by simp_all
  note u = update_in_cas [OF origin ok(2)]
  let ?c = "table_cas (rq_checkpoint (pr_request p)) (cp_origin (pr_checkpoint p)) (value_of state) (target (pr_checkpoint p)) t"
  show ?thesis using assms(2,3) ok by (cases ?c; cases "fst ?c") (auto simp: Let_def u new_commits_def)
qed

lemma advance_keeps:
  assumes p: "process_ok cr wit h p" and ok: "table_ok t" and ex: "rows.explained h t"
    and adv: "advance cr hc wit now (pr_request p) (pr_checkpoint p) (pr_phase p) t = (ph, t')"
  shows "table_ok t' \<and> rows.explained (h @ new_commits hc p t) t'
    \<and> (\<forall>(origin, old, new) \<in> set (new_commits hc p t). link hc {rq_proof (pr_request p)} old new)
    \<and> process_ok cr wit (h @ new_commits hc p t) (p\<lparr>pr_phase := ph\<rparr>)"
proof (cases "\<exists>state. pr_phase p = Deciding state \<and> decide hc state (pr_request p) (pr_checkpoint p) = Inr ()")
  case True
  then obtain state where ph: "pr_phase p = Deciding state" and d: "decide hc state (pr_request p) (pr_checkpoint p) = Inr ()"
    by blast
  let ?c = "table_cas (rq_checkpoint (pr_request p)) (cp_origin (pr_checkpoint p)) (value_of state) (target (pr_checkpoint p)) t"
  note a = advance_deciding [OF p ph d, of t now, unfolded Let_def]
  have v: "advance_ok (value_of state) (target (pr_checkpoint p))" using a by simp
  have t': "t' = snd ?c" and ph': "ph = (if fst ?c then Answered (map_err (\<lambda>_. WitnessInternal) (cosign_now cr (wit_signer wit) now (pr_checkpoint p))) else Reading True)"
    using a adv by simp_all
  have "process_ok cr wit (h @ new_commits hc p t) (p\<lparr>pr_phase := ph\<rparr>)"
    using p a unfolding ph' by (cases now; cases "value_of state") (auto simp: process_ok_def cosign_now_def)
  then show ?thesis
    using rows.cas_ok [OF ok v] a
      rows.explained_cas [OF ok v ex, of "rq_checkpoint (pr_request p)" "cp_origin (pr_checkpoint p)"]
    unfolding t' by auto
next
  case False
  have none: "new_commits hc p t = []" using False by (auto simp: new_commits_def split: phase.splits)
  have cases: "(t' = t \<or> t' = insert_initial (cp_origin (pr_checkpoint p)) t) \<and> process_ok cr wit h (p\<lparr>pr_phase := ph\<rparr>)"
  proof (cases "pr_phase p")
    case (Deciding state)
    then obtain e where "decide hc state (pr_request p) (pr_checkpoint p) = Inl e"
      using False by (cases "decide hc state (pr_request p) (pr_checkpoint p)") auto
    then show ?thesis using adv p Deciding by (auto simp: process_ok_def)
  next
    case (Answered r)
    then show ?thesis using adv p by auto
  qed (use adv p witness_get_eq [OF ok, of "cp_origin (pr_checkpoint p)"]
      in \<open>auto simp: process_ok_def with_state_def state_at_def split: option.splits if_splits\<close>)
  then show ?thesis
    using ok ex rows.explained_init [OF ok ex] insert_initial_ok [OF ok] none by auto
qed


lemma process_ok_mono: "process_ok cr wit h p \<Longrightarrow> process_ok cr wit (h @ cs) p"
  by (auto simp: process_ok_def split: phase.splits sum.splits)

lemma process_ok_error: "process_ok cr wit h p \<Longrightarrow> process_ok cr wit h (p\<lparr>pr_phase := Answered (Inl e)\<rparr>)"
  by (auto simp: process_ok_def)

lemma proofs_update:
  assumes "i < length ps" and "p = ps ! i"
  shows "(\<lambda>p. rq_proof (pr_request p)) ` set (ps[i := p\<lparr>pr_phase := ph\<rparr>]) = (\<lambda>p. rq_proof (pr_request p)) ` set ps"
proof -
  have "map (\<lambda>p. rq_proof (pr_request p)) (ps[i := p\<lparr>pr_phase := ph\<rparr>]) = map (\<lambda>p. rq_proof (pr_request p)) ps"
    using assms by (simp add: map_update list_update_same_conv)
  then show ?thesis by (metis list.set_map)
qed

lemma system_ok_step:
  assumes "witness_step cr hc wit sy sy'" and "system_ok cr hc wit sy"
  shows "system_ok cr hc wit sy'"
  using assms(1)
proof cases
  case (arrive rq co)
  have "process_ok cr wit (sy_history sy) \<lparr>pr_request = rq, pr_checkpoint = co_checkpoint co, pr_phase = Reading False\<rparr>"
    using arrive by (simp add: process_ok_def)
  moreover have "proofs sy \<subseteq> proofs sy'" by (auto simp: arrive proofs_def)
  ultimately show ?thesis
    using assms(2) link_mono by (fastforce simp: system_ok_def arrive)
next
  case (progress i p now ph t)
  have mem: "p \<in> set (sy_procs sy)" using progress by simp
  have p: "process_ok cr wit (sy_history sy) p" and ok: "table_ok (sy_table sy)" and ex: "rows.explained (sy_history sy) (sy_table sy)"
    using assms(2) mem by (simp_all add: system_ok_def)
  note k = advance_keeps [OF p ok ex progress(4)]
  have pf: "proofs sy' = proofs sy"
    using proofs_update [OF progress(2,3)] by (simp add: progress(1) proofs_def)
  have "{rq_proof (pr_request p)} \<subseteq> proofs sy" using mem by (auto simp: proofs_def)
  then have new: "\<forall>(origin, old, new) \<in> set (new_commits hc p (sy_table sy)). link hc (proofs sy) old new"
    using k link_mono by fastforce
  have "\<forall>q \<in> set (sy_procs sy). process_ok cr wit (sy_history sy) q" using assms(2) by (simp add: system_ok_def)
  then have "\<forall>q \<in> insert (p\<lparr>pr_phase := ph\<rparr>) (set (sy_procs sy)). process_ok cr wit (sy_history sy @ new_commits hc p (sy_table sy)) q"
    using k process_ok_mono by blast
  then have "\<forall>q \<in> set ((sy_procs sy)[i := p\<lparr>pr_phase := ph\<rparr>]). process_ok cr wit (sy_history sy @ new_commits hc p (sy_table sy)) q"
    using set_update_subset_insert [of "sy_procs sy" i] by blast
  then show ?thesis
    using k new assms(2) pf unfolding system_ok_def by (auto simp: progress(1))
next
  case (database_error i p)
  have mem: "p \<in> set (sy_procs sy)" using database_error by simp
  have pf: "proofs sy' = proofs sy"
    using proofs_update [OF database_error(2,3)] by (simp add: database_error(1) proofs_def)
  have "\<forall>q \<in> set (sy_procs sy). process_ok cr wit (sy_history sy) q" using assms(2) by (simp add: system_ok_def)
  then have "\<forall>q \<in> insert (p\<lparr>pr_phase := Answered (Inl WitnessInternal)\<rparr>) (set (sy_procs sy)). process_ok cr wit (sy_history sy) q"
    using mem process_ok_error by blast
  then have "\<forall>q \<in> set (sy_procs sy'). process_ok cr wit (sy_history sy) q"
    using set_update_subset_insert [of "sy_procs sy" i] unfolding database_error(1) by auto
  then show ?thesis using assms(2) pf by (simp add: system_ok_def database_error(1))
qed

lemma system_ok_reachable:
  assumes "witness_reachable cr hc wit sy"
  shows "system_ok cr hc wit sy"
  using assms
proof (induction rule: rtranclp_induct)
  case base
  show ?case by (simp add: system_ok_def witness_start_def table_ok_def rows.explained_def witnessed_def changes_def)
qed (rule system_ok_step)

lemma cosigned_history:
  assumes "system_ok cr hc wit sy" and "cosigned sy cp"
  shows "\<exists>old. (old, target cp) \<in> set (changes (cp_origin cp) (sy_history sy))"
    and "\<exists>rq co. check_request cr wit rq = Inr co \<and> co_checkpoint co = cp"
proof -
  obtain p sg where p: "process_ok cr wit (sy_history sy) p" "pr_checkpoint p = cp" "pr_phase p = Answered (Inr sg)"
    using assms by (auto simp: cosigned_def system_ok_def)
  then obtain old where "(cp_origin cp, old, target cp) \<in> set (sy_history sy)" by (auto simp: process_ok_def)
  then show "\<exists>old. (old, target cp) \<in> set (changes (cp_origin cp) (sy_history sy))"
    by (intro exI [of _ old]) (force simp: changes_def)
  show "\<exists>rq co. check_request cr wit rq = Inr co \<and> co_checkpoint co = cp"
    using p by (auto simp: process_ok_def)
qed

lemma changes_linked:
  assumes "system_ok cr hc wit sy"
  shows "\<forall>(x, y) \<in> set (changes origin (sy_history sy)). link hc (proofs sy) x y"
  using assms by (fastforce simp: system_ok_def changes_def)

lemma changes_chained:
  assumes "system_ok cr hc wit sy" and "(x, u) \<in> set (changes origin (sy_history sy))"
  shows "\<exists>v. witnessed (sy_table sy) origin = Some v \<and> chained (0, empty_root_hash) (changes origin (sy_history sy)) v"
  using assms by (cases "witnessed (sy_table sy) origin") (auto simp: system_ok_def rows.explained_def)

text \<open>The pairs hashed when the proofs of the requests are checked for the recorded updates.\<close>

definition proof_calls :: "hash_fn \<Rightarrow> witness_system \<Rightarrow> (sha256_hash \<times> sha256_hash) set" where
  "proof_calls hc sy = (\<Union>(origin, old, new) \<in> set (sy_history sy). link_calls hc (proofs sy) old new)"

lemma changes_calls:
  "(x, y) \<in> set (changes origin (sy_history sy)) \<Longrightarrow> link_calls hc (proofs sy) x y \<subseteq> proof_calls hc sy"
  by (fastforce simp: proof_calls_def changes_def)

lemma cosigned_prefix:
  assumes ok: "system_ok cr hc wit sy" and a: "cosigned sy a" and b: "cosigned sy b"
    and origin: "cp_origin a = cp_origin b" and le: "cp_size a \<le> cp_size b"
    and E: "length E = cp_size b" "cp_root b = mth hc empty_root_hash E"
    and cf: "collision_free hc (mth_calls hc empty_root_hash E \<union> proof_calls hc sy)"
  shows "cp_root a = mth hc empty_root_hash (take (cp_size a) E)"
proof -
  let ?cs = "changes (cp_origin b) (sy_history sy)" and ?A = "mth_calls hc empty_root_hash E \<union> proof_calls hc sy"
  obtain x y where x: "(x, target a) \<in> set ?cs" and y: "(y, target b) \<in> set ?cs"
    using cosigned_history(1) [OF ok a] cosigned_history(1) [OF ok b] origin by auto
  obtain v where v: "chained (0, empty_root_hash) ?cs v" using changes_chained [OF ok x] by blast
  have links: "\<forall>(x, y) \<in> set ?cs. link hc (proofs sy) x y \<and> link_calls hc (proofs sy) x y \<subseteq> ?A"
    using changes_linked [OF ok] changes_calls by fastforce
  obtain ds where ds: "set ds \<subseteq> set ?cs" and order: "chained (target a) ds (target b) \<or> chained (target b) ds (target a)"
    using chained_order [OF v x y] by blast
  have dl: "\<forall>(x, y) \<in> set ds. link hc (proofs sy) x y \<and> link_calls hc (proofs sy) x y \<subseteq> ?A" using ds links by blast
  then have dl': "\<forall>(x, y) \<in> set ds. link hc (proofs sy) x y" by auto
  have size: "length E \<le> u64_max"
    using links y E(1) by (auto simp: link_def target_def)
  have eq: "cp_size a = cp_size b \<Longrightarrow> cp_root a = cp_root b"
    using order chain_back [OF _ dl', of "target a" "target b"] chain_back [OF _ dl', of "target b" "target a"]
    by (auto simp: target_def)
  consider (zero) "cp_size a = 0" | (equal) "cp_size a = cp_size b" | (less) "0 < cp_size a" "cp_size a < cp_size b"
    using le by linarith
  then show ?thesis
  proof cases
    case zero
    obtain ys zs where "?cs = ys @ (x, target a) # zs" using x by (meson split_list)
    then have "chained (0, empty_root_hash) (ys @ [(x, target a)]) (target a)" and sub: "set (ys @ [(x, target a)]) \<subseteq> set ?cs"
      using v by (auto simp: chained_append)
    moreover have "\<forall>(x, y) \<in> set (ys @ [(x, target a)]). link hc (proofs sy) x y" using sub links by auto
    ultimately have "cp_root a = empty_root_hash" using chain_back zero by (fastforce simp: target_def)
    then show ?thesis using zero by simp
  next
    case equal
    then show ?thesis using eq E by simp
  next
    case less
    then have "chained (target a) ds (target b)"
      using order chain_back [OF _ dl'] by (fastforce simp: target_def)
    then show ?thesis
      using chain_root [OF _ dl, of "target a" "target b" E empty_root_hash] E cf size less by (simp add: target_def)
  qed
qed

lemma cosigned_below:
  assumes ok: "system_ok cr hc wit sy" and a: "cosigned sy a"
  shows "\<exists>n r. witnessed (sy_table sy) (cp_origin a) = Some (n, r) \<and> cp_size a \<le> n \<and> (cp_size a = n \<longrightarrow> cp_root a = r)"
proof -
  let ?cs = "changes (cp_origin a) (sy_history sy)"
  obtain x where x: "(x, target a) \<in> set ?cs" using cosigned_history(1) [OF ok a] by blast
  obtain v where w: "witnessed (sy_table sy) (cp_origin a) = Some v" and v: "chained (0, empty_root_hash) ?cs v"
    using changes_chained [OF ok x] by blast
  obtain ys zs where cs: "?cs = ys @ (x, target a) # zs" using x by (meson split_list)
  then have "chained (target a) zs v" using v by (auto simp: chained_append)
  moreover have "\<forall>(x, y) \<in> set zs. link hc (proofs sy) x y" using changes_linked [OF ok, of "cp_origin a"] cs by auto
  ultimately have "fst (target a) \<le> fst v \<and> (fst (target a) = fst v \<longrightarrow> snd (target a) = snd v)" by (rule chain_back)
  then show ?thesis using w by (cases v) (auto simp: target_def)
qed


subsection \<open>A request that runs alone\<close>

definition current :: "witness_table \<Rightarrow> string \<Rightarrow> nat \<times> sha256_hash" where
  "current t origin = (case witnessed t origin of None \<Rightarrow> (0, empty_root_hash) | Some v \<Rightarrow> v)"

definition with_row :: "string \<Rightarrow> witness_table \<Rightarrow> witness_table" where
  "with_row origin t = (if witnessed t origin = None then insert_initial origin t else t)"

lemma with_row_facts:
  assumes "table_ok t"
  shows "table_ok (with_row origin t)" and "witnessed (with_row origin t) origin = Some (current t origin)"
    and "k \<noteq> origin \<Longrightarrow> witnessed (with_row origin t) k = witnessed t k"
  using assms by (auto simp: with_row_def current_def insert_initial_ok insert_initial_read split: option.splits)

lemma get_or_init_row: "table_ok t \<Longrightarrow> get_or_init origin t = (Inr (state_at origin (current t origin)), with_row origin t)"
  by (simp add: get_or_init_eq current_def with_row_def)

lemma state_at_facts [simp]: "ws_origin (state_at origin v) = origin" "value_of (state_at origin v) = v"
  by (simp_all add: state_at_def value_of_def)

lemma win_alone:
  assumes "table_ok t" and "decide hc (state_at (cp_origin cp) (current t (cp_origin cp))) rq cp = Inr ()" and "cp_size cp \<le> i64_max"
  obtains t' where "update_in (state_at (cp_origin cp) (current t (cp_origin cp))) (cp_size cp) (cp_root cp) (rq_checkpoint rq) (with_row (cp_origin cp) t) = (Inr True, t')"
    and "table_ok t'" and "witnessed t' = (witnessed t)(cp_origin cp \<mapsto> target cp)"
proof -
  let ?v = "current t (cp_origin cp)" and ?t = "with_row (cp_origin cp) t"
  let ?c = "table_cas (rq_checkpoint rq) (cp_origin cp) ?v (target cp) ?t"
  have adv: "advance_ok ?v (target cp)" using decide_link [OF assms(2,3)] by simp
  note ok = with_row_facts(1) [OF assms(1)] and cur = with_row_facts(2) [OF assms(1)]
  have "fst ?c" using rows.cas_won [OF ok adv] cur by blast
  moreover have "witnessed (snd ?c) = (witnessed t)(cp_origin cp \<mapsto> target cp)"
    using rows.cas_read [OF ok adv, of "rq_checkpoint rq" "cp_origin cp"] cur with_row_facts(3) [OF assms(1)]
    by (auto simp: fun_eq_iff)
  ultimately show thesis
    using that update_in_cas [of "state_at (cp_origin cp) ?v" cp "rq_checkpoint rq" ?t] adv rows.cas_ok [OF ok adv] by simp
qed

lemma add_checkpoint_alone:
  assumes "table_ok t" and "check_request cr wit rq = Inr co" and "cp = co_checkpoint co"
    and "decide hc (state_at (cp_origin cp) (current t (cp_origin cp))) rq cp = Inr ()"
  shows "\<exists>t'. add_checkpoint cr hc wit now rq t = (map_err (\<lambda>_. WitnessInternal) (cosign_now cr (wit_signer wit) now cp), t')
    \<and> table_ok t' \<and> witnessed t' = (witnessed t)(cp_origin cp \<mapsto> target cp)"
proof -
  have "cp_size cp \<le> i64_max" using check_request_ok(2) [OF assms(2)] assms(3) by simp
  from win_alone [OF assms(1,4) this] obtain t' where
    "update_in (state_at (cp_origin cp) (current t (cp_origin cp))) (cp_size cp) (cp_root cp) (rq_checkpoint rq) (with_row (cp_origin cp) t) = (Inr True, t')"
    "table_ok t'" "witnessed t' = (witnessed t)(cp_origin cp \<mapsto> target cp)" .
  then show ?thesis
    using assms(4) by (simp add: add_checkpoint_def lift_st_def bind_st_def assms(2) internal_st_def
        get_or_init_row [OF assms(1)] Let_def flip: assms(3))
qed

lemma add_checkpoint_refused:
  assumes "table_ok t" and "check_request cr wit rq = Inr co" and "cp = co_checkpoint co"
    and "decide hc (state_at (cp_origin cp) (current t (cp_origin cp))) rq cp = Inl e"
  shows "add_checkpoint cr hc wit now rq t = (Inl e, with_row (cp_origin cp) t)"
  using assms(4) by (simp add: add_checkpoint_def lift_st_def bind_st_def assms(2) internal_st_def
      get_or_init_row [OF assms(1)] Let_def flip: assms(3))

lemma honest_request:
  assumes "table_ok t" and "check_request cr wit rq = Inr co" and "m \<le> length D"
    and "co_checkpoint co = \<lparr>cp_origin = origin, cp_size = length D, cp_root = mth hc empty_root_hash D\<rparr>"
    and "current t origin = (m, mth hc empty_root_hash (take m D))"
    and "rq_old_size rq = m" and "rq_proof rq = rfc_proof hc empty_root_hash m D"
  shows "\<exists>t'. add_checkpoint cr hc wit (Some ts) rq t = (Inr (cosign_v1 cr (wit_signer wit) (co_checkpoint co) ts), t')
     \<and> table_ok t' \<and> witnessed t' = (witnessed t)(origin \<mapsto> (length D, mth hc empty_root_hash D))"
proof -
  have len: "length D \<le> 2 ^ 63" using check_request_ok(2) [OF assms(2)] assms(4) by simp
  have v: "verify_consistency hc m (length D) (mth hc empty_root_hash (take m D)) (mth hc empty_root_hash D) (rq_proof rq) = Inr ()"
    using verify_rfc_proof [where m = m and D = D and hc = hc and e = empty_root_hash] assms(3,7) len by simp
  have "decide hc (state_at origin (current t origin)) rq (co_checkpoint co) = Inr ()"
  proof (cases "m = 0")
    case True
    then have "rq_proof rq = []" using v by (simp add: verify_consistency_def split: if_splits)
    then show ?thesis using True assms(4-6) by (simp add: decide_def state_at_def Let_def)
  next
    case False
    then show ?thesis using v assms(3-6) by (auto simp: decide_def state_at_def Let_def)
  qed
  then show ?thesis
    using add_checkpoint_alone [OF assms(1,2) refl, of hc "Some ts"] assms(4) by (simp add: cosign_now_def target_def)
qed

definition advance_pair ::
  "crypto \<Rightarrow> hash_fn \<Rightarrow> witness \<Rightarrow> nat option \<Rightarrow> add_checkpoint_request \<Rightarrow> checkpoint
    \<Rightarrow> phase \<times> witness_table \<Rightarrow> phase \<times> witness_table" where
  "advance_pair cr hc wit now rq cp = (\<lambda>(ph, t). advance cr hc wit now rq cp ph t)"

lemma advance_to_deciding:
  assumes "table_ok t"
  shows "\<exists>k \<le> 3. (advance_pair cr hc wit now rq cp ^^ k) (Reading False, t) =
    (Deciding (state_at (cp_origin cp) (current t (cp_origin cp))), with_row (cp_origin cp) t)"
proof (cases "witnessed t (cp_origin cp)")
  case None
  then have "(advance_pair cr hc wit now rq cp ^^ 3) (Reading False, t) =
      (Deciding (state_at (cp_origin cp) (current t (cp_origin cp))), with_row (cp_origin cp) t)"
    using witness_get_eq [OF assms] witness_get_eq [OF insert_initial_ok [OF assms]]
    by (simp add: numeral_3_eq_3 advance_pair_def insert_initial_read with_state_def current_def with_row_def)
  then show ?thesis by blast
next
  case (Some v)
  then have "(advance_pair cr hc wit now rq cp ^^ 1) (Reading False, t) =
      (Deciding (state_at (cp_origin cp) (current t (cp_origin cp))), with_row (cp_origin cp) t)"
    using witness_get_eq [OF assms] by (simp add: advance_pair_def with_state_def current_def with_row_def)
  then show ?thesis by (intro exI [of _ 1]) simp
qed

lemma add_checkpoint_process:
  assumes "table_ok t" and "check_request cr wit rq = Inr co" and "cp = co_checkpoint co"
  shows "(advance_pair cr hc wit now rq cp ^^ 4) (Reading False, t) =
    (Answered (fst (add_checkpoint cr hc wit now rq t)), snd (add_checkpoint cr hc wit now rq t))"
proof -
  let ?f = "advance_pair cr hc wit now rq cp"
  obtain k where k: "k \<le> 3" and dec: "(?f ^^ k) (Reading False, t) =
      (Deciding (state_at (cp_origin cp) (current t (cp_origin cp))), with_row (cp_origin cp) t)"
    using advance_to_deciding [OF assms(1)] by blast
  have stay: "(?f ^^ j) (Answered r, t) = (Answered r, t)" for j r t
    by (induction j) (simp_all add: advance_pair_def)
  have last: "?f (Deciding (state_at (cp_origin cp) (current t (cp_origin cp))), with_row (cp_origin cp) t) =
      (Answered (fst (add_checkpoint cr hc wit now rq t)), snd (add_checkpoint cr hc wit now rq t))"
  proof (cases "decide hc (state_at (cp_origin cp) (current t (cp_origin cp))) rq cp")
    case (Inl e)
    then show ?thesis using add_checkpoint_refused [OF assms Inl] by (simp add: advance_pair_def)
  next
    case (Inr u)
    then have d: "decide hc (state_at (cp_origin cp) (current t (cp_origin cp))) rq cp = Inr ()" by simp
    have "cp_size cp \<le> i64_max" using check_request_ok(2) [OF assms(2)] assms(3) by simp
    from win_alone [OF assms(1) d this] obtain t' where
      "update_in (state_at (cp_origin cp) (current t (cp_origin cp))) (cp_size cp) (cp_root cp) (rq_checkpoint rq) (with_row (cp_origin cp) t) = (Inr True, t')" .
    then show ?thesis
      using d by (simp add: advance_pair_def add_checkpoint_def lift_st_def bind_st_def assms(2) internal_st_def
        get_or_init_row [OF assms(1)] Let_def flip: assms(3))
  qed
  have "(?f ^^ 4) (Reading False, t) = (?f ^^ (3 - k)) ((?f ^^ Suc k) (Reading False, t))"
    using k by (metis Suc_diff_le add_Suc_right comp_apply diff_Suc_Suc eval_nat_numeral(2) funpow_add le_add_diff_inverse2 numeral_3_eq_3 semiring_norm(26,27))
  then show ?thesis using dec last stay by simp
qed


subsection \<open>Runs of the system\<close>

lemma step_last:
  assumes "sy_procs sy = ps @ [p]"
    and "advance cr hc wit now (pr_request p) (pr_checkpoint p) (pr_phase p) (sy_table sy) = (ph, t)"
  shows "witness_step cr hc wit sy
    \<lparr>sy_table = t, sy_procs = ps @ [p\<lparr>pr_phase := ph\<rparr>], sy_history = sy_history sy @ new_commits hc p (sy_table sy)\<rparr>"
proof -
  have i: "length ps < length (sy_procs sy)" and p: "p = sy_procs sy ! length ps"
    and u: "(sy_procs sy)[length ps := p\<lparr>pr_phase := ph\<rparr>] = ps @ [p\<lparr>pr_phase := ph\<rparr>]"
    using assms(1) by simp_all
  show ?thesis using witness_step.progress [OF i p assms(2)] unfolding u .
qed

lemma steps_last:
  assumes "(advance_pair cr hc wit now rq cp ^^ k) (ph, t) = (ph', t')"
    and "\<And>j. j < k \<Longrightarrow> new_commits hc \<lparr>pr_request = rq, pr_checkpoint = cp, pr_phase = fst ((advance_pair cr hc wit now rq cp ^^ j) (ph, t))\<rparr>
           (snd ((advance_pair cr hc wit now rq cp ^^ j) (ph, t))) = []"
  shows "(witness_step cr hc wit)\<^sup>*\<^sup>*
     \<lparr>sy_table = t, sy_procs = ps @ [\<lparr>pr_request = rq, pr_checkpoint = cp, pr_phase = ph\<rparr>], sy_history = h\<rparr>
     \<lparr>sy_table = t', sy_procs = ps @ [\<lparr>pr_request = rq, pr_checkpoint = cp, pr_phase = ph'\<rparr>], sy_history = h\<rparr>"
  using assms
proof (induction k arbitrary: ph' t')
  case (Suc k)
  obtain ph1 t1 where one: "(advance_pair cr hc wit now rq cp ^^ k) (ph, t) = (ph1, t1)" by fastforce
  let ?s1 = "\<lparr>sy_table = t1, sy_procs = ps @ [\<lparr>pr_request = rq, pr_checkpoint = cp, pr_phase = ph1\<rparr>], sy_history = h\<rparr>"
  have adv: "advance cr hc wit now rq cp ph1 t1 = (ph', t')"
    using Suc.prems(1) one by (simp add: advance_pair_def)
  have "new_commits hc \<lparr>pr_request = rq, pr_checkpoint = cp, pr_phase = ph1\<rparr> t1 = []"
    using Suc.prems(2) [of k] one by simp
  then have "witness_step cr hc wit ?s1
      \<lparr>sy_table = t', sy_procs = ps @ [\<lparr>pr_request = rq, pr_checkpoint = cp, pr_phase = ph'\<rparr>], sy_history = h\<rparr>"
    using step_last [of ?s1 ps "\<lparr>pr_request = rq, pr_checkpoint = cp, pr_phase = ph1\<rparr>" cr hc wit now ph' t'] adv by simp
  moreover have "(witness_step cr hc wit)\<^sup>*\<^sup>*
     \<lparr>sy_table = t, sy_procs = ps @ [\<lparr>pr_request = rq, pr_checkpoint = cp, pr_phase = ph\<rparr>], sy_history = h\<rparr> ?s1"
    using Suc.IH [OF one] Suc.prems(2) by simp
  ultimately show ?case by simp
qed simp

lemma steps_to_deciding:
  assumes "table_ok t"
  shows "(witness_step cr hc wit)\<^sup>*\<^sup>*
     \<lparr>sy_table = t, sy_procs = ps @ [\<lparr>pr_request = rq, pr_checkpoint = cp, pr_phase = Reading False\<rparr>], sy_history = h\<rparr>
     \<lparr>sy_table = with_row (cp_origin cp) t, sy_procs = ps @ [\<lparr>pr_request = rq, pr_checkpoint = cp,
        pr_phase = Deciding (state_at (cp_origin cp) (current t (cp_origin cp)))\<rparr>], sy_history = h\<rparr>"
proof (cases "witnessed t (cp_origin cp)")
  case None
  let ?t = "insert_initial (cp_origin cp) t"
  let ?f = "advance_pair cr hc wit (Some 0) rq cp"
  have eqs: "(?f ^^ 0) (Reading False, t) = (Reading False, t)" "(?f ^^ 1) (Reading False, t) = (Inserting False, t)"
    "(?f ^^ 2) (Reading False, t) = (Rereading False, ?t)"
    "(?f ^^ 3) (Reading False, t) = (Deciding (state_at (cp_origin cp) (current t (cp_origin cp))), with_row (cp_origin cp) t)"
    using witness_get_eq [OF assms] witness_get_eq [OF insert_initial_ok [OF assms]] None
    by (simp_all add: numeral_3_eq_3 numeral_2_eq_2 advance_pair_def insert_initial_read with_state_def current_def with_row_def)
  show ?thesis
  proof (rule steps_last [OF eqs(4)])
    fix j :: nat
    assume "j < 3"
    then consider "j = 0" | "j = 1" | "j = 2" by linarith
    then show "new_commits hc \<lparr>pr_request = rq, pr_checkpoint = cp, pr_phase = fst ((?f ^^ j) (Reading False, t))\<rparr>
        (snd ((?f ^^ j) (Reading False, t))) = []"
      by cases (simp_all only: eqs fst_conv, simp_all add: new_commits_def)
  qed
next
  case (Some v)
  then have "(advance_pair cr hc wit (Some 0) rq cp ^^ 1) (Reading False, t) =
      (Deciding (state_at (cp_origin cp) (current t (cp_origin cp))), with_row (cp_origin cp) t)"
    using witness_get_eq [OF assms] by (simp add: advance_pair_def with_state_def current_def with_row_def)
  then show ?thesis by (intro steps_last [where k = 1 and now = "Some 0"]) (simp_all add: new_commits_def)
qed

lemma cosign_run:
  assumes reach: "witness_reachable cr hc wit sy" and rq: "check_request cr wit rq = Inr co" and cp: "cp = co_checkpoint co"
    and dec: "decide hc (state_at (cp_origin cp) (current (sy_table sy) (cp_origin cp))) rq cp = Inr ()"
  shows "\<exists>sy'. witness_reachable cr hc wit sy' \<and> cosigned sy' cp \<and> (\<forall>c. cosigned sy c \<longrightarrow> cosigned sy' c)
    \<and> sy_history sy' = sy_history sy @ [(cp_origin cp, current (sy_table sy) (cp_origin cp), target cp)]
    \<and> proofs sy' = insert (rq_proof rq) (proofs sy) \<and> current (sy_table sy') (cp_origin cp) = target cp"
proof -
  let ?v = "current (sy_table sy) (cp_origin cp)" and ?t = "with_row (cp_origin cp) (sy_table sy)"
  let ?p = "\<lambda>ph. \<lparr>pr_request = rq, pr_checkpoint = cp, pr_phase = ph\<rparr>"
  let ?S = "\<lambda>t ph h. \<lparr>sy_table = t, sy_procs = sy_procs sy @ [?p ph], sy_history = h\<rparr>"
  have ok: "table_ok (sy_table sy)" using system_ok_reachable [OF reach] by (simp add: system_ok_def)
  have sz: "cp_size cp \<le> i64_max" using check_request_ok(2) [OF rq] cp by simp
  from win_alone [OF ok dec sz] obtain t' where
    won: "update_in (state_at (cp_origin cp) ?v) (cp_size cp) (cp_root cp) (rq_checkpoint rq) ?t = (Inr True, t')"
    and wt: "witnessed t' = (witnessed (sy_table sy))(cp_origin cp \<mapsto> target cp)" .
  let ?sy = "?S t' (Answered (Inr (cosign_v1 cr (wit_signer wit) cp 0))) (sy_history sy @ [(cp_origin cp, ?v, target cp)])"
  have "witness_step cr hc wit sy (?S (sy_table sy) (Reading False) (sy_history sy))"
    using witness_step.arrive [OF rq, of hc sy] by (cases sy) (simp add: cp)
  moreover have "(witness_step cr hc wit)\<^sup>*\<^sup>* (?S (sy_table sy) (Reading False) (sy_history sy))
      (?S ?t (Deciding (state_at (cp_origin cp) ?v)) (sy_history sy))"
    by (rule steps_to_deciding [OF ok])
  moreover have "witness_step cr hc wit (?S ?t (Deciding (state_at (cp_origin cp) ?v)) (sy_history sy)) ?sy"
    using step_last [of "?S ?t (Deciding (state_at (cp_origin cp) ?v)) (sy_history sy)" "sy_procs sy"
        "?p (Deciding (state_at (cp_origin cp) ?v))" cr hc wit "Some 0"]
      won dec by (simp add: cosign_now_def new_commits_def)
  ultimately have "witness_reachable cr hc wit ?sy" using reach by (meson rtranclp.rtrancl_into_rtrancl rtranclp_trans)
  moreover have "cosigned ?sy cp" and "\<forall>c. cosigned sy c \<longrightarrow> cosigned ?sy c" by (auto simp: cosigned_def)
  moreover have "current t' (cp_origin cp) = target cp" using wt by (simp add: current_def)
  moreover have "proofs ?sy = insert (rq_proof rq) (proofs sy)" by (simp add: proofs_def)
  ultimately show ?thesis by (intro exI [of _ ?sy]) simp
qed

end
