(* ===== verification/Log_Client.thy ===== *)
theory Log_Client
  imports Integrate Checkpoint
begin

text \<open>
  The client of a log, \<^verbatim>\<open>src/client.rs\<close>: bounded reads over HTTP, entry bundles, hash tiles with a
  cache, and the check that an entry is in the tree of a trusted checkpoint. A server is a
  function \<open>get\<close> from the URL to its answer: none, or a status and the chunks of the body, any of
  which may be an error; it stands for what a server answers during one call, and nothing is
  assumed of it. \<open>verify_inclusion\<close> is the proof verifier of \<open>sigstore_merkle\<close>, with the law
  \<open>inclusion_laws\<close>: it accepts exactly the proofs of the right length that hash to the root.
\<close>

type_synonym http_get = "string \<Rightarrow> (nat \<times> (error + byte list) list) option"

type_synonym inclusion_verifier = "sha256_hash \<Rightarrow> nat \<Rightarrow> nat \<Rightarrow> sha256_hash list \<Rightarrow> sha256_hash \<Rightarrow> bool"

record log_client =
  cl_url :: string
  cl_tiles :: "(string \<times> hash_tile) list"


subsection \<open>Reading\<close>

fun bounded_body :: "nat \<Rightarrow> byte list \<Rightarrow> (error + byte list) list \<Rightarrow> byte list res" where
  "bounded_body limit data [] = Inr data"
| "bounded_body limit data (Inl e # chunks) = Inl InvalidEntry"
| "bounded_body limit data (Inr chunk # chunks) =
     (if limit - length data < length chunk then Inl InvalidEntry
      else bounded_body limit (data @ chunk) chunks)"

definition trim_end_slash :: "string \<Rightarrow> string" where
  "trim_end_slash s = rev (dropWhile (\<lambda>c. c = CHR ''/'') (rev s))"

text \<open>\<open>build_ok\<close>: whether the HTTP library can be set up.\<close>

definition client_new :: "bool \<Rightarrow> string \<Rightarrow> log_client res" where
  "client_new build_ok url = (if build_ok then Inr \<lparr>cl_url = trim_end_slash url, cl_tiles = []\<rparr> else Inl Config)"

text \<open>\<open>error_for_status\<close> refuses the statuses from 400 to 599; redirects are not followed.\<close>

definition client_read :: "http_get \<Rightarrow> log_client \<Rightarrow> string \<Rightarrow> nat \<Rightarrow> byte list res" where
  "client_read get c path limit =
     (case get (cl_url c @ ''/'' @ path) of
        None \<Rightarrow> Inl InvalidEntry
      | Some (status, chunks) \<Rightarrow>
          if 400 \<le> status \<and> status < 600 then Inl InvalidEntry else bounded_body limit [] chunks)"

definition client_bundle :: "http_get \<Rightarrow> log_client \<Rightarrow> nat \<Rightarrow> nat \<Rightarrow> entry_bundle res" where
  "client_bundle get c index tree_size =
     (if i64_max < tree_size \<or> (tree_size + 255) div 256 \<le> index then Inl InvalidEntry
      else let count = min (tree_size - index * 256) 256;
               path = entries_path index (count mod 256)
           in bind_res (client_read get c path (count * (65535 + 2))) (\<lambda>data.
              bind_res (bundle_from_bytes data) (\<lambda>bundle.
                if length (bundle_entries bundle) \<noteq> count then Inl InvalidEntry else Inr bundle)))"

definition cache_insert :: "string \<Rightarrow> hash_tile \<Rightarrow> log_client \<Rightarrow> log_client" where
  "cache_insert path tile c =
     c\<lparr>cl_tiles := AList.update path tile (if 256 \<le> length (cl_tiles c) then [] else cl_tiles c)\<rparr>"

definition client_read_tile ::
  "http_get \<Rightarrow> nat \<Rightarrow> nat \<Rightarrow> nat \<Rightarrow> (log_client, error, hash_tile option) st" where
  "client_read_tile get level index partial c =
     (let path = tile_path level index partial
      in case map_of (cl_tiles c) path of
           Some tile \<Rightarrow> (Inr (Some tile), c)
         | None \<Rightarrow>
             let count = (if partial = 0 then 256 else partial)
             in case client_read get c path (511 * 32) of
                  Inl e \<Rightarrow> (Inl e, c)
                | Inr data \<Rightarrow>
                    if length data < count * 32 \<or> length data mod 32 \<noteq> 0 then (Inl InvalidEntry, c)
                    else case hash_tile_from_bytes (take (count * 32) data) of
                           Inl e \<Rightarrow> (Inl e, c)
                         | Inr tile \<Rightarrow> (Inr (Some tile), cache_insert path tile c))"

text \<open>The client as a tile reader, and the check of an entry with a reader.\<close>

definition client_reader :: "http_get \<Rightarrow> log_client \<Rightarrow> tile_reader" where
  "client_reader get c level index partial = fst (client_read_tile get level index partial c)"

definition verify_entry ::
  "hash_fn \<Rightarrow> (byte list \<Rightarrow> sha256_hash) \<Rightarrow> inclusion_verifier \<Rightarrow> tile_reader \<Rightarrow> byte list \<Rightarrow> nat \<Rightarrow> checkpoint
     \<Rightarrow> unit res" where
  "verify_entry hc hash_leaf verify_inclusion rd data index cp =
     (if i64_max < cp_size cp then Inl InvalidEntry
      else bind_res (generate_inclusion_proof hc rd index (cp_size cp)) (\<lambda>pf.
           if verify_inclusion (hash_leaf data) index (cp_size cp) pf (cp_root cp) then Inr () else Inl Merkle))"


subsection \<open>The verifier of inclusion proofs\<close>

function path_len :: "nat \<Rightarrow> nat \<Rightarrow> nat" where
  "path_len m n =
     (if n \<le> 1 then 0
      else let k = split_point n in Suc (if m < k then path_len m k else path_len (m - k) (n - k)))"
  by pat_completeness auto
termination
proof (relation "measure snd", goal_cases)
  case (2 m n k)
  then show ?case using split_point_bounds(2) [of n] by auto
next
  case (3 m n k)
  then show ?case using split_point_bounds(1,2) [of n] by auto
qed simp

declare path_len.simps [simp del]

definition inclusion_laws :: "hash_fn \<Rightarrow> inclusion_verifier \<Rightarrow> bool" where
  "inclusion_laws hc verify_inclusion \<longleftrightarrow>
     (\<forall>leaf index n pf root. verify_inclusion leaf index n pf root \<longleftrightarrow>
        index < n \<and> length pf = path_len index n \<and> path_root hc index n leaf pf = root)"

text \<open>The pairs the verifier hashes.\<close>

function path_calls :: "hash_fn \<Rightarrow> nat \<Rightarrow> nat \<Rightarrow> sha256_hash \<Rightarrow> sha256_hash list \<Rightarrow> (sha256_hash \<times> sha256_hash) list" where
  "path_calls hc m n leaf path =
     (if n \<le> 1 \<or> path = [] then []
      else let k = split_point n
           in if m < k
              then (path_root hc m k leaf (butlast path), last path) # path_calls hc m k leaf (butlast path)
              else (last path, path_root hc (m - k) (n - k) leaf (butlast path))
                     # path_calls hc (m - k) (n - k) leaf (butlast path))"
  by pat_completeness auto
termination by (relation "measure (\<lambda>(hc, m, n, leaf, path). length path)") auto

declare path_calls.simps [simp del]

lemma length_rfc_path: "m < length D \<Longrightarrow> length (rfc_path hc e m D) = path_len m (length D)"
proof (induction hc e m D rule: rfc_path.induct)
  case (1 hc e m D)
  show ?case
  proof (cases "length D \<le> 1")
    case True
    then show ?thesis by (simp add: rfc_path.simps path_len.simps)
  next
    case False
    then have two: "2 \<le> length D" by simp
    note k = split_point_bounds [OF two]
    then show ?thesis
      using "1.IH" [OF False refl] "1.prems" False
      by (subst rfc_path.simps, subst path_len.simps) (auto simp: Let_def)
  qed
qed

text \<open>A path that hashes to the root of a list starts at the leaf of its index.\<close>

lemma path_root_binds:
  assumes "collision_free hc A"
  shows "m < length D \<Longrightarrow> length path = path_len m (length D) \<Longrightarrow>
    path_root hc m (length D) leaf path = mth hc e D \<Longrightarrow> mth_calls hc e D \<subseteq> A \<Longrightarrow>
    set (path_calls hc m (length D) leaf path) \<subseteq> A \<Longrightarrow> D ! m = leaf"
proof (induction "length D" arbitrary: m D path rule: less_induct)
  case less
  show ?case
  proof (cases "length D \<le> 1")
    case True
    with less.prems(1) obtain x where "D = [x]" "m = 0" by (cases D) auto
    with less.prems(3) show ?thesis by (simp add: path_root.simps)
  next
    case False
    then have two: "2 \<le> length D" by simp
    let ?k = "split_point (length D)"
    note k = split_point_bounds [OF two] and calls = mth_calls_split [OF two refl, of hc e]
    have ne: "path \<noteq> []" using less.prems(2) False by (auto simp: path_len.simps [of m "length D"] Let_def)
    show ?thesis
    proof (cases "m < ?k")
      case True
      let ?left = "path_root hc m ?k leaf (butlast path)"
      have "hc ?left (last path) = hc (mth hc e (take ?k D)) (mth hc e (drop ?k D))"
        using less.prems(3) True False ne mth_split [OF two, of hc e] by (simp add: path_root.simps [of hc m] Let_def)
      moreover have "(?left, last path) \<in> A" "set (path_calls hc m ?k leaf (butlast path)) \<subseteq> A"
        using less.prems(5) True False ne by (simp_all add: path_calls.simps [of hc m "length D"] Let_def)
      ultimately have "?left = mth hc e (take ?k D)"
        using collision_freeD [OF assms] less.prems(4) calls by blast
      moreover have "length (butlast path) = path_len m ?k"
        using less.prems(2) True False by (simp add: path_len.simps [of m "length D"] Let_def)
      ultimately have "take ?k D ! m = leaf"
        using less.hyps [of "take ?k D" m "butlast path"] True k less.prems(4) calls
          \<open>set (path_calls hc m ?k leaf (butlast path)) \<subseteq> A\<close> by simp
      then show ?thesis using True by simp
    next
      case ge: False
      let ?n = "length D - ?k"
      let ?right = "path_root hc (m - ?k) ?n leaf (butlast path)"
      have "hc (last path) ?right = hc (mth hc e (take ?k D)) (mth hc e (drop ?k D))"
        using less.prems(3) ge False ne mth_split [OF two, of hc e] by (simp add: path_root.simps [of hc m] Let_def)
      moreover have "(last path, ?right) \<in> A" "set (path_calls hc (m - ?k) ?n leaf (butlast path)) \<subseteq> A"
        using less.prems(5) ge False ne by (simp_all add: path_calls.simps [of hc m "length D"] Let_def)
      ultimately have "?right = mth hc e (drop ?k D)"
        using collision_freeD [OF assms] less.prems(4) calls by blast
      moreover have "length (butlast path) = path_len (m - ?k) ?n"
        using less.prems(2) ge False by (simp add: path_len.simps [of m "length D"] Let_def)
      ultimately have "drop ?k D ! (m - ?k) = leaf"
        using less.hyps [of "drop ?k D" "m - ?k" "butlast path"] ge k less.prems(1,4) calls
          \<open>set (path_calls hc (m - ?k) ?n leaf (butlast path)) \<subseteq> A\<close> by simp
      then show ?thesis using ge k less.prems(1) by simp
    qed
  qed
qed



subsection \<open>The cache\<close>

text \<open>A tile as the server would answer for it now.\<close>

definition fetch_tile :: "http_get \<Rightarrow> string \<Rightarrow> tile_reader" where
  "fetch_tile get url level index partial = client_reader get \<lparr>cl_url = url, cl_tiles = []\<rparr> level index partial"

text \<open>Every cached tile is what the server answers for its path, and there are at most 256.\<close>

definition cache_ok :: "http_get \<Rightarrow> log_client \<Rightarrow> bool" where
  "cache_ok get c \<longleftrightarrow> length (cl_tiles c) \<le> 256 \<and>
     list_all (\<lambda>(path, tile). \<forall>l i p. tile_key (l, i, p) \<longrightarrow> tile_path l i p = path
       \<longrightarrow> fetch_tile get (cl_url c) l i p = Inr (Some tile)) (cl_tiles c)"

lemma client_read_url: "client_read get \<lparr>cl_url = cl_url c, cl_tiles = ts\<rparr> path limit = client_read get c path limit"
  by (simp add: client_read_def)

lemma fetch_tile_eq:
  "map_of (cl_tiles c) (tile_path l i p) = None \<Longrightarrow>
     client_read_tile get l i p c
       = (fetch_tile get (cl_url c) l i p,
          case fetch_tile get (cl_url c) l i p of
            Inr (Some tile) \<Rightarrow> cache_insert (tile_path l i p) tile c | _ \<Rightarrow> c)"
  by (auto simp: fetch_tile_def client_reader_def client_read_tile_def client_read_url Let_def split: sum.split)

lemma fetch_tile_found: "fetch_tile get url l i p = Inr found \<Longrightarrow> found \<noteq> None"
  by (auto simp: fetch_tile_def client_reader_def client_read_tile_def Let_def split: sum.splits if_splits)

lemma cache_insert_ok:
  assumes "cache_ok get c" and "tile_key (l, i, p)" and "fetch_tile get (cl_url c) l i p = Inr (Some tile)"
  shows "cache_ok get (cache_insert (tile_path l i p) tile c)"
proof -
  let ?old = "if 256 \<le> length (cl_tiles c) then [] else cl_tiles c"
  have "length (AList.update (tile_path l i p) tile ?old) \<le> 256"
  proof -
    have "length (AList.update k v ts) \<le> Suc (length ts)" for k :: string and v :: hash_tile and ts
      by (induction ts) auto
    from this [of "tile_path l i p" tile ?old] show ?thesis by (auto split: if_splits)
  qed
  moreover have "fetch_tile get (cl_url c) l' i' p' = Inr (Some t)"
    if "(path, t) \<in> set (AList.update (tile_path l i p) tile ?old)" "tile_key (l', i', p')" "tile_path l' i' p' = path"
    for path t l' i' p'
  proof -
    have "set (AList.update (tile_path l i p) tile ?old) \<subseteq> insert (tile_path l i p, tile) (set ?old)"
      by (rule set_update_subset)
    with that consider "path = tile_path l i p" "t = tile" | "(path, t) \<in> set (cl_tiles c)"
      by (auto split: if_splits)
    then show ?thesis
    proof cases
      case 1
      then have "l' = l \<and> i' = i \<and> p' = p" using that(2,3) assms(2) tile_path_inj [of i' p' i p l' l] by simp
      with assms(3) 1 show ?thesis by simp
    next
      case 2
      with assms(1) that(2,3) show ?thesis by (auto simp: cache_ok_def list_all_iff)
    qed
  qed
  ultimately show ?thesis by (auto simp: cache_ok_def list_all_iff cache_insert_def)
qed

lemma client_new_cache_ok: "client_new b url = Inr c \<Longrightarrow> cache_ok get c"
  by (auto simp: client_new_def cache_ok_def split: if_splits)

lemma client_reader_eq:
  assumes "cache_ok get c" and "tile_key (l, i, p)"
  shows "client_reader get c l i p = fetch_tile get (cl_url c) l i p"
proof (cases "map_of (cl_tiles c) (tile_path l i p)")
  case None
  then show ?thesis by (simp add: client_reader_def fetch_tile_eq)
next
  case (Some tile)
  then have "fetch_tile get (cl_url c) l i p = Inr (Some tile)"
    using assms map_of_SomeD by (fastforce simp: cache_ok_def list_all_iff)
  with Some show ?thesis by (simp add: client_reader_def client_read_tile_def)
qed

text \<open>The tile cache of the client is transparent: as long as the server keeps its answers, a read through
  the cache returns what a read without it would, keeps the cache correct, and never lets it grow
  beyond 256 tiles.\<close>

lemma client_cache_transparent:
  assumes "cache_ok get c" and "i \<le> u64_max" and "p < 256"
  shows "case client_read_tile get l i p c of
    (r, c') \<Rightarrow> r = fetch_tile get (cl_url c) l i p \<and> cache_ok get c' \<and> length (cl_tiles c') \<le> 256"
proof -
  have key: "tile_key (l, i, p)" using assms by simp
  have "cache_ok get (snd (client_read_tile get l i p c))"
  proof (cases "map_of (cl_tiles c) (tile_path l i p)")
    case None
    then show ?thesis
      using cache_insert_ok [OF assms(1) key] assms(1) by (auto simp: fetch_tile_eq split: sum.split option.split)
  next
    case (Some tile)
    with assms(1) show ?thesis by (simp add: client_read_tile_def)
  qed
  with client_reader_eq [OF assms(1) key] show ?thesis
    by (cases "client_read_tile get l i p c") (simp add: client_reader_def cache_ok_def)
qed


subsection \<open>Checking an entry\<close>

lemma entry_bound:
  assumes "inclusion_laws hc verify_inclusion"
    and "verify_entry hc hash_leaf verify_inclusion rd data index cp = Inr ()"
    and "cp_size cp = length D" and "cp_root cp = mth hc empty_root_hash D"
    and "\<And>pf. generate_inclusion_proof hc rd index (length D) = Inr pf \<Longrightarrow>
      collision_free hc (mth_calls hc empty_root_hash D \<union> set (path_calls hc index (length D) (hash_leaf data) pf))"
  shows "index < length D \<and> D ! index = hash_leaf data"
proof -
  obtain pf where gen: "generate_inclusion_proof hc rd index (length D) = Inr pf"
    and vi: "verify_inclusion (hash_leaf data) index (length D) pf (mth hc empty_root_hash D)"
    using assms(2-4) by (auto simp: verify_entry_def res_simps split: if_splits)
  then have "index < length D" "length pf = path_len index (length D)"
    "path_root hc index (length D) (hash_leaf data) pf = mth hc empty_root_hash D"
    using assms(1) by (auto simp: inclusion_laws_def)
  then show ?thesis using path_root_binds [OF assms(5) [OF gen]] by auto
qed

text \<open>C19. Soundness of the entry check: whatever tiles the server sends, when \<open>verify_entry\<close> accepts data at an
  index for a checkpoint whose root is that of the leaves \<open>D\<close>, the leaf at that index is the hash
  of the data, barring a collision among the pairs that the root and the check hash.\<close>

theorem verify_entry_sound:
  assumes "inclusion_laws hc verify_inclusion"
    and "verify_entry hc hash_leaf verify_inclusion rd data index cp = Inr ()"
    and "cp_size cp = length D" and "cp_root cp = mth hc empty_root_hash D"
    and "\<And>pf. generate_inclusion_proof hc rd index (length D) = Inr pf \<Longrightarrow>
      collision_free hc (mth_calls hc empty_root_hash D \<union> set (path_calls hc index (length D) (hash_leaf data) pf))"
  shows "index < length D \<and> D ! index = hash_leaf data"
  using assms by (rule entry_bound)

text \<open>An honest tile source makes the check succeed.\<close>

context tile_source
begin

lemma verify_entry_ok:
  assumes "inclusion_laws hc verify_inclusion" and "serves s D" and "index < length D"
    and "cp_size cp = length D" and "cp_root cp = mth hc empty_root_hash D" and "D ! index = hash_leaf data"
  shows "verify_entry hc hash_leaf verify_inclusion (read_tile s) data index cp = Inr ()"
proof -
  let ?pf = "rfc_path hc empty_root_hash index D"
  have "verify_inclusion (hash_leaf data) index (length D) ?pf (mth hc empty_root_hash D)"
    using assms path_root_rfc_path [OF assms(3), of hc empty_root_hash] length_rfc_path [OF assms(3), of hc empty_root_hash]
    by (simp add: inclusion_laws_def)
  then show ?thesis
    using assms generate_inclusion_ok [OF assms(2,3)] serves_size [OF assms(2)] by (simp add: verify_entry_def)
qed

end

text \<open>An example: the second of three leaves, read from storage.\<close>

definition demo_inclusion :: inclusion_verifier where
  "demo_inclusion leaf index n pf root \<longleftrightarrow>
     index < n \<and> length pf = path_len index n \<and> path_root demo_hash index n leaf pf = root"

lemma demo_inclusion_laws: "inclusion_laws demo_hash demo_inclusion"
  by (simp add: inclusion_laws_def demo_inclusion_def)

theorem verify_entry_sound_witness:
  "[5, 6, 7 :: sha256_hash] ! 1 = (\<lambda>_ :: byte list. 6) [9]"
proof -
  let ?D = "[5, 6, 7 :: sha256_hash]"
  let ?cp = "\<lparr>cp_origin = ''log'', cp_size = 3, cp_root = mth demo_hash empty_root_hash ?D\<rparr>"
  let ?rd = "Tile_Store.read_tile memory_op demo_store"
  have gen: "generate_inclusion_proof demo_hash ?rd 1 (length ?D) = Inr (rfc_path demo_hash empty_root_hash 1 ?D)"
    using store.generate_inclusion_ok [OF demo_store_serves, of 1] by simp
  have cf: "collision_free demo_hash (mth_calls demo_hash empty_root_hash ?D
      \<union> set (path_calls demo_hash 1 (length ?D) 6 (rfc_path demo_hash empty_root_hash 1 ?D)))"
    by code_simp
  have "verify_entry demo_hash (\<lambda>_. 6) demo_inclusion ?rd [9] 1 ?cp = Inr ()"
    using store.verify_entry_ok [OF demo_inclusion_laws demo_store_serves, of 1 ?cp "\<lambda>_. 6" "[9]"] by simp
  from verify_entry_sound [OF demo_inclusion_laws this, of ?D] gen cf show ?thesis by simp
qed

definition demo_get :: http_get where
  "demo_get url = Some (200, [Inr (replicate 96 1)])"

end
