(* ===== verification/Publisher.thy ===== *)
theory Publisher
  imports Worker Witness Log_Client
begin

text \<open>
  The checkpoint publisher of \<^verbatim>\<open>src/worker.rs\<close>: it signs the integrated tree, has the in-process
  witnesses cosign, asks each external witness over HTTP, and writes the checkpoint once enough
  external witnesses signed. The HTTP exchange is the argument \<open>post\<close>, a function of the URL, the
  body and the state of the network: it gives no response, or a status and the chunks of a body,
  any of which may be an error. Log messages are left out.
\<close>


subsection \<open>External witnesses\<close>

record external_witness =
  xw_name :: string
  xw_url :: string
  xw_key :: log_config

definition external_witness_new :: "crypto \<Rightarrow> string \<Rightarrow> string \<Rightarrow> external_witness res" where
  "external_witness_new cr vkey url =
     bind_res (new_witness cr vkey) (\<lambda>key. Inr \<lparr>xw_name = lc_key_name key, xw_url = url, xw_key = key\<rparr>)"

definition public_key :: "external_witness \<Rightarrow> byte list" where
  "public_key w = lc_verifying_key (xw_key w)"

type_synonym witness_sizes = "string \<Rightarrow> nat option"

definition get_size :: "string \<Rightarrow> witness_sizes \<Rightarrow> nat" where
  "get_size url sizes = (case sizes url of None \<Rightarrow> 0 | Some n \<Rightarrow> n)"

definition set_size :: "string \<Rightarrow> nat \<Rightarrow> witness_sizes \<Rightarrow> witness_sizes" where
  "set_size url n sizes = sizes(url \<mapsto> n)"

record last_published =
  lp_size :: nat
  lp_root_hash :: "sha256_hash option"


subsection \<open>The request\<close>

type_synonym 'n post = "string \<Rightarrow> string \<Rightarrow> 'n \<Rightarrow> (nat \<times> (error + byte list) list) option \<times> 'n"

definition request_body :: "crypto \<Rightarrow> nat \<Rightarrow> sha256_hash list \<Rightarrow> cosigned_checkpoint \<Rightarrow> string" where
  "request_body cr old_size pf co =
     (let proof_text = join_lines (map (\<lambda>h. b64_encode cr (hash_bytes h)) pf)
      in if proof_text = [] then ''old '' @ dec old_size @ [newline, newline] @ to_text cr co
         else ''old '' @ dec old_size @ [newline] @ proof_text @ [newline, newline] @ to_text cr co)"

definition call_external_witness ::
  "crypto \<Rightarrow> 'n post \<Rightarrow> external_witness \<Rightarrow> cosigned_checkpoint \<Rightarrow> nat \<Rightarrow> sha256_hash list
    \<Rightarrow> (witness_sizes \<times> 'n, error, string) st" where
  "call_external_witness cr post w co old_size pf = (\<lambda>(sizes, net).
     case post (trim_end_slash (xw_url w) @ ''/add-checkpoint'') (request_body cr old_size pf co) net of
       (None, net') \<Rightarrow> (Inl Config, (sizes, net'))
     | (Some (status, chunks), net') \<Rightarrow>
         (case bounded_body 4096 [] chunks of
            Inl e \<Rightarrow> (Inl e, (sizes, net'))
          | Inr raw \<Rightarrow>
              if \<not> utf8_ok raw then (Inl InvalidEntry, (sizes, net'))
              else let body = bytes_str raw
                   in if status = 409 then
                        (Inl Config,
                         (case parse_u64 (trim body) of None \<Rightarrow> sizes | Some n \<Rightarrow> set_size (xw_url w) n sizes, net'))
                      else if \<not> (200 \<le> status \<and> status < 300) then (Inl Config, (sizes, net'))
                      else (bind_res (from_line cr (trim body)) (\<lambda>signature.
                            bind_res (verify_cosignature cr (xw_key w) signature (str_bytes (to_body cr (co_checkpoint co)))) (\<lambda>_.
                              Inr body)), (sizes, net'))))"

definition add_external_signature_line ::
  "crypto \<Rightarrow> string \<Rightarrow> string \<Rightarrow> cosigned_checkpoint \<Rightarrow> cosigned_checkpoint res" where
  "add_external_signature_line cr expected_name line co =
     bind_res (from_line cr line) (\<lambda>sg.
       if sig_name sg \<noteq> expected_name then Inl Config
       else Inr (if \<exists>existing \<in> set (co_signatures co). sig_name existing = sig_name sg
                    \<and> sig_key_id existing = sig_key_id sg \<and> sig_bytes existing = sig_bytes sg
                 then co else co\<lparr>co_signatures := co_signatures co @ [sg]\<rparr>))"


subsection \<open>Publishing\<close>

text \<open>The variables of the loop over the external witnesses.\<close>

record 'n round =
  rd_cosigned :: cosigned_checkpoint
  rd_count :: nat
  rd_keys :: "byte list list"
  rd_names :: "string list"
  rd_sizes :: witness_sizes
  rd_net :: 'n

definition count_signature :: "external_witness \<Rightarrow> 'n round \<Rightarrow> 'n round" where
  "count_signature w rd =
     (if public_key w \<in> set (rd_keys rd) then rd
      else let rd' = rd\<lparr>rd_keys := public_key w # rd_keys rd\<rparr>
           in if xw_name w \<in> set (rd_names rd) then rd'
              else rd'\<lparr>rd_names := xw_name w # rd_names rd, rd_count := rd_count rd + 1\<rparr>)"

definition ask_witness ::
  "crypto \<Rightarrow> hash_fn \<Rightarrow> tile_reader \<Rightarrow> 'n post \<Rightarrow> nat \<Rightarrow> external_witness \<Rightarrow> 'n round \<Rightarrow> 'n round" where
  "ask_witness cr hc read post size_now w rd =
     (let old_size = get_size (xw_url w) (rd_sizes rd)
      in case (if old_size \<noteq> 0 \<and> old_size \<noteq> size_now
               then generate_consistency_proof_simple hc read old_size size_now else Inr []) of
           Inl e \<Rightarrow> rd
         | Inr pf \<Rightarrow>
             (case call_external_witness cr post w (rd_cosigned rd) old_size pf (rd_sizes rd, rd_net rd) of
                (Inl e, (sizes, net)) \<Rightarrow> rd\<lparr>rd_sizes := sizes, rd_net := net\<rparr>
              | (Inr line, (sizes, net)) \<Rightarrow>
                  (let rd' = rd\<lparr>rd_sizes := sizes, rd_net := net\<rparr>
                   in case add_external_signature_line cr (xw_name w) line (rd_cosigned rd) of
                        Inl e \<Rightarrow> rd'
                      | Inr co \<Rightarrow>
                          count_signature w (rd'\<lparr>rd_cosigned := co, rd_sizes := set_size (xw_url w) size_now sizes\<rparr>))))"

record ('s, 'n) publisher =
  pb_store :: 's
  pb_sizes :: witness_sizes
  pb_last :: last_published
  pb_net :: 'n

definition checkpoint_root :: "log_state \<Rightarrow> sha256_hash option" where
  "checkpoint_root state =
     (case state_root_hash state of
        Some h \<Rightarrow> Some h
      | None \<Rightarrow> if integrated_size state = 0 then Some empty_root_hash else None)"

text \<open>The clock gives one reading per in-process witness.\<close>

definition local_cosignatures ::
  "crypto \<Rightarrow> (checkpoint_signer \<times> nat option) list \<Rightarrow> cosigned_checkpoint \<Rightarrow> cosigned_checkpoint res" where
  "local_cosignatures cr witnesses =
     fold_res (\<lambda>(w, now) co. bind_res (cosign_now cr w now (co_checkpoint co)) (\<lambda>sg.
       Inr (co\<lparr>co_signatures := co_signatures co @ [sg]\<rparr>))) witnesses"

definition publish_checkpoint ::
  "crypto \<Rightarrow> hash_fn \<Rightarrow> 's operator \<Rightarrow> 'n post \<Rightarrow> database \<Rightarrow> checkpoint_signer \<Rightarrow> (checkpoint_signer \<times> nat option) list
    \<Rightarrow> external_witness list \<Rightarrow> nat option \<Rightarrow> string \<Rightarrow> (('s, 'n) publisher, error, unit) st" where
  "publish_checkpoint cr hc op post db signer witnesses externals quorum origin pb =
     (case get_log_state db of
        Inl e \<Rightarrow> (Inl e, pb)
      | Inr state \<Rightarrow>
          (case checkpoint_root state of
             None \<Rightarrow> (Inr (), pb)
           | Some root \<Rightarrow>
               let size_now = integrated_size state
               in if lp_size (pb_last pb) = size_now \<and> lp_root_hash (pb_last pb) = Some root then (Inr (), pb)
                  else let cp = \<lparr>cp_origin = origin, cp_size = size_now, cp_root = root\<rparr>
                  in (case local_cosignatures cr witnesses (cosigned_new cr cp signer) of
                        Inl e \<Rightarrow> (Inl e, pb)
                      | Inr co \<Rightarrow>
                          let rd = fold (ask_witness cr hc (Tile_Store.read_tile op (pb_store pb)) post size_now) externals
                                \<lparr>rd_cosigned = co, rd_count = 0, rd_keys = [], rd_names = [],
                                 rd_sizes = pb_sizes pb, rd_net = pb_net pb\<rparr>;
                              pb' = pb\<lparr>pb_sizes := rd_sizes rd, pb_net := rd_net rd\<rparr>
                          in if rd_count rd < (case quorum of None \<Rightarrow> length externals | Some q \<Rightarrow> q) then (Inr (), pb')
                             else (case write_checkpoint op (str_bytes (to_text cr (rd_cosigned rd))) (pb_store pb) of
                                     (Inl e, s) \<Rightarrow> (Inl e, pb'\<lparr>pb_store := s\<rparr>)
                                   | (Inr _, s) \<Rightarrow>
                                       (Inr (), pb'\<lparr>pb_store := s,
                                          pb_last := \<lparr>lp_size = size_now, lp_root_hash = Some root\<rparr>\<rparr>)))))"


subsection \<open>The witness reads the request\<close>

definition hash_text :: "crypto \<Rightarrow> sha256_hash \<Rightarrow> string" where
  "hash_text cr h = b64_encode cr (hash_bytes h)"

definition checkpoint_lines :: "crypto \<Rightarrow> cosigned_checkpoint \<Rightarrow> string list" where
  "checkpoint_lines cr co =
     [cp_origin (co_checkpoint co), dec (cp_size (co_checkpoint co)), hash_text cr (cp_root (co_checkpoint co)), []]
       @ map (to_line cr) (co_signatures co)"

definition line_ok :: "string \<Rightarrow> bool" where
  "line_ok p \<longleftrightarrow> newline \<notin> set p \<and> (p = [] \<or> last p \<noteq> CHR 0x0D)"

lemma to_text_lines:
  "b64_laws cr \<Longrightarrow> to_text cr co = concat (map (\<lambda>p. p @ [newline]) (checkpoint_lines cr co))"
  by (simp add: to_text_def body_trim body_text_def checkpoint_lines_def hash_text_def comp_def)

lemma hash_text_ok:
  assumes "b64_laws cr"
  shows "line_ok (hash_text cr h)" and "hash_text cr h \<noteq> []" and "b64_decode cr (hash_text cr h) = Some (hash_bytes h)"
  using hash_line [OF assms, of h] b64D(1) [OF assms] by (auto simp: line_ok_def hash_text_def plain_def)

lemma checkpoint_lines_ok:
  assumes "b64_laws cr" and "checkpoint_wf (co_checkpoint co)" and "\<forall>sg \<in> set (co_signatures co). signature_wf sg"
  shows "\<forall>p \<in> set (checkpoint_lines cr co). line_ok p"
proof -
  have "newline \<notin> set (cp_origin (co_checkpoint co))" "CHR 0x0D \<notin> set (cp_origin (co_checkpoint co))"
    using assms(2) by (auto simp: checkpoint_wf_def origin_new_def split: if_splits)
  then have "line_ok (cp_origin (co_checkpoint co))" unfolding line_ok_def by (metis last_in_set)
  moreover have "line_ok (dec n)" for n using dec_line by (simp add: line_ok_def)
  moreover have "sg \<in> set (co_signatures co) \<Longrightarrow> line_ok (to_line cr sg)" for sg
    using to_line_ends [OF assms(1)] assms(3) by (simp add: line_ok_def)
  ultimately show ?thesis
    using hash_text_ok(1) [OF assms(1)] by (auto simp: checkpoint_lines_def line_ok_def)
qed

lemma request_lines:
  assumes "b64_laws cr"
  shows "request_body cr old_size pf co = concat (map (\<lambda>p. p @ [newline])
     ((''old '' @ dec old_size) # map (hash_text cr) pf @ [] # checkpoint_lines cr co))"
proof (cases pf)
  case Nil
  then show ?thesis by (simp add: request_body_def to_text_lines [OF assms])
next
  case (Cons h hs)
  have "join_lines (map (hash_text cr) pf) \<noteq> []"
    using hash_text_ok(2) [OF assms] by (cases hs) (simp_all add: Cons)
  moreover have "concat (map (\<lambda>p. p @ [newline]) (map (hash_text cr) pf)) = join_lines (map (hash_text cr) pf) @ [newline]"
    by (rule join_lines_terminated) (simp add: Cons)
  moreover have "map (\<lambda>h. b64_encode cr (hash_bytes h)) pf = map (hash_text cr) pf" by (simp add: hash_text_def)
  ultimately show ?thesis
    unfolding request_body_def by (simp add: to_text_lines [OF assms] Let_def del: map_map map_eq_conv)
qed

lemma proof_lines_texts:
  assumes "b64_laws cr" and "length hs + length pf \<le> MAX_PROOF_HASHES"
  shows "proof_lines cr (map (hash_text cr) pf @ [] # ls) hs = Inr (hs @ pf, ls)"
  using assms(2)
proof (induction pf arbitrary: hs)
  case (Cons h pf)
  then show ?case using hash_text_ok(2,3) [OF assms(1), of h] by simp
qed simp

lemma checkpoint_lines_parse:
  assumes "b64_laws cr" and "checkpoint_wf (co_checkpoint co)"
    and "co_signatures co \<noteq> []" and "\<forall>sg \<in> set (co_signatures co). signature_wf sg"
  shows "from_text cr (join_lines (checkpoint_lines cr co)) = Inr co" and "join_lines (checkpoint_lines cr co) \<noteq> []"
proof -
  let ?j = "join_lines (checkpoint_lines cr co)"
  have whole: "to_text cr co = ?j @ [newline]"
    unfolding to_text_lines [OF assms(1)] by (rule join_lines_terminated) (simp add: checkpoint_lines_def)
  obtain c s where origin: "cp_origin (co_checkpoint co) = c # s" and c: "plain c"
    using assms(2) by (cases "cp_origin (co_checkpoint co)") (auto simp: checkpoint_wf_def origin_new_def)
  obtain u where j: "?j = c # u" by (simp add: checkpoint_lines_def origin)
  have "trim ?j = trim (to_text cr co)"
    using trim_start_plain [OF c] unfolding whole trim_def j by (metis append_Cons trim_end_newline)
  then show "from_text cr ?j = Inr co" using text_roundtrip [OF assms] by (simp add: from_text_def)
  show "?j \<noteq> []" using j by simp
qed

lemma request_roundtrip:
  assumes "b64_laws cr" and "checkpoint_wf (co_checkpoint co)"
    and "co_signatures co \<noteq> []" and "\<forall>sg \<in> set (co_signatures co). signature_wf sg"
    and "length pf \<le> MAX_PROOF_HASHES" and "old_size \<le> u64_max"
  shows "from_ascii cr (request_body cr old_size pf co) =
    Inr \<lparr>rq_old_size = old_size, rq_proof = pf, rq_checkpoint = join_lines (checkpoint_lines cr co)\<rparr>"
proof -
  let ?ls = "(''old '' @ dec old_size) # map (hash_text cr) pf @ [] # checkpoint_lines cr co"
  have old: "line_ok (''old '' @ dec old_size)" using dec_line [of old_size] by (auto simp: line_ok_def newline_def)
  have "\<forall>p \<in> set ?ls. line_ok p"
    using old checkpoint_lines_ok [OF assms(1,2,4)] hash_text_ok(1) [OF assms(1)] by (auto simp: line_ok_def)
  then have lines: "lines (request_body cr old_size pf co) = ?ls"
    unfolding request_lines [OF assms(1)] by (intro lines_terminated) (simp add: line_ok_def)
  have "list_all plain (dec old_size)" using dec_digits [of old_size] by (auto simp: list_all_iff digit_plain)
  then have "trim (dec old_size) = dec old_size"
    by (intro trim_plain) (auto simp: list_all_iff)
  then show ?thesis
    using proof_lines_texts [OF assms(1), of "[]" pf "checkpoint_lines cr co"] assms(5,6) checkpoint_lines_parse(2) [OF assms(1-4)]
    unfolding from_ascii_def lines by simp
qed


subsection \<open>What counts as a signature of an external witness\<close>

text \<open>
  The witness's own cosignature on the body verified, and the checkpoint carries a signature with
  its name, key id and bytes.
\<close>

definition endorsed :: "crypto \<Rightarrow> cosigned_checkpoint \<Rightarrow> external_witness \<Rightarrow> bool" where
  "endorsed cr co w \<longleftrightarrow>
     (\<exists>sg. verify_cosignature cr (xw_key w) sg (str_bytes (to_body cr (co_checkpoint co))) = Inr () \<and>
       (\<exists>sg' \<in> set (co_signatures co). sig_name sg' = sig_name sg \<and> sig_key_id sg' = sig_key_id sg \<and> sig_bytes sg' = sig_bytes sg))"

lemma from_line_trim [simp]: "from_line cr (trim s) = from_line cr s"
  by (simp add: from_line_def trim_trim)

lemma call_ok:
  assumes "call_external_witness cr post w co old_size pf (sizes, net) = (Inr line, st)"
  shows "\<exists>sg. from_line cr line = Inr sg \<and> verify_cosignature cr (xw_key w) sg (str_bytes (to_body cr (co_checkpoint co))) = Inr ()"
  using assms by (auto simp: call_external_witness_def res_simps Let_def split: prod.splits option.splits sum.splits if_splits)

lemma add_line_ok:
  assumes "add_external_signature_line cr name line co = Inr co'" and "from_line cr line = Inr sg"
  shows "sig_name sg = name" and "co_checkpoint co' = co_checkpoint co"
    and "\<exists>ys. co_signatures co' = co_signatures co @ ys"
    and "\<exists>sg' \<in> set (co_signatures co'). sig_name sg' = sig_name sg \<and> sig_key_id sg' = sig_key_id sg \<and> sig_bytes sg' = sig_bytes sg"
  using assms by (auto simp: add_external_signature_line_def split: if_splits)

definition round_ok :: "crypto \<Rightarrow> cosigned_checkpoint \<Rightarrow> external_witness set \<Rightarrow> 'n round \<Rightarrow> bool" where
  "round_ok cr co0 W rd \<longleftrightarrow>
     co_checkpoint (rd_cosigned rd) = co_checkpoint co0 \<and> (\<exists>ys. co_signatures (rd_cosigned rd) = co_signatures co0 @ ys) \<and>
     (\<exists>ws. set ws \<subseteq> W \<and> distinct (map xw_name ws) \<and> distinct (map public_key ws) \<and> length ws = rd_count rd \<and>
        map xw_name ws = rd_names rd \<and> public_key ` set ws \<subseteq> set (rd_keys rd) \<and>
        (\<forall>w \<in> set ws. endorsed cr (rd_cosigned rd) w))"

lemma endorsed_mono:
  "endorsed cr co w \<Longrightarrow> co_checkpoint co' = co_checkpoint co \<Longrightarrow> \<exists>ys. co_signatures co' = co_signatures co @ ys \<Longrightarrow> endorsed cr co' w"
  unfolding endorsed_def by (metis Un_iff set_append)

lemma round_ok_sizes [simp]: "round_ok cr co0 W (rd\<lparr>rd_sizes := a, rd_net := b\<rparr>) = round_ok cr co0 W rd"
  by (simp add: round_ok_def)

lemma count_signature_ok:
  assumes "round_ok cr co0 W rd" and "endorsed cr co w" and "w \<in> W"
    and "co_checkpoint co = co_checkpoint (rd_cosigned rd)" and "\<exists>ys. co_signatures co = co_signatures (rd_cosigned rd) @ ys"
  shows "round_ok cr co0 W (count_signature w (rd\<lparr>rd_net := net, rd_cosigned := co, rd_sizes := sz\<rparr>))"
proof -
  obtain ws where ws: "set ws \<subseteq> W" "distinct (map xw_name ws)" "distinct (map public_key ws)" "length ws = rd_count rd"
      "map xw_name ws = rd_names rd" "public_key ` set ws \<subseteq> set (rd_keys rd)" "\<forall>w \<in> set ws. endorsed cr (rd_cosigned rd) w"
    and cp: "co_checkpoint (rd_cosigned rd) = co_checkpoint co0" and pre: "\<exists>ys. co_signatures (rd_cosigned rd) = co_signatures co0 @ ys"
    using assms(1) unfolding round_ok_def by blast
  have all: "\<forall>w \<in> set ws. endorsed cr co w" using ws(7) endorsed_mono assms(4,5) by blast
  have cp': "co_checkpoint co = co_checkpoint co0" and pre': "\<exists>ys. co_signatures co = co_signatures co0 @ ys"
    using cp pre assms(4,5) by auto
  consider "public_key w \<in> set (rd_keys rd)" | "public_key w \<notin> set (rd_keys rd)" "xw_name w \<in> set (rd_names rd)"
    | "public_key w \<notin> set (rd_keys rd)" "xw_name w \<notin> set (rd_names rd)" by blast
  then show ?thesis
  proof cases
    case 1
    then show ?thesis unfolding round_ok_def using ws all cp' pre'
      by (auto simp: count_signature_def intro!: exI [of _ ws])
  next
    case 2
    then show ?thesis unfolding round_ok_def using ws all cp' pre'
      by (auto simp: count_signature_def Let_def intro!: exI [of _ ws])
  next
    case 3
    then have "w \<notin> set ws" "xw_name w \<notin> set (map xw_name ws)" "public_key w \<notin> set (map public_key ws)"
      using ws(5,6) by auto
    moreover have "public_key ` set (w # ws) \<subseteq> set (public_key w # rd_keys rd)" using ws(6) by auto
    ultimately show ?thesis unfolding round_ok_def using 3 ws(1-5) all cp' pre' assms(2,3)
      by (simp add: count_signature_def Let_def) (intro exI [of _ "w # ws"], simp)
  qed
qed

lemma ask_witness_ok:
  assumes "round_ok cr co0 W rd" and "w \<in> W"
  shows "round_ok cr co0 W (ask_witness cr hc read post size_now w rd)"
proof -
  let ?old = "get_size (xw_url w) (rd_sizes rd)"
  let ?pf = "if ?old \<noteq> 0 \<and> ?old \<noteq> size_now then generate_consistency_proof_simple hc read ?old size_now else Inr []"
  show ?thesis
  proof (cases ?pf)
    case (Inl e)
    then have "ask_witness cr hc read post size_now w rd = rd" by (simp only: ask_witness_def Let_def sum.case)
    then show ?thesis using assms(1) by simp
  next
    case pf: (Inr pf)
    obtain r sizes net where call: "call_external_witness cr post w (rd_cosigned rd) ?old pf (rd_sizes rd, rd_net rd) = (r, (sizes, net))"
      by (metis prod.exhaust)
    note ask = ask_witness_def [of cr hc read post size_now w rd, unfolded Let_def, unfolded pf sum.case call prod.case]
    show ?thesis
    proof (cases r)
      case (Inl e)
      then show ?thesis using assms(1) by (simp add: ask)
    next
      case (Inr line)
      obtain sg where sg: "from_line cr line = Inr sg"
        "verify_cosignature cr (xw_key w) sg (str_bytes (to_body cr (co_checkpoint (rd_cosigned rd)))) = Inr ()"
        using call_ok [OF call [unfolded Inr]] by auto
      show ?thesis
      proof (cases "add_external_signature_line cr (xw_name w) line (rd_cosigned rd)")
        case Inl
        then show ?thesis using assms(1) by (simp add: ask Inr)
      next
        case co: (Inr co)
        note add = add_line_ok [OF co sg(1)]
        have "endorsed cr co w" using sg(2) add(2,4) by (auto simp: endorsed_def)
        then have "round_ok cr co0 W (count_signature w (rd\<lparr>rd_net := net, rd_cosigned := co, rd_sizes := set_size (xw_url w) size_now sizes\<rparr>))"
          using assms add(2,3) by (intro count_signature_ok) simp_all
        then show ?thesis by (simp add: ask Inr co)
      qed
    qed
  qed
qed

lemma ask_all_ok:
  assumes "round_ok cr co0 W rd" and "set ws \<subseteq> W"
  shows "round_ok cr co0 W (fold (ask_witness cr hc read post size_now) ws rd)"
  using assms by (induction ws arbitrary: rd) (auto simp: ask_witness_ok)

lemma local_cosignatures_ok:
  assumes "local_cosignatures cr witnesses co = Inr co'"
  shows "co_checkpoint co' = co_checkpoint co \<and> (\<exists>ys. co_signatures co' = co_signatures co @ ys)"
  using assms unfolding local_cosignatures_def
  by (rule fold_res_invariant) (auto simp: res_simps)


definition published ::
  "crypto \<Rightarrow> 's operator \<Rightarrow> checkpoint_signer \<Rightarrow> external_witness list \<Rightarrow> nat option \<Rightarrow> checkpoint
    \<Rightarrow> ('s, 'n) publisher \<Rightarrow> ('s, 'n) publisher \<Rightarrow> cosigned_checkpoint \<Rightarrow> external_witness list \<Rightarrow> bool" where
  "published cr op signer externals quorum cp pb pb' co ws \<longleftrightarrow>
     pb_store pb' = snd (write_checkpoint op (str_bytes (to_text cr co)) (pb_store pb)) \<and>
     co_checkpoint co = cp \<and> List.member (co_signatures co) (plain_signature cr signer cp) \<and>
     (case quorum of None \<Rightarrow> length externals | Some q \<Rightarrow> q) \<le> length ws \<and>
     distinct (map xw_name ws) \<and> distinct (map public_key ws) \<and>
     list_all (\<lambda>w. List.member externals w \<and> endorsed cr co w) ws"

lemma publish_cases:
  assumes "publish_checkpoint cr hc op post db signer witnesses externals quorum origin pb = (r, pb')"
  shows "(pb_store pb' = pb_store pb \<and> pb_last pb' = pb_last pb) \<or>
    (\<exists>state root co ws. get_log_state db = Inr state \<and> checkpoint_root state = Some root \<and>
       published cr op signer externals quorum \<lparr>cp_origin = origin, cp_size = integrated_size state, cp_root = root\<rparr> pb pb' co ws)"
proof (rule ccontr)
  assume neg: "\<not> ?thesis"
  obtain state root where st: "get_log_state db = Inr state" and root: "checkpoint_root state = Some root"
    using neg assms by (auto simp: publish_checkpoint_def split: sum.splits option.splits)
  let ?cp = "\<lparr>cp_origin = origin, cp_size = integrated_size state, cp_root = root\<rparr>"
  have new: "\<not> (lp_size (pb_last pb) = integrated_size state \<and> lp_root_hash (pb_last pb) = Some root)"
    using neg assms st root by (auto simp: publish_checkpoint_def)
  note pc = publish_checkpoint_def [of cr hc op post db signer witnesses externals quorum origin pb, unfolded st root sum.case option.case Let_def, unfolded if_not_P [OF new]]
  obtain co where co: "local_cosignatures cr witnesses (cosigned_new cr ?cp signer) = Inr co"
    using neg assms unfolding pc by (cases "local_cosignatures cr witnesses (cosigned_new cr ?cp signer)") auto
  define rd where "rd = fold (ask_witness cr hc (Tile_Store.read_tile op (pb_store pb)) post (integrated_size state)) externals
      \<lparr>rd_cosigned = co, rd_count = 0, rd_keys = [], rd_names = [], rd_sizes = pb_sizes pb, rd_net = pb_net pb\<rparr>"
  note run = assms [unfolded pc co sum.case, folded rd_def]
  have q: "\<not> rd_count rd < (case quorum of None \<Rightarrow> length externals | Some q \<Rightarrow> q)" using neg run by auto
  have "round_ok cr co (set externals) rd"
    unfolding rd_def by (rule ask_all_ok) (simp_all add: round_ok_def)
  then obtain ws where ws: "set ws \<subseteq> set externals" "distinct (map xw_name ws)" "distinct (map public_key ws)" "length ws = rd_count rd"
      "\<forall>w \<in> set ws. endorsed cr (rd_cosigned rd) w" and cp: "co_checkpoint (rd_cosigned rd) = co_checkpoint co"
    and pre: "\<exists>ys. co_signatures (rd_cosigned rd) = co_signatures co @ ys"
    unfolding round_ok_def by blast
  have loc: "co_checkpoint co = ?cp" "\<exists>ys. co_signatures co = plain_signature cr signer ?cp # ys"
    using local_cosignatures_ok [OF co] by (auto simp: cosigned_new_def)
  have "pb_store pb' = snd (write_checkpoint op (str_bytes (to_text cr (rd_cosigned rd))) (pb_store pb))"
    using run q by (auto split: prod.splits sum.splits)
  then have "published cr op signer externals quorum ?cp pb pb' (rd_cosigned rd) ws"
    using ws q cp pre loc by (auto simp: published_def list_all_iff)
  then show False using neg st root by blast
qed


subsection \<open>A siglog witness answers a siglog publisher\<close>

definition response_bytes :: "response \<Rightarrow> byte list" where
  "response_bytes r = str_bytes (case resp_body r of Exact s \<Rightarrow> s | Message s \<Rightarrow> s)"

definition witness_post :: "crypto \<Rightarrow> hash_fn \<Rightarrow> witness \<Rightarrow> nat option \<Rightarrow> witness_table post" where
  "witness_post cr hc wit now url body t =
     (case handle_add_checkpoint cr hc wit now (str_bytes body) t of
        (resp, t') \<Rightarrow> (Some (resp_status resp, [Inr (response_bytes resp)]), t'))"

lemma utf8_line:
  assumes "b64_laws cr" and "utf8_ok (str_bytes (sig_name sg))"
  shows "utf8_ok (str_bytes (to_line cr sg))"
proof -
  have "utf8_ok (str_bytes (b64_encode cr bs))" for bs
    using assms(1) by (intro utf8_ok_plain) (simp add: b64_laws_def)
  moreover have "utf8_ok (str_bytes sig_prefix)" "utf8_ok (str_bytes '' '')"
    by (simp_all add: str_bytes_def sig_prefix_def utf8_ok.simps(2) utf8_second_def utf8_cont_def)
  ultimately show ?thesis
    using assms(2) unfolding to_line_def Let_def str_bytes_append by (intro utf8_ok_append) simp_all
qed

lemma utf8_terminated:
  assumes "\<forall>p \<in> set ps. utf8_ok (str_bytes p)"
  shows "utf8_ok (str_bytes (concat (map (\<lambda>p. p @ [newline]) ps)))"
  using assms
proof (induction ps)
  case (Cons p ps)
  have "utf8_ok (str_bytes [newline])" by (simp add: str_bytes_def newline_def utf8_ok.simps(2))
  then show ?case
    using Cons by (simp add: str_bytes_append utf8_ok_append del: append.simps append_assoc flip: append_assoc)
qed (simp add: str_bytes_def)

lemma utf8_dec: "utf8_ok (str_bytes (dec n))"
  using dec_digits [of n] by (intro utf8_ok_plain) (auto simp: list_all_iff digit_plain)

lemma utf8_hash_text: "b64_laws cr \<Longrightarrow> utf8_ok (str_bytes (hash_text cr h))"
  by (intro utf8_ok_plain) (simp add: b64_laws_def hash_text_def)

lemma utf8_checkpoint_lines:
  assumes "b64_laws cr" and "utf8_ok (str_bytes (cp_origin (co_checkpoint co)))"
    and "\<forall>sg \<in> set (co_signatures co). utf8_ok (str_bytes (sig_name sg))"
  shows "\<forall>p \<in> set (checkpoint_lines cr co). utf8_ok (str_bytes p)"
proof -
  have "utf8_ok (str_bytes [])" by (simp add: str_bytes_def)
  then show ?thesis
    using utf8_line [OF assms(1)] utf8_hash_text [OF assms(1)] utf8_dec assms(2,3)
    by (auto simp: checkpoint_lines_def)
qed

lemma utf8_to_text:
  assumes "b64_laws cr" and "utf8_ok (str_bytes (cp_origin (co_checkpoint co)))"
    and "\<forall>sg \<in> set (co_signatures co). utf8_ok (str_bytes (sig_name sg))"
  shows "utf8_ok (str_bytes (to_text cr co))"
  unfolding to_text_lines [OF assms(1)] by (intro utf8_terminated utf8_checkpoint_lines assms)

lemma utf8_request:
  assumes "b64_laws cr" and "utf8_ok (str_bytes (cp_origin (co_checkpoint co)))"
    and "\<forall>sg \<in> set (co_signatures co). utf8_ok (str_bytes (sig_name sg))"
  shows "utf8_ok (str_bytes (request_body cr old_size pf co))"
proof -
  have "utf8_ok (str_bytes ''old '')" by (simp add: str_bytes_def utf8_ok.simps(2))
  moreover have "utf8_ok (str_bytes [])" by (simp add: str_bytes_def)
  ultimately show ?thesis
    unfolding request_lines [OF assms(1)]
    using utf8_checkpoint_lines [OF assms] utf8_hash_text [OF assms(1)] utf8_dec
    by (intro utf8_terminated) (auto simp: str_bytes_append intro: utf8_ok_append simp del: append.simps)
qed


text \<open>The parties: a checkpoint of the log's leaves, and a witness that knows the log's key.\<close>

definition honest_checkpoint :: "crypto \<Rightarrow> hash_fn \<Rightarrow> witness \<Rightarrow> sha256_hash list \<Rightarrow> cosigned_checkpoint \<Rightarrow> bool" where
  "honest_checkpoint cr hc wit D co \<longleftrightarrow>
     cp_size (co_checkpoint co) = length D \<and> cp_root (co_checkpoint co) = mth hc empty_root_hash D \<and>
     checkpoint_wf (co_checkpoint co) \<and> utf8_ok (str_bytes (cp_origin (co_checkpoint co))) \<and>
     co_signatures co \<noteq> [] \<and>
     (\<forall>sg \<in> set (co_signatures co). signature_wf sg \<and> utf8_ok (str_bytes (sig_name sg))) \<and>
     (case find (\<lambda>l. lc_origin l = cp_origin (co_checkpoint co)) (wit_logs wit) of
        None \<Rightarrow> False | Some l \<Rightarrow> verify cr l co = Inr ())"

definition witness_party :: "crypto \<Rightarrow> witness \<Rightarrow> external_witness \<Rightarrow> bool" where
  "witness_party cr wit w \<longleftrightarrow>
     (\<exists>seed. wit_signer wit = from_seed cr (xw_name w) seed \<and> \<not> ed_weak cr (ed_public cr seed) \<and>
        lc_verifying_key (xw_key w) = ed_public cr seed) \<and>
     lc_key_name (xw_key w) = xw_name w \<and> CHR '' '' \<notin> set (xw_name w) \<and> newline \<notin> set (xw_name w) \<and>
     utf8_ok (str_bytes (xw_name w)) \<and> length (xw_name w) \<le> 3000"

lemma party_cosignature:
  assumes laws: "b64_laws cr" "sha_laws cr" "ed_laws cr" and w: "witness_party cr wit w" and ts: "ts \<le> u64_max"
    and body: "utf8_ok (str_bytes (to_body cr cp))"
  shows "signature_wf (cosign_v1 cr (wit_signer wit) cp ts)"
    and "sig_name (cosign_v1 cr (wit_signer wit) cp ts) = xw_name w"
    and "verify_cosignature cr (xw_key w) (cosign_v1 cr (wit_signer wit) cp ts) (str_bytes (to_body cr cp)) = Inr ()"
    and "length (to_line cr (cosign_v1 cr (wit_signer wit) cp ts)) \<le> 4096"
    and "utf8_ok (str_bytes (to_line cr (cosign_v1 cr (wit_signer wit) cp ts)))"
proof -
  let ?sg = "cosign_v1 cr (wit_signer wit) cp ts"
  obtain seed where seed: "wit_signer wit = from_seed cr (xw_name w) seed" "lc_verifying_key (xw_key w) = ed_public cr seed"
    and name: "lc_key_name (xw_key w) = xw_name w" "CHR '' '' \<notin> set (xw_name w)" "newline \<notin> set (xw_name w)"
      "utf8_ok (str_bytes (xw_name w))" "length (xw_name w) \<le> 3000"
    using w by (auto simp: witness_party_def)
  show wf: "signature_wf ?sg"
    using name(2,3) ts key_id_length [OF laws(2)] laws(3)
    by (simp add: signature_wf_def cosign_v1_def seed(1) from_seed_def cosignature_v1_key_id_def ed_laws_def)
  show nm: "sig_name ?sg = xw_name w" by (simp add: cosign_v1_def seed(1) from_seed_def)
  show "verify_cosignature cr (xw_key w) ?sg (str_bytes (to_body cr cp)) = Inr ()"
    using laws(3) body name(1)
    by (simp add: verify_cosignature_def cosign_v1_def seed from_seed_def cosignature_v1_key_id_def ALG_COSIGNATURE_V1_def ed_laws_def)
  let ?d = "sig_key_id ?sg @ be_bytes 8 ts @ sig_bytes ?sg"
  have "sig_timestamp ?sg = Some ts" by (simp add: cosign_v1_def)
  then have line: "to_line cr ?sg = sig_prefix @ xw_name w @ '' '' @ b64_encode cr ?d"
    by (simp add: to_line_def nm)
  have "length (b64_encode cr ?d) \<le> 4 * length ?d" using laws(1) unfolding b64_laws_def by blast
  moreover have "length ?d = 76" using wf by (simp add: signature_wf_def)
  ultimately show "length (to_line cr ?sg) \<le> 4096" using name(5) by (simp add: line)
  show "utf8_ok (str_bytes (to_line cr ?sg))" using utf8_line [OF laws(1)] name(4) nm by simp
qed

lemma witness_answers:
  assumes laws: "b64_laws cr" "sha_laws cr" "ed_laws cr" and w: "witness_party cr wit w" and ts: "ts \<le> u64_max"
    and co: "honest_checkpoint cr hc wit D co" and D: "length D \<le> i64_max" and m: "m \<le> length D"
    and t: "table_ok t" "current t (cp_origin (co_checkpoint co)) = (m, mth hc empty_root_hash (take m D))"
  shows "\<exists>t'. call_external_witness cr (witness_post cr hc wit (Some ts)) w co m (rfc_proof hc empty_root_hash m D) (sizes, t)
      = (Inr (to_line cr (cosign_v1 cr (wit_signer wit) (co_checkpoint co) ts)), (sizes, t'))
    \<and> table_ok t' \<and> witnessed t' = (witnessed t)(cp_origin (co_checkpoint co) \<mapsto> (length D, mth hc empty_root_hash D))"
proof -
  let ?pf = "rfc_proof hc empty_root_hash m D" and ?cp = "co_checkpoint co"
  let ?rq = "\<lparr>rq_old_size = m, rq_proof = ?pf, rq_checkpoint = join_lines (checkpoint_lines cr co)\<rparr>"
  let ?sg = "cosign_v1 cr (wit_signer wit) ?cp ts"
  have size: "cp_size ?cp = length D" and root: "cp_root ?cp = mth hc empty_root_hash D" and wf: "checkpoint_wf ?cp"
    and utf: "utf8_ok (str_bytes (cp_origin ?cp))" and ne: "co_signatures co \<noteq> []"
    and sigs: "\<forall>sg \<in> set (co_signatures co). signature_wf sg" "\<forall>sg \<in> set (co_signatures co). utf8_ok (str_bytes (sig_name sg))"
    using co by (auto simp: honest_checkpoint_def)
  obtain l where l: "find (\<lambda>l. lc_origin l = cp_origin ?cp) (wit_logs wit) = Some l" "verify cr l co = Inr ()"
    using co by (auto simp: honest_checkpoint_def split: option.splits)
  have "length D \<le> 2 ^ 63" using D by simp
  then have "length ?pf \<le> MAX_PROOF_HASHES" using rfc_proof_bound [of D 63 hc empty_root_hash m] by (simp add: MAX_PROOF_HASHES_def)
  then have ascii: "from_ascii cr (request_body cr m ?pf co) = Inr ?rq"
    using request_roundtrip [OF laws(1) wf ne sigs(1)] m D by simp
  have chk: "check_request cr wit ?rq = Inr co"
    using checkpoint_lines_parse(1) [OF laws(1) wf ne sigs(1)] l size m D by (simp add: check_request_def Let_def)
  have cp: "?cp = \<lparr>cp_origin = cp_origin ?cp, cp_size = length D, cp_root = mth hc empty_root_hash D\<rparr>"
    using size root by (metis checkpoint.surjective old.unit.exhaust)
  obtain t' where add: "add_checkpoint cr hc wit (Some ts) ?rq t = (Inr ?sg, t')" and t': "table_ok t'"
      "witnessed t' = (witnessed t)(cp_origin ?cp \<mapsto> (length D, mth hc empty_root_hash D))"
    using honest_request [OF t(1) chk m cp t(2), of ts] by auto
  have body: "utf8_ok (str_bytes (to_body cr ?cp))" by (rule body_utf8 [OF laws(1) utf])
  note sg = party_cosignature [OF laws w ts body]
  have hnd: "handle_add_checkpoint cr hc wit (Some ts) (str_bytes (request_body cr m ?pf co)) t
      = (plain_response 200 (Exact (to_line cr ?sg)), t')"
    using utf8_request [OF laws(1) utf sigs(2)] ascii add by (simp add: handle_add_checkpoint_def)
  have "call_external_witness cr (witness_post cr hc wit (Some ts)) w co m ?pf (sizes, t) = (Inr (to_line cr ?sg), (sizes, t'))"
    using sg(3-5) line_roundtrip [OF laws(1) sg(1)]
    by (simp add: call_external_witness_def witness_post_def hnd response_bytes_def plain_response_def Let_def)
  then show ?thesis using t' by blast
qed

text \<open>One round of the publisher with such a witness: it is counted and stays in step.\<close>

lemma publisher_round:
  assumes laws: "b64_laws cr" "sha_laws cr" "ed_laws cr" and w: "witness_party cr wit w" and ts: "ts \<le> u64_max"
    and co: "honest_checkpoint cr hc wit D (rd_cosigned rd)" and s: "store_serves hc op s D" and m: "m \<le> length D"
    and t: "table_ok (rd_net rd)" "current (rd_net rd) (cp_origin (co_checkpoint (rd_cosigned rd))) = (m, mth hc empty_root_hash (take m D))"
    and sz: "get_size (xw_url w) (rd_sizes rd) = m"
    and fresh: "xw_name w \<notin> set (rd_names rd)" "public_key w \<notin> set (rd_keys rd)"
  shows "\<exists>rd'. ask_witness cr hc (Tile_Store.read_tile op s) (witness_post cr hc wit (Some ts)) (length D) w rd = rd'
    \<and> rd_count rd' = rd_count rd + 1 \<and> get_size (xw_url w) (rd_sizes rd') = length D
    \<and> current (rd_net rd') (cp_origin (co_checkpoint (rd_cosigned rd))) = (length D, mth hc empty_root_hash D)
    \<and> has_signature_from (rd_cosigned rd') (xw_name w)"
proof -
  let ?pf = "rfc_proof hc empty_root_hash m D"
  have D: "length D \<le> i64_max" using s by (simp add: store_serves_def)
  have pf: "(if m \<noteq> 0 \<and> m \<noteq> length D then generate_consistency_proof_simple hc (Tile_Store.read_tile op s) m (length D) else Inr []) = Inr ?pf"
    using store.generate_consistency_ok [OF s m] by (auto simp: rfc_proof_def rfc_subproof.simps)
  obtain t' where call: "call_external_witness cr (witness_post cr hc wit (Some ts)) w (rd_cosigned rd) m ?pf (rd_sizes rd, rd_net rd)
      = (Inr (to_line cr (cosign_v1 cr (wit_signer wit) (co_checkpoint (rd_cosigned rd)) ts)), (rd_sizes rd, t'))"
    and t': "witnessed t' = (witnessed (rd_net rd))(cp_origin (co_checkpoint (rd_cosigned rd)) \<mapsto> (length D, mth hc empty_root_hash D))"
    using witness_answers [OF laws w ts co D m t, of "rd_sizes rd"] by blast
  have utf: "utf8_ok (str_bytes (cp_origin (co_checkpoint (rd_cosigned rd))))" using co by (simp add: honest_checkpoint_def)
  note sg = party_cosignature [OF laws w ts body_utf8 [OF laws(1) utf]]
  obtain co' where add: "add_external_signature_line cr (xw_name w)
      (to_line cr (cosign_v1 cr (wit_signer wit) (co_checkpoint (rd_cosigned rd)) ts)) (rd_cosigned rd) = Inr co'"
    using line_roundtrip [OF laws(1) sg(1)] sg(2) by (simp add: add_external_signature_line_def)
  have has: "has_signature_from co' (xw_name w)"
    using add_line_ok(4) [OF add line_roundtrip [OF laws(1) sg(1)]] sg(2) by (auto simp: has_signature_from_def)
  have "ask_witness cr hc (Tile_Store.read_tile op s) (witness_post cr hc wit (Some ts)) (length D) w rd =
      count_signature w (rd\<lparr>rd_net := t', rd_cosigned := co', rd_sizes := set_size (xw_url w) (length D) (rd_sizes rd)\<rparr>)"
    unfolding ask_witness_def Let_def sz pf sum.case call prod.case add by simp
  then show ?thesis
    using fresh has t' by (simp add: count_signature_def Let_def get_size_def set_size_def current_def)
qed

end
