(* ===== verification/Witness_Safety.thy ===== *)
theory Witness_Safety
  imports Witness
begin

text \<open>
  What the witness guarantees, over all interleavings of its requests: cosigned checkpoints of one
  log never show two histories, the witnessed size never falls below a cosigned one, and only
  checkpoints signed by the configured log are cosigned. An honest log is cosigned, and a request
  that runs alone behaves as the handler reads sequentially.
\<close>


subsection \<open>A concrete run\<close>

definition demo_signer :: checkpoint_signer where
  "demo_signer = from_seed demo_crypto ''log'' [7]"

definition demo_cp :: "sha256_hash list \<Rightarrow> checkpoint" where
  "demo_cp D = \<lparr>cp_origin = ''log'', cp_size = length D, cp_root = mth demo_hash empty_root_hash D\<rparr>"

definition demo_request :: "nat \<Rightarrow> sha256_hash list \<Rightarrow> sha256_hash list \<Rightarrow> add_checkpoint_request" where
  "demo_request m pf D =
     \<lparr>rq_old_size = m, rq_proof = pf, rq_checkpoint = to_text demo_crypto (cosigned_new demo_crypto (demo_cp D) demo_signer)\<rparr>"

lemma demo_signer_wf: "signature_wf (plain_signature demo_crypto demo_signer cp)"
  using key_id_length [OF demo_sha, of "''log''"] demo_ed
  by (simp add: signature_wf_def plain_signature_def demo_signer_def from_seed_def compute_key_id_def newline_def ed_laws_def)

lemma demo_cp_wf: "length D \<le> u64_max \<Longrightarrow> checkpoint_wf (demo_cp D)"
  by (simp add: checkpoint_wf_def demo_cp_def origin_new_def plain_def newline_def)

lemma demo_config:
  "\<exists>cfg. log_config_new demo_crypto ''log'' (verification_key demo_crypto demo_signer) = Inr cfg \<and> lc_origin cfg = ''log''
     \<and> (\<forall>D. verify demo_crypto cfg (cosigned_new demo_crypto (demo_cp D) demo_signer) = Inr ())"
proof -
  have "\<not> ed_weak demo_crypto (ed_public demo_crypto [7])" by (simp add: demo_crypto_def)
  then have "parse_vkey demo_crypto (verification_key demo_crypto demo_signer)
      = Inr (''log'', ALG_ED25519, compute_key_id_with_alg demo_crypto ''log'' (ed_public demo_crypto [7]) ALG_ED25519, ed_public demo_crypto [7])"
    unfolding demo_signer_def verification_key_text using demo_ed
    by (intro parse_vkey_text) (simp_all add: ed_laws_def ALG_ED25519_def key_name_ok_def plain_def)
  then show ?thesis
    using demo_ed by (simp add: log_config_new_def new_witness_def verify_iff verify_signature_iff demo_signer_def demo_cp_def
        cosigned_new_def plain_signature_def from_seed_def compute_key_id_def ed_laws_def)
qed

definition demo_witness :: "log_config \<Rightarrow> witness" where
  "demo_witness cfg = \<lparr>wit_signer = from_seed demo_crypto ''w'' [9], wit_logs = [cfg]\<rparr>"

lemma demo_checked:
  assumes "lc_origin cfg = ''log''" and "verify demo_crypto cfg (cosigned_new demo_crypto (demo_cp D) demo_signer) = Inr ()"
    and "m \<le> length D" and "length D \<le> i64_max"
  shows "check_request demo_crypto (demo_witness cfg) (demo_request m pf D) = Inr (cosigned_new demo_crypto (demo_cp D) demo_signer)"
proof -
  let ?co = "cosigned_new demo_crypto (demo_cp D) demo_signer"
  have "from_text demo_crypto (to_text demo_crypto ?co) = Inr ?co"
    using demo_cp_wf [of D] demo_signer_wf [of "demo_cp D"] assms(4)
    by (intro text_roundtrip) (simp_all add: cosigned_new_def)
  then show ?thesis
    using assms by (simp add: check_request_def demo_request_def demo_witness_def cosigned_new_def demo_cp_def Let_def)
qed

text \<open>Two checkpoints, of three and of five leaves, cosigned one after the other.\<close>

lemma demo_witness_run:
  "\<exists>wit sy. witness_reachable demo_crypto demo_hash wit sy \<and> cosigned sy (demo_cp [5, 6, 7]) \<and> cosigned sy (demo_cp [5, 6, 7, 8, 9])
     \<and> proof_calls demo_hash sy = link_calls demo_hash {[], rfc_proof demo_hash empty_root_hash 3 [5, 6, 7, 8, 9]} (0, empty_root_hash) (target (demo_cp [5, 6, 7]))
        \<union> link_calls demo_hash {[], rfc_proof demo_hash empty_root_hash 3 [5, 6, 7, 8, 9]} (target (demo_cp [5, 6, 7])) (target (demo_cp [5, 6, 7, 8, 9]))"
proof -
  let ?D = "[5, 6, 7] :: sha256_hash list" and ?E = "[5, 6, 7, 8, 9] :: sha256_hash list"
  let ?pf = "rfc_proof demo_hash empty_root_hash 3 ?E"
  obtain cfg where cfg: "lc_origin cfg = ''log''" "\<And>D. verify demo_crypto cfg (cosigned_new demo_crypto (demo_cp D) demo_signer) = Inr ()"
    using demo_config by blast
  have origin: "cp_origin (demo_cp D) = ''log''" for D by (simp add: demo_cp_def)
  have co: "co_checkpoint (cosigned_new demo_crypto (demo_cp D) demo_signer) = demo_cp D" for D by (simp add: cosigned_new_def)
  let ?w = "demo_witness cfg"
  have c1: "check_request demo_crypto ?w (demo_request 0 [] ?D) = Inr (cosigned_new demo_crypto (demo_cp ?D) demo_signer)"
    and c2: "check_request demo_crypto ?w (demo_request 3 ?pf ?E) = Inr (cosigned_new demo_crypto (demo_cp ?E) demo_signer)"
    using cfg by (simp_all add: demo_checked)
  have d1: "decide demo_hash (state_at (cp_origin (demo_cp ?D)) (current (sy_table witness_start) (cp_origin (demo_cp ?D)))) (demo_request 0 [] ?D) (demo_cp ?D) = Inr ()"
    by (simp add: decide_def demo_request_def demo_cp_def state_at_def current_def witness_start_def witnessed_def)
  obtain s1 where s1: "witness_reachable demo_crypto demo_hash ?w s1" "cosigned s1 (demo_cp ?D)"
      "sy_history s1 = [(''log'', (0, empty_root_hash), target (demo_cp ?D))]" "proofs s1 = {[]}"
      "current (sy_table s1) ''log'' = target (demo_cp ?D)"
    using cosign_run [OF _ c1 co [symmetric] d1] by (auto simp: origin witness_start_def current_def witnessed_def proofs_def demo_request_def)
  have v: "verify_consistency demo_hash 3 5 (mth demo_hash empty_root_hash ?D) (mth demo_hash empty_root_hash ?E) ?pf = Inr ()"
  proof -
    have pre: "3 \<le> length ?E" "length ?E \<le> 2 ^ 63" and len: "length ?E = 5" and pfx: "take 3 ?E = ?D" by simp_all
    show ?thesis using verify_rfc_proof [OF pre, of empty_root_hash demo_hash] unfolding len pfx by simp
  qed
  have d2: "decide demo_hash (state_at (cp_origin (demo_cp ?E)) (current (sy_table s1) (cp_origin (demo_cp ?E)))) (demo_request 3 ?pf ?E) (demo_cp ?E) = Inr ()"
  proof -
    have "cp_size (demo_cp ?D) = 3" "cp_size (demo_cp ?E) = 5" "\<And>D. cp_root (demo_cp D) = mth demo_hash empty_root_hash D"
      by (simp_all add: demo_cp_def)
    then show ?thesis unfolding origin s1(5) using v by (simp add: decide_def demo_request_def state_at_def target_def)
  qed
  obtain s2 where "witness_reachable demo_crypto demo_hash ?w s2" "cosigned s2 (demo_cp ?E)" "cosigned s2 (demo_cp ?D)"
      "sy_history s2 = [(''log'', (0, empty_root_hash), target (demo_cp ?D)), (''log'', target (demo_cp ?D), target (demo_cp ?E))]"
      "proofs s2 = {?pf, []}"
    using cosign_run [OF s1(1) c2 co [symmetric] d2] s1(2-) by (auto simp: origin demo_request_def)
  then show ?thesis
    by (intro exI [of _ ?w] exI [of _ s2]) (simp add: proof_calls_def insert_commute)
qed

lemma demo_collision_free:
  "collision_free demo_hash (mth_calls demo_hash empty_root_hash [5, 6, 7, 8, 9]
     \<union> (link_calls demo_hash {[], rfc_proof demo_hash empty_root_hash 3 [5, 6, 7, 8, 9]} (0, empty_root_hash) (target (demo_cp [5, 6, 7]))
        \<union> link_calls demo_hash {[], rfc_proof demo_hash empty_root_hash 3 [5, 6, 7, 8, 9]} (target (demo_cp [5, 6, 7])) (target (demo_cp [5, 6, 7, 8, 9]))))"
  by code_simp


subsection \<open>Properties\<close>

text \<open>C2. No split view: whatever requests arrive and however their database statements interleave or
  fail, if a cosigned checkpoint of a log has the root of the leaves \<open>E\<close>, then every checkpoint of
  that log cosigned with the same or a smaller size has the root of a prefix of \<open>E\<close>. The hash is
  only assumed not to collide on the pairs that \<open>E\<close> and the checked proofs hash.\<close>

theorem witness_no_split_view:
  assumes "witness_reachable cr hc wit sy" and "cosigned sy a" and "cosigned sy b"
    and "cp_origin a = cp_origin b" and "cp_size a \<le> cp_size b"
    and "length E = cp_size b" and "cp_root b = mth hc empty_root_hash E"
    and "collision_free hc (mth_calls hc empty_root_hash E \<union> proof_calls hc sy)"
  shows "cp_root a = mth hc empty_root_hash (take (cp_size a) E)"
  using system_ok_reachable [OF assms(1)] assms(2-) by (rule cosigned_prefix)

theorem witness_no_split_view_witness:
  "\<exists>wit sy. witness_reachable demo_crypto demo_hash wit sy \<and> cosigned sy (demo_cp [5, 6, 7]) \<and> cosigned sy (demo_cp [5, 6, 7, 8, 9])
     \<and> cp_root (demo_cp [5, 6, 7]) = mth demo_hash empty_root_hash (take 3 [5, 6, 7, 8, 9])"
proof -
  obtain wit sy where run: "witness_reachable demo_crypto demo_hash wit sy" "cosigned sy (demo_cp [5, 6, 7])" "cosigned sy (demo_cp [5, 6, 7, 8, 9])"
    and calls: "proof_calls demo_hash sy = link_calls demo_hash {[], rfc_proof demo_hash empty_root_hash 3 [5, 6, 7, 8, 9]} (0, empty_root_hash) (target (demo_cp [5, 6, 7]))
        \<union> link_calls demo_hash {[], rfc_proof demo_hash empty_root_hash 3 [5, 6, 7, 8, 9]} (target (demo_cp [5, 6, 7])) (target (demo_cp [5, 6, 7, 8, 9]))"
    using demo_witness_run by blast
  have "cp_root (demo_cp [5, 6, 7]) = mth demo_hash empty_root_hash (take (cp_size (demo_cp [5, 6, 7])) [5, 6, 7, 8, 9])"
  proof (rule witness_no_split_view [OF run])
    show "collision_free demo_hash (mth_calls demo_hash empty_root_hash [5, 6, 7, 8, 9] \<union> proof_calls demo_hash sy)"
      unfolding calls by (rule demo_collision_free)
  qed (simp_all add: demo_cp_def)
  moreover have "cp_size (demo_cp [5, 6, 7]) = 3" by (simp add: demo_cp_def)
  ultimately show ?thesis using run by metis
qed

text \<open>C8. A cosignature is never ahead of the table: at all times the table holds, for the origin of a
  cosigned checkpoint, at least its size, and its root when the sizes are equal. So the state was
  persisted before the signature was returned and is never rolled back.\<close>

theorem witness_never_rolls_back:
  assumes "witness_reachable cr hc wit sy" and "cosigned sy a"
  shows "\<exists>n r. witnessed (sy_table sy) (cp_origin a) = Some (n, r) \<and> cp_size a \<le> n \<and> (cp_size a = n \<longrightarrow> cp_root a = r)"
  using system_ok_reachable [OF assms(1)] assms(2) by (rule cosigned_below)

theorem witness_never_rolls_back_witness:
  "\<exists>wit sy n r. witness_reachable demo_crypto demo_hash wit sy \<and> cosigned sy (demo_cp [5, 6, 7])
     \<and> witnessed (sy_table sy) ''log'' = Some (n, r) \<and> 3 \<le> n"
proof -
  obtain wit sy where run: "witness_reachable demo_crypto demo_hash wit sy" "cosigned sy (demo_cp [5, 6, 7])"
    using demo_witness_run by blast
  moreover have "cp_origin (demo_cp [5, 6, 7]) = ''log''" "cp_size (demo_cp [5, 6, 7]) = 3" by (simp_all add: demo_cp_def)
  ultimately show ?thesis using witness_never_rolls_back [OF run] by metis
qed

text \<open>C23. Only what the log signed is cosigned: for every cosigned checkpoint a configured log has its
  origin, and a plain signature under that log's name, key id and key verifies over its body.\<close>

theorem witness_cosigns_only_signed:
  assumes "witness_reachable cr hc wit sy" and "cosigned sy cp"
  shows "\<exists>l (sg :: checkpoint_signature). List.member (wit_logs wit) l \<and> lc_origin l = cp_origin cp \<and> sig_timestamp sg = None
     \<and> sig_key_id sg = lc_key_id l \<and> sig_name sg = lc_key_name l
     \<and> ed_verify cr (lc_verifying_key l) (str_bytes (to_body cr cp)) (sig_bytes sg)"
proof -
  obtain rq co where rq: "check_request cr wit rq = Inr co" and cp: "co_checkpoint co = cp"
    using cosigned_history(2) [OF system_ok_reachable [OF assms(1)] assms(2)] by blast
  obtain l where "l \<in> set (wit_logs wit)" "lc_origin l = cp_origin cp" "verify cr l co = Inr ()"
    using check_request_ok(4) [OF rq] cp by blast
  moreover from this obtain sg where "verify_signature cr l sg (str_bytes (to_body cr cp)) = Inr ()"
    using cp by (auto simp: verify_iff)
  ultimately show ?thesis
    unfolding verify_signature_iff by simp blast
qed

theorem witness_cosigns_only_signed_witness:
  "\<exists>wit sy l. witness_reachable demo_crypto demo_hash wit sy \<and> cosigned sy (demo_cp [5, 6, 7]) \<and> List.member (wit_logs wit) l"
proof -
  obtain wit sy where run: "witness_reachable demo_crypto demo_hash wit sy" "cosigned sy (demo_cp [5, 6, 7])"
    using demo_witness_run by blast
  then show ?thesis using witness_cosigns_only_signed [OF run] by blast
qed

text \<open>C24. An honest log is cosigned: when the table holds a prefix of the log's leaves, or nothing, the
  request with that size and the RFC 6962 proof is answered with the cosignature and the table then
  holds the new size and root, every other row as before.\<close>

theorem honest_log_is_cosigned:
  assumes "table_ok t" and "check_request cr wit rq = Inr co" and "m \<le> length D"
    and "co_checkpoint co = \<lparr>cp_origin = origin, cp_size = length D, cp_root = mth hc empty_root_hash D\<rparr>"
    and "current t origin = (m, mth hc empty_root_hash (take m D))"
    and "rq_old_size rq = m" and "rq_proof rq = rfc_proof hc empty_root_hash m D"
  shows "\<exists>t'. add_checkpoint cr hc wit (Some ts) rq t = (Inr (cosign_v1 cr (wit_signer wit) (co_checkpoint co) ts), t')
     \<and> table_ok t' \<and> witnessed t' = (witnessed t)(origin \<mapsto> (length D, mth hc empty_root_hash D))"
  using assms by (rule honest_request)

theorem honest_log_is_cosigned_witness:
  "\<exists>cfg t'. add_checkpoint demo_crypto demo_hash (demo_witness cfg) (Some 11) (demo_request 0 [] [5, 6, 7]) []
     = (Inr (cosign_v1 demo_crypto (wit_signer (demo_witness cfg)) (demo_cp [5, 6, 7]) 11), t')"
proof -
  obtain cfg where cfg: "lc_origin cfg = ''log''" "\<And>D. verify demo_crypto cfg (cosigned_new demo_crypto (demo_cp D) demo_signer) = Inr ()"
    using demo_config by blast
  have "check_request demo_crypto (demo_witness cfg) (demo_request 0 [] [5, 6, 7]) = Inr (cosigned_new demo_crypto (demo_cp [5, 6, 7]) demo_signer)"
    using cfg by (intro demo_checked) simp_all
  then have "\<exists>t'. add_checkpoint demo_crypto demo_hash (demo_witness cfg) (Some 11) (demo_request 0 [] [5, 6, 7]) []
      = (Inr (cosign_v1 demo_crypto (wit_signer (demo_witness cfg)) (co_checkpoint (cosigned_new demo_crypto (demo_cp [5, 6, 7]) demo_signer)) 11), t')
      \<and> table_ok t' \<and> witnessed t' = (witnessed [])(''log'' \<mapsto> (length [5, 6, 7 :: sha256_hash], mth demo_hash empty_root_hash [5, 6, 7]))"
    by (intro honest_log_is_cosigned [where m = 0])
      (simp_all add: table_ok_def cosigned_new_def demo_cp_def current_def witnessed_def demo_request_def rfc_proof_def rfc_subproof.simps)
  then show ?thesis by (auto simp: cosigned_new_def)
qed

text \<open>A request that is not interrupted goes through the phases of the state machine and ends with
  the answer and the table of the handler as it is written, after at most four statements.\<close>

lemma add_checkpoint_is_process_run:
  assumes "table_ok t" and "check_request cr wit rq = Inr co"
  shows "(advance_pair cr hc wit now rq (co_checkpoint co) ^^ 4) (Reading False, t) =
    (Answered (fst (add_checkpoint cr hc wit now rq t)), snd (add_checkpoint cr hc wit now rq t))"
  using add_checkpoint_process [OF assms refl] .

end
