(* ===== verification/Publisher_Safety.thy ===== *)
theory Publisher_Safety
  imports Publisher Witness_Safety
begin

text \<open>
  What the publisher guarantees: nothing is published without a quorum of distinct external
  witnesses, what is published is the root of the integrated log, the request it sends is read back
  by the witness as it was meant, and a witness that runs this code cosigns an honest log's
  checkpoints and stays in step with it.
\<close>


subsection \<open>Properties\<close>

text \<open>C6. Every checkpoint that \<open>publish_checkpoint\<close> writes, whatever the network answers, carries the
  log's signature on the size and root that the database holds, and at least the required number of
  configured external witnesses, all with different names and different keys, each with a
  cosignature on exactly this checkpoint that verifies under its pinned key. Otherwise the stored
  checkpoint and the memory of the last one stay as they are.\<close>

theorem publish_needs_quorum:
  "let pb' = snd (publish_checkpoint cr hc op post db signer witnesses externals quorum origin pb)
   in (pb_store pb' = pb_store pb \<and> pb_last pb' = pb_last pb) \<or>
     (\<exists>state root co ws. get_log_state db = Inr state \<and> checkpoint_root state = Some root \<and>
       published cr op signer externals quorum \<lparr>cp_origin = origin, cp_size = integrated_size state, cp_root = root\<rparr> pb pb' co ws)"
  using publish_cases [of cr hc op post db signer witnesses externals quorum origin pb] unfolding Let_def
  by (metis prod.collapse)

text \<open>What is published is the log: while the system invariant holds with \<open>m\<close> integrated entries (and
  an empty log has no root recorded), a published checkpoint has size \<open>m\<close> and the Merkle root of the
  first \<open>m\<close> sequenced entries.\<close>

lemma published_root_is_log_root:
  assumes "sys_ok hc op E m w" and "m = 0 \<Longrightarrow> stored_root (w_db w) = None"
  shows "let pb' = snd (publish_checkpoint cr hc op post (w_db w) signer witnesses externals quorum origin pb)
   in (pb_store pb' = pb_store pb \<and> pb_last pb' = pb_last pb) \<or>
     (\<exists>co ws. published cr op signer externals quorum
        \<lparr>cp_origin = origin, cp_size = m, cp_root = mth hc empty_root_hash (leaves E m)\<rparr> pb pb' co ws)"
proof -
  obtain r pb' where run: "publish_checkpoint cr hc op post (w_db w) signer witnesses externals quorum origin pb = (r, pb')" by fastforce
  have "db_log (w_db w) E m" and root: "0 < m \<Longrightarrow> stored_root (w_db w) = Some (mth hc empty_root_hash (leaves E m))"
    using assms by (simp_all add: sys_ok_def)
  then obtain h where st: "get_log_state (w_db w) = Inr \<lparr>next_index = length E, integrated_size = m, state_root_hash = h\<rparr>"
    using get_log_state_ok by blast
  then have "checkpoint_root \<lparr>next_index = length E, integrated_size = m, state_root_hash = h\<rparr> = Some (mth hc empty_root_hash (leaves E m))"
    using root assms(2) by (cases "m = 0") (simp_all add: stored_root_def checkpoint_root_def leaves_def)
  then show ?thesis using publish_cases [OF run] st unfolding run by auto
qed

text \<open>The witness reads the publisher's request as it was meant: old size, proof hashes and the
  checkpoint with all its signatures, for every proof of at most 64 hashes.\<close>

lemma request_format_roundtrip:
  assumes "b64_laws cr" and "checkpoint_wf (co_checkpoint co)"
    and "co_signatures co \<noteq> []" and "\<forall>sg \<in> set (co_signatures co). signature_wf sg"
    and "length pf \<le> 64" and "old_size \<le> u64_max"
  shows "\<exists>rq. from_ascii cr (request_body cr old_size pf co) = Inr rq \<and> rq_old_size rq = old_size
     \<and> rq_proof rq = pf \<and> from_text cr (rq_checkpoint rq) = Inr co"
  using request_roundtrip [OF assms(1-4)] checkpoint_lines_parse(1) [OF assms(1-4)] assms(5,6)
  by (simp add: MAX_PROOF_HASHES_def)

text \<open>C21. A publisher and a witness that both run this code stay in step: when the storage serves the
  log's leaves and the witness last saw the prefix the publisher remembers, one round has the
  witness verify the generated proof and cosign, the publisher verify and count the cosignature,
  and both then hold the new size.\<close>

theorem publisher_and_witness_agree:
  assumes "b64_laws cr" and "sha_laws cr" and "ed_laws cr" and "witness_party cr wit w" and "ts \<le> u64_max"
    and "honest_checkpoint cr hc wit D (rd_cosigned rd)" and "store_serves hc op s D" and "m \<le> length D"
    and "table_ok (rd_net rd)" and "current (rd_net rd) (cp_origin (co_checkpoint (rd_cosigned rd))) = (m, mth hc empty_root_hash (take m D))"
    and "get_size (xw_url w) (rd_sizes rd) = m"
    and "xw_name w \<notin> set (rd_names rd)" and "public_key w \<notin> set (rd_keys rd)"
  shows "\<exists>rd'. ask_witness cr hc (Tile_Store.read_tile op s) (witness_post cr hc wit (Some ts)) (length D) w rd = rd'
    \<and> rd_count rd' = rd_count rd + 1 \<and> get_size (xw_url w) (rd_sizes rd') = length D
    \<and> current (rd_net rd') (cp_origin (co_checkpoint (rd_cosigned rd))) = (length D, mth hc empty_root_hash D)
    \<and> has_signature_from (rd_cosigned rd') (xw_name w)"
  using assms by (rule publisher_round)

definition demo_external :: external_witness where
  "demo_external =
     \<lparr>xw_name = ''w'', xw_url = ''u'',
      xw_key = \<lparr>lc_origin = [], lc_vkey = [], lc_url = None, lc_verifying_key = ed_public demo_crypto [9],
                lc_key_id = [], lc_key_name = ''w''\<rparr>\<rparr>"

definition demo_round :: "witness_table round" where
  "demo_round =
     \<lparr>rd_cosigned = cosigned_new demo_crypto (demo_cp [5, 6, 7]) demo_signer, rd_count = 0, rd_keys = [], rd_names = [],
      rd_sizes = Map.empty, rd_net = []\<rparr>"

lemma demo_parties:
  assumes "lc_origin cfg = ''log''" and "verify demo_crypto cfg (cosigned_new demo_crypto (demo_cp [5, 6, 7]) demo_signer) = Inr ()"
  shows "witness_party demo_crypto (demo_witness cfg) demo_external"
    and "honest_checkpoint demo_crypto demo_hash (demo_witness cfg) [5, 6, 7] (rd_cosigned demo_round)"
proof -
  have w: "utf8_ok (str_bytes ''w'')" "utf8_ok (str_bytes ''log'')" by (rule utf8_ok_plain, simp add: plain_def)+
  have "\<not> ed_weak demo_crypto (ed_public demo_crypto [9])" by (simp add: demo_crypto_def)
  then show "witness_party demo_crypto (demo_witness cfg) demo_external"
    using w(1) by (auto simp: witness_party_def demo_witness_def demo_external_def newline_def)
  have "sig_name (plain_signature demo_crypto demo_signer cp) = ''log''" for cp
    by (simp add: plain_signature_def demo_signer_def from_seed_def)
  then show "honest_checkpoint demo_crypto demo_hash (demo_witness cfg) [5, 6, 7] (rd_cosigned demo_round)"
    using assms w(2) demo_cp_wf [of "[5, 6, 7]"] demo_signer_wf [of "demo_cp [5, 6, 7]"]
    by (simp add: honest_checkpoint_def demo_round_def demo_witness_def cosigned_new_def demo_cp_def)
qed

theorem publisher_and_witness_agree_witness:
  "\<exists>cfg. rd_count (ask_witness demo_crypto demo_hash (Tile_Store.read_tile memory_op demo_store)
     (witness_post demo_crypto demo_hash (demo_witness cfg) (Some 11)) (length [5, 6, 7 :: sha256_hash]) demo_external demo_round) = 1"
proof -
  obtain cfg where cfg: "lc_origin cfg = ''log''" "\<And>D. verify demo_crypto cfg (cosigned_new demo_crypto (demo_cp D) demo_signer) = Inr ()"
    using demo_config by blast
  have "\<exists>rd'. ask_witness demo_crypto demo_hash (Tile_Store.read_tile memory_op demo_store)
      (witness_post demo_crypto demo_hash (demo_witness cfg) (Some 11)) (length [5, 6, 7 :: sha256_hash]) demo_external demo_round = rd'
    \<and> rd_count rd' = rd_count demo_round + 1 \<and> get_size (xw_url demo_external) (rd_sizes rd') = length [5, 6, 7 :: sha256_hash]
    \<and> current (rd_net rd') (cp_origin (co_checkpoint (rd_cosigned demo_round))) = (length [5, 6, 7 :: sha256_hash], mth demo_hash empty_root_hash [5, 6, 7])
    \<and> has_signature_from (rd_cosigned rd') (xw_name demo_external)"
    by (rule publisher_and_witness_agree [where m = 0, OF demo_b64 demo_sha demo_ed demo_parties(1) [OF cfg] _ demo_parties(2) [OF cfg] demo_store_serves])
      (simp_all add: demo_round_def table_ok_def current_def witnessed_def get_size_def)
  then show ?thesis by (auto simp: demo_round_def)
qed

text \<open>A request whose old size is not the witnessed size is answered with status 409 and the
  witnessed size as a decimal line, and changes no row that exists.\<close>

lemma stale_request_is_told_the_size:
  assumes "table_ok t" and "utf8_ok body" and "from_ascii cr (bytes_str body) = Inr rq"
    and "check_request cr wit rq = Inr co" and "current t (cp_origin (co_checkpoint co)) = (n, r)" and "rq_old_size rq \<noteq> n"
  shows "\<exists>t'. handle_add_checkpoint cr hc wit now body t =
     (\<lparr>resp_status = 409, resp_type = Some CONTENT_TYPE_TLOG_SIZE, resp_body = Exact (dec n @ [newline])\<rparr>, t')
     \<and> witnessed t' = (witnessed t)(cp_origin (co_checkpoint co) \<mapsto> (n, r))"
proof -
  let ?o = "cp_origin (co_checkpoint co)"
  have "decide hc (state_at ?o (current t ?o)) rq (co_checkpoint co) = Inl (Conflict n)"
    using assms(5,6) by (simp add: decide_def state_at_def)
  then have "add_checkpoint cr hc wit now rq t = (Inl (Conflict n), with_row ?o t)"
    by (rule add_checkpoint_refused [OF assms(1,4) refl])
  moreover have "witnessed (with_row ?o t) = (witnessed t)(?o \<mapsto> (n, r))"
    using with_row_facts(2,3) [OF assms(1)] assms(5) by (auto simp: fun_eq_iff)
  ultimately show ?thesis using assms(2,3) by (simp add: handle_add_checkpoint_def)
qed


end
