(* ===== verification/Worker_Cluster.thy ===== *)
theory Worker_Cluster
  imports Worker
begin

text \<open>
  Integration workers that run side by side, \<^verbatim>\<open>src/worker.rs\<close>. The cycle of \<open>Worker\<close> is taken apart
  into its calls: \<open>cycle_step\<close> runs a worker from one \<open>await\<close> to the next, and the local variables of
  the function are the arguments of the \<open>cycle_phase\<close> it waits in. A cluster is one database and one
  storage with any number of workers (several processes, or a process and the one that replaces
  it), the sequencer and the checkpoint publisher; each may act between any two calls of a worker,
  any database call may fail or lose its answer, any read may fail, and a worker may die anywhere.
  What protects the log is the compare-and-swap of \<open>mark_integrated_if_current\<close>, and that two
  batches write the same tile or bundle only with the same contents.
\<close>


subsection \<open>A cycle, call by call\<close>

text \<open>
  A cycle has read the state; the batch, with the answers of the tile reads so far; it has tiles
  left to write; bundles left; the prefix of the bundle it writes; it feeds the index; it marks the
  batch; it takes a snapshot; it has returned.
\<close>

datatype cycle_phase =
    Sleeping
  | Got_State log_state
  | Got_Pending nat "pending_entry list" tile_reader
  | Writing_Tiles nat "pending_entry list" integration_result "(tile_id \<times> hash_tile) list"
  | Writing_Bundles nat "pending_entry list" integration_result "bundle_group list"
  | Writing_Bundle nat "pending_entry list" integration_result bundle_group entry_bundle "bundle_group list"
  | Indexing nat "pending_entry list" integration_result
  | Marking nat "pending_entry list" integration_result
  | Snapshotting nat "pending_entry list" integration_result
  | Finished "unit res"

text \<open>
  What a step meets: the outcome of its database call, whether its read fails, the tile that the
  integration reads next (or none, when it has all it needs), and the bundle that the iteration of
  the hash map yields next.
\<close>

record step_choice =
  sc_call :: call_outcome
  sc_read_fails :: bool
  sc_tile :: "(nat \<times> nat \<times> nat) option"
  sc_pick :: nat

definition await_call :: "('w, error, 'a) st \<Rightarrow> ('a \<Rightarrow> cycle_phase) \<Rightarrow> 'w \<Rightarrow> cycle_phase \<times> 'w" where
  "await_call m next w =
     (case m w of (Inl e, w') \<Rightarrow> (Finished (Inl e), w') | (Inr x, w') \<Rightarrow> (next x, w'))"

definition read_more :: "'s operator \<Rightarrow> 's \<Rightarrow> bool \<Rightarrow> nat \<times> nat \<times> nat \<Rightarrow> tile_reader \<Rightarrow> tile_reader" where
  "read_more op s fails k rd l i p =
     (if (l, i, p) = k then if fails then Inl Storage else Tile_Store.read_tile op s l i p else rd l i p)"

fun cycle_step ::
  "hash_fn \<Rightarrow> 's operator \<Rightarrow> worker_config \<Rightarrow> 'v index_ops option \<Rightarrow> step_choice
     \<Rightarrow> cycle_phase \<Rightarrow> ('s, 'v) world \<Rightarrow> cycle_phase \<times> ('s, 'v) world" where
  "cycle_step hc op cfg vindex ch Sleeping =
     await_call (on_db (fallible (sc_call ch) (\<lambda>db. (get_log_state db, db))))
       (\<lambda>state. case pending_count state of
            Inl e \<Rightarrow> Finished (Inl e)
          | Inr waiting \<Rightarrow> if waiting = 0 then Finished (Inr ()) else Got_State state)"
| "cycle_step hc op cfg vindex ch (Got_State state) =
     await_call (on_db (fallible (sc_call ch)
         (\<lambda>db. (get_pending_entries (integrated_size state) (integration_batch_size cfg) db, db))))
       (\<lambda>pending. if pending = [] then Finished (Inr ())
          else if map pe_index pending \<noteq> [integrated_size state..<integrated_size state + length pending]
          then Finished (Inl Internal)
          else Got_Pending (integrated_size state) pending (\<lambda>_ _ _. Inl Storage))"
| "cycle_step hc op cfg vindex ch (Got_Pending from pending rd) =
     (case sc_tile ch of
        Some k \<Rightarrow> (\<lambda>w. (Got_Pending from pending (read_more op (w_store w) (sc_read_fails ch) k rd), w))
      | None \<Rightarrow> await_call (lift_st (integrate hc rd from (map pe_leaf_hash pending)))
          (\<lambda>result. Writing_Tiles from pending result (result_tiles result)))"
| "cycle_step hc op cfg vindex ch (Writing_Tiles from pending result (t # ts)) =
     await_call (on_store (write_sized_tile op (new_size result) t)) (\<lambda>_. Writing_Tiles from pending result ts)"
| "cycle_step hc op cfg vindex ch (Writing_Tiles from pending result []) =
     Pair (Writing_Bundles from pending result (fold bundle_add pending []))"
| "cycle_step hc op cfg vindex ch (Writing_Bundles from pending result (b # bs)) =
     (let be = (b # bs) ! (sc_pick ch mod length (b # bs))
      in await_call (on_store (\<lambda>s. (load_bundle op (sc_read_fails ch) from (fst be) s, s)))
           (\<lambda>bundle. Writing_Bundle from pending result be bundle (remove1 be (b # bs))))"
| "cycle_step hc op cfg vindex ch (Writing_Bundles from pending result []) =
     Pair (Indexing from pending result)"
| "cycle_step hc op cfg vindex ch (Writing_Bundle from pending result be bundle bs) =
     await_call (on_store (store_bundle op (new_size result) be bundle)) (\<lambda>_. Writing_Bundles from pending result bs)"
| "cycle_step hc op cfg vindex ch (Indexing from pending result) =
     await_call (case vindex of None \<Rightarrow> ret_st () | Some ops \<Rightarrow> on_index (index_pending ops pending))
       (\<lambda>_. Marking from pending result)"
| "cycle_step hc op cfg vindex ch (Marking from pending result) =
     await_call (on_db (fallible (sc_call ch) (mark_integrated_if_current from (new_size result) (root_hash result))))
       (\<lambda>marked. if \<not> marked then Finished (Inr ()) else Snapshotting from pending result)"
| "cycle_step hc op cfg vindex ch (Snapshotting from pending result) =
     await_call (case vindex of None \<Rightarrow> ret_st () | Some ops \<Rightarrow> on_index (io_maybe_snapshot ops))
       (\<lambda>_. Finished (Inr ()))"
| "cycle_step hc op cfg vindex ch (Finished r) = Pair Sleeping"


subsection \<open>Workers over one database and one storage\<close>

record ('s, 'v) cluster =
  cl_db :: database
  cl_store :: 's
  cl_phase :: "nat \<Rightarrow> cycle_phase"
  cl_index :: "nat \<Rightarrow> 'v"

definition worker_world :: "('s, 'v) cluster \<Rightarrow> nat \<Rightarrow> ('s, 'v) world" where
  "worker_world c i = \<lparr>w_db = cl_db c, w_store = cl_store c, w_index = cl_index c i\<rparr>"

definition worker_step ::
  "hash_fn \<Rightarrow> 's operator \<Rightarrow> (nat \<Rightarrow> worker_config) \<Rightarrow> (nat \<Rightarrow> 'v index_ops option) \<Rightarrow> step_choice
     \<Rightarrow> nat \<Rightarrow> ('s, 'v) cluster \<Rightarrow> ('s, 'v) cluster" where
  "worker_step hc op cfg vindex ch i c =
     (case cycle_step hc op (cfg i) (vindex i) ch (cl_phase c i) (worker_world c i) of
        (ph, w) \<Rightarrow> \<lparr>cl_db = w_db w, cl_store = w_store w, cl_phase = (cl_phase c)(i := ph),
                     cl_index = (cl_index c)(i := w_index w)\<rparr>)"

definition restart :: "nat \<Rightarrow> 'v \<Rightarrow> ('s, 'v) cluster \<Rightarrow> ('s, 'v) cluster" where
  "restart i v c = c\<lparr>cl_phase := (cl_phase c)(i := Sleeping), cl_index := (cl_index c)(i := v)\<rparr>"

text \<open>
  The steps: the sequencer commits a batch, the publisher writes a checkpoint, a worker makes its next
  call, or a worker dies and comes back with whatever index it finds.
\<close>

inductive cluster_step ::
  "hash_fn \<Rightarrow> 's operator \<Rightarrow> (nat \<Rightarrow> worker_config) \<Rightarrow> (nat \<Rightarrow> 'v index_ops option)
     \<Rightarrow> ('s, 'v) cluster \<Rightarrow> ('s, 'v) cluster \<Rightarrow> bool"
  for hc op cfg vindex where
  step_sequence: "cluster_step hc op cfg vindex c (c\<lparr>cl_db := snd (fallible out (sequence_entries es) (cl_db c))\<rparr>)"
| step_publish: "cluster_step hc op cfg vindex c (c\<lparr>cl_store := snd (write_checkpoint op data (cl_store c))\<rparr>)"
| step_worker: "cluster_step hc op cfg vindex c (worker_step hc op cfg vindex ch i c)"
| step_restart: "cluster_step hc op cfg vindex c (restart i v c)"

inductive_cases cluster_stepE: "cluster_step hc op cfg vindex c c'"


subsection \<open>Objects that stay good\<close>

text \<open>
  A write that fails leaves the old object or the new one: the file backend writes to a temporary
  directory and renames, an object store replaces objects as a whole.
\<close>

definition op_atomic :: "'s operator \<Rightarrow> bool" where
  "op_atomic op \<longleftrightarrow> (\<forall>p d s. op_read op (snd (op_write op p d s)) p \<in> {op_read op s p, OpFound d})"

lemma memory_op_atomic: "op_atomic memory_op"
  by (simp add: op_atomic_def memory_op_def)

definition tile_good :: "hash_fn \<Rightarrow> 's operator \<Rightarrow> 's \<Rightarrow> sha256_hash list \<Rightarrow> nat \<Rightarrow> nat \<Rightarrow> bool" where
  "tile_good hc op s D l i \<longleftrightarrow>
     (\<exists>t. get_tile op s (l, i, partial_tile_size l i (length D)) = Some t \<and> row_ok hc D l i (tile_nodes t))"

definition bundle_good :: "'s operator \<Rightarrow> 's \<Rightarrow> entry list \<Rightarrow> nat \<Rightarrow> nat \<Rightarrow> bool" where
  "bundle_good op s E n b \<longleftrightarrow>
     get_bundle op s (b, partial_tile_size 0 b n) = Some \<lparr>bundle_entries = bundle_data E n b\<rparr>"

definition serves_at :: "hash_fn \<Rightarrow> 's operator \<Rightarrow> entry list \<Rightarrow> nat \<Rightarrow> 's \<Rightarrow> bool" where
  "serves_at hc op E n s \<longleftrightarrow> store_serves hc op s (leaves E n) \<and> bundles_serve op s E n"

text \<open>From one storage to another, what was good for any size of the log stays good for it.\<close>

definition storage_keeps :: "hash_fn \<Rightarrow> 's operator \<Rightarrow> entry list \<Rightarrow> 's \<Rightarrow> 's \<Rightarrow> bool" where
  "storage_keeps hc op E s s' \<longleftrightarrow>
     (\<forall>n \<le> length E.
        (\<forall>l < 8. \<forall>i. 0 < row_count n l i \<longrightarrow> tile_good hc op s (leaves E n) l i \<longrightarrow> tile_good hc op s' (leaves E n) l i)
      \<and> (\<forall>b. b * 256 < n \<longrightarrow> bundle_good op s E n b \<longrightarrow> bundle_good op s' E n b))"

lemma storage_keeps_refl [simp]: "storage_keeps hc op E s s"
  by (simp add: storage_keeps_def)

lemma serves_at_iff:
  assumes "op_laws op" and "n \<le> length E" and "length E \<le> i64_max"
  shows "serves_at hc op E n s \<longleftrightarrow>
    (\<forall>l < 8. \<forall>i. 0 < row_count n l i \<longrightarrow> tile_good hc op s (leaves E n) l i)
    \<and> (\<forall>b. b * 256 < n \<longrightarrow> bundle_good op s E n b)"
  using assms
  by (simp add: serves_at_def store_serves_def bundles_serve_def tile_good_def bundle_good_def row_count_pos_iff
      length_leaves)

lemma serves_at_keeps:
  assumes "op_laws op" and "length E \<le> i64_max" and "n \<le> length E"
    and "serves_at hc op E n s" and "storage_keeps hc op E s s'"
  shows "serves_at hc op E n s'"
  using assms(3-5) unfolding serves_at_iff [OF assms(1,3,2)] storage_keeps_def by simp

text \<open>The path of a tile determines how many entries its row has.\<close>

lemma partial_determines_row:
  assumes "l < 8" and "0 < row_count n l i" and "0 < row_count n' l i"
    and "partial_tile_size l i n = partial_tile_size l i n'"
  shows "row_count n l i = row_count n' l i"
proof -
  have eq: "row_count n l i mod 256 = row_count n' l i mod 256"
    using assms partial_row by metis
  have "row_count n l i \<le> 256" "row_count n' l i \<le> 256" by (simp_all add: row_count_le)
  then show ?thesis using eq assms(2,3)
    by (cases "row_count n l i = 256"; cases "row_count n' l i = 256") auto
qed

lemma row_ok_transfer:
  assumes "n \<le> length E" and "n' \<le> length E" and "row_count n l i = row_count n' l i"
    and ok: "row_ok hc (leaves E n) l i nodes"
  shows "row_ok hc (leaves E n') l i nodes"
proof -
  have full: "node_hash hc empty_root_hash (leaves E k) (8 * l) (i * 256 + j)
      = node_hash hc empty_root_hash (leaves E (length E)) (8 * l) (i * 256 + j)"
    if "j < row_count k l i" "k \<le> length E" for j k
  proof -
    have "should_store_node (8 * l) (i * 256 + j) (length (leaves E k))"
      using that by (simp add: row_count_less_iff length_leaves)
    then show ?thesis
      using should_store_append leaves_extend [OF that(2) order.refl] by metis
  qed
  show ?thesis
    using ok assms full [of _ n] full [of _ n'] unfolding row_ok_iff length_leaves [OF assms(1)] length_leaves [OF assms(2)]
    by simp
qed

lemma bundle_data_transfer:
  assumes "b * 256 < n" and "b * 256 < n'" and "row_count n 0 b = row_count n' 0 b"
  shows "bundle_data E n b = bundle_data E n' b"
proof -
  have "min n (b * 256 + 256) = min n' (b * 256 + 256)"
    using assms unfolding row_count_0 by linarith
  then show ?thesis by (simp add: bundle_data_def)
qed

lemma write_tile_atomic:
  assumes "op_atomic op"
  shows "Tile_Store.read_tile op (snd (write_tile op l i p t s)) l i p \<in> {Tile_Store.read_tile op s l i p, Inr (Some t)}"
proof -
  have "op_read op (snd (write_tile op l i p t s)) (tile_path l i p)
      \<in> {op_read op s (tile_path l i p), OpFound (hash_tile_to_bytes t)}"
    using assms by (simp add: op_atomic_def write_tile_def)
  then show ?thesis by (auto simp: read_tile_def hash_tile_decode_encode)
qed

lemma write_bundle_atomic:
  assumes "op_atomic op"
  shows "read_entry_bundle op (snd (write_entry_bundle op i p b s)) i p \<in> {read_entry_bundle op s i p, Inr (Some b)}"
proof (cases "bundle_to_bytes b")
  case (Inl e)
  then show ?thesis by (simp add: write_entry_bundle_def bind_st_def lift_st_def)
next
  case (Inr data)
  have "op_read op (snd (op_write op (entries_path i p) data s)) (entries_path i p)
      \<in> {op_read op s (entries_path i p), OpFound data}"
    using assms by (simp add: op_atomic_def)
  then show ?thesis
    using Inr by (auto simp: write_entry_bundle_def read_entry_bundle_def bind_st_def lift_st_def bundle_decode_encode)
qed

text \<open>Writing a tile of any size of the log keeps what is good, whether the write succeeds or fails.\<close>

lemma write_tile_keeps:
  assumes laws: "op_laws op" "op_atomic op" and E: "length E \<le> i64_max" and n: "n \<le> length E"
    and l: "l < 8" and pos: "0 < row_count n l i" and row: "row_ok hc (leaves E n) l i (tile_nodes t)"
  shows "storage_keeps hc op E s (snd (write_tile op l i (partial_tile_size l i n) t s))"
  unfolding storage_keeps_def
proof (intro allI impI conjI)
  let ?s = "snd (write_tile op l i (partial_tile_size l i n) t s)"
  fix k l' i'
  assume k: "k \<le> length E" and l': "l' < 8" and pos': "0 < row_count k l' i'"
    and good: "tile_good hc op s (leaves E k) l' i'"
  show "tile_good hc op ?s (leaves E k) l' i'"
  proof (cases "(l', i', partial_tile_size l' i' k) = (l, i, partial_tile_size l i n)")
    case False
    have "Tile_Store.read_tile op ?s l' i' (partial_tile_size l' i' k)
        = Tile_Store.read_tile op s l' i' (partial_tile_size l' i' k)"
      using row_tile_key [OF pos] row_tile_key [OF pos'] n k E False
      by (intro write_tile_other [OF laws(1)]) auto
    then show ?thesis using good k by (simp add: tile_good_def get_tile_def length_leaves)
  next
    case True
    then have "row_count n l i = row_count k l i"
      by (intro partial_determines_row [OF l pos]) (use pos' in auto)
    then have "row_ok hc (leaves E k) l i (tile_nodes t)" by (rule row_ok_transfer [OF n k _ row])
    then show ?thesis
      using write_tile_atomic [OF laws(2), of l i "partial_tile_size l i n" t s] good k True
      by (auto simp: tile_good_def get_tile_Some_iff length_leaves)
  qed
next
  fix k b
  assume "bundle_good op s E k b"
  then show "bundle_good op (snd (write_tile op l i (partial_tile_size l i n) t s)) E k b"
    by (simp add: bundle_good_def get_bundle_def store_frames laws)
qed

lemma write_bundle_keeps:
  assumes laws: "op_laws op" "op_atomic op" and E: "length E \<le> i64_max" and n: "n \<le> length E" and b: "b * 256 < n"
  shows "storage_keeps hc op E s
    (snd (write_entry_bundle op b (partial_tile_size 0 b n) \<lparr>bundle_entries = bundle_data E n b\<rparr> s))"
  unfolding storage_keeps_def
proof (intro allI impI conjI)
  fix k l' i'
  assume "tile_good hc op s (leaves E k) l' i'"
  then show "tile_good hc op (snd (write_entry_bundle op b (partial_tile_size 0 b n)
      \<lparr>bundle_entries = bundle_data E n b\<rparr> s)) (leaves E k) l' i'"
    by (simp add: tile_good_def get_tile_def store_frames laws)
next
  let ?v = "\<lparr>bundle_entries = bundle_data E n b\<rparr>"
  let ?s = "snd (write_entry_bundle op b (partial_tile_size 0 b n) ?v s)"
  fix k b'
  assume k: "k \<le> length E" and b': "b' * 256 < k" and good: "bundle_good op s E k b'"
  show "bundle_good op ?s E k b'"
  proof (cases "(b', partial_tile_size 0 b' k) = (b, partial_tile_size 0 b n)")
    case False
    have "get_bundle op ?s (b', partial_tile_size 0 b' k) = get_bundle op s (b', partial_tile_size 0 b' k)"
      using bundles.put_other [of op "(b, partial_tile_size 0 b n)" "(b', partial_tile_size 0 b' k)" ?v s]
        laws(1) bundle_key_ok [OF b'] bundle_key_ok [OF b] k n E False by simp
    then show ?thesis using good by (simp add: bundle_good_def)
  next
    case True
    then have "row_count n 0 b = row_count k 0 b"
      by (intro partial_determines_row) (use b b' in \<open>auto simp: row_count_0\<close>)
    then have "bundle_data E k b = bundle_data E n b" using bundle_data_transfer [OF b] b' True by auto
    then show ?thesis
      using write_bundle_atomic [OF laws(2), of b "partial_tile_size 0 b n" ?v s] good True
      by (auto simp: bundle_good_def get_bundle_Some_iff)
  qed
qed

text \<open>A storage that keeps the bundles and tiles it is asked for: checkpoints are elsewhere.\<close>

lemma write_checkpoint_keeps: "op_laws op \<Longrightarrow> storage_keeps hc op E s (snd (write_checkpoint op d s))"
  by (simp add: storage_keeps_def tile_good_def bundle_good_def get_tile_def get_bundle_def store_frames)


subsection \<open>Reading tiles while others write\<close>

text \<open>
  The answers that a worker has so far: each is an error or the tile as it was at some moment of the
  cycle. A reader that answers everything is a tile source of its own.
\<close>

definition reader_ok :: "hash_fn \<Rightarrow> tile_reader \<Rightarrow> sha256_hash list \<Rightarrow> bool" where
  "reader_ok hc rd D \<longleftrightarrow>
     (\<forall>l < 8. \<forall>i. 0 < row_count (length D) l i \<longrightarrow>
        (case rd l i (partial_tile_size l i (length D)) of
           Inl e \<Rightarrow> True | Inr None \<Rightarrow> False | Inr (Some t) \<Rightarrow> row_ok hc D l i (tile_nodes t)))"

definition reader_serves :: "hash_fn \<Rightarrow> tile_reader \<Rightarrow> sha256_hash list \<Rightarrow> bool" where
  "reader_serves hc rd D \<longleftrightarrow> length D \<le> i64_max \<and>
     (\<forall>l i. l < 8 \<longrightarrow> i * 256 < length D div 256 ^ l \<longrightarrow>
        (\<exists>t. rd l i (partial_tile_size l i (length D)) = Inr (Some t) \<and> row_ok hc D l i (tile_nodes t)))"

interpretation answers: tile_source hc "\<lambda>rd. rd" "reader_serves hc" for hc
  by unfold_locales (auto simp: reader_serves_def)

lemma reader_ok_start: "reader_ok hc (\<lambda>_ _ _. Inl e) D"
  by (simp add: reader_ok_def)

lemma reader_ok_more:
  assumes "store_serves hc op s D" and "reader_ok hc rd D"
  shows "reader_ok hc (read_more op s fails k rd) D"
  unfolding reader_ok_def
proof (intro allI impI)
  fix l i
  assume l: "l < 8" and pos: "0 < row_count (length D) l i"
  obtain t where "Tile_Store.read_tile op s l i (partial_tile_size l i (length D)) = Inr (Some t)"
    and "row_ok hc D l i (tile_nodes t)"
    using assms(1) l pos by (auto simp: store_serves_def row_count_pos_iff get_tile_Some_iff)
  then show "case read_more op s fails k rd l i (partial_tile_size l i (length D)) of
      Inl e \<Rightarrow> True | Inr None \<Rightarrow> False | Inr (Some t) \<Rightarrow> row_ok hc D l i (tile_nodes t)"
    using assms(2) l pos by (simp add: read_more_def reader_ok_def)
qed

lemma answers_integrate:
  assumes sv: "store_serves hc op s D" and ok: "reader_ok hc rd D" and new: "L \<noteq> []"
    and size: "length (D @ L) \<le> i64_max" and run: "integrate hc rd (length D) L = Inr result"
  shows "new_size result = length (D @ L)" and "root_hash result = mth hc empty_root_hash (D @ L)"
    and "tiles_ok hc (length D) (D @ L) (result_tiles result)"
proof -
  define rd' where "rd' = (\<lambda>l i p. case rd l i p of Inl e \<Rightarrow> Tile_Store.read_tile op s l i p | Inr x \<Rightarrow> Inr x)"
  have le: "reader_le rd rd'" by (auto simp: reader_le_def rd'_def split: sum.splits)
  have "reader_serves hc rd' D"
    unfolding reader_serves_def
  proof (intro conjI allI impI)
    show "length D \<le> i64_max" using size by simp
    fix l i
    assume l: "l < 8" and pos: "i * 256 < length D div 256 ^ l"
    let ?p = "partial_tile_size l i (length D)"
    obtain t where t: "Tile_Store.read_tile op s l i ?p = Inr (Some t)" "row_ok hc D l i (tile_nodes t)"
      using sv l pos by (auto simp: store_serves_def get_tile_Some_iff)
    have "case rd l i ?p of Inl e \<Rightarrow> True | Inr None \<Rightarrow> False | Inr (Some t) \<Rightarrow> row_ok hc D l i (tile_nodes t)"
      using ok l pos by (simp add: reader_ok_def row_count_pos_iff)
    then show "\<exists>t. rd' l i ?p = Inr (Some t) \<and> row_ok hc D l i (tile_nodes t)"
      using t by (auto simp: rd'_def split: sum.splits option.splits)
  qed
  from answers.integrate_ok [OF this new size] integrate_le [OF le run]
  show "new_size result = length (D @ L)" and "root_hash result = mth hc empty_root_hash (D @ L)"
    and "tiles_ok hc (length D) (D @ L) (result_tiles result)" by auto
qed


subsection \<open>What a worker knows in each phase\<close>

text \<open>
  A cycle that read size \<open>k\<close> from a log that has size \<open>m\<close> by now, with the batch from \<open>k\<close> on and,
  once integrated, the right result. What it wrote is good for the size it works towards.
\<close>

definition batch_at :: "entry list \<Rightarrow> nat \<Rightarrow> nat \<Rightarrow> pending_entry list \<Rightarrow> bool" where
  "batch_at E k n pending \<longleftrightarrow> k < n \<and> n \<le> length E \<and> pending = map (pending_at E) [k..<n]"

definition cycle_at ::
  "hash_fn \<Rightarrow> entry list \<Rightarrow> nat \<Rightarrow> nat \<Rightarrow> pending_entry list \<Rightarrow> integration_result \<Rightarrow> bool" where
  "cycle_at hc E m k pending result \<longleftrightarrow>
     k \<le> m \<and> batch_at E k (new_size result) pending
     \<and> root_hash result = mth hc empty_root_hash (leaves E (new_size result))
     \<and> tiles_ok hc k (leaves E (new_size result)) (result_tiles result)"

definition tiles_written ::
  "hash_fn \<Rightarrow> 's operator \<Rightarrow> 's \<Rightarrow> entry list \<Rightarrow> nat \<Rightarrow> (tile_id \<times> hash_tile) set \<Rightarrow> bool" where
  "tiles_written hc op s E n ts \<longleftrightarrow>
     (\<forall>(tid, t) \<in> ts. tile_good hc op s (leaves E n) (tile_level tid) (tile_index tid))"

definition bundles_left ::
  "'s operator \<Rightarrow> 's \<Rightarrow> entry list \<Rightarrow> nat \<Rightarrow> pending_entry list \<Rightarrow> bundle_group list \<Rightarrow> bool" where
  "bundles_left op s E n pending bs \<longleftrightarrow>
     distinct (map fst bs) \<and> set bs \<subseteq> set (fold bundle_add pending [])
     \<and> (\<forall>be \<in> set (fold bundle_add pending []) - set bs. bundle_good op s E n (fst be))"

fun phase_ok :: "hash_fn \<Rightarrow> 's operator \<Rightarrow> entry list \<Rightarrow> nat \<Rightarrow> 's \<Rightarrow> cycle_phase \<Rightarrow> bool" where
  "phase_ok hc op E m s Sleeping \<longleftrightarrow> True"
| "phase_ok hc op E m s (Got_State state) \<longleftrightarrow>
     integrated_size state \<le> m \<and> serves_at hc op E (integrated_size state) s"
| "phase_ok hc op E m s (Got_Pending k pending rd) \<longleftrightarrow>
     k \<le> m \<and> serves_at hc op E k s \<and> (\<exists>n. batch_at E k n pending) \<and> reader_ok hc rd (leaves E k)"
| "phase_ok hc op E m s (Writing_Tiles k pending result ts) \<longleftrightarrow>
     serves_at hc op E k s \<and> cycle_at hc E m k pending result \<and> set ts \<subseteq> set (result_tiles result)
     \<and> tiles_written hc op s E (new_size result) (set (result_tiles result) - set ts)"
| "phase_ok hc op E m s (Writing_Bundles k pending result bs) \<longleftrightarrow>
     serves_at hc op E k s \<and> cycle_at hc E m k pending result
     \<and> tiles_written hc op s E (new_size result) (set (result_tiles result))
     \<and> bundles_left op s E (new_size result) pending bs"
| "phase_ok hc op E m s (Writing_Bundle k pending result be bundle bs) \<longleftrightarrow>
     serves_at hc op E k s \<and> cycle_at hc E m k pending result
     \<and> tiles_written hc op s E (new_size result) (set (result_tiles result))
     \<and> bundles_left op s E (new_size result) pending (be # bs)
     \<and> bundle_entries bundle @ snd be = bundle_data E (new_size result) (fst be)"
| "phase_ok hc op E m s (Indexing k pending result) \<longleftrightarrow>
     cycle_at hc E m k pending result \<and> serves_at hc op E (new_size result) s"
| "phase_ok hc op E m s (Marking k pending result) \<longleftrightarrow>
     cycle_at hc E m k pending result \<and> serves_at hc op E (new_size result) s"
| "phase_ok hc op E m s (Snapshotting k pending result) \<longleftrightarrow>
     cycle_at hc E m k pending result \<and> new_size result \<le> m"
| "phase_ok hc op E m s (Finished r) \<longleftrightarrow> True"

definition shared :: "('s, 'v) cluster \<Rightarrow> ('s, unit) world" where
  "shared c = \<lparr>w_db = cl_db c, w_store = cl_store c, w_index = ()\<rparr>"

definition cluster_ok :: "hash_fn \<Rightarrow> 's operator \<Rightarrow> entry list \<Rightarrow> nat \<Rightarrow> ('s, 'v) cluster \<Rightarrow> bool" where
  "cluster_ok hc op E m c \<longleftrightarrow>
     sys_ok hc op E m (shared c) \<and> (\<forall>i. phase_ok hc op E m (cl_store c) (cl_phase c i))"

text \<open>What the others do in the meantime does not invalidate it: the log grows, and storage keeps.\<close>

lemma row_index_bounds:
  assumes "tiles_ok hc k (leaves E n) tiles" and "(tid, t) \<in> set tiles" and "n \<le> length E" and "length E \<le> i64_max"
  shows "tile_level tid < 8" and "0 < row_count n (tile_level tid) (tile_index tid)"
proof -
  have "\<lparr>tile_level = tile_level tid, tile_index = tile_index tid\<rparr> \<in> fst ` set tiles"
    using assms(2) by (force simp: image_iff)
  then have "row_count k (tile_level tid) (tile_index tid) < row_count n (tile_level tid) (tile_index tid)"
    using assms(1) length_leaves [OF assms(3)] unfolding tiles_ok_def by metis
  then show "0 < row_count n (tile_level tid) (tile_index tid)" by simp
  then show "tile_level tid < 8" using assms(3,4) by (intro row_level_bound [where n = n]) simp_all
qed

lemma tiles_written_keeps:
  assumes "tiles_written hc op s E n ts" and "storage_keeps hc op E s s'" and "n \<le> length E"
    and "\<And>tid t. (tid, t) \<in> ts \<Longrightarrow> tile_level tid < 8 \<and> 0 < row_count n (tile_level tid) (tile_index tid)"
  shows "tiles_written hc op s' E n ts"
  using assms unfolding tiles_written_def storage_keeps_def by blast

lemma bundle_group_bound:
  assumes "batch_at E k n pending" and "be \<in> set (fold bundle_add pending [])"
  shows "fst be * 256 < n"
  using assms batch_groups(1) [of "fst be" "snd be" E k n] touched_bound [of k n "fst be"] by (simp add: batch_at_def)

lemma bundles_left_keeps:
  assumes "bundles_left op s E n pending bs" and "storage_keeps hc op E s s'" and "batch_at E k n pending"
  shows "bundles_left op s' E n pending bs"
proof -
  have "n \<le> length E" using assms(3) by (simp add: batch_at_def)
  then have "bundle_good op s' E n (fst be)"
    if "be \<in> set (fold bundle_add pending [])" "bundle_good op s E n (fst be)" for be
    using assms(2) bundle_group_bound [OF assms(3) that(1)] that(2) unfolding storage_keeps_def by blast
  then show ?thesis using assms(1) by (simp add: bundles_left_def)
qed

lemma phase_ok_keeps:
  assumes laws: "op_laws op" and E: "length E \<le> i64_max" and m: "m \<le> m'" "m \<le> length E"
    and keeps: "storage_keeps hc op E s s'" and ok: "phase_ok hc op E m s ph"
  shows "phase_ok hc op E m' s' ph"
proof -
  have sat: "serves_at hc op E n s'" if "serves_at hc op E n s" "n \<le> length E" for n
    by (rule serves_at_keeps [OF laws E that(2,1) keeps])
  have cyc: "cycle_at hc E m' k pending result" if "cycle_at hc E m k pending result" for k pending result
    using that m by (simp add: cycle_at_def)
  have size: "new_size result \<le> length E" "batch_at E k (new_size result) pending" "k \<le> length E"
    if "cycle_at hc E m k pending result" for k pending result
    using that m by (simp_all add: cycle_at_def batch_at_def)
  have tw: "tiles_written hc op s' E (new_size result) ts"
    if "tiles_written hc op s E (new_size result) ts" "cycle_at hc E m k pending result" "ts \<subseteq> set (result_tiles result)"
    for k pending result ts
    using that row_index_bounds [OF _ _ size(1) [OF that(2)] E]
    by (intro tiles_written_keeps [OF that(1) keeps size(1) [OF that(2)]]) (auto simp: cycle_at_def)
  have bl: "bundles_left op s' E (new_size result) pending bs"
    if "bundles_left op s E (new_size result) pending bs" "cycle_at hc E m k pending result" for k pending result bs
    by (rule bundles_left_keeps [OF that(1) keeps size(2) [OF that(2)]])
  show ?thesis
  proof (cases ph)
    case (Got_State state)
    then show ?thesis using ok sat m by simp
  next
    case (Got_Pending k pending rd)
    then show ?thesis using ok sat m by simp
  next
    case (Writing_Tiles k pending result ts)
    then show ?thesis using ok sat [of k] cyc size(3) tw [of result] by auto
  next
    case (Writing_Bundles k pending result bs)
    then show ?thesis using ok sat [of k] cyc size(3) tw [of result] bl by auto
  next
    case (Writing_Bundle k pending result be bu bs)
    then show ?thesis using ok sat [of k] cyc size(3) tw [of result] bl by auto
  next
    case (Indexing k pending result)
    then show ?thesis using ok sat cyc size(1) by auto
  next
    case (Marking k pending result)
    then show ?thesis using ok sat cyc size(1) by auto
  next
    case (Snapshotting k pending result)
    then show ?thesis using ok cyc m by auto
  qed simp_all
qed

lemma map_pending_append: "n \<le> length E \<Longrightarrow> map (pending_at (E @ F)) [k..<n] = map (pending_at E) [k..<n]"
  by (auto simp: pending_at_def nth_append)

lemma bundle_data_append: "n \<le> length E \<Longrightarrow> bundle_data (E @ F) n b = bundle_data E n b"
  by (auto simp: bundle_data_def nth_append)

lemma phase_ok_extend:
  assumes m: "m \<le> length E" and ok: "phase_ok hc op E m s ph"
  shows "phase_ok hc op (E @ F) m s ph"
proof -
  have sat: "serves_at hc op (E @ F) n s" if "serves_at hc op E n s" for n
  proof -
    have n: "n \<le> length E" using that by (simp add: serves_at_def bundles_serve_def)
    from that bundles_serve_append [of op s E n F] show ?thesis by (simp add: serves_at_def leaves_append [OF n])
  qed
  have batch: "batch_at (E @ F) k n pending" if "batch_at E k n pending" for k n pending
    using that by (simp add: batch_at_def map_pending_append)
  have size: "new_size result \<le> length E" if "cycle_at hc E m k pending result" for k pending result
    using that by (simp add: cycle_at_def batch_at_def)
  have cyc: "cycle_at hc (E @ F) m k pending result" if "cycle_at hc E m k pending result" for k pending result
    using that batch by (simp add: cycle_at_def leaves_append [OF size [OF that]])
  have tw: "tiles_written hc op s (E @ F) (new_size result) ts"
    if "tiles_written hc op s E (new_size result) ts" "cycle_at hc E m k pending result" for k pending result ts
    using that(1) by (simp add: tiles_written_def leaves_append [OF size [OF that(2)]])
  have bl: "bundles_left op s (E @ F) (new_size result) pending bs"
    if "bundles_left op s E (new_size result) pending bs" "cycle_at hc E m k pending result" for k pending result bs
    using that(1) by (simp add: bundles_left_def bundle_good_def bundle_data_append [OF size [OF that(2)]])
  show ?thesis
  proof (cases ph)
    case (Got_State state)
    then show ?thesis using ok sat by simp
  next
    case (Got_Pending k pending rd)
    then show ?thesis using ok sat batch m by (simp add: leaves_append) blast
  next
    case (Writing_Tiles k pending result ts)
    then show ?thesis using ok sat cyc tw by auto
  next
    case (Writing_Bundles k pending result bs)
    then show ?thesis using ok sat cyc tw bl by auto
  next
    case (Writing_Bundle k pending result be bu bs)
    then show ?thesis using ok sat cyc tw bl bundle_data_append [OF size] by auto
  next
    case (Indexing k pending result)
    then show ?thesis using ok sat cyc by auto
  next
    case (Marking k pending result)
    then show ?thesis using ok sat cyc by auto
  next
    case (Snapshotting k pending result)
    then show ?thesis using ok cyc by auto
  qed simp_all
qed


subsection \<open>When everything of a batch is written\<close>

lemma tiles_complete:
  assumes sv: "serves_at hc op E k s" and cyc: "cycle_at hc E m k pending result" and E: "length E \<le> i64_max"
    and all: "tiles_written hc op s E (new_size result) (set (result_tiles result))"
    and l: "l < 8" and pos: "0 < row_count (new_size result) l i"
  shows "tile_good hc op s (leaves E (new_size result)) l i"
proof -
  let ?n = "new_size result"
  have n: "k \<le> ?n" "?n \<le> length E" and ts: "tiles_ok hc k (leaves E ?n) (result_tiles result)"
    using cyc by (simp_all add: cycle_at_def batch_at_def)
  have k: "k \<le> length E" using n by simp
  show ?thesis
  proof (cases "row_count k l i < row_count ?n l i")
    case True
    then have "\<lparr>tile_level = l, tile_index = i\<rparr> \<in> fst ` set (result_tiles result)"
      using ts length_leaves [OF n(2)] unfolding tiles_ok_def by metis
    then show ?thesis using all by (force simp: tiles_written_def)
  next
    case False
    then have eq: "row_count k l i = row_count ?n l i" using row_count_mono [OF n(1), of l i] by simp
    have "op_laws op" using sv by (simp add: serves_at_def bundles_serve_def)
    then have good: "tile_good hc op s (leaves E k) l i"
      using sv l pos eq k E by (simp add: serves_at_iff)
    have "partial_tile_size l i k = partial_tile_size l i ?n" using partial_row [OF l] pos eq by simp
    then show ?thesis
      using good row_ok_transfer [OF k n(2) eq] by (auto simp: tile_good_def length_leaves k n(2))
  qed
qed

lemma bundles_complete:
  assumes sv: "serves_at hc op E k s" and batch: "batch_at E k n pending"
    and E: "length E \<le> i64_max" and all: "bundles_left op s E n pending []" and b: "b * 256 < n"
  shows "bundle_good op s E n b"
proof -
  have n: "k \<le> n" "n \<le> length E" and pending: "pending = map (pending_at E) [k..<n]"
    using batch by (simp_all add: batch_at_def)
  show ?thesis
  proof (cases "touched k n b")
    case True
    then have "b \<in> fst ` set (fold bundle_add pending [])" using batch_group_exists pending by simp
    then show ?thesis using all by (auto simp: bundles_left_def)
  next
    case False
    then have eq: "row_count k 0 b = row_count n 0 b"
      using touched_iff [OF n(1), of b] row_count_mono [OF n(1), of 0 b] by simp
    then have bk: "b * 256 < k" using b unfolding row_count_0 by linarith
    have part: "partial_tile_size 0 b k = partial_tile_size 0 b n"
      using partial_row [of 0] bk b eq by (simp add: row_count_0)
    have "bundle_data E k b = bundle_data E n b" by (rule bundle_data_transfer [OF bk b eq])
    moreover have "bundle_good op s E k b" using sv bk by (simp add: serves_at_def bundles_serve_def bundle_good_def)
    ultimately show ?thesis using part by (simp add: bundle_good_def)
  qed
qed

lemma batch_complete:
  assumes sv: "serves_at hc op E k s" and cyc: "cycle_at hc E m k pending result" and E: "length E \<le> i64_max"
    and "tiles_written hc op s E (new_size result) (set (result_tiles result))"
    and "bundles_left op s E (new_size result) pending []"
  shows "serves_at hc op E (new_size result) s"
proof -
  have laws: "op_laws op" using sv by (simp add: serves_at_def bundles_serve_def)
  have batch: "batch_at E k (new_size result) pending" using cyc by (simp add: cycle_at_def)
  then have n: "new_size result \<le> length E" by (simp add: batch_at_def)
  show ?thesis
    unfolding serves_at_iff [OF laws n E]
    using tiles_complete [OF sv cyc E assms(4)] bundles_complete [OF sv batch E assms(5)] by blast
qed


subsection \<open>One call of one worker\<close>

text \<open>A step that does not mark keeps the log where it is, and leads to a phase with its invariant.\<close>

definition step_keeps ::
  "hash_fn \<Rightarrow> 's operator \<Rightarrow> entry list \<Rightarrow> nat \<Rightarrow> ('s, 'v) world \<Rightarrow> cycle_phase \<times> ('s, 'v) world \<Rightarrow> bool" where
  "step_keeps hc op E m w out \<longleftrightarrow>
     (case out of (ph, w') \<Rightarrow>
        sys_ok hc op E m w' \<and> phase_ok hc op E m (w_store w') ph \<and> storage_keeps hc op E (w_store w) (w_store w'))"

lemma sys_ok_bounds:
  assumes "sys_ok hc op E m w"
  shows "op_laws op" and "m \<le> length E" and "length E \<le> i64_max" and "serves_at hc op E m (w_store w)"
  using assms by (auto simp: sys_ok_def store_serves_def db_log_def serves_at_def)

lemma sys_ok_keeps:
  assumes "sys_ok hc op E m w" and "storage_keeps hc op E (w_store w) s'"
  shows "sys_ok hc op E m (w\<lparr>w_store := s'\<rparr>)"
proof -
  note b = sys_ok_bounds [OF assms(1)]
  have "serves_at hc op E m s'" by (rule serves_at_keeps [OF b(1,3,2,4) assms(2)])
  then show ?thesis using assms(1) by (simp add: sys_ok_def serves_at_def)
qed

lemma on_db_query:
  "on_db (fallible out (\<lambda>db. (f db, db))) w = (if out = Call_Ok then f (w_db w) else Inl Database, w)"
  by (cases w) (simp add: on_db_def fallible_query)

lemma query_keeps:
  assumes "sys_ok hc op E m w" and "m' w = (r, w)"
    and "\<And>x. r = Inr x \<Longrightarrow> phase_ok hc op E m (w_store w) (next x)"
  shows "step_keeps hc op E m w (await_call m' next w)"
  using assms by (cases r) (simp_all add: step_keeps_def await_call_def)

lemma db_query_keeps:
  assumes "sys_ok hc op E m w" and "\<And>x. f (w_db w) = Inr x \<Longrightarrow> phase_ok hc op E m (w_store w) (next x)"
  shows "step_keeps hc op E m w (await_call (on_db (fallible out (\<lambda>db. (f db, db)))) next w)"
  by (rule query_keeps [where r = "if out = Call_Ok then f (w_db w) else Inl Database"])
    (use assms in \<open>auto simp: on_db_query split: if_splits\<close>)

lemma store_keeps:
  assumes "sys_ok hc op E m w" and "storage_keeps hc op E (w_store w) (snd (f (w_store w)))"
    and "\<And>x s'. f (w_store w) = (Inr x, s') \<Longrightarrow> phase_ok hc op E m s' (next x)"
  shows "step_keeps hc op E m w (await_call (on_store f) next w)"
proof -
  obtain r s' where f: "f (w_store w) = (r, s')" by fastforce
  then have "sys_ok hc op E m (w\<lparr>w_store := s'\<rparr>)" using sys_ok_keeps [OF assms(1,2)] by simp
  then show ?thesis
    using f assms(2,3) by (cases r) (simp_all add: step_keeps_def await_call_def on_store_def)
qed

lemma index_keeps:
  assumes "sys_ok hc op E m w" and "\<And>x. phase_ok hc op E m (w_store w) (next x)"
  shows "step_keeps hc op E m w (await_call (case vindex of None \<Rightarrow> ret_st () | Some ops \<Rightarrow> on_index (f ops)) next w)"
proof -
  obtain r w' where run: "(case vindex of None \<Rightarrow> ret_st () | Some ops \<Rightarrow> on_index (f ops)) w = (r, w')" by fastforce
  then obtain v where "w' = w\<lparr>w_index := v\<rparr>" using index_step_frame [OF run] by blast
  then show ?thesis using run assms by (cases r) (simp_all add: step_keeps_def await_call_def)
qed

lemma sleeping_step:
  assumes ok: "sys_ok hc op E m w"
  shows "step_keeps hc op E m w (cycle_step hc op cfg vindex ch Sleeping w)"
  unfolding cycle_step.simps
proof (rule db_query_keeps [OF ok])
  fix state
  assume "get_log_state (w_db w) = Inr state"
  then have "integrated_size state = m"
    using get_log_state_ok [of "w_db w" E m] ok by (auto simp: sys_ok_def)
  then show "phase_ok hc op E m (w_store w) (case pending_count state of Inl e \<Rightarrow> Finished (Inl e)
      | Inr waiting \<Rightarrow> if waiting = 0 then Finished (Inr ()) else Got_State state)"
    using sys_ok_bounds(4) [OF ok] by (simp split: sum.splits)
qed

lemma got_state_step:
  assumes ok: "sys_ok hc op E m w" and ph: "phase_ok hc op E m (w_store w) (Got_State state)"
  shows "step_keeps hc op E m w (cycle_step hc op cfg vindex ch (Got_State state) w)"
  unfolding cycle_step.simps
proof (rule db_query_keeps [OF ok])
  let ?k = "integrated_size state" and ?n = "min (m + integration_batch_size cfg) (length E)"
  fix pending
  assume got: "get_pending_entries ?k (integration_batch_size cfg) (w_db w) = Inr pending"
  have "db_log (w_db w) E m" using ok by (simp add: sys_ok_def)
  then have pending: "pending = map (pending_at E) [m..<?n]"
    using get_pending_entries_ok [of "w_db w" E m ?k "integration_batch_size cfg"] got ph by simp
  have "batch_at E ?k ?n pending"
    if "pending \<noteq> []" "map pe_index pending = [?k..<?k + length pending]"
  proof -
    have "m < ?n" using that(1) pending by auto
    moreover have "map pe_index pending = [m..<?n]" using pending by (simp add: pending_at_def comp_def)
    ultimately have "hd (map pe_index pending) = m" by simp
    moreover have "hd (map pe_index pending) = ?k" using that by simp
    ultimately show ?thesis using pending \<open>m < ?n\<close> by (simp add: batch_at_def)
  qed
  then show "phase_ok hc op E m (w_store w) (if pending = [] then Finished (Inr ())
      else if map pe_index pending \<noteq> [?k..<?k + length pending] then Finished (Inl error.Internal)
      else Got_Pending ?k pending (\<lambda>_ _ _. Inl Storage))"
    using ph by (auto simp: reader_ok_start)
qed

lemma integrate_step:
  assumes ok: "sys_ok hc op E m w" and ph: "phase_ok hc op E m (w_store w) (Got_Pending k pending rd)"
  shows "step_keeps hc op E m w (cycle_step hc op cfg vindex ch (Got_Pending k pending rd) w)"
proof (cases "sc_tile ch")
  case (Some key)
  have "reader_ok hc (read_more op (w_store w) (sc_read_fails ch) key rd) (leaves E k)"
    using ph by (intro reader_ok_more) (simp_all add: serves_at_def)
  then show ?thesis using Some ok ph by (simp add: step_keeps_def)
next
  case None
  have "step_keeps hc op E m w (await_call (lift_st (integrate hc rd k (map pe_leaf_hash pending)))
          (\<lambda>result. Writing_Tiles k pending result (result_tiles result)) w)"
  proof (rule query_keeps [OF ok])
    show "lift_st (integrate hc rd k (map pe_leaf_hash pending)) w = (integrate hc rd k (map pe_leaf_hash pending), w)"
      by (simp add: lift_st_def)
    fix result
    assume run: "integrate hc rd k (map pe_leaf_hash pending) = Inr result"
    obtain n where batch: "k < n" "n \<le> length E" "pending = map (pending_at E) [k..<n]"
      using ph by (auto simp: batch_at_def)
    let ?L = "map (\<lambda>j. entry_leaf_hash (E ! j)) [k..<n]"
    have hashes: "map pe_leaf_hash pending = ?L" using batch(3) by (simp add: pending_at_def)
    have k: "k \<le> length E" "k \<le> n" using batch by simp_all
    have ext: "leaves E n = leaves E k @ ?L" by (rule leaves_extend [OF k(2) batch(2)])
    have len: "length (leaves E k) = k" "length (leaves E k @ ?L) = n"
      using length_leaves [OF k(1)] length_leaves [OF batch(2)] ext by simp_all
    have sv: "store_serves hc op (w_store w) (leaves E k)" and rd: "reader_ok hc rd (leaves E k)"
      using ph by (simp_all add: serves_at_def)
    have "length (leaves E k @ ?L) \<le> i64_max" "?L \<noteq> []"
      using len batch sys_ok_bounds(3) [OF ok] by simp_all
    moreover have "integrate hc rd (length (leaves E k)) ?L = Inr result" using run hashes len by simp
    ultimately have "new_size result = n" "root_hash result = mth hc empty_root_hash (leaves E n)"
      "tiles_ok hc k (leaves E n) (result_tiles result)"
      using answers_integrate [OF sv rd, of ?L result] len unfolding ext by simp_all
    then have "cycle_at hc E m k pending result"
      using ph batch by (simp add: cycle_at_def batch_at_def)
    then show "phase_ok hc op E m (w_store w) (Writing_Tiles k pending result (result_tiles result))"
      using ph by (simp add: tiles_written_def)
  qed
  then show ?thesis using None by simp
qed

lemma tile_write_step:
  assumes ok: "sys_ok hc op E m w" and atomic: "op_atomic op"
    and ph: "phase_ok hc op E m (w_store w) (Writing_Tiles k pending result (tt # ts))"
  shows "step_keeps hc op E m w (cycle_step hc op cfg vindex ch (Writing_Tiles k pending result (tt # ts)) w)"
  unfolding cycle_step.simps
proof (rule store_keeps [OF ok])
  let ?n = "new_size result"
  note b = sys_ok_bounds [OF ok]
  obtain tid t where tt: "tt = (tid, t)" by (cases tt)
  have tiles: "tiles_ok hc k (leaves E ?n) (result_tiles result)" and n: "?n \<le> length E"
    and mem: "(tid, t) \<in> set (result_tiles result)"
    using ph tt by (simp_all add: cycle_at_def batch_at_def)
  note row = row_index_bounds [OF tiles mem n b(3)]
  have good: "row_ok hc (leaves E ?n) (tile_level tid) (tile_index tid) (tile_nodes t)"
    using tiles mem by (auto simp: tiles_ok_def)
  have keys: "write_sized_tile op ?n tt = write_tile op (tile_level tid) (tile_index tid)
      (partial_tile_size (tile_level tid) (tile_index tid) ?n) t"
    by (simp add: write_sized_tile_def tt)
  show keeps: "storage_keeps hc op E (w_store w) (snd (write_sized_tile op ?n tt (w_store w)))"
    unfolding keys by (rule write_tile_keeps [OF b(1) atomic b(3) n row good])
  fix x s'
  assume run: "write_sized_tile op ?n tt (w_store w) = (Inr x, s')"
  then have "Tile_Store.read_tile op s' (tile_level tid) (tile_index tid)
      (partial_tile_size (tile_level tid) (tile_index tid) ?n) = Inr (Some t)"
    by (intro write_tile_same [OF b(1)]) (simp add: keys)
  then have "tile_good hc op s' (leaves E ?n) (tile_level tid) (tile_index tid)"
    using good by (simp add: tile_good_def get_tile_Some_iff length_leaves [OF n])
  moreover have "storage_keeps hc op E (w_store w) s'" using keeps run by simp
  from phase_ok_keeps [OF b(1,3) order.refl b(2) this ph]
  have "phase_ok hc op E m s' (Writing_Tiles k pending result (tt # ts))" .
  ultimately show "phase_ok hc op E m s' (Writing_Tiles k pending result ts)"
    by (auto simp: tiles_written_def tt)
qed

lemma bundles_left_pick:
  assumes "bundles_left op s E n pending bs" and "be \<in> set bs"
  shows "bundles_left op s E n pending (be # remove1 be bs)"
proof -
  have d: "distinct (map fst bs)" using assms(1) by (simp add: bundles_left_def)
  then have db: "distinct bs" by (simp add: distinct_map)
  have "fst be \<notin> fst ` set (remove1 be bs)"
    using d assms(2) db by (auto simp: distinct_map inj_on_def)
  moreover have "distinct (map fst (remove1 be bs))"
    using d by (auto simp: distinct_map inj_on_def intro: distinct_remove1 dest: notin_set_remove1)
  moreover have "set (be # remove1 be bs) = set bs" using assms(2) db by auto
  ultimately show ?thesis using assms(1) unfolding bundles_left_def by simp
qed

lemma bundle_load_step:
  assumes ok: "sys_ok hc op E m w" and ph: "phase_ok hc op E m (w_store w) (Writing_Bundles k pending result (b # bs))"
  shows "step_keeps hc op E m w (cycle_step hc op cfg vindex ch (Writing_Bundles k pending result (b # bs)) w)"
proof -
  let ?n = "new_size result"
  define be where "be = (b # bs) ! (sc_pick ch mod length (b # bs))"
  have "sc_pick ch mod length (b # bs) < length (b # bs)" by simp
  then have be: "be \<in> set (b # bs)" unfolding be_def by (rule nth_mem)
  have left: "bundles_left op (w_store w) E ?n pending (b # bs)" using ph by simp
  have batch: "pending = map (pending_at E) [k..<?n]" using ph by (simp add: cycle_at_def batch_at_def)
  have sv: "bundles_serve op (w_store w) E k" using ph by (simp add: serves_at_def)
  have g: "(fst be, snd be) \<in> set (fold bundle_add (map (pending_at E) [k..<?n]) [])"
    using left be batch by (auto simp: bundles_left_def)
  have "step_keeps hc op E m w (await_call (on_store (\<lambda>s. (load_bundle op (sc_read_fails ch) k (fst be) s, s)))
      (\<lambda>bu. Writing_Bundle k pending result be bu (remove1 be (b # bs))) w)"
  proof (rule store_keeps [OF ok])
    fix bu s'
    assume "(load_bundle op (sc_read_fails ch) k (fst be) (w_store w), w_store w) = (Inr bu, s')"
    then have load: "load_bundle op False k (fst be) (w_store w) = Inr bu" and s': "s' = w_store w"
      using load_bundle_flaky by auto
    have "bundle_entries bu @ snd be = bundle_data E ?n (fst be)"
      using load_bundle_ok [OF sv, of ?n "fst be"] batch_groups [OF g] load by (simp add: touched_def)
    then show "phase_ok hc op E m s' (Writing_Bundle k pending result be bu (remove1 be (b # bs)))"
      using ph bundles_left_pick [OF left be] by (simp del: remove1.simps add: s')
  qed simp
  then show ?thesis by (simp add: be_def Let_def)
qed

lemma bundle_write_step:
  assumes ok: "sys_ok hc op E m w" and atomic: "op_atomic op"
    and ph: "phase_ok hc op E m (w_store w) (Writing_Bundle k pending result be bu bs)"
  shows "step_keeps hc op E m w (cycle_step hc op cfg vindex ch (Writing_Bundle k pending result be bu bs) w)"
  unfolding cycle_step.simps
proof (rule store_keeps [OF ok])
  let ?n = "new_size result"
  note b = sys_ok_bounds [OF ok]
  have batch: "batch_at E k ?n pending" and n: "?n \<le> length E"
    and left: "bundles_left op (w_store w) E ?n pending (be # bs)"
    using ph by (auto simp: cycle_at_def batch_at_def)
  have "be \<in> set (fold bundle_add pending [])" using left by (simp add: bundles_left_def)
  then have lt: "fst be * 256 < ?n" by (rule bundle_group_bound [OF batch])
  have "bundle_entries bu @ snd be = bundle_data E ?n (fst be)" using ph by simp
  then have eq: "store_bundle op ?n be bu = write_entry_bundle op (fst be) (partial_tile_size 0 (fst be) ?n)
      \<lparr>bundle_entries = bundle_data E ?n (fst be)\<rparr>"
    using store_bundle_eq [of bu "snd be" _ op ?n "fst be"] by simp
  show keeps: "storage_keeps hc op E (w_store w) (snd (store_bundle op ?n be bu (w_store w)))"
    unfolding eq by (rule write_bundle_keeps [OF b(1) atomic b(3) n lt])
  fix x s'
  assume run: "store_bundle op ?n be bu (w_store w) = (Inr x, s')"
  have "bundle_good op s' E ?n (fst be)"
    using write_entry_bundle_same [OF b(1)] run by (simp add: eq bundle_good_def get_bundle_Some_iff)
  moreover have "storage_keeps hc op E (w_store w) s'" using keeps run by simp
  from phase_ok_keeps [OF b(1,3) order.refl b(2) this ph]
  have "phase_ok hc op E m s' (Writing_Bundle k pending result be bu bs)" .
  ultimately show "phase_ok hc op E m s' (Writing_Bundles k pending result bs)"
    by (auto simp: bundles_left_def)
qed

text \<open>The mark: a compare-and-swap on the size that the cycle read at its start.\<close>

lemma mark_step:
  assumes ok: "sys_ok hc op E m w" and ph: "phase_ok hc op E m (w_store w) (Marking k pending result)"
    and run: "cycle_step hc op cfg vindex ch (Marking k pending result) w = (ph', w')"
  shows "if k = m \<and> sc_call ch \<noteq> Call_Failed
    then sys_ok hc op E (new_size result) w' \<and> w_store w' = w_store w
      \<and> ph' = (if sc_call ch = Call_Ok then Snapshotting k pending result else Finished (Inl Database))
    else w' = w \<and> ph' = Finished (if sc_call ch = Call_Ok then Inr () else Inl Database)"
proof -
  let ?n = "new_size result" and ?root = "root_hash result"
  have db: "db_log (w_db w) E m" using ok by (simp add: sys_ok_def)
  have n: "k < ?n" "?n \<le> length E" and root: "?root = mth hc empty_root_hash (leaves E ?n)"
    and sv: "serves_at hc op E ?n (w_store w)"
    using ph by (simp_all add: cycle_at_def batch_at_def)
  show ?thesis
  proof (cases "k = m")
    case True
    obtain db' where mark: "mark_integrated_if_current k ?n ?root (w_db w) = (Inr True, db')"
      and log: "db_log db' E ?n" and "stored_root db' = Some ?root"
      using mark_integrated_ok [OF db _ n(2), of ?root] n True by (auto simp: stored_root_def)
    then have "sys_ok hc op E ?n (w\<lparr>w_db := db'\<rparr>)" using sv root by (simp add: sys_ok_def serves_at_def)
    then show ?thesis
      using run mark True by (cases "sc_call ch") (auto simp: await_call_def on_db_def)
  next
    case False
    then have "mark_integrated_if_current k ?n ?root (w_db w) = (Inr False, w_db w)"
      using mark_integrated_cas [OF db _ n(2), of k ?root] n by simp
    then show ?thesis
      using run False by (cases "sc_call ch"; cases w) (auto simp: await_call_def on_db_def)
  qed
qed

text \<open>Every other step keeps the log.\<close>

lemma quiet_step:
  assumes ok: "sys_ok hc op E m w" and atomic: "op_atomic op" and ph: "phase_ok hc op E m (w_store w) ph"
    and quiet: "\<And>k pending result. ph \<noteq> Marking k pending result"
  shows "step_keeps hc op E m w (cycle_step hc op cfg vindex ch ph w)"
proof (cases ph)
  case Sleeping
  then show ?thesis using sleeping_step [OF ok] by simp
next
  case (Got_State state)
  then show ?thesis using got_state_step [OF ok] ph by simp
next
  case (Got_Pending k pending rd)
  then show ?thesis using integrate_step [OF ok] ph by simp
next
  case (Writing_Tiles k pending result ts)
  show ?thesis
  proof (cases ts)
    case Nil
    have "distinct (map fst (fold bundle_add pending []))" by (rule distinct_bundle_fold) simp
    then show ?thesis using Writing_Tiles Nil ok ph by (simp add: step_keeps_def bundles_left_def)
  next
    case (Cons t ts')
    then show ?thesis using tile_write_step [OF ok atomic] ph Writing_Tiles by simp
  qed
next
  case (Writing_Bundles k pending result bs)
  show ?thesis
  proof (cases bs)
    case Nil
    have "serves_at hc op E (new_size result) (w_store w)"
      using ph Writing_Bundles Nil by (intro batch_complete [OF _ _ sys_ok_bounds(3) [OF ok]]) auto
    then show ?thesis using Writing_Bundles Nil ok ph by (simp add: step_keeps_def)
  next
    case (Cons b bs')
    then show ?thesis using bundle_load_step [OF ok] ph Writing_Bundles by simp
  qed
next
  case (Writing_Bundle k pending result be bu bs)
  then show ?thesis using bundle_write_step [OF ok atomic] ph by simp
next
  case (Indexing k pending result)
  have "step_keeps hc op E m w (await_call
      (case vindex of None \<Rightarrow> ret_st () | Some ops \<Rightarrow> on_index (index_pending ops pending))
      (\<lambda>_. Marking k pending result) w)"
    by (rule index_keeps [OF ok]) (use ph Indexing in simp)
  then show ?thesis using Indexing by simp
next
  case (Snapshotting k pending result)
  have "step_keeps hc op E m w (await_call
      (case vindex of None \<Rightarrow> ret_st () | Some ops \<Rightarrow> on_index (io_maybe_snapshot ops)) (\<lambda>_. Finished (Inr ())) w)"
    by (rule index_keeps [OF ok]) simp
  then show ?thesis using Snapshotting by simp
next
  case (Finished r)
  then show ?thesis using ok by (simp add: step_keeps_def)
qed (use quiet in simp)

text \<open>When a step reports that the cycle succeeded.\<close>

definition ended_well :: "worker_config \<Rightarrow> entry list \<Rightarrow> nat \<Rightarrow> cycle_phase \<Rightarrow> bool" where
  "ended_well cfg E m ph \<longleftrightarrow>
     (case ph of
        Sleeping \<Rightarrow> m = length E
      | Got_State state \<Rightarrow> m = min (m + integration_batch_size cfg) (length E)
      | Marking k pending result \<Rightarrow> k \<noteq> m
      | Snapshotting k pending result \<Rightarrow>
          pending = map (pending_at E) [k..<new_size result] \<and> k < new_size result \<and> new_size result \<le> m
      | _ \<Rightarrow> False)"

lemma await_call_well:
  "fst (await_call m next w) = Finished (Inr ()) \<Longrightarrow> \<exists>x w'. m w = (Inr x, w') \<and> next x = Finished (Inr ())"
  by (auto simp: await_call_def split: prod.splits sum.splits)

lemma step_ended_well:
  assumes ok: "sys_ok hc op E m w" and ph: "phase_ok hc op E m (w_store w) ph"
    and run: "fst (cycle_step hc op cfg vindex ch ph w) = Finished (Inr ())"
  shows "ended_well cfg E m ph"
proof (cases ph)
  case Sleeping
  obtain state where "get_log_state (w_db w) = Inr state"
    and "(case pending_count state of Inl e \<Rightarrow> Finished (Inl e)
      | Inr waiting \<Rightarrow> if waiting = 0 then Finished (Inr ()) else Got_State state) = Finished (Inr ())"
    using await_call_well [OF run [unfolded Sleeping cycle_step.simps]] by (auto simp: on_db_query split: if_splits)
  moreover obtain root where "get_log_state (w_db w)
      = Inr \<lparr>next_index = length E, integrated_size = m, state_root_hash = root\<rparr>"
    using get_log_state_ok [of "w_db w" E m] ok by (auto simp: sys_ok_def)
  ultimately have "length E - m = 0" "m \<le> length E"
    using sys_ok_bounds(2) [OF ok] by (auto simp: pending_count_def split: if_splits)
  then show ?thesis by (simp add: ended_well_def Sleeping)
next
  case (Got_State state)
  have "db_log (w_db w) E m" using ok by (simp add: sys_ok_def)
  then have "get_pending_entries (integrated_size state) (integration_batch_size cfg) (w_db w)
      = Inr (map (pending_at E) [m..<min (m + integration_batch_size cfg) (length E)])"
    using get_pending_entries_ok ph Got_State by simp
  then have "\<not> m < min (m + integration_batch_size cfg) (length E)"
    using await_call_well [OF run [unfolded Got_State cycle_step.simps]] by (auto simp: on_db_query split: if_splits)
  then show ?thesis using sys_ok_bounds(2) [OF ok] by (auto simp: ended_well_def Got_State)
next
  case (Got_Pending k pending rd)
  then show ?thesis using run by (cases "sc_tile ch") (auto dest: await_call_well)
next
  case (Writing_Tiles k pending result ts)
  then show ?thesis using run by (cases ts) (auto dest: await_call_well)
next
  case (Writing_Bundles k pending result bs)
  then show ?thesis using run by (cases bs) (auto simp: Let_def dest: await_call_well)
next
  case (Marking k pending result)
  have "k \<noteq> m"
  proof
    assume "k = m"
    with mark_step [OF ok ph [unfolded Marking] surjective_pairing, of ch cfg vindex] run Marking
    show False by (auto split: if_splits)
  qed
  then show ?thesis by (simp add: ended_well_def Marking)
next
  case (Snapshotting k pending result)
  then show ?thesis using ph by (simp add: ended_well_def cycle_at_def batch_at_def)
qed (use run in \<open>auto dest: await_call_well\<close>)


subsection \<open>Every step of the cluster\<close>

text \<open>
  The size to which the next call of a worker in phase \<open>ph\<close> moves the log: only the mark of a cycle that
  read the current size moves it, if the commit happens.
\<close>

definition moved_size :: "step_choice \<Rightarrow> nat \<Rightarrow> cycle_phase \<Rightarrow> nat" where
  "moved_size ch m ph =
     (case ph of Marking k pending result \<Rightarrow> if k = m \<and> sc_call ch \<noteq> Call_Failed then new_size result else m | _ \<Rightarrow> m)"

lemma shared_sys_ok: "sys_ok hc op E m (worker_world c i) = sys_ok hc op E m (shared c)"
  by (simp add: sys_ok_def worker_world_def shared_def)

lemma cycle_step_ok:
  assumes ok: "sys_ok hc op E m w" and atomic: "op_atomic op" and ph: "phase_ok hc op E m (w_store w) ph"
    and run: "cycle_step hc op cfg vindex ch ph w = (ph', w')"
  shows "m \<le> moved_size ch m ph \<and> sys_ok hc op E (moved_size ch m ph) w'
    \<and> phase_ok hc op E (moved_size ch m ph) (w_store w') ph' \<and> storage_keeps hc op E (w_store w) (w_store w')"
proof (cases "\<exists>k pending result. ph = Marking k pending result")
  case True
  then obtain k pending result where p: "ph = Marking k pending result" by blast
  have cyc: "cycle_at hc E m k pending result" using ph p by simp
  then have "k < new_size result" by (simp add: cycle_at_def batch_at_def)
  with mark_step [OF ok ph [unfolded p] run [unfolded p]] ok cyc show ?thesis
    by (auto simp: moved_size_def p cycle_at_def split: if_splits)
next
  case False
  then have "moved_size ch m ph = m" by (auto simp: moved_size_def split: cycle_phase.split)
  with quiet_step [OF ok atomic ph, of cfg vindex ch] False run show ?thesis by (auto simp: step_keeps_def)
qed

lemma worker_step_ok:
  assumes c: "cluster_ok hc op E m c" and atomic: "op_atomic op"
  shows "m \<le> moved_size ch m (cl_phase c i)
    \<and> cluster_ok hc op E (moved_size ch m (cl_phase c i)) (worker_step hc op cfg vindex ch i c)"
proof -
  let ?m' = "moved_size ch m (cl_phase c i)"
  obtain ph' w' where run: "cycle_step hc op (cfg i) (vindex i) ch (cl_phase c i) (worker_world c i) = (ph', w')"
    by fastforce
  have ok: "sys_ok hc op E m (worker_world c i)" using c by (simp add: cluster_ok_def shared_sys_ok)
  have store: "w_store (worker_world c i) = cl_store c" by (simp add: worker_world_def)
  have ph: "phase_ok hc op E m (w_store (worker_world c i)) (cl_phase c i)"
    using c unfolding store by (simp add: cluster_ok_def)
  have step: "m \<le> ?m'" "sys_ok hc op E ?m' w'" "phase_ok hc op E ?m' (w_store w') ph'"
    "storage_keeps hc op E (cl_store c) (w_store w')"
    using cycle_step_ok [OF ok atomic ph run] store by simp_all
  note b = sys_ok_bounds [OF ok]
  have "phase_ok hc op E ?m' (w_store w') (cl_phase c j)" for j
    using phase_ok_keeps [OF b(1,3) step(1) b(2) step(4)] c by (simp add: cluster_ok_def)
  then show ?thesis
    using step by (simp add: cluster_ok_def worker_step_def run shared_def sys_ok_def)
qed

lemma cluster_step_ok:
  assumes "cluster_step hc op cfg vindex c c'" and c: "cluster_ok hc op E m c" and atomic: "op_atomic op"
  shows "\<exists>F n. m \<le> n \<and> cluster_ok hc op (E @ F) n c'"
  using assms(1)
proof (cases rule: cluster_step.cases)
  case (step_sequence out es)
  have "sys_ok hc op E m (shared c)" using c by (simp add: cluster_ok_def)
  from sys_ok_sequence [OF this, of out es] obtain F
    where "sys_ok hc op (E @ F) m ((shared c)\<lparr>w_db := snd (fallible out (sequence_entries es) (w_db (shared c)))\<rparr>)" ..
  moreover have "phase_ok hc op (E @ F) m (cl_store c) (cl_phase c i)" for i
    using c sys_ok_bounds(2) by (intro phase_ok_extend) (auto simp: cluster_ok_def)
  ultimately have "cluster_ok hc op (E @ F) m c'"
    by (simp add: cluster_ok_def shared_def step_sequence)
  then show ?thesis by blast
next
  case (step_publish data)
  have ok: "sys_ok hc op E m (shared c)" using c by (simp add: cluster_ok_def)
  note b = sys_ok_bounds [OF ok]
  let ?s = "snd (write_checkpoint op data (cl_store c))"
  have keeps: "storage_keeps hc op E (cl_store c) ?s" by (rule write_checkpoint_keeps [OF b(1)])
  have "sys_ok hc op E m ((shared c)\<lparr>w_store := ?s\<rparr>)"
    by (rule sys_ok_keeps [OF ok]) (use keeps in \<open>simp add: shared_def\<close>)
  moreover have "phase_ok hc op E m ?s (cl_phase c i)" for i
    using phase_ok_keeps [OF b(1,3) order.refl b(2) keeps] c by (simp add: cluster_ok_def)
  ultimately have "cluster_ok hc op E m c'" by (simp add: cluster_ok_def shared_def step_publish)
  then show ?thesis by (intro exI [of _ "[]"]) auto
next
  case (step_worker ch i)
  then show ?thesis using worker_step_ok [OF c atomic, of ch i cfg vindex] by (intro exI [of _ "[]"]) auto
next
  case (step_restart i v)
  then have "cluster_ok hc op E m c'" using c by (simp add: cluster_ok_def shared_def restart_def)
  then show ?thesis by (intro exI [of _ "[]"]) auto
qed

lemma cluster_steps_ok:
  assumes "(cluster_step hc op cfg vindex)\<^sup>*\<^sup>* c c'" and "cluster_ok hc op E m c" and "op_atomic op"
  shows "\<exists>F n. m \<le> n \<and> cluster_ok hc op (E @ F) n c'"
  using assms
proof (induction rule: rtranclp_induct)
  case base
  then show ?case by (intro exI [of _ "[]"]) auto
next
  case (step c' c'')
  then obtain F n where n: "m \<le> n" "cluster_ok hc op (E @ F) n c'" by blast
  from cluster_step_ok [OF step.hyps(2) n(2) step.prems(2)] obtain G n'
    where "n \<le> n'" "cluster_ok hc op ((E @ F) @ G) n' c''" by blast
  with n show ?case by (metis append.assoc order.trans)
qed

lemma cluster_start_ok:
  "sys_ok hc op E m (shared c) \<Longrightarrow> \<forall>i. cl_phase c i = Sleeping \<Longrightarrow> cluster_ok hc op E m c"
  by (simp add: cluster_ok_def)


subsection \<open>Two workers that race\<close>

text \<open>Two workers read the first entry of a log, and both get as far as the mark.\<close>

definition demo_entry :: entry where
  "demo_entry = \<lparr>entry_data = [1], entry_leaf_hash = 5\<rparr>"

definition demo_cluster :: "((string \<times> byte list) list, unit) cluster" where
  "demo_cluster = \<lparr>cl_db = snd (sequence_entries [demo_entry] (empty_db None)), cl_store = [],
     cl_phase = (\<lambda>_. Sleeping), cl_index = (\<lambda>_. ())\<rparr>"

definition demo_worker_config :: worker_config where
  "demo_worker_config = \<lparr>integration_batch_size = 4, witness_quorum = None\<rparr>"

definition demo_choice :: step_choice where
  "demo_choice = \<lparr>sc_call = Call_Ok, sc_read_fails = False, sc_tile = None, sc_pick = 0\<rparr>"

definition demo_go :: "nat \<Rightarrow> ((string \<times> byte list) list, unit) cluster \<Rightarrow> ((string \<times> byte list) list, unit) cluster" where
  "demo_go = worker_step demo_hash memory_op (\<lambda>_. demo_worker_config) (\<lambda>_. None) demo_choice"

definition demo_race :: "((string \<times> byte list) list, unit) cluster" where
  "demo_race = (demo_go 1 ^^ 9) ((demo_go 0 ^^ 9) demo_cluster)"

definition demo_result :: integration_result where
  "demo_result = \<lparr>new_size = 1, root_hash = 5, result_tiles = [(\<lparr>tile_level = 0, tile_index = 0\<rparr>, \<lparr>tile_nodes = [5]\<rparr>)]\<rparr>"

lemma demo_integrate: "integrate demo_hash (\<lambda>_ _ _. Inl Storage) 0 [5] = Inr demo_result"
  by (simp add: integrate_def tree_builder_new_def tb_append_def finalize_def compute_root_def range_set_def set_node_def
      append_loop.simps node_to_tile_coords_def TILE_HEIGHT_def TILE_WIDTH_def mutator_set_def finalize_tile_def tile_level_new_def
      integrate_partial_tile_size_def apply_to_def flat_offset_def empty_tile_def Let_def demo_result_def)

lemma demo_db: "cl_db demo_cluster = \<lparr>db_log_state = Some \<lparr>row_next_index = 1, row_integrated_size = 0, row_root_hash = None\<rparr>,
     db_mode = None, db_rekor = [], db_pending = [pending_row_at [demo_entry] 0]\<rparr>"
  by (simp add: demo_cluster_def sequence_entries_def empty_db_def sequence_one_def sequence_append_def pending_row_at_def
    demo_entry_def as_u64_def as_i64_def)

definition demo_at :: "nat \<Rightarrow> cycle_phase \<Rightarrow> ((string \<times> byte list) list, unit) cluster \<Rightarrow> bool" where
  "demo_at i ph c \<longleftrightarrow> cl_db c = cl_db demo_cluster \<and> cl_phase c i = ph"

lemma demo_at_step:
  assumes "demo_at i ph c"
    and "fst (cycle_step demo_hash memory_op demo_worker_config (None :: unit index_ops option) demo_choice ph (worker_world c i)) = ph'"
    and "w_db (snd (cycle_step demo_hash memory_op demo_worker_config (None :: unit index_ops option) demo_choice ph (worker_world c i))) = cl_db c"
  shows "demo_at i ph' (demo_go i c)" and "j \<noteq> i \<Longrightarrow> cl_phase (demo_go i c) j = cl_phase c j"
  using assms by (auto simp: demo_at_def demo_go_def worker_step_def split: prod.splits)

lemma demo_state: "get_log_state (cl_db demo_cluster) = Inr \<lparr>next_index = 1, integrated_size = 0, state_root_hash = None\<rparr>"
  by (simp add: demo_db get_log_state_def as_u64_def)

lemma demo_pending: "get_pending_entries 0 4 (cl_db demo_cluster) = Inr [pending_at [demo_entry] 0]"
proof -
  have "db_log (cl_db demo_cluster) [demo_entry] 0"
    by (auto simp: demo_db db_log_def rekor_ok_def)
  from get_pending_entries_ok [OF this, of 0 4] show ?thesis by simp
qed

lemma demo_tile_write: "\<exists>s'. write_sized_tile memory_op n t s = (Inr (), s')"
  by (cases t) (simp add: write_sized_tile_def write_tile_def memory_op_def)

lemma demo_bundle: "\<exists>s'. store_bundle memory_op 1 (0, [[1]]) \<lparr>bundle_entries = []\<rparr> s = (Inr (), s')"
  by (simp add: store_bundle_def write_entry_bundle_def bundle_to_bytes_def memory_op_def bind_st_def lift_st_def bundle_push_def Let_def)

lemma demo_walk:
  assumes "demo_at i Sleeping c"
  shows "demo_at i (Marking 0 [pending_at [demo_entry] 0] demo_result) ((demo_go i ^^ 9) c)"
proof -
  let ?p = "[pending_at [demo_entry] 0]" and ?r = demo_result and ?b = "(0, [[1]]) :: bundle_group"
  have groups: "bundle_add (pending_at [demo_entry] 0) [] = [?b]"
    by (simp add: bundle_add_def pending_at_def demo_entry_def)
  note defs = demo_at_def worker_world_def demo_choice_def demo_worker_config_def await_call_def on_db_def on_store_def
  have 1: "demo_at i (Got_State \<lparr>next_index = 1, integrated_size = 0, state_root_hash = None\<rparr>) (demo_go i c)"
    using assms demo_state by (intro demo_at_step(1) [OF assms]) (auto simp: defs pending_count_def)
  have 2: "demo_at i (Got_Pending 0 ?p (\<lambda>_ _ _. Inl Storage)) (demo_go i (demo_go i c))"
    using 1 demo_pending by (intro demo_at_step(1) [OF 1]) (auto simp: defs pending_at_def)
  have 3: "demo_at i (Writing_Tiles 0 ?p ?r (result_tiles ?r)) (demo_go i (demo_go i (demo_go i c)))"
    using 2 demo_integrate
    by (intro demo_at_step(1) [OF 2]) (auto simp: defs lift_st_def pending_at_def demo_entry_def)
  obtain t where tiles: "result_tiles ?r = [t]" by (simp add: demo_result_def)
  define c3 where "c3 = demo_go i (demo_go i (demo_go i c))"
  obtain s1 where w: "write_sized_tile memory_op 1 t (cl_store c3) = (Inr (), s1)" using demo_tile_write by blast
  have n: "new_size ?r = 1" by (simp add: demo_result_def)
  have 4: "demo_at i (Writing_Tiles 0 ?p ?r []) (demo_go i c3)"
    using 3 w unfolding c3_def [symmetric] tiles
    by (intro demo_at_step(1)) (auto simp: defs n)
  have 5: "demo_at i (Writing_Bundles 0 ?p ?r [?b]) (demo_go i (demo_go i c3))"
    using 4 by (intro demo_at_step(1) [OF 4]) (auto simp: groups worker_world_def)
  have 6: "demo_at i (Writing_Bundle 0 ?p ?r ?b \<lparr>bundle_entries = []\<rparr> []) (demo_go i (demo_go i (demo_go i c3)))"
    using 5 by (intro demo_at_step(1) [OF 5]) (auto simp: defs load_bundle_def ENTRY_BUNDLE_WIDTH_def TILE_WIDTH_def)
  define c6 where "c6 = demo_go i (demo_go i (demo_go i c3))"
  obtain s2 where b: "store_bundle memory_op 1 ?b \<lparr>bundle_entries = []\<rparr> (cl_store c6) = (Inr (), s2)"
    using demo_bundle by blast
  have 7: "demo_at i (Writing_Bundles 0 ?p ?r []) (demo_go i c6)"
    using 6 b unfolding c6_def [symmetric] by (intro demo_at_step(1)) (auto simp: defs n)
  have 8: "demo_at i (Indexing 0 ?p ?r) (demo_go i (demo_go i c6))"
    using 7 by (intro demo_at_step(1) [OF 7]) (auto simp: defs)
  have 9: "demo_at i (Marking 0 ?p ?r) (demo_go i (demo_go i (demo_go i c6)))"
    using 8 by (intro demo_at_step(1) [OF 8]) (auto simp: defs ret_st_def)
  then show ?thesis by (simp add: c6_def c3_def eval_nat_numeral)
qed

lemma demo_go_other: "j \<noteq> i \<Longrightarrow> cl_phase ((demo_go i ^^ n) c) j = cl_phase c j"
  by (induction n) (simp_all add: demo_go_def worker_step_def split: prod.split)

lemma demo_go_step: "cluster_step demo_hash memory_op (\<lambda>_. demo_worker_config) (\<lambda>_. None) c (demo_go i c)"
  unfolding demo_go_def by (rule step_worker)

lemma demo_go_steps:
  "(cluster_step demo_hash memory_op (\<lambda>_. demo_worker_config) (\<lambda>_. None))\<^sup>*\<^sup>* c ((demo_go i ^^ n) c)"
  by (induction n) (auto intro: rtranclp.rtrancl_into_rtrancl demo_go_step)

lemma demo_cluster_ok: "sys_ok hc memory_op [demo_entry] 0 (shared demo_cluster)"
proof -
  have "db_log (cl_db demo_cluster) [demo_entry] 0" by (auto simp: demo_db db_log_def rekor_ok_def)
  then show ?thesis
    using store_serves_empty [OF memory_op_laws]
    by (simp add: sys_ok_def shared_def demo_cluster_def leaves_def bundles_serve_def memory_op_laws)
qed

text \<open>Both are about to mark the batch from 0 to 1; then one does, and then the other tries.\<close>

lemma demo_race_phases:
  "cl_db demo_race = cl_db demo_cluster"
  "j < 2 \<Longrightarrow> cl_phase demo_race j = Marking 0 [pending_at [demo_entry] 0] demo_result"
proof -
  have "demo_at 0 Sleeping demo_cluster" by (simp add: demo_at_def demo_cluster_def)
  from demo_walk [OF this] have w0: "demo_at 0 (Marking 0 [pending_at [demo_entry] 0] demo_result) ((demo_go 0 ^^ 9) demo_cluster)" .
  then have "demo_at 1 Sleeping ((demo_go 0 ^^ 9) demo_cluster)"
    using demo_go_other [of 1 0 9 demo_cluster] by (simp add: demo_at_def demo_cluster_def)
  from demo_walk [OF this] have w1: "demo_at 1 (Marking 0 [pending_at [demo_entry] 0] demo_result) demo_race"
    by (simp add: demo_race_def)
  then show "cl_db demo_race = cl_db demo_cluster" by (simp add: demo_at_def)
  show "j < 2 \<Longrightarrow> cl_phase demo_race j = Marking 0 [pending_at [demo_entry] 0] demo_result"
    using w0 w1 demo_go_other [of 0 1 9 "(demo_go 0 ^^ 9) demo_cluster"]
    by (auto simp: demo_at_def demo_race_def less_2_cases_iff)
qed

lemma demo_marked:
  "get_log_state (cl_db (demo_go 0 demo_race)) = Inr \<lparr>next_index = 1, integrated_size = 1, state_root_hash = Some 5\<rparr>"
  "cl_db (demo_go 1 (demo_go 0 demo_race)) = cl_db (demo_go 0 demo_race)"
  "cl_phase (demo_go 1 (demo_go 0 demo_race)) 1 = Finished (Inr ())"
proof -
  have mark: "cl_db (demo_go 0 demo_race) = \<lparr>db_log_state = Some \<lparr>row_next_index = 1, row_integrated_size = 1,
     row_root_hash = Some (hash_bytes 5)\<rparr>, db_mode = None, db_rekor = [], db_pending = []\<rparr>"
    using demo_race_phases
    by (simp add: demo_go_def worker_step_def worker_world_def await_call_def on_db_def demo_choice_def demo_db
        mark_integrated_if_current_def demo_result_def as_u64_def as_i64_def pending_row_at_def)
  then show "get_log_state (cl_db (demo_go 0 demo_race)) = Inr \<lparr>next_index = 1, integrated_size = 1, state_root_hash = Some 5\<rparr>"
    by (simp add: get_log_state_def as_u64_def)
  have "cl_phase (demo_go 0 demo_race) 1 = Marking 0 [pending_at [demo_entry] 0] demo_result"
    using demo_race_phases(2) [of 1] demo_go_other [of 1 0 1 demo_race] by simp
  then show "cl_db (demo_go 1 (demo_go 0 demo_race)) = cl_db (demo_go 0 demo_race)"
    and "cl_phase (demo_go 1 (demo_go 0 demo_race)) 1 = Finished (Inr ())"
    using mark unfolding demo_go_def [of] worker_step_def
    by (simp_all add: worker_world_def await_call_def on_db_def demo_choice_def mark_integrated_if_current_def as_u64_def
        demo_result_def)
qed

lemma demo_idle: "\<forall>i. cl_phase demo_cluster i = Sleeping"
  by (simp add: demo_cluster_def)

lemma demo_race_reached:
  "(cluster_step demo_hash memory_op (\<lambda>_. demo_worker_config) (\<lambda>_. None))\<^sup>*\<^sup>* demo_cluster demo_race"
  unfolding demo_race_def by (rule rtranclp_trans [OF demo_go_steps demo_go_steps])



subsection \<open>Properties\<close>

text \<open>
  C1. The log is append-only, also when integration workers race: start any number of idle workers on a
  database and a storage that agree, and let them, the sequencer and the checkpoint publisher run
  in any interleaving of their single calls, with database calls that fail or lose their answer,
  failing reads and writes, and workers that die and restart. Then the entries sequenced before
  are a prefix of the entries now, the integrated size has not shrunk, and the database, the tiles,
  the entry bundles and the stored root agree on that size.
\<close>

theorem log_append_only:
  assumes "op_atomic op" and "sys_ok hc op E m (shared c)" and "\<forall>i. cl_phase c i = Sleeping"
    and "(cluster_step hc op cfg vindex)\<^sup>*\<^sup>* c c'"
  shows "\<exists>F n. m \<le> n \<and> sys_ok hc op (E @ F) n (shared c')"
  using cluster_steps_ok [OF assms(4) cluster_start_ok [OF assms(2,3)] assms(1)] by (auto simp: cluster_ok_def)

text \<open>
  C4. Safety of an integration cycle, call by call, in a run as above: whatever the next call of a worker
  meets, the log is consistent before and after it, and the size moves only when the worker marks a
  batch and the size it read at the start of its cycle is still current; then it moves by exactly
  the batch that was read, also when only the answer of the commit is lost. A worker that marks
  after another one has moved the log changes nothing. The cycle reports success only if nothing was
  to be integrated, if it was stale, or after its whole batch has been integrated.
\<close>

theorem integration_cycle_safe:
  assumes "op_atomic op" and "sys_ok hc op E0 m0 (shared c0)" and "\<forall>j. cl_phase c0 j = Sleeping"
    and "(cluster_step hc op cfg vindex)\<^sup>*\<^sup>* c0 c"
  shows "\<exists>F m m'. m0 \<le> m \<and> m \<le> m' \<and> sys_ok hc op (E0 @ F) m (shared c)
    \<and> sys_ok hc op (E0 @ F) m' (shared (worker_step hc op cfg vindex ch i c))
    \<and> (case cl_phase c i of
         Marking k pending result \<Rightarrow>
           if k = m \<and> sc_call ch \<noteq> Call_Failed
           then m < m' \<and> m' = new_size result \<and> pending = map (pending_at (E0 @ F)) [m..<m']
           else m' = m \<and> cl_db (worker_step hc op cfg vindex ch i c) = cl_db c
       | _ \<Rightarrow> m' = m)
    \<and> (cl_phase (worker_step hc op cfg vindex ch i c) i = Finished (Inr ()) \<longrightarrow>
         ended_well (cfg i) (E0 @ F) m (cl_phase c i))"
proof -
  obtain F m where m: "m0 \<le> m" and c: "cluster_ok hc op (E0 @ F) m c"
    using cluster_steps_ok [OF assms(4) cluster_start_ok [OF assms(2,3)] assms(1)] by blast
  let ?c' = "worker_step hc op cfg vindex ch i c" and ?m' = "moved_size ch m (cl_phase c i)"
  note step = worker_step_ok [OF c assms(1), of ch i cfg vindex]
  have ok: "sys_ok hc op (E0 @ F) m (worker_world c i)" using c by (simp add: cluster_ok_def shared_sys_ok)
  have ph: "phase_ok hc op (E0 @ F) m (w_store (worker_world c i)) (cl_phase c i)"
    using c by (simp add: cluster_ok_def worker_world_def)
  have phase: "cl_phase ?c' i = fst (cycle_step hc op (cfg i) (vindex i) ch (cl_phase c i) (worker_world c i))"
    and db: "cl_db ?c' = w_db (snd (cycle_step hc op (cfg i) (vindex i) ch (cl_phase c i) (worker_world c i)))"
    by (simp_all add: worker_step_def split: prod.split)
  have moved: "case cl_phase c i of
         Marking k pending result \<Rightarrow>
           if k = m \<and> sc_call ch \<noteq> Call_Failed
           then m < ?m' \<and> ?m' = new_size result \<and> pending = map (pending_at (E0 @ F)) [m..<?m']
           else ?m' = m \<and> cl_db ?c' = cl_db c
       | _ \<Rightarrow> ?m' = m"
  proof (cases "cl_phase c i")
    case (Marking k pending result)
    have "batch_at (E0 @ F) k (new_size result) pending" using ph Marking by (simp add: cycle_at_def)
    then show ?thesis
      using mark_step [OF ok ph [unfolded Marking] surjective_pairing, of ch "cfg i" "vindex i"] Marking
      by (auto simp: moved_size_def batch_at_def db worker_world_def split: if_splits)
  qed (simp_all add: moved_size_def)
  have well: "cl_phase ?c' i = Finished (Inr ()) \<longrightarrow> ended_well (cfg i) (E0 @ F) m (cl_phase c i)"
    using step_ended_well [OF ok ph] unfolding phase by blast
  have sys: "sys_ok hc op (E0 @ F) m (shared c)" "sys_ok hc op (E0 @ F) ?m' (shared ?c')"
    using c step by (simp_all add: cluster_ok_def)
  show ?thesis
    by (rule exI [of _ F], rule exI [of _ m], rule exI [of _ ?m']) (intro conjI m conjunct1 [OF step] sys moved well)
qed

lemma demo_size:
  assumes "sys_ok hc op ([demo_entry] @ F) m (shared c)"
    and "get_log_state (cl_db c) = Inr \<lparr>next_index = 1, integrated_size = k, state_root_hash = r\<rparr>"
  shows "F = []" and "m = k"
  using assms get_log_state_ok [of "cl_db c" "[demo_entry] @ F" m] by (auto simp: sys_ok_def shared_def)

theorem log_append_only_witness:
  "sys_ok demo_hash memory_op [demo_entry] 1 (shared (demo_go 1 (demo_go 0 demo_race)))"
proof -
  have "(cluster_step demo_hash memory_op (\<lambda>_. demo_worker_config) (\<lambda>_. None))\<^sup>*\<^sup>* demo_cluster (demo_go 1 (demo_go 0 demo_race))"
    by (rule rtranclp.rtrancl_into_rtrancl [OF rtranclp.rtrancl_into_rtrancl [OF demo_race_reached]]; rule demo_go_step)
  from log_append_only [OF memory_op_atomic demo_cluster_ok demo_idle this]
  obtain F n where ok: "sys_ok demo_hash memory_op ([demo_entry] @ F) n (shared (demo_go 1 (demo_go 0 demo_race)))" by blast
  from demo_size [OF ok, of 1 "Some 5"] ok demo_marked show ?thesis by simp
qed

theorem integration_cycle_safe_witness:
  "sys_ok demo_hash memory_op [demo_entry] 0 (shared demo_race)
   \<and> sys_ok demo_hash memory_op [demo_entry] 1 (shared (demo_go 0 demo_race))
   \<and> sys_ok demo_hash memory_op [demo_entry] 1 (shared (demo_go 1 (demo_go 0 demo_race)))
   \<and> cl_phase (demo_go 1 (demo_go 0 demo_race)) 1 = Finished (Inr ())"
proof -
  note safe = integration_cycle_safe [where cfg = "\<lambda>_. demo_worker_config" and vindex = "\<lambda>_. None" and ch = demo_choice,
      OF memory_op_atomic demo_cluster_ok demo_idle, where hc = demo_hash, folded demo_go_def]
  obtain F m m' where first: "sys_ok demo_hash memory_op ([demo_entry] @ F) m (shared demo_race)"
    "sys_ok demo_hash memory_op ([demo_entry] @ F) m' (shared (demo_go 0 demo_race))"
    using safe [OF demo_race_reached, of 0] by blast
  have "get_log_state (cl_db demo_race) = Inr \<lparr>next_index = 1, integrated_size = 0, state_root_hash = None\<rparr>"
    using demo_race_phases(1) demo_state by simp
  note s0 = demo_size [OF first(1) this] and s1 = demo_size(2) [OF first(2) demo_marked(1)]
  have "(cluster_step demo_hash memory_op (\<lambda>_. demo_worker_config) (\<lambda>_. None))\<^sup>*\<^sup>* demo_cluster (demo_go 0 demo_race)"
    by (rule rtranclp.rtrancl_into_rtrancl [OF demo_race_reached demo_go_step])
  from safe [OF this, of 1] obtain G k k' where
    second: "sys_ok demo_hash memory_op ([demo_entry] @ G) k' (shared (demo_go 1 (demo_go 0 demo_race)))"
    by blast
  from demo_size [OF second, of 1 "Some 5"] second first s0 s1 demo_marked show ?thesis by simp
qed

end
