(* ===== verification/Prefix_Label.thy ===== *)
theory Prefix_Label
  imports Types_Paths "HOL-Library.Sublist"
begin

text \<open>
  Labels of the prefix tree, \<^verbatim>\<open>src/vindex/prefix_tree.rs\<close>: a path in the tree is a bit string packed
  into bytes, most significant bit first, with its length in bits. An operation whose assertion,
  slice or index can panic returns an option, \<open>None\<close> for the panic. \<open>label_bits\<close> is the bit
  string a label stands for; on well-formed labels (as many bytes as the bits need, unused bits
  zero) no operation panics and each is the expected operation on bit strings.
\<close>

unbundle bit_operations_syntax

named_theorems label_simps \<open>operations on well-formed labels\<close>


subsection \<open>Operations\<close>

record label =
  lb_bytes :: "byte list"
  lb_len :: nat

definition label_empty :: label where
  "label_empty = \<lparr>lb_bytes = [], lb_len = 0\<rparr>"

definition label_from_key :: "sha256_hash \<Rightarrow> label" where
  "label_from_key key = \<lparr>lb_bytes = hash_bytes key, lb_len = 256\<rparr>"

definition byte_bit :: "byte \<Rightarrow> nat \<Rightarrow> byte" where
  "byte_bit b bit_idx = drop_bit bit_idx b AND 1"

definition label_bit :: "label \<Rightarrow> nat \<Rightarrow> byte option" where
  "label_bit l idx =
     (if \<not> idx < lb_len l then None
      else let byte_idx = idx div 8; bit_idx = 7 - idx mod 8
           in if \<not> byte_idx < length (lb_bytes l) then None
              else Some (byte_bit (lb_bytes l ! byte_idx) bit_idx))"

text \<open>\<open>0xFFu8 << (8 - remaining_bits)\<close>, the mask of the leading bits of a byte.\<close>

definition high_mask :: "nat \<Rightarrow> byte" where
  "high_mask remaining_bits = push_bit (8 - remaining_bits) 0xFF"

definition label_prefix :: "label \<Rightarrow> nat \<Rightarrow> label option" where
  "label_prefix l len =
     (if lb_len l \<le> len then Some l
      else if len = 0 then Some label_empty
      else let full_bytes = len div 8; remaining_bits = len mod 8
           in if \<not> full_bytes \<le> length (lb_bytes l) then None
              else let bytes = take full_bytes (lb_bytes l);
                       bytes = (if 0 < remaining_bits \<and> full_bytes < length (lb_bytes l)
                                then bytes @ [lb_bytes l ! full_bytes AND high_mask remaining_bits]
                                else bytes)
                   in Some \<lparr>lb_bytes = bytes, lb_len = len\<rparr>)"

text \<open>
  The index \<open>bytes[byte_idx]\<close> of \<open>append_bit\<close> is in range because at most one byte is missing;
  it is checked here all the same.
\<close>

definition append_bit :: "label \<Rightarrow> byte \<Rightarrow> label option" where
  "append_bit l b =
     (let byte_idx = lb_len l div 8; bit_idx = 7 - lb_len l mod 8;
          bytes = (if length (lb_bytes l) \<le> byte_idx then lb_bytes l @ [0] else lb_bytes l)
      in if b = 1 then
           (if byte_idx < length bytes
            then Some \<lparr>lb_bytes = bytes[byte_idx := (bytes ! byte_idx) OR push_bit bit_idx 1],
                       lb_len = lb_len l + 1\<rparr>
            else None)
         else Some \<lparr>lb_bytes = bytes, lb_len = lb_len l + 1\<rparr>)"

text \<open>The loop of \<open>suffix\<close>, with the bits still to append.\<close>

fun suffix_loop :: "label \<Rightarrow> nat \<Rightarrow> label \<Rightarrow> nat list \<Rightarrow> label option" where
  "suffix_loop l start result [] = Some result"
| "suffix_loop l start result (i # is) =
     Option.bind (label_bit l (start + i)) (\<lambda>b.
     Option.bind (append_bit result b) (\<lambda>result'. suffix_loop l start result' is))"

definition label_suffix :: "label \<Rightarrow> nat \<Rightarrow> label option" where
  "label_suffix l start =
     (if lb_len l \<le> start then Some label_empty
      else suffix_loop l start label_empty [0..<lb_len l - start])"

definition get_or_0 :: "byte list \<Rightarrow> nat \<Rightarrow> byte" where
  "get_or_0 bs i = (if i < length bs then bs ! i else 0)"

definition is_prefix_of :: "label \<Rightarrow> label \<Rightarrow> bool option" where
  "is_prefix_of l other =
     (if lb_len other < lb_len l then Some False
      else if lb_len l = 0 then Some True
      else let full_bytes = lb_len l div 8
           in if \<not> (full_bytes \<le> length (lb_bytes l) \<and> full_bytes \<le> length (lb_bytes other)) then None
              else if take full_bytes (lb_bytes l) \<noteq> take full_bytes (lb_bytes other) then Some False
              else let remaining_bits = lb_len l mod 8
                   in if 0 < remaining_bits \<and>
                         get_or_0 (lb_bytes l) full_bytes AND high_mask remaining_bits
                           \<noteq> get_or_0 (lb_bytes other) full_bytes AND high_mask remaining_bits
                      then Some False
                      else Some True)"

definition byte_leading_zeros :: "byte \<Rightarrow> nat" where
  "byte_leading_zeros b = leading_zeros 8 (unat b)"

text \<open>The loop over whole bytes: the position of the first difference, if any (\<open>None\<close> inside for
  no difference).\<close>

fun diff_bytes :: "label \<Rightarrow> label \<Rightarrow> nat list \<Rightarrow> nat option option" where
  "diff_bytes l other [] = Some None"
| "diff_bytes l other (i # is) =
     (if \<not> (i < length (lb_bytes l) \<and> i < length (lb_bytes other)) then None
      else if lb_bytes l ! i \<noteq> lb_bytes other ! i
      then Some (Some (i * 8 + byte_leading_zeros (lb_bytes l ! i XOR lb_bytes other ! i)))
      else diff_bytes l other is)"

definition common_prefix_len :: "label \<Rightarrow> label \<Rightarrow> nat option" where
  "common_prefix_len l other =
     (let max_len = min (lb_len l) (lb_len other)
      in if max_len = 0 then Some 0
         else let full_bytes = max_len div 8
              in case diff_bytes l other [0..<full_bytes] of
                   None \<Rightarrow> None
                 | Some (Some n) \<Rightarrow> Some n
                 | Some None \<Rightarrow>
                     let remaining_bits = max_len mod 8
                     in if 0 < remaining_bits \<and> full_bytes < length (lb_bytes l)
                             \<and> full_bytes < length (lb_bytes other)
                        then let self_byte = lb_bytes l ! full_bytes AND high_mask remaining_bits;
                                 other_byte = lb_bytes other ! full_bytes AND high_mask remaining_bits
                             in if self_byte \<noteq> other_byte
                                then Some (full_bytes * 8 + byte_leading_zeros (self_byte XOR other_byte))
                                else Some max_len
                        else Some max_len)"


subsection \<open>The bits of a byte string\<close>

definition nth_bit :: "byte list \<Rightarrow> nat \<Rightarrow> bool" where
  "nth_bit bs i = bit (bs ! (i div 8)) (7 - i mod 8)"

definition label_bits :: "label \<Rightarrow> bool list" where
  "label_bits l = map (nth_bit (lb_bytes l)) [0..<lb_len l]"

definition label_ok :: "label \<Rightarrow> bool" where
  "label_ok l \<longleftrightarrow>
     length (lb_bytes l) = (lb_len l + 7) div 8
     \<and> list_all (\<lambda>i. \<not> nth_bit (lb_bytes l) i) [lb_len l..<8 * length (lb_bytes l)]"

lemma length_label_bits [simp]: "length (label_bits l) = lb_len l"
  by (simp add: label_bits_def)

lemma nth_label_bits [simp]: "i < lb_len l \<Longrightarrow> label_bits l ! i = nth_bit (lb_bytes l) i"
  by (simp add: label_bits_def)

lemma label_okI:
  "length (lb_bytes l) = (lb_len l + 7) div 8
     \<Longrightarrow> (\<And>i. lb_len l \<le> i \<Longrightarrow> i < 8 * length (lb_bytes l) \<Longrightarrow> \<not> nth_bit (lb_bytes l) i) \<Longrightarrow> label_ok l"
  by (auto simp: label_ok_def list_all_iff)

lemma label_ok_bytes:
  assumes "label_ok l"
  shows "length (lb_bytes l) = (lb_len l + 7) div 8"
    and "lb_len l \<le> i \<Longrightarrow> i < 8 * length (lb_bytes l) \<Longrightarrow> \<not> nth_bit (lb_bytes l) i"
  using assms by (auto simp: label_ok_def list_all_iff)

lemma label_ok_index: "label_ok l \<Longrightarrow> i < lb_len l \<Longrightarrow> i div 8 < length (lb_bytes l)"
  by (simp add: label_ok_def)

lemma byte_eqI: "(\<And>j. j < 8 \<Longrightarrow> bit (a :: byte) j = bit b j) \<Longrightarrow> a = b"
  by (rule bit_word_eqI) simp

lemma nth_bit_8:
  assumes "j < 8"
  shows "nth_bit bs (8 * k + (7 - j)) = bit (bs ! k) j"
proof -
  define r where "r = 7 - j"
  have "r < 8" and "7 - r = j" using assms by (auto simp: r_def)
  then have "nth_bit bs (8 * k + r) = bit (bs ! k) j" by (simp add: nth_bit_def)
  then show ?thesis by (simp only: r_def)
qed

lemma bytes_eqI:
  assumes "length as = length bs" and "\<And>i. i < 8 * length bs \<Longrightarrow> nth_bit as i = nth_bit bs i"
  shows "as = bs"
proof (rule nth_equalityI)
  fix k assume "k < length as"
  then show "as ! k = bs ! k"
    using assms by (intro byte_eqI) (simp only: nth_bit_8 [symmetric])
qed (rule assms(1))

text \<open>A well-formed label is determined by its bits, so the bytes a node hashes are too.\<close>

lemma label_bits_inj:
  assumes "label_ok a" and "label_ok b" and eq: "label_bits a = label_bits b"
  shows "a = b"
proof -
  have len: "lb_len a = lb_len b" using arg_cong [OF eq, of length] by simp
  have "lb_bytes a = lb_bytes b"
  proof (rule bytes_eqI)
    show "length (lb_bytes a) = length (lb_bytes b)" using assms(1,2) len by (simp add: label_ok_def)
    fix i assume "i < 8 * length (lb_bytes b)"
    then show "nth_bit (lb_bytes a) i = nth_bit (lb_bytes b) i"
      using assms label_ok_bytes len nth_label_bits [of i a] nth_label_bits [of i b]
      by (cases "i < lb_len a") auto
  qed
  with len show ?thesis by simp
qed


subsection \<open>Single bits and masks\<close>

text \<open>Positions in bits and in bytes.\<close>

lemma ceil8: "(n + 7) div 8 = n div 8 + (if n mod 8 = 0 then 0 else 1)" for n :: nat
proof -
  define q r where "q = n div 8" and "r = n mod 8"
  have "n = 8 * q + r" and "r < 8" by (auto simp: q_def r_def)
  then show ?thesis by auto
qed

lemma less8: "i div 8 = n div 8 \<Longrightarrow> i < n \<longleftrightarrow> i mod 8 < n mod 8" for i n :: nat
  using mult_div_mod_eq [of 8 i] mult_div_mod_eq [of 8 n] by linarith

lemma same8: "i div 8 = n div 8 \<Longrightarrow> 7 - i mod 8 = 7 - n mod 8 \<longleftrightarrow> i = n" for i n :: nat
  using mult_div_mod_eq [of 8 i] mult_div_mod_eq [of 8 n] mod_less_divisor [of 8 i]
    mod_less_divisor [of 8 n] by linarith

lemma div8_less: "i div 8 < n div 8 \<Longrightarrow> i < n" for i n :: nat
  by (meson div_le_mono leD leI)

lemma last_byte8:
  fixes i n :: nat
  assumes "i < 8 * ((n + 7) div 8)" and "\<not> i div 8 < n div 8"
  shows "i div 8 = n div 8 \<and> 0 < n mod 8"
proof -
  have "i div 8 < (n + 7) div 8" using assms(1) by (simp add: less_mult_imp_div_less mult.commute)
  with assms(2) show ?thesis unfolding ceil8 by (auto split: if_splits)
qed

lemma byte_bit_eq: "byte_bit b i = of_bool (bit b i)"
  by (simp add: byte_bit_def and_one_eq mod_2_eq_odd bit_iff_odd_drop_bit)

lemma label_bit_eq [label_simps]:
  "label_ok l \<Longrightarrow> i < lb_len l \<Longrightarrow> label_bit l i = Some (of_bool (label_bits l ! i))"
  using label_ok_index [of l i] by (simp add: label_bit_def Let_def byte_bit_eq nth_bit_def)

lemma bit_high_mask: "r < 8 \<Longrightarrow> bit (high_mask r) j \<longleftrightarrow> j < 8 \<and> 8 - r \<le> j"
proof -
  have "high_mask r = push_bit (8 - r) (mask 8)" by (simp add: high_mask_def mask_eq_exp_minus_1)
  then show "r < 8 \<Longrightarrow> ?thesis" by (simp add: bit_push_bit_iff bit_mask_iff) auto
qed

text \<open>Masking the byte that holds position \<open>n\<close> keeps exactly the bits before \<open>n\<close>.\<close>

lemma bit_masked:
  assumes "i div 8 = n div 8"
  shows "bit (b AND high_mask (n mod 8)) (7 - i mod 8) \<longleftrightarrow> bit b (7 - i mod 8) \<and> i < n"
  using less8 [OF assms] bit_high_mask [of "n mod 8" "7 - i mod 8"] by (auto simp: bit_and_iff)

lemma label_ok_empty [simp]: "label_ok label_empty"
  by (simp add: label_ok_def label_empty_def)

lemma label_bits_empty [simp]: "label_bits label_empty = []"
  by (simp add: label_bits_def label_empty_def)

lemma lb_len_empty [simp]: "lb_len label_empty = 0"
  by (simp add: label_empty_def)

lemma label_ok_from_key [simp]: "label_ok (label_from_key k)"
  by (simp add: label_ok_def label_from_key_def)

lemma lb_len_from_key [simp]: "lb_len (label_from_key k) = 256"
  by (simp add: label_from_key_def)

lemma label_from_key_inj [simp]: "label_from_key a = label_from_key b \<longleftrightarrow> a = b"
  by (simp add: label_from_key_def hash_bytes_inj)


subsection \<open>Prefixes, suffixes and single bits appended\<close>

lemma label_prefix_ok:
  assumes ok: "label_ok l" and n: "n < lb_len l"
  obtains p where "label_prefix l n = Some p" and "label_ok p" and "label_bits p = take n (label_bits l)"
proof (cases "n = 0")
  case True
  with n that [of label_empty] show ?thesis by (simp add: label_prefix_def)
next
  case False
  let ?f = "n div 8" and ?r = "n mod 8"
  define bs where
    "bs = (if 0 < ?r then take ?f (lb_bytes l) @ [lb_bytes l ! ?f AND high_mask ?r] else take ?f (lb_bytes l))"
  define p where "p = \<lparr>lb_bytes = bs, lb_len = n\<rparr>"
  have f: "?f < length (lb_bytes l)" using label_ok_index [OF ok n] .
  have len: "length bs = (n + 7) div 8"
    using f by (simp add: bs_def min_def ceil8)
  have bit: "nth_bit bs i \<longleftrightarrow> i < n \<and> nth_bit (lb_bytes l) i" if "i < 8 * length bs" for i
  proof (cases "i div 8 < ?f")
    case True
    then have "i < n" by (rule div8_less)
    with True f show ?thesis by (simp add: nth_bit_def bs_def nth_append)
  next
    case False
    with that len have "i div 8 = ?f" and "0 < ?r" using last_byte8 [of i n] by auto
    with f bit_masked [of i n] show ?thesis by (auto simp: nth_bit_def bs_def nth_append)
  qed
  show ?thesis
  proof
    show "label_prefix l n = Some p"
      using n False f by (simp add: label_prefix_def p_def bs_def Let_def)
    show "label_ok p" by (rule label_okI) (auto simp: p_def len bit)
    have "i < 8 * length bs" if "i < n" for i using that len by simp
    then show "label_bits p = take n (label_bits l)"
      using n bit by (intro nth_equalityI) (simp_all add: p_def)
  qed
qed

lemma append_bit_ok:
  assumes ok: "label_ok l"
  obtains p where "append_bit l (of_bool b) = Some p" and "label_ok p" and "label_bits p = label_bits l @ [b]"
proof -
  let ?n = "lb_len l"
  let ?k = "?n div 8" and ?j = "7 - ?n mod 8"
  define bs0 where "bs0 = (if length (lb_bytes l) \<le> ?k then lb_bytes l @ [0] else lb_bytes l)"
  define bs where "bs = (if b then bs0[?k := (bs0 ! ?k) OR push_bit ?j 1] else bs0)"
  define p where "p = \<lparr>lb_bytes = bs, lb_len = ?n + 1\<rparr>"
  have len0: "length bs0 = (?n + 8) div 8"
    using label_ok_bytes(1) [OF ok] by (simp add: bs0_def ceil8 div_add_self2)
  then have k: "?k < length bs0" by simp
  have bit0: "nth_bit bs0 i \<longleftrightarrow> i < ?n \<and> nth_bit (lb_bytes l) i" if "i < 8 * length bs0" for i
  proof (cases "i div 8 < length (lb_bytes l)")
    case True
    then have "i < 8 * length (lb_bytes l)" by simp
    with True show ?thesis
      using label_ok_bytes(2) [OF ok, of i]
      by (cases "i < ?n") (auto simp: nth_bit_def bs0_def nth_append)
  next
    case False
    then have "\<not> i < ?n" using label_ok_index [OF ok] by auto
    moreover have "i div 8 = length (lb_bytes l)" and "length (lb_bytes l) \<le> ?k"
      using False that by (auto simp: bs0_def split: if_splits)
    ultimately show ?thesis by (simp add: nth_bit_def bs0_def nth_append)
  qed
  have same: "i div 8 = ?k \<and> ?j = 7 - i mod 8 \<longleftrightarrow> i = ?n" for i
    using same8 [of i ?n] by auto
  have bit: "nth_bit bs i \<longleftrightarrow> i = ?n \<and> b \<or> i < ?n \<and> nth_bit (lb_bytes l) i" if "i < 8 * length bs0" for i
  proof (cases "b \<and> i div 8 = ?k")
    case True
    have "nth_bit bs i \<longleftrightarrow> nth_bit bs0 i \<or> ?j = 7 - i mod 8"
      using True k by (auto simp: nth_bit_def bs_def bit_or_iff bit_exp_iff possible_bit_word)
    with True same [of i] bit0 [OF that] show ?thesis by auto
  next
    case False
    then have "nth_bit bs i = nth_bit bs0 i"
      using that by (auto simp: nth_bit_def bs_def)
    with False same [of i] bit0 [OF that] show ?thesis by auto
  qed
  have len: "length bs = (?n + 8) div 8" using len0 by (simp add: bs_def)
  show ?thesis
  proof
    show "append_bit l (of_bool b) = Some p"
      using k by (simp add: append_bit_def p_def bs_def bs0_def Let_def)
    show "label_ok p" by (rule label_okI) (auto simp: p_def len len0 bit)
    show "label_bits p = label_bits l @ [b]"
    proof (rule nth_equalityI)
      fix i assume "i < length (label_bits p)"
      then show "label_bits p ! i = (label_bits l @ [b]) ! i"
        using bit [of i] len0 by (auto simp: p_def nth_append less_Suc_eq)
    qed (simp add: p_def)
  qed
qed

lemma suffix_loop_ok:
  assumes "label_ok l" and "label_ok r" and "\<forall>i \<in> set is. start + i < lb_len l"
  shows "\<exists>p. suffix_loop l start r is = Some p \<and> label_ok p
    \<and> label_bits p = label_bits r @ map (\<lambda>i. label_bits l ! (start + i)) is"
  using assms
proof (induction "is" arbitrary: r)
  case (Cons i "is")
  obtain r' where r': "append_bit r (of_bool (label_bits l ! (start + i))) = Some r'" "label_ok r'"
    "label_bits r' = label_bits r @ [label_bits l ! (start + i)]"
    using append_bit_ok [OF Cons.prems(2)] .
  from Cons.IH [OF Cons.prems(1) r'(2)] Cons.prems r' show ?case
    by (simp add: label_bit_eq del: nth_label_bits)
qed simp

lemma label_suffix_ok:
  assumes "label_ok l"
  shows "\<exists>p. label_suffix l start = Some p \<and> label_ok p \<and> label_bits p = drop start (label_bits l)"
proof (cases "lb_len l \<le> start")
  case True
  then show ?thesis by (simp add: label_suffix_def)
next
  case False
  have "map (\<lambda>i. label_bits l ! (start + i)) [0..<lb_len l - start] = drop start (label_bits l)"
    by (rule nth_equalityI) (use False in auto)
  moreover have "\<forall>i \<in> set [0..<lb_len l - start]. start + i < lb_len l" by auto
  ultimately show ?thesis
    using False suffix_loop_ok [OF assms label_ok_empty, of "[0..<lb_len l - start]" start]
    by (simp add: label_suffix_def del: set_upt)
qed



subsection \<open>Comparing labels\<close>

lemma bits_of_byte_8: "(\<forall>i. i div 8 = k \<longrightarrow> nth_bit as i = nth_bit bs i) \<longleftrightarrow> as ! k = bs ! k"
proof
  assume eq: "\<forall>i. i div 8 = k \<longrightarrow> nth_bit as i = nth_bit bs i"
  show "as ! k = bs ! k"
  proof (rule byte_eqI)
    fix j :: nat
    assume "j < 8"
    moreover from this have "(8 * k + (7 - j)) div 8 = k" by linarith
    ultimately show "bit (as ! k) j = bit (bs ! k) j"
      using eq nth_bit_8 [of j as k] nth_bit_8 [of j bs k] by blast
  qed
qed (simp add: nth_bit_def)

lemma take_eq_bits:
  assumes "f \<le> length as" and "f \<le> length bs"
  shows "take f as = take f bs \<longleftrightarrow> (\<forall>i. i div 8 < f \<longrightarrow> nth_bit as i = nth_bit bs i)"
proof -
  have "take f as = take f bs \<longleftrightarrow> (\<forall>k < f. as ! k = bs ! k)"
    using assms by (simp add: list_eq_iff_nth_eq)
  then show ?thesis by (auto simp flip: bits_of_byte_8)
qed

lemma masked_eq_bits:
  "as ! (n div 8) AND high_mask (n mod 8) = bs ! (n div 8) AND high_mask (n mod 8)
     \<longleftrightarrow> (\<forall>i. i div 8 = n div 8 \<and> i < n \<longrightarrow> nth_bit as i = nth_bit bs i)" (is "?l \<longleftrightarrow> ?r")
proof
  let ?m = "\<lambda>bs :: byte list. bs ! (n div 8) AND high_mask (n mod 8)"
  have bit: "bit (?m bs) (7 - i mod 8) \<longleftrightarrow> nth_bit bs i \<and> i < n" if "i div 8 = n div 8" for bs i
    using bit_masked [OF that] that by (simp add: nth_bit_def)
  show ?r if ?l using that bit by metis
  show ?l if ?r
  proof (rule byte_eqI)
    fix j :: nat
    assume "j < 8"
    define i where "i = 8 * (n div 8) + (7 - j)"
    have "i div 8 = n div 8" and "i mod 8 = 7 - j"
      unfolding i_def using \<open>j < 8\<close> by (simp_all only: mod_mult_self4 div_mult_self4) simp_all
    then have "i div 8 = n div 8" and "7 - i mod 8 = j" using \<open>j < 8\<close> by auto
    then show "bit (?m as) j = bit (?m bs) j" using bit [of i] that by auto
  qed
qed

lemma agree_split:
  "(\<forall>i < n. P i) \<longleftrightarrow> (\<forall>i. i div 8 < n div 8 \<longrightarrow> P i) \<and> (\<forall>i. i div 8 = n div 8 \<and> i < n \<longrightarrow> P i)"
  for n :: nat
  by (metis div8_less div_le_mono le_neq_implies_less less_imp_le)

lemma prefix_bits_iff:
  "lb_len a \<le> lb_len b \<Longrightarrow>
     prefix (label_bits a) (label_bits b) \<longleftrightarrow> (\<forall>i < lb_len a. nth_bit (lb_bytes a) i = nth_bit (lb_bytes b) i)"
  by (auto simp: prefix_def list_eq_iff_nth_eq nth_append take_drop_split intro!: exI [of _ "drop (lb_len a) (label_bits b)"])

lemma is_prefix_of_eq [label_simps]:
  assumes "label_ok a" and "label_ok b"
  shows "is_prefix_of a b = Some (prefix (label_bits a) (label_bits b))"
proof (cases "lb_len b < lb_len a")
  case True
  then have "\<not> prefix (label_bits a) (label_bits b)" by (auto dest: prefix_length_le)
  with True show ?thesis by (simp add: is_prefix_of_def)
next
  case le: False
  let ?n = "lb_len a"
  have f: "?n div 8 \<le> length (lb_bytes a)" "?n div 8 \<le> length (lb_bytes b)"
    using label_ok_bytes(1) [OF assms(1)] label_ok_bytes(1) [OF assms(2)] le by auto
  have in_range: "0 < ?n mod 8 \<Longrightarrow> ?n div 8 < length (lb_bytes a) \<and> ?n div 8 < length (lb_bytes b)"
    using label_ok_bytes(1) [OF assms(1)] label_ok_bytes(1) [OF assms(2)] le
      div_le_mono [of "?n + 7" "lb_len b + 7" 8] by (auto simp: ceil8)
  have no_rest: "?n mod 8 = 0 \<Longrightarrow> \<not> (i div 8 = ?n div 8 \<and> i < ?n)" for i
    using less8 [of i ?n] by auto
  let ?T = "take (?n div 8) (lb_bytes a) = take (?n div 8) (lb_bytes b)"
  let ?M = "lb_bytes a ! (?n div 8) AND high_mask (?n mod 8) = lb_bytes b ! (?n div 8) AND high_mask (?n mod 8)"
  let ?E = "\<lambda>i. nth_bit (lb_bytes a) i = nth_bit (lb_bytes b) i"
  have "prefix (label_bits a) (label_bits b) \<longleftrightarrow> (\<forall>i < ?n. ?E i)"
    using le by (simp add: prefix_bits_iff)
  also have "\<dots> \<longleftrightarrow> ?T \<and> ?M"
    unfolding take_eq_bits [OF f] masked_eq_bits by (rule agree_split)
  finally have "prefix (label_bits a) (label_bits b) \<longleftrightarrow> ?T \<and> ?M" .
  moreover have "?n mod 8 = 0 \<Longrightarrow> ?M"
    unfolding masked_eq_bits using no_rest by auto
  moreover have "is_prefix_of a b = Some (?T \<and> (?n mod 8 = 0 \<or> ?M))" if "?n \<noteq> 0"
    using le f in_range that
    by (cases "?n mod 8 = 0") (simp_all add: is_prefix_of_def Let_def get_or_0_def)
  moreover have "is_prefix_of a b = Some True" and "prefix (label_bits a) (label_bits b)" if "?n = 0"
    using that le by (simp_all add: is_prefix_of_def label_bits_def)
  ultimately show ?thesis by (cases "?n = 0") auto
qed


text \<open>The highest bit in which two bytes differ.\<close>

lemma byte_leading_zeros_xor:
  assumes "x \<noteq> y"
  shows "byte_leading_zeros (x XOR y) < 8"
    and "bit x (7 - byte_leading_zeros (x XOR y)) \<noteq> bit y (7 - byte_leading_zeros (x XOR y))"
    and "t < byte_leading_zeros (x XOR y) \<Longrightarrow> bit x (7 - t) = bit y (7 - t)"
proof -
  define n where "n = unat (x XOR y)"
  define L where "L = bit_len n"
  have "x XOR y \<noteq> 0" using assms by (metis xor.right_neutral xor_self_eq xor.assoc)
  then have pos: "0 < n" by (simp add: n_def unat_eq_0 neq0_conv [symmetric] del: neq0_conv)
  have "n < 2 ^ 8" using unat_byte [of "x XOR y"] by (simp add: n_def)
  then have L: "L \<le> 8" "0 < L" and z: "byte_leading_zeros (x XOR y) = 8 - L"
    using pos bit_len_le [of n 8]
    by (auto simp: byte_leading_zeros_def leading_zeros_def n_def L_def simp flip: neq0_conv)
  have bit: "bit (x XOR y) j \<longleftrightarrow> odd (n div 2 ^ j)" if "j < 8" for j
    using bit_unsigned_iff [of "x XOR y" j, where ?'a = nat] by (simp add: n_def bit_iff_odd)
  have differs: "bit (x XOR y) j \<longleftrightarrow> bit x j \<noteq> bit y j" for j
    by (simp add: bit_xor_iff)
  show "byte_leading_zeros (x XOR y) < 8" using L z by simp
  have "2 ^ (L - 1) \<le> n" and "n < 2 * 2 ^ (L - 1)"
    using bit_len_lower [OF pos] bit_len_upper [of n] L power_Suc [of "2::nat" "L - 1"]
    by (auto simp: L_def)
  then have "n div 2 ^ (L - 1) = 1" by (intro div_nat_eqI) auto
  then show "bit x (7 - byte_leading_zeros (x XOR y)) \<noteq> bit y (7 - byte_leading_zeros (x XOR y))"
    using bit [of "L - 1"] differs [of "L - 1"] L z by simp
  assume "t < byte_leading_zeros (x XOR y)"
  then have "L \<le> 7 - t" using L z by simp
  then have "(2::nat) ^ L \<le> 2 ^ (7 - t)" by (rule power_increasing) simp
  with bit_len_upper [of n] have "n < 2 ^ (7 - t)" unfolding L_def by linarith
  then have "n div 2 ^ (7 - t) = 0" by simp
  with bit [of "7 - t"] differs [of "7 - t"] show "bit x (7 - t) = bit y (7 - t)" by simp
qed

lemma diff_bytes_find:
  assumes "\<forall>i \<in> set is. i < length (lb_bytes a) \<and> i < length (lb_bytes b)"
  shows "diff_bytes a b is =
    Some (map_option (\<lambda>i. i * 8 + byte_leading_zeros (lb_bytes a ! i XOR lb_bytes b ! i))
            (find (\<lambda>i. lb_bytes a ! i \<noteq> lb_bytes b ! i) is))"
  using assms by (induction "is") auto

text \<open>The first position where two bit strings differ, or the length of the shorter.\<close>

definition lcp_len :: "'a list \<Rightarrow> 'a list \<Rightarrow> nat" where
  "lcp_len xs ys = length (longest_common_prefix xs ys)"

lemma lcp_len_unique:
  assumes "n \<le> length xs" and "n \<le> length ys" and "\<And>i. i < n \<Longrightarrow> xs ! i = ys ! i"
    and "n < length xs \<Longrightarrow> n < length ys \<Longrightarrow> xs ! n \<noteq> ys ! n"
  shows "lcp_len xs ys = n"
  unfolding lcp_len_def using assms
proof (induction xs ys arbitrary: n rule: longest_common_prefix.induct)
  case (1 x xs y ys)
  show ?case
  proof (cases n)
    case 0
    with "1.prems"(4) show ?thesis by simp
  next
    case (Suc m)
    from "1.prems"(3) [of 0] Suc have eq: "x = y" by simp
    have "xs ! i = ys ! i" if "i < m" for i
      using "1.prems"(3) [of "Suc i"] that Suc by simp
    then have "length (longest_common_prefix xs ys) = m"
      using "1.prems"(1,2,4) Suc by (intro "1.IH" [OF eq]) auto
    with eq Suc show ?thesis by simp
  qed
qed auto


lemma lcp_len_le: "lcp_len xs ys \<le> length xs" "lcp_len xs ys \<le> length ys"
  unfolding lcp_len_def
  by (simp_all add: longest_common_prefix_prefix1 longest_common_prefix_prefix2 prefix_length_le)

lemma lcp_len_nth:
  "i < lcp_len xs ys \<Longrightarrow> xs ! i = ys ! i"
  "lcp_len xs ys < length xs \<Longrightarrow> lcp_len xs ys < length ys \<Longrightarrow> xs ! lcp_len xs ys \<noteq> ys ! lcp_len xs ys"
  unfolding lcp_len_def
  by (induction xs ys arbitrary: i rule: longest_common_prefix.induct)
    (auto simp: nth_Cons split: nat.splits if_splits)

lemma lcp_len_take: "take (lcp_len xs ys) xs = take (lcp_len xs ys) ys"
  by (rule nth_equalityI) (auto simp: lcp_len_nth(1) lcp_len_le min_absorb2)

text \<open>
  The common prefix ends in byte \<open>k\<close> when all bytes before it agree and the parts \<open>x\<close> and \<open>y\<close>
  of it that belong to the labels differ.
\<close>

lemma lcp_len_bits:
  assumes "n \<le> min (lb_len a) (lb_len b)"
    and "\<And>i. i < n \<Longrightarrow> nth_bit (lb_bytes a) i = nth_bit (lb_bytes b) i"
    and "n < min (lb_len a) (lb_len b) \<Longrightarrow> nth_bit (lb_bytes a) n \<noteq> nth_bit (lb_bytes b) n"
  shows "lcp_len (label_bits a) (label_bits b) = n"
  by (rule lcp_len_unique) (use assms in auto)

lemma lcp_len_at_byte:
  assumes before: "\<And>i. i div 8 < k \<Longrightarrow> nth_bit (lb_bytes a) i = nth_bit (lb_bytes b) i"
    and byte: "\<And>i. i div 8 = k \<Longrightarrow> i < min (lb_len a) (lb_len b) \<Longrightarrow>
      nth_bit (lb_bytes a) i = bit x (7 - i mod 8) \<and> nth_bit (lb_bytes b) i = bit y (7 - i mod 8)"
    and "x \<noteq> y" and inside: "k * 8 + byte_leading_zeros (x XOR y) < min (lb_len a) (lb_len b)"
  shows "lcp_len (label_bits a) (label_bits b) = k * 8 + byte_leading_zeros (x XOR y)"
proof (rule lcp_len_bits)
  let ?z = "byte_leading_zeros (x XOR y)"
  note lz = byte_leading_zeros_xor [OF \<open>x \<noteq> y\<close>]
  show "nth_bit (lb_bytes a) i = nth_bit (lb_bytes b) i" if i: "i < k * 8 + ?z" for i
  proof (cases "i div 8 < k")
    case False
    with i lz(1) have "i div 8 = k" by linarith
    moreover from this i have "i mod 8 < ?z" by (metis add_less_cancel_left div_mult_mod_eq)
    ultimately show ?thesis using byte [of i] inside i lz(3) by simp
  qed (rule before)
  have "(k * 8 + ?z) div 8 = k" and "(k * 8 + ?z) mod 8 = ?z" using lz(1) by simp_all
  then show "nth_bit (lb_bytes a) (k * 8 + ?z) \<noteq> nth_bit (lb_bytes b) (k * 8 + ?z)"
    using byte [of "k * 8 + ?z"] inside lz(2) by simp
qed (use inside in simp)

text \<open>All whole bytes of the common length agree: the masked rest decides.\<close>

lemma lcp_len_last_byte:
  assumes m: "m = min (lb_len a) (lb_len b)"
    and same: "\<forall>k < m div 8. lb_bytes a ! k = lb_bytes b ! k"
  defines "x \<equiv> lb_bytes a ! (m div 8) AND high_mask (m mod 8)"
    and "y \<equiv> lb_bytes b ! (m div 8) AND high_mask (m mod 8)"
  shows "lcp_len (label_bits a) (label_bits b) =
    (if 0 < m mod 8 \<and> x \<noteq> y then m div 8 * 8 + byte_leading_zeros (x XOR y) else m)"
proof -
  have before: "nth_bit (lb_bytes a) i = nth_bit (lb_bytes b) i" if "i div 8 < m div 8" for i
    using same that by (simp add: nth_bit_def)
  have masked: "bit (bs ! (m div 8) AND high_mask (m mod 8)) (7 - i mod 8) \<longleftrightarrow> nth_bit bs i \<and> i < m"
    if "i div 8 = m div 8" for bs i
    using bit_masked [OF that] that by (simp add: nth_bit_def)
  show ?thesis
  proof (cases "0 < m mod 8 \<and> x \<noteq> y")
    case True
    define i where "i = m div 8 * 8 + byte_leading_zeros (x XOR y)"
    have "i div 8 = m div 8" and "i mod 8 = byte_leading_zeros (x XOR y)"
      using byte_leading_zeros_xor(1) [of x y] True by (simp_all add: i_def)
    then have "i < m"
      using masked [of i "lb_bytes a"] masked [of i "lb_bytes b"] byte_leading_zeros_xor(2) [of x y] True
      unfolding x_def y_def by metis
    then have "lcp_len (label_bits a) (label_bits b) = i"
      unfolding i_def using True before masked
      by (intro lcp_len_at_byte) (simp_all add: m [symmetric] x_def y_def)
    with True show ?thesis by (simp add: i_def)
  next
    case False
    have "x = y" if "i div 8 = m div 8" and "i < m" for i
      using False less8 [OF that(1)] that(2) by auto
    then have "nth_bit (lb_bytes a) i = nth_bit (lb_bytes b) i" if "i div 8 = m div 8" and "i < m" for i
      using that masked_eq_bits [of "lb_bytes a" m "lb_bytes b"] unfolding x_def y_def by metis
    then have "\<forall>i < m. nth_bit (lb_bytes a) i = nth_bit (lb_bytes b) i"
      unfolding agree_split [of m] using before by simp
    then have "lcp_len (label_bits a) (label_bits b) = m" by (intro lcp_len_bits) (simp_all add: m)
    with False show ?thesis by (simp only: if_False)
  qed
qed

text \<open>The byte-wise search computes the longest common prefix of the bit strings.\<close>

lemma common_prefix_len_eq [label_simps]:
  assumes "label_ok a" and "label_ok b"
  shows "common_prefix_len a b = Some (lcp_len (label_bits a) (label_bits b))"
proof -
  let ?m = "min (lb_len a) (lb_len b)" and ?A = "lb_bytes a" and ?B = "lb_bytes b"
  let ?f = "?m div 8" and ?r = "?m mod 8"
  have len: "(?m + 7) div 8 \<le> length ?A" "(?m + 7) div 8 \<le> length ?B"
    using assms by (simp_all add: label_ok_def div_le_mono)
  then have f: "?f \<le> length ?A" "?f \<le> length ?B" by (auto simp: ceil8 split: if_splits)
  have bytes_agree: "nth_bit ?A i = nth_bit ?B i" if "\<forall>k < n. ?A ! k = ?B ! k" and "i div 8 < n" for n i
    using that by (simp add: nth_bit_def)
  have loop: "diff_bytes a b [0..<?f] =
      Some (map_option (\<lambda>i. i * 8 + byte_leading_zeros (?A ! i XOR ?B ! i)) (find (\<lambda>i. ?A ! i \<noteq> ?B ! i) [0..<?f]))"
    using f by (intro diff_bytes_find) auto
  show ?thesis
  proof (cases "find (\<lambda>i. ?A ! i \<noteq> ?B ! i) [0..<?f]")
    case (Some k)
    then have k: "k < ?f" "?A ! k \<noteq> ?B ! k" "\<forall>j < k. ?A ! j = ?B ! j"
      by (auto simp: find_Some_iff)
    have "(k + 1) * 8 \<le> ?m" using k(1) less_eq_div_iff_mult_less_eq [of 8 "k + 1" ?m] by simp
    then have "k * 8 + byte_leading_zeros (?A ! k XOR ?B ! k) < ?m"
      using byte_leading_zeros_xor(1) [OF k(2)] by simp
    then have "lcp_len (label_bits a) (label_bits b) = k * 8 + byte_leading_zeros (?A ! k XOR ?B ! k)"
      using k(2) bytes_agree [OF k(3)] by (intro lcp_len_at_byte) (auto simp: nth_bit_def)
    moreover have nz: "?m \<noteq> 0" using k(1) by auto
    ultimately show ?thesis
      by (simp only: common_prefix_len_def Let_def if_False loop Some option.map option.case)
  next
    case None
    then have same: "\<forall>k < ?f. ?A ! k = ?B ! k" by (auto simp: find_None_iff)
    let ?x = "?A ! ?f AND high_mask ?r" and ?y = "?B ! ?f AND high_mask ?r"
    have code: "common_prefix_len a b =
        Some (if 0 < ?r \<and> ?x \<noteq> ?y then ?f * 8 + byte_leading_zeros (?x XOR ?y) else ?m)"
      using None loop len by (auto simp: common_prefix_len_def Let_def ceil8)
    with lcp_len_last_byte [OF refl same] show ?thesis by simp
  qed
qed

end
