(* ===== verification/Prefix_Tree.thy ===== *)
theory Prefix_Tree
  imports Prefix_Label
begin

text \<open>
  The Merkle prefix tree of the verifiable index, \<^verbatim>\<open>src/vindex/prefix_tree.rs\<close>. SHA-256 is the
  parameter \<open>sh\<close>. A panic of a label operation is \<open>None\<close>. \<open>node_ok\<close> is the invariant of a tree:
  keys have 256 bits, the keys below an internal node share its prefix and go left or right by the
  next bit, no child is empty, and the cached hash is the hash of prefix and children. The tree is
  measured against a finite map from keys to value hashes: insertion is the update of the map, the
  tree is determined by the map, and lookup proofs are checked by \<open>proof_root\<close>, which recomputes
  the root the way a client does.
\<close>

unbundle bit_operations_syntax

declare nth_label_bits [simp del]


subsection \<open>Nodes and their hashes\<close>

record proof_node =
  label_bit_len :: nat
  label_path :: "byte list"
  pn_hash :: sha256_hash

record lookup_proof =
  lp_found :: bool
  lp_proof :: "proof_node list"

datatype node =
    Empty
  | Leaf label sha256_hash
  | Internal label node node sha256_hash

type_synonym digest = "byte list \<Rightarrow> sha256_hash"

fun pnode_hash :: "digest \<Rightarrow> node \<Rightarrow> sha256_hash" where
  "pnode_hash sh Empty = 0"
| "pnode_hash sh (Leaf key value_hash) = sh ([0x00] @ lb_bytes key @ hash_bytes value_hash)"
| "pnode_hash sh (Internal p left right hash) = hash"

fun node_is_empty :: "node \<Rightarrow> bool" where
  "node_is_empty Empty = True"
| "node_is_empty _ = False"

text \<open>What an internal node hashes: \<open>to_be_bytes\<close> of a \<open>u32\<close> has four bytes.\<close>

definition internal_bytes :: "label \<Rightarrow> sha256_hash \<Rightarrow> sha256_hash \<Rightarrow> byte list" where
  "internal_bytes p left_hash right_hash =
     [0x01] @ be_bytes 4 (lb_len p) @ lb_bytes p @ hash_bytes left_hash @ hash_bytes right_hash"

definition compute_internal_hash :: "digest \<Rightarrow> label \<Rightarrow> node \<Rightarrow> node \<Rightarrow> sha256_hash" where
  "compute_internal_hash sh p left right = sh (internal_bytes p (pnode_hash sh left) (pnode_hash sh right))"

definition tree_new :: node where
  "tree_new = Empty"

definition tree_root_hash :: "digest \<Rightarrow> node \<Rightarrow> sha256_hash" where
  "tree_root_hash sh root = pnode_hash sh root"


subsection \<open>Insertion and lookup\<close>

text \<open>A new internal node over a new and an old child, ordered by the bit of the new key.\<close>

definition split_node :: "digest \<Rightarrow> label \<Rightarrow> byte \<Rightarrow> node \<Rightarrow> node \<Rightarrow> node" where
  "split_node sh p key_bit new_leaf old =
     (let left = (if key_bit = 0 then new_leaf else old);
          right = (if key_bit = 0 then old else new_leaf)
      in Internal p left right (compute_internal_hash sh p left right))"

fun insert_rec :: "digest \<Rightarrow> node \<Rightarrow> label \<Rightarrow> sha256_hash \<Rightarrow> node option" where
  "insert_rec sh Empty key value_hash = Some (Leaf key value_hash)"
| "insert_rec sh (Leaf existing_key existing_value) key value_hash =
     (if key = existing_key then Some (Leaf key value_hash)
      else Option.bind (common_prefix_len key existing_key) (\<lambda>common_len.
           Option.bind (label_prefix key common_len) (\<lambda>p.
           Option.bind (label_bit key common_len) (\<lambda>key_bit.
           Option.bind (label_bit existing_key common_len) (\<lambda>_.
             Some (split_node sh p key_bit (Leaf key value_hash) (Leaf existing_key existing_value)))))))"
| "insert_rec sh (Internal p left right _) key value_hash =
     Option.bind (common_prefix_len key p) (\<lambda>common_len.
       if common_len < lb_len p then
         Option.bind (label_prefix p common_len) (\<lambda>new_prefix.
         Option.bind (label_bit key common_len) (\<lambda>key_bit.
           let old_internal = Internal p left right (compute_internal_hash sh p left right)
           in Some (split_node sh new_prefix key_bit (Leaf key value_hash) old_internal)))
       else
         Option.bind (label_bit key (lb_len p)) (\<lambda>next_bit.
           if next_bit = 0 then
             Option.bind (insert_rec sh left key value_hash) (\<lambda>new_left.
               Some (Internal p new_left right (compute_internal_hash sh p new_left right)))
           else
             Option.bind (insert_rec sh right key value_hash) (\<lambda>new_right.
               Some (Internal p left new_right (compute_internal_hash sh p left new_right)))))"

definition tree_insert :: "digest \<Rightarrow> node \<Rightarrow> sha256_hash \<Rightarrow> sha256_hash \<Rightarrow> node option" where
  "tree_insert sh root key value_hash = insert_rec sh root (label_from_key key) value_hash"

text \<open>The sibling that a step of a lookup adds to the proof.\<close>

definition push_sibling :: "digest \<Rightarrow> label \<Rightarrow> byte \<Rightarrow> node \<Rightarrow> proof_node list \<Rightarrow> proof_node list option" where
  "push_sibling sh p b sibling proofs =
     (if node_is_empty sibling then Some proofs
      else Option.bind (append_bit p b) (\<lambda>l.
             Some (proofs @ [\<lparr>label_bit_len = lb_len l, label_path = lb_bytes l, pn_hash = pnode_hash sh sibling\<rparr>])))"

fun lookup_rec :: "digest \<Rightarrow> node \<Rightarrow> label \<Rightarrow> proof_node list \<Rightarrow> (bool \<times> proof_node list) option" where
  "lookup_rec sh Empty key proofs = Some (False, proofs)"
| "lookup_rec sh (Leaf leaf_key _) key proofs = Some (key = leaf_key, proofs)"
| "lookup_rec sh (Internal p left right _) key proofs =
     Option.bind (is_prefix_of p key) (\<lambda>is_prefix.
       if \<not> is_prefix then Some (False, proofs)
       else Option.bind (label_bit key (lb_len p)) (\<lambda>next_bit.
              if next_bit = 0
              then Option.bind (push_sibling sh p 1 right proofs) (\<lambda>proofs'. lookup_rec sh left key proofs')
              else Option.bind (push_sibling sh p 0 left proofs) (\<lambda>proofs'. lookup_rec sh right key proofs')))"

definition tree_lookup :: "digest \<Rightarrow> node \<Rightarrow> sha256_hash \<Rightarrow> lookup_proof option" where
  "tree_lookup sh root key =
     map_option (\<lambda>(found, proofs). \<lparr>lp_found = found, lp_proof = proofs\<rparr>)
       (lookup_rec sh root (label_from_key key) [])"

fun count_keys :: "node \<Rightarrow> nat" where
  "count_keys Empty = 0"
| "count_keys (Leaf _ _) = 1"
| "count_keys (Internal _ left right _) = count_keys left + count_keys right"

definition tree_is_empty :: "node \<Rightarrow> bool" where
  "tree_is_empty root = node_is_empty root"


subsection \<open>The map a tree stands for\<close>

fun node_keys :: "node \<Rightarrow> label list" where
  "node_keys Empty = []"
| "node_keys (Leaf k _) = [k]"
| "node_keys (Internal _ l r _) = node_keys l @ node_keys r"

fun node_map :: "node \<Rightarrow> label \<rightharpoonup> sha256_hash" where
  "node_map Empty = Map.empty"
| "node_map (Leaf k v) = [k \<mapsto> v]"
| "node_map (Internal _ l r _) = node_map l ++ node_map r"

definition key_label :: "label \<Rightarrow> bool" where
  "key_label k \<longleftrightarrow> label_ok k \<and> lb_len k = 256"

definition under :: "bool list \<Rightarrow> node \<Rightarrow> bool" where
  "under bs t \<longleftrightarrow> list_all (\<lambda>k. prefix bs (label_bits k)) (node_keys t)"

fun node_ok :: "digest \<Rightarrow> node \<Rightarrow> bool" where
  "node_ok sh Empty \<longleftrightarrow> True"
| "node_ok sh (Leaf k v) \<longleftrightarrow> key_label k"
| "node_ok sh (Internal p l r h) \<longleftrightarrow>
     label_ok p \<and> lb_len p < 256 \<and> node_ok sh l \<and> node_ok sh r
     \<and> \<not> node_is_empty l \<and> \<not> node_is_empty r
     \<and> under (label_bits p @ [False]) l \<and> under (label_bits p @ [True]) r
     \<and> h = compute_internal_hash sh p l r"

lemma node_is_empty_iff [simp]: "node_is_empty t \<longleftrightarrow> t = Empty"
  by (cases t) auto

lemma key_label_from_key [simp]: "key_label (label_from_key k)"
  by (simp add: key_label_def)

lemma dom_node_map [simp]: "dom (node_map t) = set (node_keys t)"
  by (induction t) (auto split: if_splits)

lemma node_map_None_iff: "node_map t k = None \<longleftrightarrow> k \<notin> set (node_keys t)"
  by (simp flip: dom_node_map add: domIff)

lemma underD: "under bs t \<Longrightarrow> k \<in> set (node_keys t) \<Longrightarrow> prefix bs (label_bits k)"
  by (auto simp: under_def list_all_iff)

lemma underI: "(\<And>k. k \<in> set (node_keys t) \<Longrightarrow> prefix bs (label_bits k)) \<Longrightarrow> under bs t"
  by (auto simp: under_def list_all_iff)

lemma under_Leaf [simp]: "under bs (Leaf k v) \<longleftrightarrow> prefix bs (label_bits k)"
  by (simp add: under_def)

lemma node_keys_ok: "node_ok sh t \<Longrightarrow> k \<in> set (node_keys t) \<Longrightarrow> key_label k"
  by (induction t) auto

lemma node_keys_not_Nil: "node_ok sh t \<Longrightarrow> t \<noteq> Empty \<Longrightarrow> node_keys t \<noteq> []"
  by (induction t) auto

text \<open>A key below a child agrees with the prefix and has the child's bit next.\<close>

lemma prefix_iff_take: "prefix as bs \<longleftrightarrow> length as \<le> length bs \<and> take (length as) bs = as"
  by (metis append_eq_conv_conj prefix_def prefix_length_le take_is_prefix)

lemma prefix_snoc_nth:
  "prefix (bs @ [b]) xs \<longleftrightarrow> prefix bs xs \<and> length bs < length xs \<and> xs ! length bs = b"
  by (auto simp: prefix_iff_take take_Suc_nth Suc_le_eq)

lemma prefix_nth: "prefix as bs \<Longrightarrow> i < length as \<Longrightarrow> bs ! i = as ! i"
  by (auto simp: prefix_def nth_append)

lemma Internal_key_bits:
  assumes "node_ok sh (Internal p l r h)"
  shows "k \<in> set (node_keys l) \<Longrightarrow> prefix (label_bits p) (label_bits k) \<and> \<not> label_bits k ! lb_len p"
    and "k \<in> set (node_keys r) \<Longrightarrow> prefix (label_bits p) (label_bits k) \<and> label_bits k ! lb_len p"
  using assms by (auto simp: prefix_snoc_nth dest!: underD)

lemma Internal_under: "node_ok sh (Internal p l r h) \<Longrightarrow> under (label_bits p) (Internal p l r h)"
  by (rule underI) (use Internal_key_bits in fastforce)

lemma Internal_disjoint:
  "node_ok sh (Internal p l r h) \<Longrightarrow> set (node_keys l) \<inter> set (node_keys r) = {}"
  using Internal_key_bits by blast



subsection \<open>Insertion updates the map\<close>

lemma key_label_eqI: "key_label a \<Longrightarrow> key_label b \<Longrightarrow> label_bits a = label_bits b \<Longrightarrow> a = b"
  by (auto simp: key_label_def intro: label_bits_inj)

text \<open>Two different keys have a first bit in which they differ.\<close>

lemma keys_differ:
  assumes "key_label a" and "key_label b" and "a \<noteq> b"
  shows "lcp_len (label_bits a) (label_bits b) < 256"
proof (rule ccontr)
  assume "\<not> ?thesis"
  then have "label_bits a = label_bits b"
    using assms(1,2) lcp_len_take [of "label_bits a" "label_bits b"] by (simp add: key_label_def)
  with assms show False using key_label_eqI by blast
qed

lemma lcp_snoc:
  fixes xs ys :: "bool list"
  defines "c \<equiv> lcp_len xs ys"
  assumes "c < length xs" and "c < length ys"
  shows "prefix (take c xs @ [xs ! c]) xs" and "prefix (take c xs @ [\<not> xs ! c]) ys"
proof -
  have "prefix (take c xs) xs" by (rule take_is_prefix)
  then show "prefix (take c xs @ [xs ! c]) xs" using assms(2) by (simp add: prefix_snoc_nth)
  have "prefix (take c ys) ys" by (rule take_is_prefix)
  then have "prefix (take c xs) ys" unfolding c_def by (subst lcp_len_take)
  then show "prefix (take c xs @ [\<not> xs ! c]) ys"
    using assms(2,3) lcp_len_nth(2) [of xs ys] by (simp add: prefix_snoc_nth c_def)
qed

text \<open>The node made by a split: its prefix is the common part, and each side has its bit next.\<close>

lemma split_node_ok:
  assumes p: "label_ok p" "lb_len p < 256"
    and new: "key_label key" "prefix (label_bits p @ [b]) (label_bits key)"
    and old: "node_ok sh old" "old \<noteq> Empty" "under (label_bits p @ [\<not> b]) old"
  shows "node_ok sh (split_node sh p (of_bool b) (Leaf key v) old)"
    and "node_map (split_node sh p (of_bool b) (Leaf key v) old) = (node_map old)(key \<mapsto> v)"
proof -
  have "key \<notin> set (node_keys old)"
    using underD [OF old(3)] new(2) by (auto simp: prefix_snoc_nth)
  then show "node_map (split_node sh p (of_bool b) (Leaf key v) old) = (node_map old)(key \<mapsto> v)"
    using map_add_upd_left [of key "node_map old" Map.empty v]
    by (cases b) (simp_all add: split_node_def Let_def)
  show "node_ok sh (split_node sh p (of_bool b) (Leaf key v) old)"
    using assms by (cases b) (auto simp: split_node_def Let_def)
qed

text \<open>Replacing a child by one that has a further key on its side.\<close>

lemma under_insert:
  assumes "under bs t" and "node_map t' = (node_map t)(key \<mapsto> v)" and "prefix bs (label_bits key)"
  shows "under bs t'"
proof -
  have "set (node_keys t') = insert key (set (node_keys t))"
    using arg_cong [OF assms(2), of dom] by simp
  with assms(1,3) show ?thesis by (auto intro!: underI dest: underD)
qed

lemma replace_left_ok:
  assumes t: "node_ok sh (Internal p l r h)"
    and l': "node_ok sh l'" "l' \<noteq> Empty" "node_map l' = (node_map l)(key \<mapsto> v)"
    and key: "prefix (label_bits p @ [False]) (label_bits key)"
  shows "node_ok sh (Internal p l' r (compute_internal_hash sh p l' r))"
    and "node_map l' ++ node_map r = (node_map l ++ node_map r)(key \<mapsto> v)"
proof -
  show "node_ok sh (Internal p l' r (compute_internal_hash sh p l' r))"
    using t l' under_insert [OF _ l'(3) key] by simp
  have "key \<notin> dom (node_map r)"
    using Internal_key_bits(2) [OF t, of key] key by (auto simp: prefix_snoc_nth)
  then show "node_map l' ++ node_map r = (node_map l ++ node_map r)(key \<mapsto> v)"
    unfolding l'(3) by (rule map_add_upd_left)
qed

lemma replace_right_ok:
  assumes t: "node_ok sh (Internal p l r h)"
    and r': "node_ok sh r'" "r' \<noteq> Empty" "node_map r' = (node_map r)(key \<mapsto> v)"
    and key: "prefix (label_bits p @ [True]) (label_bits key)"
  shows "node_ok sh (Internal p l r' (compute_internal_hash sh p l r'))"
    and "node_map l ++ node_map r' = (node_map l ++ node_map r)(key \<mapsto> v)"
  using t r' under_insert [OF _ r'(3) key] by simp_all

lemma split_node_not_Empty [simp]: "split_node sh p b t u \<noteq> Empty"
  by (simp add: split_node_def Let_def)

lemma insert_rec_ok:
  assumes "node_ok sh t" and key: "key_label key"
  shows "\<exists>t'. insert_rec sh t key v = Some t' \<and> node_ok sh t' \<and> t' \<noteq> Empty
    \<and> node_map t' = (node_map t)(key \<mapsto> v)"
  using assms(1)
proof (induction t)
  case Empty
  with key show ?case by (simp add: fun_eq_iff)
next
  case (Leaf k w)
  show ?case
  proof (cases "key = k")
    case True
    with key show ?thesis by (auto simp: fun_eq_iff)
  next
    case False
    let ?c = "lcp_len (label_bits key) (label_bits k)"
    have k: "key_label k" using Leaf by simp
    have c: "?c < 256" using keys_differ [OF key k False] .
    have ok: "label_ok key" "label_ok k" "lb_len key = 256" "lb_len k = 256"
      using key k by (auto simp: key_label_def)
    obtain p where p: "label_prefix key ?c = Some p" "label_ok p" "label_bits p = take ?c (label_bits key)"
      using label_prefix_ok [of key ?c] ok c by auto
    have "lb_len p = ?c" using arg_cong [OF p(3), of length] ok c by simp
    moreover have "prefix (label_bits p @ [label_bits key ! ?c]) (label_bits key)"
      and "prefix (label_bits p @ [\<not> label_bits key ! ?c]) (label_bits k)"
      using lcp_snoc [of "label_bits key" "label_bits k"] ok c by (simp_all add: p(3))
    ultimately show ?thesis
      using split_node_ok [of p key "label_bits key ! ?c" sh "Leaf k w" v] False p ok c k key
      by (simp add: label_simps fun_upd_def)
  qed
next
  case (Internal p l r h)
  let ?c = "lcp_len (label_bits key) (label_bits p)"
  have ok: "label_ok key" "lb_len key = 256" "label_ok p" "lb_len p < 256" and t: "node_ok sh (Internal p l r h)"
    using key Internal.prems by (auto simp: key_label_def)
  show ?case
  proof (cases "?c < lb_len p")
    case True
    obtain q where q: "label_prefix p ?c = Some q" "label_ok q" "label_bits q = take ?c (label_bits p)"
      using label_prefix_ok [of p ?c] ok True by auto
    have len: "lb_len q = ?c" using arg_cong [OF q(3), of length] True by simp
    have "label_bits q = take ?c (label_bits key)" using q(3) by (simp only: lcp_len_take [of "label_bits key"])
    then have "prefix (label_bits q @ [label_bits key ! ?c]) (label_bits key)"
      and old: "prefix (label_bits q @ [\<not> label_bits key ! ?c]) (label_bits p)"
      using lcp_snoc [of "label_bits key" "label_bits p"] ok True by simp_all
    moreover from old have "under (label_bits q @ [\<not> label_bits key ! ?c]) (Internal p l r h)"
      using underD [OF Internal_under [OF t]] by (meson prefix_order.trans underI)
    ultimately show ?thesis
      using split_node_ok [of q key "label_bits key ! ?c" sh "Internal p l r h" v] True q ok t key len
      by (simp add: label_simps fun_upd_def)
  next
    case False
    then have c: "?c = lb_len p" using lcp_len_le(2) [of "label_bits key" "label_bits p"] by simp
    then have "prefix (label_bits p) (label_bits key)"
      using lcp_len_take [of "label_bits key" "label_bits p"] ok by (simp add: prefix_iff_take)
    then have next_bit: "prefix (label_bits p @ [label_bits key ! lb_len p]) (label_bits key)"
      using ok by (simp add: prefix_snoc_nth)
    show ?thesis
    proof (cases "label_bits key ! lb_len p")
      case True
      obtain r' where "insert_rec sh r key v = Some r'" "node_ok sh r'" "r' \<noteq> Empty"
        "node_map r' = (node_map r)(key \<mapsto> v)"
        using Internal.IH(2) t unfolding node_ok.simps by blast
      with replace_right_ok [OF t, of r' key v] True next_bit c ok show ?thesis
        by (simp add: label_simps fun_upd_def)
    next
      case False
      obtain l' where "insert_rec sh l key v = Some l'" "node_ok sh l'" "l' \<noteq> Empty"
        "node_map l' = (node_map l)(key \<mapsto> v)"
        using Internal.IH(1) t unfolding node_ok.simps by blast
      with replace_left_ok [OF t, of l' key v] False next_bit c ok show ?thesis
        by (simp add: label_simps fun_upd_def)
    qed
  qed
qed



subsection \<open>The tree is determined by its map\<close>

lemma node_ok_Empty_iff: "node_ok sh t \<Longrightarrow> node_map t = Map.empty \<longleftrightarrow> t = Empty"
  by (metis dom_eq_empty_conv dom_node_map node_keys_not_Nil node_map.simps(1) set_empty)

lemma Internal_two_keys:
  assumes t: "node_ok sh (Internal p l r h)"
  obtains a b where "a \<in> set (node_keys l)" and "b \<in> set (node_keys r)"
    and "prefix (label_bits p @ [False]) (label_bits a)" and "prefix (label_bits p @ [True]) (label_bits b)"
proof -
  from t have "node_keys l \<noteq> []" and "node_keys r \<noteq> []" using node_keys_not_Nil by auto
  then obtain a b where "a \<in> set (node_keys l)" and "b \<in> set (node_keys r)"
    by (meson hd_in_set)
  with t that show ?thesis using underD by auto
qed

text \<open>The prefix is the longest common prefix of the keys.\<close>

lemma Internal_prefix_longest:
  assumes t: "node_ok sh (Internal p l r h)" and u: "under bs (Internal p l r h)"
  shows "prefix bs (label_bits p)"
proof -
  obtain a b where ab: "a \<in> set (node_keys l)" "b \<in> set (node_keys r)"
    and bits: "prefix (label_bits p @ [False]) (label_bits a)" "prefix (label_bits p @ [True]) (label_bits b)"
    using Internal_two_keys [OF t] by metis
  have bs: "prefix bs (label_bits a)" "prefix bs (label_bits b)" using ab underD [OF u] by auto
  show ?thesis
  proof (cases "length bs \<le> lb_len p")
    case True
    have "prefix (label_bits p) (label_bits a)" using bits(1) by (simp add: prefix_snoc_nth)
    with bs(1) show ?thesis by (rule prefix_length_prefix) (use True in simp)
  next
    case False
    then have "label_bits a ! lb_len p = bs ! lb_len p" and "label_bits b ! lb_len p = bs ! lb_len p"
      using prefix_nth [OF bs(1)] prefix_nth [OF bs(2)] by simp_all
    with bits show ?thesis by (simp add: prefix_snoc_nth)
  qed
qed

lemma Internal_child_map:
  assumes t: "node_ok sh (Internal p l r h)" and m: "node_map (Internal p l r h) = m"
  shows "node_map l = (\<lambda>k. if label_bits k ! lb_len p then None else m k)"
    and "node_map r = (\<lambda>k. if label_bits k ! lb_len p then m k else None)"
proof -
  have "label_bits k ! lb_len p \<Longrightarrow> node_map l k = None"
    and "\<not> label_bits k ! lb_len p \<Longrightarrow> node_map r k = None" for k
    using Internal_key_bits [OF t, of k] by (auto simp: node_map_None_iff)
  then show "node_map l = (\<lambda>k. if label_bits k ! lb_len p then None else m k)"
    and "node_map r = (\<lambda>k. if label_bits k ! lb_len p then m k else None)"
    by (auto simp: fun_eq_iff map_add_def m [symmetric] split: option.splits)
qed

lemma node_map_inj:
  assumes "node_ok sh t" and "node_ok sh u" and "node_map t = node_map u"
  shows "t = u"
  using assms
proof (induction t arbitrary: u)
  case Empty
  then show ?case using node_ok_Empty_iff [of sh u] by simp
next
  case (Leaf k v)
  have "set (node_keys u) = set (node_keys (Leaf k v))"
    by (simp only: dom_node_map [symmetric] Leaf.prems(3))
  then have keys: "set (node_keys u) = {k}" by simp
  show ?case
  proof (cases u)
    case (Leaf k' v')
    with keys Leaf.prems(3) show ?thesis by (auto simp: fun_eq_iff split: if_splits)
  next
    case (Internal p l r h)
    with Leaf.prems(2) Internal_two_keys [of sh p l r h] Internal_disjoint [of sh p l r h] keys
    show ?thesis by (metis Un_iff disjoint_iff node_keys.simps(3) set_append singletonD)
  qed (use keys in simp)
next
  case (Internal p l r h)
  have keys: "set (node_keys u) = set (node_keys (Internal p l r h))"
    using arg_cong [OF Internal.prems(3), of dom] by (simp only: dom_node_map)
  obtain a b where "a \<in> set (node_keys l)" "b \<in> set (node_keys r)"
    using Internal_two_keys [OF Internal.prems(1)] by metis
  then have "a \<in> set (node_keys u)" "b \<in> set (node_keys u)" "a \<noteq> b"
    using Internal_disjoint [OF Internal.prems(1)] by (auto simp: keys)
  then obtain q l' r' h' where u: "u = Internal q l' r' h'" by (cases u) auto
  have "under (label_bits q) (Internal p l r h)" and "under (label_bits p) u"
    using Internal_under Internal.prems(1,2) keys u by (metis underD underI)+
  then have "label_bits p = label_bits q"
    using Internal_prefix_longest Internal.prems(1,2) u prefix_order.antisym by metis
  then have p: "p = q" using Internal.prems(1,2) u by (auto intro: label_bits_inj)
  have u_ok: "node_ok sh (Internal p l' r' h')" and u_map: "node_map (Internal p l' r' h') = node_map u"
    using Internal.prems(2) u p by auto
  have "node_map l = node_map l'" and "node_map r = node_map r'"
    using Internal_child_map [OF Internal.prems(1,3)] Internal_child_map [OF u_ok u_map] by simp_all
  with Internal u p show ?case by auto
qed

lemma count_keys_card: "node_ok sh t \<Longrightarrow> count_keys t = card (dom (node_map t))"
proof (induction t)
  case (Internal p l r h)
  then have "card (set (node_keys l) \<union> set (node_keys r)) = card (set (node_keys l)) + card (set (node_keys r))"
    using Internal_disjoint [OF Internal.prems] by (intro card_Un_disjoint) simp_all
  with Internal show ?case by (simp add: Un_commute)
qed auto



subsection \<open>Lookup\<close>

text \<open>
  The check of a proof by a client: from the hash of the leaf upwards, each proof node must carry
  the label of the sibling of the key's path at its depth, and is hashed with the subtree's own
  hash in the order of the key's bit.
\<close>

definition proof_step :: "label \<Rightarrow> proof_node \<Rightarrow> sha256_hash \<Rightarrow> byte list option" where
  "proof_step key n own =
     (let depth = label_bit_len n - 1
      in if label_bit_len n = 0 then None
         else Option.bind (label_prefix key depth) (\<lambda>p.
              Option.bind (label_bit key depth) (\<lambda>b.
              Option.bind (append_bit p (1 - b)) (\<lambda>sibling.
                if lb_bytes sibling \<noteq> label_path n then None
                else Some (if b = 0 then internal_bytes p own (pn_hash n)
                           else internal_bytes p (pn_hash n) own)))))"

fun proof_root :: "digest \<Rightarrow> label \<Rightarrow> proof_node list \<Rightarrow> sha256_hash \<Rightarrow> sha256_hash option" where
  "proof_root sh key [] leaf = Some leaf"
| "proof_root sh key (n # ns) leaf =
     Option.bind (proof_root sh key ns leaf) (\<lambda>own. map_option sh (proof_step key n own))"

lemma push_sibling_ok:
  assumes "label_ok p" and "t \<noteq> Empty"
  obtains l where "push_sibling sh p (of_bool b) t ps =
      Some (ps @ [\<lparr>label_bit_len = Suc (lb_len p), label_path = lb_bytes l, pn_hash = pnode_hash sh t\<rparr>])"
    and "append_bit p (of_bool b) = Some l"
proof -
  obtain l where "append_bit p (of_bool b) = Some l" and "label_bits l = label_bits p @ [b]"
    using append_bit_ok [OF assms(1)] by blast
  moreover from this(2) have "lb_len l = Suc (lb_len p)" by (metis length_append_singleton length_label_bits)
  ultimately show ?thesis using that assms(2) by (simp add: push_sibling_def)
qed

lemma one_minus_of_bool: "1 - of_bool b = (of_bool (\<not> b) :: byte)"
  by (cases b) auto

lemma label_prefix_of_key:
  assumes "key_label key" and "label_ok p" and "lb_len p < 256" and "prefix (label_bits p) (label_bits key)"
  shows "label_prefix key (lb_len p) = Some p"
proof -
  obtain q where "label_prefix key (lb_len p) = Some q" "label_ok q" "label_bits q = take (lb_len p) (label_bits key)"
    using label_prefix_ok [of key "lb_len p"] assms by (auto simp: key_label_def)
  moreover have "take (lb_len p) (label_bits key) = label_bits p"
    using assms(4) by (simp add: prefix_iff_take)
  ultimately show ?thesis using label_bits_inj assms(2) by metis
qed

lemma proof_root_step:
  assumes "key_label key" and "label_ok p" and "lb_len p < 256" and "prefix (label_bits p) (label_bits key)"
    and "append_bit p (of_bool (\<not> label_bits key ! lb_len p)) = Some sibling"
    and "proof_root sh key ns leaf = Some own"
  shows "proof_root sh key (\<lparr>label_bit_len = Suc (lb_len p), label_path = lb_bytes sibling, pn_hash = s\<rparr> # ns) leaf
    = Some (sh (if label_bits key ! lb_len p then internal_bytes p s own else internal_bytes p own s))"
  using assms label_prefix_of_key [OF assms(1-4)]
  by (simp add: label_simps key_label_def one_minus_of_bool proof_step_def)

text \<open>
  A lookup never panics, finds exactly the keys of the map, and the proof of a key that is found
  leads from its leaf to the hash of the node.
\<close>

lemma lookup_rec_ok:
  assumes "node_ok sh t" and key: "key_label key"
  shows "\<exists>ns. lookup_rec sh t key ps = Some (key \<in> dom (node_map t), ps @ ns)
    \<and> (\<forall>v. node_map t key = Some v \<longrightarrow> proof_root sh key ns (pnode_hash sh (Leaf key v)) = Some (pnode_hash sh t))"
  using assms(1)
proof (induction t arbitrary: ps)
  case (Internal p l r h)
  note t = Internal.prems
  have ok: "label_ok key" "lb_len key = 256" "label_ok p" "lb_len p < 256"
    using key t by (auto simp: key_label_def)
  show ?case
  proof (cases "prefix (label_bits p) (label_bits key)")
    case False
    then have "node_map (Internal p l r h) key = None"
      using underD [OF Internal_under [OF t]] by (auto simp: node_map_None_iff simp del: node_map.simps)
    with False show ?thesis
      using ok by (simp add: label_simps domIff del: node_map.simps dom_node_map)
  next
    case pre: True
    note child = Internal_child_map [OF t refl, THEN fun_cong, of key]
    show ?thesis
    proof (cases "label_bits key ! lb_len p")
      case True
      obtain lab where push: "push_sibling sh p 0 l ps =
          Some (ps @ [\<lparr>label_bit_len = Suc (lb_len p), label_path = lb_bytes lab, pn_hash = pnode_hash sh l\<rparr>])"
        and lab: "append_bit p 0 = Some lab"
        using push_sibling_ok [of p l sh False ps] t by auto
      let ?n = "\<lparr>label_bit_len = Suc (lb_len p), label_path = lb_bytes lab, pn_hash = pnode_hash sh l\<rparr>"
      obtain ns where "lookup_rec sh r key (ps @ [?n]) = Some (key \<in> dom (node_map r), (ps @ [?n]) @ ns)"
        and "\<And>v. node_map r key = Some v \<Longrightarrow>
          proof_root sh key ns (pnode_hash sh (Leaf key v)) = Some (pnode_hash sh r)"
        using Internal.IH(2) [of "ps @ [?n]"] t unfolding node_ok.simps by blast
      with True push lab child t pre ok show ?thesis
        using proof_root_step [OF key ok(3,4) pre, of lab sh ns]
        by (intro exI [of _ "?n # ns"])
          (simp add: label_simps domIff compute_internal_hash_def del: node_map.simps dom_node_map proof_root.simps)
    next
      case False
      obtain lab where push: "push_sibling sh p 1 r ps =
          Some (ps @ [\<lparr>label_bit_len = Suc (lb_len p), label_path = lb_bytes lab, pn_hash = pnode_hash sh r\<rparr>])"
        and lab: "append_bit p 1 = Some lab"
        using push_sibling_ok [of p r sh True ps] t by auto
      let ?n = "\<lparr>label_bit_len = Suc (lb_len p), label_path = lb_bytes lab, pn_hash = pnode_hash sh r\<rparr>"
      obtain ns where "lookup_rec sh l key (ps @ [?n]) = Some (key \<in> dom (node_map l), (ps @ [?n]) @ ns)"
        and "\<And>v. node_map l key = Some v \<Longrightarrow>
          proof_root sh key ns (pnode_hash sh (Leaf key v)) = Some (pnode_hash sh l)"
        using Internal.IH(1) [of "ps @ [?n]"] t unfolding node_ok.simps by blast
      with False push lab child t pre ok show ?thesis
        using proof_root_step [OF key ok(3,4) pre, of lab sh ns]
        by (intro exI [of _ "?n # ns"])
          (simp add: label_simps domIff compute_internal_hash_def del: node_map.simps dom_node_map proof_root.simps)
    qed
  qed
qed (auto)



subsection \<open>Proofs bind keys to the root\<close>

text \<open>
  The byte strings that the tree and the check of a proof hash. Soundness asks that SHA-256 has no
  collision among these finitely many strings and does not map one of them to the all-zero hash,
  which the code uses for the empty tree.
\<close>

fun node_calls :: "digest \<Rightarrow> node \<Rightarrow> byte list list" where
  "node_calls sh Empty = []"
| "node_calls sh (Leaf k v) = [[0x00] @ lb_bytes k @ hash_bytes v]"
| "node_calls sh (Internal p l r h) =
     internal_bytes p (pnode_hash sh l) (pnode_hash sh r) # node_calls sh l @ node_calls sh r"

fun lookup_calls :: "digest \<Rightarrow> label \<Rightarrow> proof_node list \<Rightarrow> sha256_hash \<Rightarrow> byte list list" where
  "lookup_calls sh key [] leaf = []"
| "lookup_calls sh key (n # ns) leaf =
     (case Option.bind (proof_root sh key ns leaf) (proof_step key n) of None \<Rightarrow> [] | Some bs \<Rightarrow> [bs])
     @ lookup_calls sh key ns leaf"

definition no_collision :: "digest \<Rightarrow> byte list list \<Rightarrow> bool" where
  "no_collision sh xs \<longleftrightarrow> list_all (\<lambda>x. list_all (\<lambda>y. sh x = sh y \<longrightarrow> x = y) xs) xs"

lemma no_collisionD: "no_collision sh xs \<Longrightarrow> x \<in> set xs \<Longrightarrow> y \<in> set xs \<Longrightarrow> sh x = sh y \<Longrightarrow> x = y"
  by (auto simp: no_collision_def list_all_iff)

lemma no_collision_mono: "no_collision sh ys \<Longrightarrow> set xs \<subseteq> set ys \<Longrightarrow> no_collision sh xs"
  by (auto simp: no_collision_def list_all_iff)

lemma internal_bytes_inj:
  assumes "label_ok p" and "label_ok q" and "lb_len p \<le> 256" and "lb_len q \<le> 256"
    and eq: "internal_bytes p a b = internal_bytes q c d"
  shows "p = q \<and> a = c \<and> b = d"
proof -
  from eq have "be_bytes 4 (lb_len p) = be_bytes 4 (lb_len q)"
    and rest: "lb_bytes p @ hash_bytes a @ hash_bytes b = lb_bytes q @ hash_bytes c @ hash_bytes d"
    by (simp_all add: internal_bytes_def)
  moreover have "lb_len p < 256 ^ 4" and "lb_len q < 256 ^ 4" using assms(3,4) by simp_all
  ultimately have len: "lb_len p = lb_len q" by (metis be_nat_be_bytes_small)
  then have "length (lb_bytes p) = length (lb_bytes q)" using assms(1,2) by (simp add: label_ok_def)
  with rest have "lb_bytes p = lb_bytes q" and "hash_bytes a @ hash_bytes b = hash_bytes c @ hash_bytes d"
    by simp_all
  with len show ?thesis by (simp add: hash_bytes_inj)
qed

lemma proof_step_cases:
  assumes "key_label key" and "proof_step key n own = Some bs"
  obtains p where "label_ok p" and "lb_len p < 256"
    and "bs = (if label_bits key ! lb_len p then internal_bytes p (pn_hash n) own
               else internal_bytes p own (pn_hash n))"
proof -
  define d where "d = label_bit_len n - 1"
  from assms obtain p b where p: "label_prefix key d = Some p" and b: "label_bit key d = Some b"
    and bs: "bs = (if b = 0 then internal_bytes p own (pn_hash n) else internal_bytes p (pn_hash n) own)"
    by (auto simp: proof_step_def Let_def d_def bind_eq_Some_conv split: if_splits)
  have d: "d < 256" using b assms(1) by (auto simp: label_bit_def key_label_def split: if_splits)
  moreover obtain q where "label_prefix key d = Some q" "label_ok q" "label_bits q = take d (label_bits key)"
    using label_prefix_ok [of key d] d assms(1) by (auto simp: key_label_def)
  moreover from this(3) d assms(1) have "lb_len q = d"
    using length_label_bits [of q] by (simp add: key_label_def)
  moreover have "b = of_bool (label_bits key ! d)"
    using label_bit_eq [of key d] b d assms(1) by (simp add: key_label_def)
  ultimately show ?thesis using that [of q] p bs by simp
qed

lemma proof_root_binds:
  assumes "node_ok sh t" and key: "key_label key"
    and "proof_root sh key ns (pnode_hash sh (Leaf key v)) = Some (pnode_hash sh t)"
    and "no_collision sh (node_calls sh t @ lookup_calls sh key ns (pnode_hash sh (Leaf key v))
          @ node_calls sh (Leaf key v))"
    and "\<forall>bs \<in> set (lookup_calls sh key ns (pnode_hash sh (Leaf key v)) @ node_calls sh (Leaf key v)). sh bs \<noteq> 0"
  shows "node_map t key = Some v"
  using assms(1,3-5)
proof (induction ns arbitrary: t)
  case Nil
  let ?leaf = "[0x00] @ lb_bytes key @ hash_bytes v"
  show ?case
  proof (cases t)
    case (Leaf k w)
    then have "?leaf = [0x00] @ lb_bytes k @ hash_bytes w"
      using Nil.prems(2) by (intro no_collisionD [OF Nil.prems(3)]) simp_all
    moreover have "length (lb_bytes key) = length (lb_bytes k)"
      using key Nil.prems(1) Leaf by (simp add: key_label_def label_ok_def)
    ultimately show ?thesis
      using key Nil.prems(1) Leaf by (simp add: key_label_def hash_bytes_inj)
  next
    case (Internal p l r h)
    then have "?leaf = internal_bytes p (pnode_hash sh l) (pnode_hash sh r)"
      using Nil.prems(1,2) by (intro no_collisionD [OF Nil.prems(3)]) (simp_all add: compute_internal_hash_def)
    then show ?thesis by (simp add: internal_bytes_def)
  qed (use Nil.prems(2,4) in simp)
next
  case (Cons n ns)
  let ?leaf = "pnode_hash sh (Leaf key v)"
  from Cons.prems(2) obtain own bs where own: "proof_root sh key ns ?leaf = Some own"
    and bs: "proof_step key n own = Some bs" and hash: "sh bs = pnode_hash sh t"
    by (auto simp: bind_eq_Some_conv)
  then have call: "bs \<in> set (lookup_calls sh key (n # ns) ?leaf)" by simp
  obtain q where q: "label_ok q" "lb_len q < 256"
    and bytes: "bs = (if label_bits key ! lb_len q then internal_bytes q (pn_hash n) own
                      else internal_bytes q own (pn_hash n))"
    using proof_step_cases [OF key bs] .
  have "sh bs \<noteq> 0" using Cons.prems(4) call by auto
  with hash have "t \<noteq> Empty" by auto
  moreover have not_leaf: "bs \<noteq> [0x00] @ lb_bytes k @ hash_bytes w" for k w
    unfolding bytes by (simp add: internal_bytes_def)
  have "t \<noteq> Leaf k w" for k w
    using no_collisionD [OF Cons.prems(3), of bs "[0x00] @ lb_bytes k @ hash_bytes w"] call hash
      not_leaf [of k w] by auto
  ultimately obtain p l r h where t: "t = Internal p l r h" by (cases t) auto
  then have "bs = internal_bytes p (pnode_hash sh l) (pnode_hash sh r)"
    using hash call Cons.prems(1)
    by (intro no_collisionD [OF Cons.prems(3)]) (simp_all add: compute_internal_hash_def)
  then have "p = q \<and> own = pnode_hash sh (if label_bits key ! lb_len q then r else l)"
    using internal_bytes_inj [OF q(1), of p] q(2) Cons.prems(1) t unfolding bytes by (auto split: if_splits)
  moreover have "node_map c key = Some v" if c: "c \<in> {l, r}" and "own = pnode_hash sh c" for c
  proof (rule Cons.IH)
    show "node_ok sh c" using Cons.prems(1) t c by auto
    show "no_collision sh (node_calls sh c @ lookup_calls sh key ns ?leaf @ node_calls sh (Leaf key v))"
      by (rule no_collision_mono [OF Cons.prems(3)]) (use t c in auto)
    show "\<forall>bs \<in> set (lookup_calls sh key ns ?leaf @ node_calls sh (Leaf key v)). sh bs \<noteq> 0"
      using Cons.prems(4) by auto
  qed (use own that in simp)
  ultimately show ?case
    using Internal_child_map [OF Cons.prems(1) [unfolded t] refl, THEN fun_cong, of key] t
    by (auto split: if_splits simp del: node_map.simps)
qed



subsection \<open>The interface of the tree\<close>

text \<open>
  What the index relies on: a tree stands for a map, an insertion succeeds and updates it, and the
  tree is a function of the map. \<open>insert_all\<close> inserts the pairs of a list.
\<close>

fun insert_all :: "('t \<Rightarrow> 'k \<Rightarrow> 'v \<Rightarrow> 't option) \<Rightarrow> ('k \<times> 'v) list \<Rightarrow> 't \<Rightarrow> 't option" where
  "insert_all ins [] t = Some t"
| "insert_all ins ((k, v) # kvs) t = Option.bind (ins t k v) (insert_all ins kvs)"

fun update_all :: "('k \<times> 'v) list \<Rightarrow> ('k \<rightharpoonup> 'v) \<Rightarrow> 'k \<rightharpoonup> 'v" where
  "update_all [] m = m"
| "update_all ((k, v) # kvs) m = update_all kvs (m(k \<mapsto> v))"

lemma dom_update_all: "dom (update_all kvs m) = fst ` set kvs \<union> dom m"
proof (induction kvs arbitrary: m)
  case (Cons kv kvs)
  obtain k v where kv: "kv = (k, v)" by (cases kv)
  have "dom (update_all kvs (m(k \<mapsto> v))) = fst ` set kvs \<union> insert k (dom m)"
    unfolding Cons.IH dom_fun_upd by simp
  then show ?case by (simp only: kv update_all.simps) simp
qed simp

locale canonical_map =
  fixes new :: 't
    and ins :: "'t \<Rightarrow> 'k \<Rightarrow> 'v \<Rightarrow> 't option"
    and absm :: "'t \<Rightarrow> 'k \<rightharpoonup> 'v"
    and inv :: "'t \<Rightarrow> bool"
  assumes new_ok: "inv new" "absm new = Map.empty"
    and ins_ok: "inv t \<Longrightarrow> \<exists>t'. ins t k v = Some t' \<and> inv t' \<and> absm t' = (absm t)(k \<mapsto> v)"
    and canonical: "inv t \<Longrightarrow> inv u \<Longrightarrow> absm t = absm u \<Longrightarrow> t = u"
begin

lemma insert_all_ok:
  "inv t \<Longrightarrow> \<exists>t'. insert_all ins kvs t = Some t' \<and> inv t' \<and> absm t' = update_all kvs (absm t)"
proof (induction kvs arbitrary: t)
  case (Cons kv kvs)
  obtain k v where kv: "kv = (k, v)" by (cases kv)
  obtain t1 where "ins t k v = Some t1" "inv t1" "absm t1 = (absm t)(k \<mapsto> v)"
    using ins_ok Cons.prems by blast
  with Cons.IH [of t1] show ?case by (simp add: kv fun_upd_def)
qed simp

lemma insert_all_canonical:
  assumes "inv t" and "update_all kvs (absm t) = update_all kvs' (absm t)"
  shows "insert_all ins kvs t = insert_all ins kvs' t"
  using insert_all_ok [OF assms(1), of kvs] insert_all_ok [OF assms(1), of kvs'] canonical assms(2) by metis

end

definition tree_map :: "node \<Rightarrow> sha256_hash \<rightharpoonup> sha256_hash" where
  "tree_map t k = node_map t (label_from_key k)"

lemma key_label_iff: "key_label l \<longleftrightarrow> (\<exists>k. l = label_from_key k)"
proof
  assume l: "key_label l"
  then have "length (lb_bytes l) = 32" by (simp add: key_label_def label_ok_def)
  then have "l = label_from_key (hash_from_bytes (lb_bytes l))"
    using l by (simp add: label_from_key_def hash_bytes_hash_from_bytes key_label_def)
  then show "\<exists>k. l = label_from_key k" by blast
qed auto

lemma tree_map_inj:
  assumes "node_ok sh t" and "node_ok sh u" and "tree_map t = tree_map u"
  shows "t = u"
proof (rule node_map_inj [OF assms(1,2)])
  show "node_map t = node_map u"
  proof
    fix l
    show "node_map t l = node_map u l"
    proof (cases "key_label l")
      case True
      then show ?thesis using fun_cong [OF assms(3)] by (auto simp: key_label_iff tree_map_def)
    next
      case False
      then show ?thesis using node_keys_ok assms(1,2) by (metis node_map_None_iff)
    qed
  qed
qed

interpretation pt: canonical_map tree_new "tree_insert sh" tree_map "node_ok sh" for sh
proof unfold_locales
  show "node_ok sh tree_new" and "tree_map tree_new = Map.empty"
    by (auto simp: tree_new_def tree_map_def)
  show "\<exists>t'. tree_insert sh t k v = Some t' \<and> node_ok sh t' \<and> tree_map t' = (tree_map t)(k \<mapsto> v)"
    if "node_ok sh t" for t k v
    using insert_rec_ok [OF that key_label_from_key, of k v]
    by (auto simp: tree_insert_def tree_map_def fun_eq_iff)
qed (rule tree_map_inj)

lemma tree_lookup_ok:
  assumes "node_ok sh t"
  obtains lp where "tree_lookup sh t k = Some lp" and "lp_found lp \<longleftrightarrow> k \<in> dom (tree_map t)"
    and "\<And>v. tree_map t k = Some v \<Longrightarrow>
      proof_root sh (label_from_key k) (lp_proof lp) (pnode_hash sh (Leaf (label_from_key k) v))
        = Some (tree_root_hash sh t)"
  using lookup_rec_ok [OF assms key_label_from_key, of k "[]"] that
  by (auto simp: tree_lookup_def tree_map_def tree_root_hash_def domIff simp del: dom_node_map pnode_hash.simps)

lemma card_tree_map: "node_ok sh t \<Longrightarrow> count_keys t = card (dom (tree_map t))"
proof -
  assume ok: "node_ok sh t"
  have "dom (node_map t) = label_from_key ` dom (tree_map t)"
  proof (intro set_eqI iffI)
    fix l assume "l \<in> dom (node_map t)"
    then have "key_label l" using node_keys_ok [OF ok] by simp
    with \<open>l \<in> dom (node_map t)\<close> show "l \<in> label_from_key ` dom (tree_map t)"
      by (auto simp: key_label_iff tree_map_def domIff simp del: dom_node_map)
  qed (auto simp: tree_map_def domIff simp del: dom_node_map)
  moreover have "inj label_from_key" by (rule injI) simp
  ultimately show ?thesis using count_keys_card [OF ok] by (simp add: card_image inj_on_subset)
qed



subsection \<open>Properties\<close>

text \<open>C32. The prefix tree refines a map: inserting any sequence of pairs into the empty tree never
  panics; afterwards lookup finds exactly the inserted keys, \<open>len\<close> counts them, and the proof of
  every key leads from its leaf (the last value hash inserted for it) to the root hash.\<close>

theorem prefix_tree_refines_map:
  "\<exists>t. insert_all (tree_insert sh) kvs tree_new = Some t
     \<and> count_keys t = card (dom (update_all kvs Map.empty))
     \<and> (tree_is_empty t \<longleftrightarrow> kvs = [])
     \<and> (\<forall>k. \<exists>lp. tree_lookup sh t k = Some lp
          \<and> (case update_all kvs Map.empty k of
               None \<Rightarrow> \<not> lp_found lp
             | Some v \<Rightarrow> lp_found lp \<and> proof_root sh (label_from_key k) (lp_proof lp)
                 (pnode_hash sh (Leaf (label_from_key k) v)) = Some (tree_root_hash sh t)))"
proof -
  obtain t where t: "insert_all (tree_insert sh) kvs tree_new = Some t" "node_ok sh t"
    and m: "tree_map t = update_all kvs Map.empty"
    using pt.insert_all_ok [OF pt.new_ok(1), of sh kvs] unfolding pt.new_ok(2) by blast
  have "\<exists>lp. tree_lookup sh t k = Some lp
      \<and> (case tree_map t k of
           None \<Rightarrow> \<not> lp_found lp
         | Some v \<Rightarrow> lp_found lp \<and> proof_root sh (label_from_key k) (lp_proof lp)
             (pnode_hash sh (Leaf (label_from_key k) v)) = Some (tree_root_hash sh t))" for k
  proof -
    obtain lp where "tree_lookup sh t k = Some lp" and "lp_found lp \<longleftrightarrow> k \<in> dom (tree_map t)"
      and "\<And>v. tree_map t k = Some v \<Longrightarrow>
        proof_root sh (label_from_key k) (lp_proof lp) (pnode_hash sh (Leaf (label_from_key k) v))
          = Some (tree_root_hash sh t)"
      using tree_lookup_ok [OF t(2), of k] by metis
    then show ?thesis by (cases "tree_map t k") (auto simp: domIff simp del: pnode_hash.simps)
  qed
  moreover have "t = Empty \<longleftrightarrow> dom (tree_map t) = {}"
    using card_tree_map [OF t(2)] node_ok_Empty_iff [OF t(2)] tree_map_inj [OF t(2), of Empty]
    by (auto simp: tree_map_def fun_eq_iff)
  ultimately show ?thesis
    using t card_tree_map [OF t(2)] unfolding m by (simp add: tree_is_empty_def dom_update_all)
qed

text \<open>The root hash is a function of the indexed map: two sequences of insertions that leave the
  same last value for every key build the same tree, hence the same root hash and proofs, whatever
  their order and repetitions (a restart inserts in the order of a hash map).\<close>

lemma prefix_tree_order_independent:
  assumes "update_all kvs Map.empty = update_all kvs' Map.empty"
  shows "insert_all (tree_insert sh) kvs tree_new = insert_all (tree_insert sh) kvs' tree_new"
  using pt.insert_all_canonical [OF pt.new_ok(1)] assms unfolding pt.new_ok(2) by blast

text \<open>C33. Lookup proofs are sound: if the check of a proof for a key and a value hash arrives at the
  root hash of the tree, then the tree maps the key to that value hash, unless SHA-256 collides
  among the strings hashed by the tree and by the check or maps one of them to zero.\<close>

theorem lookup_proof_sound:
  assumes "insert_all (tree_insert sh) kvs tree_new = Some t"
    and "proof_root sh (label_from_key k) ns (pnode_hash sh (Leaf (label_from_key k) v))
      = Some (tree_root_hash sh t)"
    and "no_collision sh (node_calls sh t
      @ lookup_calls sh (label_from_key k) ns (pnode_hash sh (Leaf (label_from_key k) v))
      @ node_calls sh (Leaf (label_from_key k) v))"
    and "\<forall>bs \<in> set (lookup_calls sh (label_from_key k) ns (pnode_hash sh (Leaf (label_from_key k) v))
      @ node_calls sh (Leaf (label_from_key k) v)). sh bs \<noteq> 0"
  shows "update_all kvs Map.empty k = Some v"
proof -
  have "node_ok sh t" and "tree_map t = update_all kvs Map.empty"
    using pt.insert_all_ok [OF pt.new_ok(1), of sh kvs] assms(1) unfolding pt.new_ok(2) by auto
  with proof_root_binds [OF _ key_label_from_key assms(2) [unfolded tree_root_hash_def] assms(3,4)]
  show ?thesis by (metis tree_map_def)
qed


text \<open>An example: two keys that differ in the first bit, and the proof of the first.\<close>

definition demo_digest :: digest where
  "demo_digest bs = of_nat (length bs) + of_nat (unat (last bs))"

definition demo_key :: sha256_hash where
  "demo_key = hash_from_bytes (128 # replicate 31 0)"

definition demo_proof :: "proof_node list" where
  "demo_proof = [\<lparr>label_bit_len = 1, label_path = [128], pn_hash = 74\<rparr>]"

definition demo_tree :: node where
  "demo_tree = Internal label_empty (Leaf (label_from_key 0) 7) (Leaf (label_from_key demo_key) 9) 143"

lemma last_hash_bytes: "last (hash_bytes h) = word_of_nat (unat h mod 256)"
proof -
  have "hash_bytes h = be_bytes (Suc 31) (unat h)" by (simp add: hash_bytes_def)
  then show ?thesis by (simp only: be_bytes.simps last_snoc)
qed

lemma hash_bytes_not_Nil: "hash_bytes h \<noteq> []"
  using length_hash_bytes [of h] by fastforce

lemma hash_bytes_0: "hash_bytes 0 = replicate 32 0"
proof -
  have "be_bytes n 0 = replicate n 0" for n
    by (induction n) (simp_all add: replicate_append_same)
  then show ?thesis by (simp add: hash_bytes_def)
qed

lemma hash_bytes_demo_key: "hash_bytes demo_key = 128 # replicate 31 0"
  by (simp add: demo_key_def hash_bytes_hash_from_bytes)

lemma demo_labels:
  "label_bit (label_from_key 0) 0 = Some 0" "label_bit (label_from_key demo_key) 0 = Some 1"
  "common_prefix_len (label_from_key demo_key) (label_from_key 0) = Some 0"
  "label_prefix (label_from_key k) 0 = Some label_empty"
  "append_bit label_empty 1 = Some \<lparr>lb_bytes = [128], lb_len = 1\<rparr>"
proof -
  have "byte_leading_zeros 128 = 0"
    by (simp add: byte_leading_zeros_def leading_zeros_def bit_len_unique [of 7])
  moreover have "[0..<32] = 0 # [Suc 0..<32]" by (simp add: upt_conv_Cons)
  ultimately show "common_prefix_len (label_from_key demo_key) (label_from_key 0) = Some 0"
    by (simp add: common_prefix_len_def label_from_key_def hash_bytes_0 hash_bytes_demo_key)
qed (simp_all add: label_bit_def label_from_key_def hash_bytes_0 hash_bytes_demo_key byte_bit_def
  label_prefix_def append_bit_def label_empty_def)

lemma demo_hashes:
  "demo_digest (0 # lb_bytes (label_from_key k) @ hash_bytes 7) = 72"
  "demo_digest (0 # lb_bytes (label_from_key k) @ hash_bytes 9) = 74"
  "demo_digest (internal_bytes label_empty a 74) = 143"
  by (simp_all add: demo_digest_def internal_bytes_def label_from_key_def last_hash_bytes label_empty_def
    hash_bytes_not_Nil)

lemma demo_tree_built:
  "insert_all (tree_insert demo_digest) [(0, 7), (demo_key, 9)] tree_new = Some demo_tree"
proof -
  have "hd (hash_bytes demo_key) \<noteq> hd (hash_bytes 0)" by (simp add: hash_bytes_demo_key hash_bytes_0)
  then have "demo_key \<noteq> 0" by auto
  then show ?thesis
    by (simp add: tree_new_def tree_insert_def demo_labels split_node_def compute_internal_hash_def
      demo_hashes demo_tree_def)
qed

theorem lookup_proof_sound_witness:
  "proof_root demo_digest (label_from_key 0) demo_proof 72 = Some (tree_root_hash demo_digest demo_tree)
   \<and> update_all [(0, 7), (demo_key, 9)] Map.empty 0 = Some (7 :: sha256_hash)"
proof
  let ?l = "pnode_hash demo_digest (Leaf (label_from_key 0) 7)"
  have leaf: "?l = 72" by (simp add: demo_hashes)
  have step: "proof_step (label_from_key 0) (hd demo_proof) 72 = Some (internal_bytes label_empty 72 74)"
    by (simp add: proof_step_def demo_proof_def demo_labels)
  then show root: "proof_root demo_digest (label_from_key 0) demo_proof 72 = Some (tree_root_hash demo_digest demo_tree)"
    by (simp add: demo_proof_def tree_root_hash_def demo_tree_def demo_hashes)
  have calls: "lookup_calls demo_digest (label_from_key 0) demo_proof ?l = [internal_bytes label_empty 72 74]"
    using step by (simp add: demo_hashes demo_proof_def)
  show "update_all [(0, 7), (demo_key, 9)] Map.empty 0 = Some (7 :: sha256_hash)"
  proof (rule lookup_proof_sound [OF demo_tree_built])
    show "proof_root demo_digest (label_from_key 0) demo_proof ?l = Some (tree_root_hash demo_digest demo_tree)"
      using root leaf by simp
    show "no_collision demo_digest (node_calls demo_digest demo_tree
        @ lookup_calls demo_digest (label_from_key 0) demo_proof ?l
        @ node_calls demo_digest (Leaf (label_from_key 0) 7))"
      unfolding calls by (simp add: no_collision_def demo_tree_def demo_hashes)
    show "\<forall>bs \<in> set (lookup_calls demo_digest (label_from_key 0) demo_proof ?l
        @ node_calls demo_digest (Leaf (label_from_key 0) 7)). demo_digest bs \<noteq> 0"
      unfolding calls by (simp add: demo_hashes)
  qed
qed

end
