(* ===== verification/Vindex_Wal.thy ===== *)
theory Vindex_Wal
  imports Types_Paths "HOL-Library.Sublist"
begin

text \<open>
  The write-ahead log of the verifiable index, \<^verbatim>\<open>src/vindex/wal.rs\<close>: the encoding of a record, the
  unbatched and the batched writer, the reader, and the validation and truncation of the file at
  startup. The CRC-32 of \<open>crc32fast\<close> is the parameter \<open>crc\<close>, of which the theorems use only that
  it is a 32-bit number. A file is its content and the content that the last sync made durable;
  \<open>wal_io\<close> is how the calls of one operation to the file system end: a write may fail after a
  prefix of its bytes, and opening, syncing and changing the length may fail. Reading an opened
  file delivers its bytes.
\<close>

type_synonym crc_fn = "byte list \<Rightarrow> nat"
definition crc_laws :: "crc_fn \<Rightarrow> bool" where
  "crc_laws crc \<longleftrightarrow> (\<forall>bs. crc bs < 2 ^ 32)"

type_synonym wal_entry = "nat \<times> sha256_hash list"

record wal_file =
  wf_bytes :: "byte list"
  wf_durable :: "byte list"

record wal_io =
  write_torn :: "nat option"
  sync_ok :: bool
  set_len_ok :: bool
  open_ok :: bool

definition WAL_VERSION_BINARY :: byte where "WAL_VERSION_BINARY = 2"

definition WAL_VERSION_CRC :: byte where "WAL_VERSION_CRC = 3"


subsection \<open>Records and writers\<close>

definition entry_body :: "byte \<Rightarrow> nat \<Rightarrow> sha256_hash list \<Rightarrow> byte list" where
  "entry_body version idx keys =
     [version] @ be_bytes 8 idx @ [word_of_nat (length keys)] @ concat (map hash_bytes keys)"

definition encode_entry :: "crc_fn \<Rightarrow> byte list \<Rightarrow> nat \<Rightarrow> sha256_hash list \<Rightarrow> byte list" where
  "encode_entry crc buf idx keys =
     (let body = entry_body WAL_VERSION_CRC idx keys in buf @ body @ le_bytes 4 (crc body))"

definition wal_open :: "wal_io \<Rightarrow> wal_file option \<Rightarrow> (error + unit) \<times> wal_file option" where
  "wal_open io f =
     (if \<not> open_ok io then (Inl Internal, f)
      else (Inr (), Some (case f of None \<Rightarrow> \<lparr>wf_bytes = [], wf_durable = []\<rparr> | Some f \<Rightarrow> f)))"

definition write_all :: "wal_io \<Rightarrow> byte list \<Rightarrow> (wal_file, error, unit) st" where
  "write_all io buf f =
     (case write_torn io of
        None \<Rightarrow> (Inr (), f\<lparr>wf_bytes := wf_bytes f @ buf\<rparr>)
      | Some n \<Rightarrow> (Inl Internal, f\<lparr>wf_bytes := wf_bytes f @ take n buf\<rparr>))"

definition sync_file :: "wal_io \<Rightarrow> (wal_file, error, unit) st" where
  "sync_file io f =
     (if sync_ok io then (Inr (), f\<lparr>wf_durable := wf_bytes f\<rparr>) else (Inl Internal, f))"

definition set_len :: "wal_io \<Rightarrow> nat \<Rightarrow> (wal_file, error, unit) st" where
  "set_len io n f =
     (if set_len_ok io then (Inr (), f\<lparr>wf_bytes := take n (wf_bytes f)\<rparr>) else (Inl Internal, f))"

definition binary_append :: "crc_fn \<Rightarrow> wal_io \<Rightarrow> nat \<Rightarrow> sha256_hash list \<Rightarrow> (wal_file, error, unit) st" where
  "binary_append crc io idx keys =
     (if 255 < length keys then lift_st (Inl InvalidEntry)
      else write_all io (encode_entry crc [] idx keys))"

definition binary_flush :: "wal_io \<Rightarrow> (wal_file, error, unit) st" where
  "binary_flush io = sync_file io"

definition binary_truncate :: "wal_io \<Rightarrow> (wal_file, error, unit) st" where
  "binary_truncate io = bind_st (set_len io 0) (\<lambda>_. sync_file io)"

text \<open>The batched writer keeps its buffer beside the file; a failed write keeps the buffer.\<close>

record batched_wal =
  bw_buffer :: "wal_entry list"
  bw_batch_size :: nat

fun encode_batch :: "crc_fn \<Rightarrow> byte list \<Rightarrow> wal_entry list \<Rightarrow> byte list" where
  "encode_batch crc buf [] = buf"
| "encode_batch crc buf ((idx, keys) # es) = encode_batch crc (encode_entry crc buf idx keys) es"

definition wal_flush_batch :: "crc_fn \<Rightarrow> wal_io \<Rightarrow> (batched_wal \<times> wal_file, error, unit) st" where
  "wal_flush_batch crc io = (\<lambda>(w, f).
     if bw_buffer w = [] then (Inr (), (w, f))
     else case bind_st (write_all io (encode_batch crc [] (bw_buffer w))) (\<lambda>_. sync_file io) f of
            (Inl e, f') \<Rightarrow> (Inl e, (w, f'))
          | (Inr _, f') \<Rightarrow> (Inr (), (w\<lparr>bw_buffer := []\<rparr>, f')))"

definition batched_append ::
  "crc_fn \<Rightarrow> wal_io \<Rightarrow> nat \<Rightarrow> sha256_hash list \<Rightarrow> (batched_wal \<times> wal_file, error, unit) st" where
  "batched_append crc io idx keys = (\<lambda>(w, f).
     if 255 < length keys then (Inl InvalidEntry, (w, f))
     else let w' = w\<lparr>bw_buffer := bw_buffer w @ [(idx, keys)]\<rparr>
          in if bw_batch_size w' \<le> length (bw_buffer w') then wal_flush_batch crc io (w', f)
             else (Inr (), (w', f)))"

definition batched_flush :: "crc_fn \<Rightarrow> wal_io \<Rightarrow> (batched_wal \<times> wal_file, error, unit) st" where
  "batched_flush crc io = (\<lambda>(w, f).
     if bw_buffer w \<noteq> [] then wal_flush_batch crc io (w, f) else (Inr (), (w, f)))"

definition batched_truncate :: "wal_io \<Rightarrow> (batched_wal \<times> wal_file, error, unit) st" where
  "batched_truncate io = (\<lambda>(w, f).
     if bw_buffer w \<noteq> [] then (Inl Internal, (w, f))
     else case bind_st (set_len io 0) (\<lambda>_. sync_file io) f of (r, f') \<Rightarrow> (r, (w, f')))"


subsection \<open>The reader\<close>

text \<open>
  The reader holds the bytes not yet read. Nothing is read after an error, so a failed
  \<open>next_entry\<close> leaves the reader as it was. \<open>read_exact\<close> needs all the bytes it is asked for.
\<close>

record wal_reader =
  rd_rest :: "byte list"
  rd_valid_pos :: nat

definition reader_open :: "byte list \<Rightarrow> wal_reader" where
  "reader_open content = \<lparr>rd_rest = content, rd_valid_pos = 0\<rparr>"

definition read_exact :: "nat \<Rightarrow> byte list \<Rightarrow> (byte list \<times> byte list) res" where
  "read_exact n bs = (if length bs < n then Inl Internal else Inr (take n bs, drop n bs))"

fun read_keys :: "nat \<Rightarrow> byte list \<Rightarrow> (sha256_hash list \<times> byte list) res" where
  "read_keys 0 bs = Inr ([], bs)"
| "read_keys (Suc n) bs =
     bind_res (read_exact 32 bs) (\<lambda>(key, bs1).
     bind_res (read_keys n bs1) (\<lambda>(keys, bs2). Inr (hash_from_bytes key # keys, bs2)))"

definition next_entry :: "crc_fn \<Rightarrow> wal_reader \<Rightarrow> wal_entry option res \<times> wal_reader" where
  "next_entry crc r =
     (case rd_rest r of
        [] \<Rightarrow> (Inr None, r)
      | version # bs \<Rightarrow>
          let result =
            (if version \<noteq> WAL_VERSION_BINARY \<and> version \<noteq> WAL_VERSION_CRC then Inl Internal
             else bind_res (read_exact 8 bs) (\<lambda>(idx_bytes, bs1).
                  bind_res (read_exact 1 bs1) (\<lambda>(count_byte, bs2).
                  let key_count = unat (hd count_byte)
                  in bind_res (read_keys key_count bs2) (\<lambda>(keys, bs3).
                     let entry_size = 1 + 8 + 1 + key_count * 32
                     in if version = WAL_VERSION_CRC
                        then bind_res (read_exact 4 bs3) (\<lambda>(crc_bytes, bs4).
                               if crc ([version] @ idx_bytes @ count_byte @ concat (map hash_bytes keys))
                                    \<noteq> le_nat crc_bytes
                               then Inl Internal
                               else Inr ((be_nat idx_bytes, keys), bs4, entry_size + 4))
                        else Inr ((be_nat idx_bytes, keys), bs3, entry_size)))))
          in case result of
               Inl e \<Rightarrow> (Inl e, r)
             | Inr (entry, rest, entry_size) \<Rightarrow>
                 (Inr (Some entry), \<lparr>rd_rest = rest, rd_valid_pos = rd_valid_pos r + entry_size\<rparr>))"


subsection \<open>Progress of the reader\<close>

lemma read_exact_Inr [simp]:
  "read_exact n bs = Inr p \<longleftrightarrow> n \<le> length bs \<and> p = (take n bs, drop n bs)"
  by (auto simp: read_exact_def)

lemma read_keys_rest: "read_keys n bs = Inr (keys, rest) \<Longrightarrow> length rest + 32 * n = length bs"
proof (induction n arbitrary: bs keys)
  case (Suc n)
  then show ?case by (force simp: bind_res_Inr_iff)
qed simp

lemma next_entry_progress:
  assumes "next_entry crc r = (Inr (Some e), r')"
  shows "length (rd_rest r') < length (rd_rest r)"
    and "rd_valid_pos r' + length (rd_rest r') = rd_valid_pos r + length (rd_rest r)"
proof -
  obtain version bs where rest: "rd_rest r = version # bs"
    using assms by (cases "rd_rest r") (auto simp: next_entry_def)
  with assms have "length (rd_rest r') < length (rd_rest r)
    \<and> rd_valid_pos r' + length (rd_rest r') = rd_valid_pos r + length (rd_rest r)"
    by (auto simp: next_entry_def Let_def bind_res_Inr_iff dest!: read_keys_rest
        split: sum.splits if_splits)
  then show "length (rd_rest r') < length (rd_rest r)"
    and "rd_valid_pos r' + length (rd_rest r') = rd_valid_pos r + length (rd_rest r)" by auto
qed



subsection \<open>Validation at startup\<close>

function scan_wal :: "crc_fn \<Rightarrow> nat \<Rightarrow> wal_reader \<Rightarrow> nat \<Rightarrow> nat option \<Rightarrow> nat \<times> nat option" where
  "scan_wal crc expected_tree_size r last_valid_pos max_valid_idx =
     (case next_entry crc r of
        (Inr (Some (idx, _)), r') \<Rightarrow>
          if idx < expected_tree_size
          then scan_wal crc expected_tree_size r' (rd_valid_pos r')
                 (Some (case max_valid_idx of Some prev \<Rightarrow> max prev idx | None \<Rightarrow> idx))
          else (last_valid_pos, max_valid_idx)
      | (Inr None, _) \<Rightarrow> (last_valid_pos, max_valid_idx)
      | (Inl e, _) \<Rightarrow> (last_valid_pos, max_valid_idx))"
  by pat_completeness auto
termination
  by (relation "measure (\<lambda>(crc, n, r, p, m). length (rd_rest r))")
    (auto dest: next_entry_progress(1) sym)

declare scan_wal.simps [simp del]

definition validate_and_truncate_wal ::
  "crc_fn \<Rightarrow> wal_io \<Rightarrow> nat \<Rightarrow> wal_file option \<Rightarrow> nat res \<times> wal_file option" where
  "validate_and_truncate_wal crc io expected_tree_size file =
     (case file of
        None \<Rightarrow> (Inr 0, None)
      | Some f \<Rightarrow>
          let (last_valid_pos, max_valid_idx) = scan_wal crc expected_tree_size (reader_open (wf_bytes f)) 0 None;
              size = (case max_valid_idx of Some idx \<Rightarrow> idx + 1 | None \<Rightarrow> 0)
          in if last_valid_pos < length (wf_bytes f)
             then if \<not> open_ok io then (Inl Internal, Some f)
                  else (case bind_st (set_len io last_valid_pos) (\<lambda>_. sync_file io) f of
                          (Inl e, f') \<Rightarrow> (Inl e, Some f')
                        | (Inr _, f') \<Rightarrow> (Inr size, Some f'))
             else (Inr size, Some f))"


subsection \<open>Frames\<close>

text \<open>
  A byte string is a frame of an entry when the reader, finding it in front of any other bytes,
  returns the entry and stops right behind it.
\<close>

definition frames :: "crc_fn \<Rightarrow> byte list \<Rightarrow> wal_entry \<Rightarrow> bool" where
  "frames crc c e \<longleftrightarrow>
     c \<noteq> [] \<and> (\<forall>y pos. next_entry crc \<lparr>rd_rest = c @ y, rd_valid_pos = pos\<rparr>
       = (Inr (Some e), \<lparr>rd_rest = y, rd_valid_pos = pos + length c\<rparr>))"

lemma framesD:
  "frames crc c e \<Longrightarrow> next_entry crc \<lparr>rd_rest = c @ y, rd_valid_pos = pos\<rparr>
     = (Inr (Some e), \<lparr>rd_rest = y, rd_valid_pos = pos + length c\<rparr>)"
  by (simp add: frames_def)

lemma read_keys_frame:
  "read_keys n bs = Inr (keys, rest) \<Longrightarrow>
     \<exists>c. bs = c @ rest \<and> length c = 32 * n \<and> (\<forall>y. read_keys n (c @ y) = Inr (keys, y))"
proof (induction n arbitrary: bs keys)
  case (Suc n)
  then obtain ks where len: "32 \<le> length bs" and ks: "read_keys n (drop 32 bs) = Inr (ks, rest)"
    and keys: "keys = hash_from_bytes (take 32 bs) # ks"
    by (auto simp: bind_res_Inr_iff)
  obtain c where c: "drop 32 bs = c @ rest" "length c = 32 * n" "\<And>y. read_keys n (c @ y) = Inr (ks, y)"
    using Suc.IH [OF ks] by blast
  have "bs = (take 32 bs @ c) @ rest" using c(1) append_take_drop_id [of 32 bs] by simp
  moreover have "read_keys (Suc n) ((take 32 bs @ c) @ y) = Inr (keys, y)" for y
    using len c(3) [of y] keys by (simp add: read_exact_def)
  ultimately show ?case using c(2) len by (intro exI [of _ "take 32 bs @ c"]) simp
qed simp

text \<open>The keys that were read are the bytes that were read.\<close>

lemma read_keys_encoded: "read_keys (length keys) (concat (map hash_bytes keys) @ y) = Inr (keys, y)"
  by (induction keys) (simp_all add: read_exact_def)

lemma frames_v2:
  assumes "length ib = 8" and "length ck = 32 * unat cb"
    and "\<And>y. read_keys (unat cb) (ck @ y) = Inr (keys, y)"
  shows "frames crc (WAL_VERSION_BINARY # ib @ cb # ck) (be_nat ib, keys)"
  using assms by (simp add: frames_def next_entry_def read_exact_def WAL_VERSION_BINARY_def WAL_VERSION_CRC_def)

lemma frames_v3:
  assumes "length ib = 8" and "length ck = 32 * unat cb" and "length cr = 4"
    and "\<And>y. read_keys (unat cb) (ck @ y) = Inr (keys, y)"
    and "le_nat cr = crc ([WAL_VERSION_CRC] @ ib @ [cb] @ concat (map hash_bytes keys))"
  shows "frames crc (WAL_VERSION_CRC # ib @ cb # ck @ cr) (be_nat ib, keys)"
  using assms by (simp add: frames_def next_entry_def read_exact_def WAL_VERSION_BINARY_def WAL_VERSION_CRC_def)

lemma encode_entry_frames:
  assumes "idx < 2 ^ 64" and "length keys \<le> 255" and "crc_laws crc"
  shows "frames crc (encode_entry crc [] idx keys) (idx, keys)"
proof -
  have n: "unat (word_of_nat (length keys) :: byte) = length keys"
    using assms(2) by (simp add: unat_of_nat)
  have "length (concat (map hash_bytes keys)) = 32 * length keys" by (induction keys) simp_all
  moreover have "be_nat (be_bytes 8 idx) = idx" using assms(1) by (intro be_nat_be_bytes_small) simp
  moreover have "le_nat (le_bytes 4 (crc bs)) = crc bs" for bs
    using assms(3) by (intro le_nat_le_bytes_small) (simp add: crc_laws_def)
  ultimately show ?thesis
    using frames_v3 [of "be_bytes 8 idx" "concat (map hash_bytes keys)" "word_of_nat (length keys)"
      "le_bytes 4 (crc (entry_body WAL_VERSION_CRC idx keys))" keys crc] read_keys_encoded [of keys] n
    by (simp add: encode_entry_def entry_body_def)
qed

lemma next_entry_frame:
  assumes "next_entry crc r = (Inr (Some e), r')"
  obtains c where "rd_rest r = c @ rd_rest r'" and "frames crc c e"
    and "rd_valid_pos r' = rd_valid_pos r + length c"
proof -
  obtain version bs where rest: "rd_rest r = version # bs"
    using assms by (cases "rd_rest r") (auto simp: next_entry_def)
  with assms have v: "version = WAL_VERSION_BINARY \<or> version = WAL_VERSION_CRC"
    and len: "8 \<le> length bs" "1 \<le> length (drop 8 bs)"
    by (auto simp: next_entry_def Let_def bind_res_Inr_iff split: sum.splits if_splits)
  then obtain ib cb bs2 where ib: "length ib = 8" and bs: "bs = ib @ cb # bs2"
    by (metis Suc_le_length_iff append_take_drop_id length_take min_absorb2 One_nat_def)
  from assms rest bs ib obtain keys bs3 where keys: "read_keys (unat cb) bs2 = Inr (keys, bs3)"
    and e: "e = (be_nat ib, keys)"
    and r': "if version = WAL_VERSION_CRC
      then 4 \<le> length bs3 \<and> rd_rest r' = drop 4 bs3
        \<and> crc ([version] @ ib @ [cb] @ concat (map hash_bytes keys)) = le_nat (take 4 bs3)
      else rd_rest r' = bs3"
    by (auto simp: next_entry_def Let_def read_exact_def bind_res_Inr_iff split: sum.splits if_splits)
  obtain ck where ck: "bs2 = ck @ bs3" "length ck = 32 * unat cb" "\<And>y. read_keys (unat cb) (ck @ y) = Inr (keys, y)"
    using read_keys_frame [OF keys] by blast
  have "\<exists>c. rd_rest r = c @ rd_rest r' \<and> frames crc c e"
  proof (cases "version = WAL_VERSION_CRC")
    case True
    with r' have "rd_rest r = (WAL_VERSION_CRC # ib @ cb # ck @ take 4 bs3) @ rd_rest r'"
      by (simp add: rest bs ck(1))
    moreover have "frames crc (WAL_VERSION_CRC # ib @ cb # ck @ take 4 bs3) e"
      unfolding e using r' True ib ck(2,3) by (intro frames_v3) auto
    ultimately show ?thesis by blast
  next
    case False
    with r' v have "rd_rest r = (WAL_VERSION_BINARY # ib @ cb # ck) @ rd_rest r'"
      by (simp add: rest bs ck(1))
    moreover have "frames crc (WAL_VERSION_BINARY # ib @ cb # ck) e"
      unfolding e using ib ck(2,3) by (intro frames_v2)
    ultimately show ?thesis by blast
  qed
  with that next_entry_progress(2) [OF assms] show ?thesis by auto
qed

text \<open>A proper prefix of a frame is not a frame followed by anything: a torn record is not read.\<close>

lemma torn_not_read:
  assumes "frames crc c e" and "n < length c"
  shows "\<not> (\<exists>e' r'. next_entry crc \<lparr>rd_rest = take n c, rd_valid_pos = pos\<rparr> = (Inr (Some e'), r'))"
proof
  assume "\<exists>e' r'. next_entry crc \<lparr>rd_rest = take n c, rd_valid_pos = pos\<rparr> = (Inr (Some e'), r')"
  then obtain e' r' where "next_entry crc \<lparr>rd_rest = take n c, rd_valid_pos = pos\<rparr> = (Inr (Some e'), r')" by blast
  then obtain d where d: "take n c = d @ rd_rest r'" "frames crc d e'"
    by (rule next_entry_frame) simp
  let ?z = "rd_rest r' @ drop n c"
  have "c = d @ ?z" using d(1) append_take_drop_id [of n c] by (metis append.assoc)
  then have "next_entry crc \<lparr>rd_rest = c @ [], rd_valid_pos = pos\<rparr>
      = (Inr (Some e'), \<lparr>rd_rest = ?z, rd_valid_pos = pos + length d\<rparr>)"
    using framesD [OF d(2), of ?z pos] by simp
  with framesD [OF assms(1), of "[]" pos] have "?z = []" by simp
  with assms(2) show False by simp
qed



subsection \<open>What the scan keeps\<close>

definition stops :: "crc_fn \<Rightarrow> nat \<Rightarrow> byte list \<Rightarrow> bool" where
  "stops crc N tail \<longleftrightarrow>
     (\<forall>pos idx keys r'. next_entry crc \<lparr>rd_rest = tail, rd_valid_pos = pos\<rparr> = (Inr (Some (idx, keys)), r')
        \<longrightarrow> \<not> idx < N)"

definition max_index :: "wal_entry list \<Rightarrow> nat option \<Rightarrow> nat option" where
  "max_index es m = fold (\<lambda>(i, _) m. Some (case m of Some prev \<Rightarrow> max prev i | None \<Rightarrow> i)) es m"

lemma stops_Nil: "stops crc N []"
  by (simp add: stops_def next_entry_def)

lemma stops_torn: "frames crc c e \<Longrightarrow> n < length c \<Longrightarrow> stops crc N (take n c)"
  using torn_not_read unfolding stops_def by blast

lemma stops_ahead:
  assumes "frames crc c (i, ks)" and "N \<le> i"
  shows "stops crc N (c @ y)"
  using framesD [OF assms(1)] assms(2) by (auto simp: stops_def)

lemma scan_wal_eq:
  assumes "list_all2 (frames crc) cs es" and "\<forall>e \<in> set es. fst e < N" and "stops crc N tail"
  shows "scan_wal crc N \<lparr>rd_rest = concat cs @ tail, rd_valid_pos = pos\<rparr> pos m
    = (pos + length (concat cs), max_index es m)"
  using assms(1,2)
proof (induction cs es arbitrary: pos m rule: list_all2_induct)
  case Nil
  then show ?case using assms(3)
    by (subst scan_wal.simps) (auto simp: stops_def max_index_def split: prod.split sum.split option.split)
next
  case (Cons c cs e es)
  obtain i ks where e: "e = (i, ks)" by (cases e)
  have "i < N" using Cons.prems e by simp
  with Cons.IH [of "pos + length c" "Some (case m of Some prev \<Rightarrow> max prev i | None \<Rightarrow> i)"] Cons.prems
  show ?case using framesD [OF Cons.hyps(1), of "concat cs @ tail" pos]
    by (subst scan_wal.simps) (simp add: e max_index_def)
qed

text \<open>Every content is a sequence of frames below the expected size followed by what the scan drops.\<close>

lemma wal_decompose:
  "\<exists>cs es tail. bs = concat cs @ tail \<and> list_all2 (frames crc) cs es
     \<and> (\<forall>e \<in> set es. fst e < N) \<and> stops crc N tail"
proof (induction "length bs" arbitrary: bs rule: less_induct)
  case less
  show ?case
  proof (cases "stops crc N bs")
    case True
    then show ?thesis by (intro exI [of _ "[]"] exI [of _ bs]) simp
  next
    case False
    then obtain pos i ks r' where nxt: "next_entry crc \<lparr>rd_rest = bs, rd_valid_pos = pos\<rparr> = (Inr (Some (i, ks)), r')"
      and "i < N" by (auto simp: stops_def)
    from next_entry_frame [OF nxt] obtain c where c: "bs = c @ rd_rest r'" "frames crc c (i, ks)"
      by (metis wal_reader.select_convs(1))
    have "length (rd_rest r') < length bs" using next_entry_progress(1) [OF nxt] by simp
    then obtain cs es tail where "rd_rest r' = concat cs @ tail" "list_all2 (frames crc) cs es"
      "\<forall>e \<in> set es. fst e < N" "stops crc N tail"
      using less by blast
    with c \<open>i < N\<close> show ?thesis
      by (intro exI [of _ "c # cs"] exI [of _ "(i, ks) # es"] exI [of _ tail]) simp
  qed
qed

lemma validate_eq:
  assumes f: "wf_bytes f = concat cs @ tail" and fr: "list_all2 (frames crc) cs es"
    and es: "\<forall>e \<in> set es. fst e < N" and st: "stops crc N tail"
  shows "validate_and_truncate_wal crc io N (Some f) =
    (let size = (case max_index es None of Some i \<Rightarrow> i + 1 | None \<Rightarrow> 0)
     in if tail = [] then (Inr size, Some f)
        else if \<not> open_ok io \<or> \<not> set_len_ok io then (Inl Internal, Some f)
        else if \<not> sync_ok io then (Inl Internal, Some (f\<lparr>wf_bytes := concat cs\<rparr>))
        else (Inr size, Some (f\<lparr>wf_bytes := concat cs, wf_durable := concat cs\<rparr>)))"
  using scan_wal_eq [OF fr es st, of 0 None] f
  by (simp add: validate_and_truncate_wal_def reader_open_def bind_st_def set_len_def sync_file_def Let_def)

lemma max_index_upper:
  "max_index es m = Some n \<Longrightarrow> (\<forall>e \<in> set es. fst e \<le> n) \<and> (\<forall>k. m = Some k \<longrightarrow> k \<le> n)"
  unfolding max_index_def
proof (induction es arbitrary: m)
  case (Cons e es)
  obtain i ks where e: "e = (i, ks)" by (cases e)
  with Cons.IH [of "Some (case m of Some prev \<Rightarrow> max prev i | None \<Rightarrow> i)"] Cons.prems
  show ?case by (cases m) auto
qed simp

lemma max_index_sorted:
  "sorted_wrt (<) (map fst es) \<Longrightarrow> max_index es None = (if es = [] then None else Some (fst (last es)))"
proof (induction es rule: rev_induct)
  case (snoc e es)
  obtain i ks where e: "e = (i, ks)" by (cases e)
  show ?case
  proof (cases "es = []")
    case False
    then have "fst (last es) < i" using snoc.prems e by (simp add: sorted_wrt_append)
    then show ?thesis using snoc False by (simp add: max_index_def e sorted_wrt_append)
  qed (simp add: max_index_def e)
qed (simp add: max_index_def)

subsection \<open>Reading back what was written\<close>

text \<open>All entries up to the end of the file, or the error at which reading stops.\<close>

function read_all :: "crc_fn \<Rightarrow> wal_reader \<Rightarrow> wal_entry list res" where
  "read_all crc r =
     (case next_entry crc r of
        (Inr (Some e), r') \<Rightarrow> bind_res (read_all crc r') (\<lambda>es. Inr (e # es))
      | (Inr None, _) \<Rightarrow> Inr []
      | (Inl e, _) \<Rightarrow> Inl e)"
  by pat_completeness auto
termination
  by (relation "measure (\<lambda>(crc, r). length (rd_rest r))") (auto dest: next_entry_progress(1) sym)

declare read_all.simps [simp del]

lemma read_all_frames:
  "list_all2 (frames crc) cs es \<Longrightarrow>
     read_all crc \<lparr>rd_rest = concat cs, rd_valid_pos = pos\<rparr> = Inr es"
proof (induction cs es arbitrary: pos rule: list_all2_induct)
  case Nil
  then show ?case by (subst read_all.simps) (simp add: next_entry_def)
next
  case (Cons c cs e es)
  then show ?case
    by (subst read_all.simps) (simp add: framesD [OF Cons.hyps(1)])
qed

definition entry_fits :: "wal_entry \<Rightarrow> bool" where
  "entry_fits e \<longleftrightarrow> fst e < 2 ^ 64 \<and> length (snd e) \<le> 255"

definition enc :: "crc_fn \<Rightarrow> wal_entry \<Rightarrow> byte list" where
  "enc crc e = encode_entry crc [] (fst e) (snd e)"

lemma encode_batch_concat: "encode_batch crc buf es = buf @ concat (map (enc crc) es)"
proof (induction crc buf es rule: encode_batch.induct)
  case (2 crc buf idx keys es)
  then show ?case by (simp add: enc_def encode_entry_def Let_def)
qed simp

lemma enc_frames: "entry_fits e \<Longrightarrow> crc_laws crc \<Longrightarrow> frames crc (enc crc e) e"
  using encode_entry_frames [of "fst e" "snd e" crc] by (simp add: enc_def entry_fits_def)

lemma map_enc_frames:
  "\<forall>e \<in> set es. entry_fits e \<Longrightarrow> crc_laws crc \<Longrightarrow> list_all2 (frames crc) (map (enc crc) es) es"
  by (induction es) (auto intro: enc_frames)

lemma filter_below_sorted:
  "sorted_wrt (<) (map fst es) \<Longrightarrow>
     \<exists>rest. es = filter (\<lambda>e. fst e < N) es @ rest \<and> (\<forall>e \<in> set rest. N \<le> fst e)" for N :: nat
proof (induction es)
  case (Cons e es)
  show ?case
  proof (cases "fst e < N")
    case True
    with Cons show ?thesis by auto
  next
    case False
    with Cons.prems have "filter (\<lambda>e. fst e < N) (e # es) = []" by (auto simp: filter_empty_conv)
    moreover have "\<forall>x \<in> set (e # es). N \<le> fst x" using False Cons.prems by auto
    ultimately show ?thesis by auto
  qed
qed simp

text \<open>The log of a writer that was interrupted: whole records, then a torn one.\<close>

lemma clean_log_stops:
  assumes "\<forall>e \<in> set es. entry_fits e" and crc: "crc_laws crc"
    and "\<forall>e \<in> set es. N \<le> fst e" and "entry_fits t" and "n < length (enc crc t)"
  shows "stops crc N (concat (map (enc crc) es) @ take n (enc crc t))"
proof (cases es)
  case Nil
  then show ?thesis using stops_torn [OF enc_frames [OF assms(4) crc] assms(5)] by simp
next
  case (Cons e es')
  then show ?thesis
    using stops_ahead [of crc "enc crc e" "fst e" "snd e" N] enc_frames [of e crc] assms(1,3) crc by simp
qed

lemma validate_clean:
  fixes N :: nat
  assumes fits: "\<forall>e \<in> set es. entry_fits e" "entry_fits t" and crc: "crc_laws crc"
    and sorted: "sorted_wrt (<) (map fst es)" and torn: "n < length (enc crc t)"
    and f: "wf_bytes f = concat (map (enc crc) es) @ take n (enc crc t)"
    and io: "open_ok io" "set_len_ok io" "sync_ok io"
  defines "kept \<equiv> filter (\<lambda>e. fst e < N) es"
  shows "\<exists>f'. validate_and_truncate_wal crc io N (Some f)
      = (Inr (case max_index kept None of Some i \<Rightarrow> i + 1 | None \<Rightarrow> 0), Some f')
    \<and> wf_bytes f' = concat (map (enc crc) kept)"
proof -
  obtain rest where es: "es = kept @ rest" and rest: "\<forall>e \<in> set rest. N \<le> fst e"
    using filter_below_sorted [OF sorted, of N] unfolding kept_def by blast
  let ?tail = "concat (map (enc crc) rest) @ take n (enc crc t)"
  have split: "wf_bytes f = concat (map (enc crc) kept) @ ?tail"
    by (subst f, subst es) simp
  have "list_all2 (frames crc) (map (enc crc) kept) kept"
    using fits(1) crc by (intro map_enc_frames) (auto simp: kept_def)
  moreover have "\<forall>e \<in> set kept. fst e < N" by (simp add: kept_def)
  moreover have "\<forall>e \<in> set rest. entry_fits e" using fits(1) es by (metis UnCI set_append)
  then have "stops crc N ?tail" using clean_log_stops [OF _ crc rest fits(2) torn] by blast
  ultimately have "validate_and_truncate_wal crc io N (Some f) =
      (let size = (case max_index kept None of Some i \<Rightarrow> i + 1 | None \<Rightarrow> 0)
       in if ?tail = [] then (Inr size, Some f)
          else (Inr size, Some (f\<lparr>wf_bytes := concat (map (enc crc) kept), wf_durable := concat (map (enc crc) kept)\<rparr>)))"
    using validate_eq [OF split] io by (simp add: Let_def)
  then show ?thesis using split by (auto simp: Let_def split: if_splits)
qed

text \<open>C38. Recovery of the write-ahead log: after any sequence of records with increasing indices and
  a torn last record, validation against a tree size keeps exactly the records below that size,
  reports one more than the largest kept index, and the reader then reads back exactly those
  records to a clean end of file.\<close>

theorem wal_recovers_valid_prefix:
  assumes "\<forall>e \<in> set es. entry_fits e" and "entry_fits t" and "crc_laws crc"
    and "sorted_wrt (<) (map fst es)" and "n < length (encode_batch crc [] [t])"
    and "wf_bytes f = encode_batch crc [] es @ take n (encode_batch crc [] [t])"
    and "open_ok io" and "set_len_ok io" and "sync_ok io"
  shows "\<exists>f'. validate_and_truncate_wal crc io N (Some f)
      = (Inr (if filter (\<lambda>e. fst e < N) es = [] then 0 else fst (last (filter (\<lambda>e. fst e < N) es)) + 1), Some f')
    \<and> wf_bytes f' = encode_batch crc [] (filter (\<lambda>e. fst e < N) es)
    \<and> read_all crc (reader_open (wf_bytes f')) = Inr (filter (\<lambda>e. fst e < N) es)"
proof -
  let ?kept = "filter (\<lambda>e. fst e < N) es"
  have "n < length (enc crc t)" and "wf_bytes f = concat (map (enc crc) es) @ take n (enc crc t)"
    using assms(5,6) by (simp_all add: encode_batch_concat del: encode_batch.simps)
  then obtain f' where f': "validate_and_truncate_wal crc io N (Some f)
      = (Inr (case max_index ?kept None of Some i \<Rightarrow> i + 1 | None \<Rightarrow> 0), Some f')"
    "wf_bytes f' = concat (map (enc crc) ?kept)"
    using validate_clean [OF assms(1,2,3,4) _ _ assms(7-9)] by blast
  have "max_index ?kept None = (if ?kept = [] then None else Some (fst (last ?kept)))"
    using assms(4) by (simp add: max_index_sorted sorted_wrt_filter sorted_wrt_map)
  moreover have "read_all crc (reader_open (wf_bytes f')) = Inr ?kept"
    unfolding f'(2) reader_open_def using assms(1,3) by (intro read_all_frames map_enc_frames) auto
  ultimately show ?thesis using f' by (simp add: encode_batch_concat)
qed


definition io_fine :: wal_io where
  "io_fine = \<lparr>write_torn = None, sync_ok = True, set_len_ok = True, open_ok = True\<rparr>"

theorem wal_recovers_valid_prefix_witness:
  "\<exists>f'. validate_and_truncate_wal (\<lambda>_. 7) io_fine 2
      (Some \<lparr>wf_bytes = encode_batch (\<lambda>_. 7) [] [(0, [5]), (1, []), (2, [9])]
              @ take 5 (encode_batch (\<lambda>_. 7) [] [(3, [1])]), wf_durable = []\<rparr>) = (Inr (Suc 1), Some f')
    \<and> read_all (\<lambda>_. 7) (reader_open (wf_bytes f')) = Inr [(0, [5]), (1, [])]"
proof -
  let ?crc = "\<lambda>_ :: byte list. 7 :: nat"
  have "5 < length (encode_batch ?crc [] [(3, [1])])"
    by (simp add: encode_entry_def entry_body_def Let_def)
  from wal_recovers_valid_prefix [where es = "[(0, [5]), (1, []), (2, [9])]" and N = 2 and io = io_fine
      and f = "\<lparr>wf_bytes = encode_batch ?crc [] [(0, [5]), (1, []), (2, [9])]
              @ take 5 (encode_batch ?crc [] [(3, [1])]), wf_durable = []\<rparr>", OF _ _ _ _ this]
  show ?thesis by (simp add: entry_fits_def crc_laws_def io_fine_def) blast
qed

end
