(* ===== verification/Vindex_Snapshot.thy ===== *)
theory Vindex_Snapshot
  imports Vindex_Wal "HOL-Library.Multiset"
begin

text \<open>
  Snapshots of the verifiable index, \<^verbatim>\<open>src/vindex/snapshot.rs\<close>: the bytes of a snapshot, how they
  are put in place, and the parser, which accepts only a checksummed snapshot whose keys are
  distinct and whose indices increase and are below the tree size. The hash map of the index is an
  association list with distinct keys; the order in which the code iterates over it is the
  parameter \<open>iter\<close>, any rearrangement of the list. Writing goes through a temporary file and a
  rename: \<open>snap_io\<close> says whether the call fails before the rename, or after it while the
  directory is synced.
\<close>

type_synonym index_map = "(sha256_hash \<times> nat list) list"

datatype snap_io = Snap_Ok | Snap_Fails_Before | Snap_Fails_After

record snap_file =
  sf_bytes :: "byte list option"
  sf_durable :: "byte list option"

definition iter_laws :: "(index_map \<Rightarrow> index_map) \<Rightarrow> bool" where
  "iter_laws iter \<longleftrightarrow> (\<forall>xs. mset (iter xs) = mset xs)"

definition SNAPSHOT_MAGIC :: "byte list" where
  "SNAPSHOT_MAGIC = [0x56, 0x53, 0x4E, 0x50]"

definition SNAPSHOT_VERSION :: byte where
  "SNAPSHOT_VERSION = 1"

definition snapshot_path :: "string \<Rightarrow> string" where
  "snapshot_path wal_path = wal_path @ ''.snapshot''"


subsection \<open>Writing\<close>

text \<open>The casts \<open>as u64\<close> and \<open>as u32\<close> of the lengths wrap; \<open>be_bytes\<close> does too.\<close>

definition key_record :: "sha256_hash \<times> nat list \<Rightarrow> byte list" where
  "key_record = (\<lambda>(key, indices).
     hash_bytes key @ be_bytes 4 (length indices) @ concat (map (be_bytes 8) indices))"

definition snapshot_body :: "nat \<Rightarrow> index_map \<Rightarrow> byte list" where
  "snapshot_body tree_size entries =
     SNAPSHOT_MAGIC @ [SNAPSHOT_VERSION] @ be_bytes 8 tree_size @ be_bytes 8 (length entries)
       @ concat (map key_record entries)"

definition snapshot_bytes :: "crc_fn \<Rightarrow> nat \<Rightarrow> index_map \<Rightarrow> byte list" where
  "snapshot_bytes crc tree_size entries =
     (let buf = snapshot_body tree_size entries in buf @ le_bytes 4 (crc buf))"

definition write_snapshot ::
  "crc_fn \<Rightarrow> (index_map \<Rightarrow> index_map) \<Rightarrow> snap_io \<Rightarrow> nat \<Rightarrow> index_map \<Rightarrow> (snap_file, error, unit) st" where
  "write_snapshot crc iter io tree_size index f =
     (let new = snapshot_bytes crc tree_size (iter index)
      in case io of
           Snap_Ok \<Rightarrow> (Inr (), \<lparr>sf_bytes = Some new, sf_durable = Some new\<rparr>)
         | Snap_Fails_Before \<Rightarrow> (Inl Internal, f)
         | Snap_Fails_After \<Rightarrow> (Inl Io, f\<lparr>sf_bytes := Some new\<rparr>))"


subsection \<open>Parsing\<close>

definition byte_range :: "nat \<Rightarrow> nat \<Rightarrow> byte list \<Rightarrow> byte list" where
  "byte_range start stop bs = take (stop - start) (drop start bs)"

text \<open>The loop over the indices of a key, with the index before.\<close>

fun parse_indices :: "byte list \<Rightarrow> nat \<Rightarrow> nat \<Rightarrow> nat list \<Rightarrow> nat list \<Rightarrow> nat list res" where
  "parse_indices body tree_size pos [] indices = Inr indices"
| "parse_indices body tree_size pos (i # is) indices =
     (let v = be_nat (byte_range (pos + i * 8) (pos + i * 8 + 8) body)
      in if tree_size \<le> v \<or> (indices \<noteq> [] \<and> v \<le> last indices) then Inl Internal
         else parse_indices body tree_size pos is (indices @ [v]))"

text \<open>The loop over the keys: the position and the map so far. An index that reaches past the end
  of the data cannot be read, so \<open>idx_count * 8\<close> is compared with what is left.\<close>

fun parse_keys :: "byte list \<Rightarrow> nat \<Rightarrow> nat \<Rightarrow> nat \<Rightarrow> index_map \<Rightarrow> (nat \<times> index_map) res" where
  "parse_keys body tree_size 0 pos index = Inr (pos, index)"
| "parse_keys body tree_size (Suc n) pos index =
     (if length body < pos + 36 then Inl Internal
      else let key = hash_from_bytes (byte_range pos (pos + 32) body);
               idx_count = be_nat (byte_range (pos + 32) (pos + 36) body);
               pos1 = pos + 36
           in if length body < pos1 + idx_count * 8 then Inl Internal
              else bind_res (parse_indices body tree_size pos1 [0..<idx_count] []) (\<lambda>indices.
                     if key \<in> fst ` set index then Inl Internal
                     else parse_keys body tree_size n (pos1 + idx_count * 8) (index @ [(key, indices)])))"

definition parse_snapshot :: "crc_fn \<Rightarrow> byte list \<Rightarrow> (nat \<times> index_map) res" where
  "parse_snapshot crc data =
     (if length data < 25 then Inl Internal
      else let body = take (length data - 4) data; crc_bytes = drop (length data - 4) data
           in if crc body \<noteq> le_nat crc_bytes then Inl Internal
              else if byte_range 0 4 body \<noteq> SNAPSHOT_MAGIC then Inl Internal
              else if body ! 4 \<noteq> SNAPSHOT_VERSION then Inl Internal
              else let tree_size = be_nat (byte_range 5 13 body);
                       key_count = be_nat (byte_range 13 21 body)
                   in if (length body - 21) div 36 < key_count then Inl Internal
                      else bind_res (parse_keys body tree_size key_count 21 []) (\<lambda>(pos, index).
                             if pos \<noteq> length body then Inl Internal else Inr (tree_size, index)))"

text \<open>An invalid snapshot is treated as absent.\<close>

definition read_snapshot :: "crc_fn \<Rightarrow> snap_file \<Rightarrow> (nat \<times> index_map) option" where
  "read_snapshot crc f =
     (case sf_bytes f of
        None \<Rightarrow> None
      | Some data \<Rightarrow> (case parse_snapshot crc data of Inl _ \<Rightarrow> None | Inr r \<Rightarrow> Some r))"


subsection \<open>Reading back a snapshot\<close>

definition index_ok :: "nat \<Rightarrow> index_map \<Rightarrow> bool" where
  "index_ok tree_size index \<longleftrightarrow>
     distinct (map fst index)
     \<and> list_all (\<lambda>(k, is). sorted_wrt (<) is \<and> list_all (\<lambda>i. i < tree_size) is \<and> length is < 2 ^ 32) index"

lemma byte_range_append:
  "length as = a \<Longrightarrow> length bs = n \<Longrightarrow> byte_range a (a + n) (as @ bs @ cs) = bs"
  by (simp add: byte_range_def)

lemma parse_indices_eq:
  assumes "sorted_wrt (<) (done @ is)" and "\<forall>i \<in> set is. i < tree_size" and "tree_size < 2 ^ 64"
    and "length pre = pos + length done * 8"
  shows "parse_indices (pre @ concat (map (be_bytes 8) is) @ post) tree_size pos
      [length done..<length done + length is] done = Inr (done @ is)"
  using assms
proof (induction "is" arbitrary: "done" pre)
  case (Cons i "is")
  let ?body = "pre @ concat (map (be_bytes 8) (i # is)) @ post"
  have "byte_range (pos + length done * 8) (pos + length done * 8 + 8) ?body = be_bytes 8 i"
    using byte_range_append [OF Cons.prems(4), of "be_bytes 8 i" 8 "concat (map (be_bytes 8) is) @ post"] by simp
  moreover have "be_nat (be_bytes 8 i) = i"
    using Cons.prems(2,3) by (intro be_nat_be_bytes_small) simp
  moreover have "parse_indices ((pre @ be_bytes 8 i) @ concat (map (be_bytes 8) is) @ post) tree_size pos
      [length (done @ [i])..<length (done @ [i]) + length is] (done @ [i]) = Inr ((done @ [i]) @ is)"
    using Cons.prems by (intro Cons.IH) auto
  moreover have "done \<noteq> [] \<Longrightarrow> last done < i" using Cons.prems(1) by (simp add: sorted_wrt_append)
  moreover have "[length done..<length done + length (i # is)]
      = length done # [length (done @ [i])..<length (done @ [i]) + length is]"
    using upt_conv_Cons [of "length done" "length done + length (i # is)"] by simp
  ultimately show ?case using Cons.prems(2) by (auto simp: Let_def)
qed simp


lemma length_key_record: "length (key_record (k, is)) = 36 + 8 * length is"
proof -
  have "length (concat (map (be_bytes 8) is)) = 8 * length is" by (induction "is") simp_all
  then show ?thesis by (simp add: key_record_def)
qed

lemma parse_keys_eq:
  assumes "list_all (\<lambda>(k, is). sorted_wrt (<) is \<and> list_all (\<lambda>i. i < tree_size) is \<and> length is < 2 ^ 32) es"
    and "distinct (map fst (index @ es))" and "tree_size < 2 ^ 64"
  shows "parse_keys (pre @ concat (map key_record es)) tree_size (length es) (length pre) index
    = Inr (length (pre @ concat (map key_record es)), index @ es)"
  using assms
proof (induction es arbitrary: pre index)
  case (Cons e es)
  obtain k "is" where e: "e = (k, is)" by (cases e)
  let ?rest = "concat (map key_record es)"
  let ?body = "pre @ concat (map key_record (e # es))"
  have body: "?body = pre @ hash_bytes k @ be_bytes 4 (length is) @ concat (map (be_bytes 8) is) @ ?rest"
    by (simp add: e key_record_def)
  have key: "byte_range (length pre) (length pre + 32) ?body = hash_bytes k"
    unfolding body by (rule byte_range_append) simp_all
  have count: "byte_range (length pre + 32) (length pre + 36) ?body = be_bytes 4 (length is)"
    using byte_range_append [of "pre @ hash_bytes k" "length pre + 32" "be_bytes 4 (length is)" 4] body
    by (simp add: add.commute)
  have n: "be_nat (be_bytes 4 (length is)) = length is"
    using Cons.prems(1) e by (intro be_nat_be_bytes_small) simp
  have indices: "parse_indices ?body tree_size (length pre + 36) [0..<length is] [] = Inr is"
    using parse_indices_eq [of "[]" "is" tree_size "pre @ hash_bytes k @ be_bytes 4 (length is)"
        "length pre + 36" ?rest] Cons.prems(1,3) e body by (simp add: list_all_iff)
  have len: "length ?body = length pre + 36 + length is * 8 + length ?rest"
    using length_key_record [of k "is"] e by simp
  have "parse_keys ((pre @ key_record e) @ ?rest) tree_size (length es) (length (pre @ key_record e)) (index @ [e])
      = Inr (length ((pre @ key_record e) @ ?rest), (index @ [e]) @ es)"
    using Cons.prems by (intro Cons.IH) simp_all
  moreover have "length (pre @ key_record e) = length pre + 36 + length is * 8"
    using length_key_record [of k "is"] e by simp
  moreover have "k \<notin> fst ` set index" using Cons.prems(2) e by auto
  ultimately show ?case using key count n indices len e
    by (simp add: Let_def add.assoc)
qed simp

lemma parse_snapshot_bytes:
  assumes "crc_laws crc" and "index_ok tree_size es" and "tree_size < 2 ^ 64" and "length es < 2 ^ 64"
  shows "parse_snapshot crc (snapshot_bytes crc tree_size es) = Inr (tree_size, es)"
proof -
  let ?body = "snapshot_body tree_size es" and ?recs = "concat (map key_record es)"
  let ?pre = "SNAPSHOT_MAGIC @ [SNAPSHOT_VERSION] @ be_bytes 8 tree_size @ be_bytes 8 (length es)"
  have body: "?body = ?pre @ ?recs" by (simp add: snapshot_body_def)
  have pre: "length ?pre = 21" by (simp add: SNAPSHOT_MAGIC_def)
  have size: "byte_range 5 13 ?body = be_bytes 8 tree_size"
    using byte_range_append [of "SNAPSHOT_MAGIC @ [SNAPSHOT_VERSION]" 5 "be_bytes 8 tree_size" 8]
    by (simp add: snapshot_body_def SNAPSHOT_MAGIC_def)
  have count: "byte_range 13 21 ?body = be_bytes 8 (length es)"
    using byte_range_append [of "SNAPSHOT_MAGIC @ [SNAPSHOT_VERSION] @ be_bytes 8 tree_size" 13 "be_bytes 8 (length es)" 8]
    by (simp add: snapshot_body_def SNAPSHOT_MAGIC_def)
  have nums: "be_nat (be_bytes 8 tree_size) = tree_size" "be_nat (be_bytes 8 (length es)) = length es"
    using assms(3,4) by (auto intro: be_nat_be_bytes_small)
  have "36 * length es \<le> length ?recs"
  proof (induction es)
    case (Cons e es)
    then show ?case using length_key_record [of "fst e" "snd e"] by simp
  qed simp
  then have enough: "length es \<le> (length ?body - 21) div 36" unfolding body using pre by simp
  have keys: "parse_keys ?body tree_size (length es) 21 [] = Inr (length ?body, es)"
    using parse_keys_eq [of tree_size es "[]" ?pre] assms(2,3) pre body by (simp add: index_ok_def)
  have "le_nat (le_bytes 4 (crc ?body)) = crc ?body"
    using assms(1) by (intro le_nat_le_bytes_small) (simp add: crc_laws_def)
  moreover have "byte_range 0 4 ?body = SNAPSHOT_MAGIC" and "?body ! 4 = SNAPSHOT_VERSION"
    by (simp_all add: snapshot_body_def SNAPSHOT_MAGIC_def byte_range_def nth_append)
  moreover have "\<not> length (snapshot_bytes crc tree_size es) < 25" using pre body
    by (simp add: snapshot_bytes_def Let_def)
  ultimately show ?thesis
    using size count nums enough keys by (simp add: parse_snapshot_def snapshot_bytes_def Let_def)
qed


lemma index_ok_mset: "mset a = mset b \<Longrightarrow> index_ok n a \<longleftrightarrow> index_ok n b"
proof -
  assume eq: "mset a = mset b"
  then have "set a = set b" by (rule mset_eq_setD)
  moreover have "distinct (map fst a) \<longleftrightarrow> distinct (map fst b)"
    using mset_eq_imp_distinct_iff [of "map fst a" "map fst b"] eq by simp
  ultimately show ?thesis by (simp add: index_ok_def list_all_iff)
qed

lemma map_of_mset: "distinct (map fst a) \<Longrightarrow> mset a = mset b \<Longrightarrow> map_of a = map_of b"
  using map_of_inject_set [of a b] mset_eq_setD [of a b] mset_eq_imp_distinct_iff [of "map fst a" "map fst b"]
  by simp

text \<open>What the parser accepts is a well-formed index.\<close>

lemma parse_indices_ok:
  "parse_indices body ts pos is acc = Inr r \<Longrightarrow> sorted_wrt (<) acc \<Longrightarrow> (\<forall>i \<in> set acc. i < ts) \<Longrightarrow>
     sorted_wrt (<) r \<and> (\<forall>i \<in> set r. i < ts) \<and> length r = length acc + length is"
proof (induction body ts pos "is" acc rule: parse_indices.induct)
  case (2 body ts pos i "is" acc)
  let ?v = "be_nat (byte_range (pos + i * 8) (pos + i * 8 + 8) body)"
  from "2.prems"(1) have v: "?v < ts" "acc \<noteq> [] \<Longrightarrow> last acc < ?v"
    and rest: "parse_indices body ts pos is (acc @ [?v]) = Inr r"
    by (auto simp: Let_def split: if_splits)
  have "sorted_wrt (<) (acc @ [?v])"
  proof (cases acc rule: rev_cases)
    case (snoc as a)
    with "2.prems"(2) v(2) show ?thesis by (auto simp: sorted_wrt_append)
  qed simp
  moreover have "\<not> (ts \<le> ?v \<or> acc \<noteq> [] \<and> ?v \<le> last acc)" using v by auto
  ultimately have "sorted_wrt (<) r \<and> (\<forall>i \<in> set r. i < ts) \<and> length r = length (acc @ [?v]) + length is"
    using "2.IH" [OF refl _ rest] v(1) "2.prems"(3) by simp
  then show ?case by simp
qed simp

lemma parse_keys_ok:
  assumes "parse_keys body ts n pos index = Inr (pos', r)" and "index_ok ts index"
  shows "index_ok ts r"
  using assms
proof (induction body ts n pos index rule: parse_keys.induct)
  case (2 body ts n pos index)
  let ?n = "be_nat (byte_range (pos + 32) (pos + 36) body)"
  from "2.prems"(1) obtain indices where *: "\<not> length body < pos + 36" "\<not> length body < pos + 36 + ?n * 8"
    and ps: "parse_indices body ts (pos + 36) [0..<?n] [] = Inr indices"
    and fresh: "hash_from_bytes (byte_range pos (pos + 32) body) \<notin> fst ` set index"
    and rest: "parse_keys body ts n (pos + 36 + ?n * 8)
      (index @ [(hash_from_bytes (byte_range pos (pos + 32) body), indices)]) = Inr (pos', r)"
    by (auto simp: Let_def bind_res_Inr_iff split: if_splits)
  have "sorted_wrt (<) indices \<and> (\<forall>i \<in> set indices. i < ts) \<and> length indices = ?n"
    using parse_indices_ok [OF ps] by simp
  moreover have "?n < 256 ^ length (byte_range (pos + 32) (pos + 36) body)" by (rule be_nat_bound)
  then have "?n < 2 ^ 32"
    using power_increasing [of "length (byte_range (pos + 32) (pos + 36) body)" 4 "256 :: nat"]
    by (simp add: byte_range_def)
  ultimately have "index_ok ts (index @ [(hash_from_bytes (byte_range pos (pos + 32) body), indices)])"
    using "2.prems"(2) fresh by (auto simp: index_ok_def list_all_iff)
  then show ?case using "2.IH" [OF *(1) refl refl refl *(2) fresh rest] by simp
qed simp

text \<open>C40. The snapshot parser accepts only data whose checksum is right and whose content is a
  well-formed index: distinct keys, increasing indices below the tree size.\<close>

theorem snapshot_accepts_wellformed:
  assumes "parse_snapshot crc data = Inr (tree_size, index)"
  shows "index_ok tree_size index
    \<and> crc (take (length data - 4) data) = le_nat (drop (length data - 4) data)"
proof -
  from assms obtain pos where keys: "parse_keys (take (length data - 4) data) tree_size
      (be_nat (byte_range 13 21 (take (length data - 4) data))) 21 [] = Inr (pos, index)"
    and crc: "crc (take (length data - 4) data) = le_nat (drop (length data - 4) data)"
    by (auto simp: parse_snapshot_def Let_def bind_res_Inr_iff split: if_splits)
  have "index_ok tree_size index" using parse_keys_ok [OF keys] by (simp add: index_ok_def)
  with crc show ?thesis by blast
qed

theorem snapshot_accepts_wellformed_witness:
  "parse_snapshot (\<lambda>_. 7) (snapshot_bytes (\<lambda>_. 7) 6 [(1, [0, 5])]) = Inr (6, [(1, [0, 5])])
   \<and> index_ok 6 [(1, [0, 5])]"
proof
  show parsed: "parse_snapshot (\<lambda>_. 7) (snapshot_bytes (\<lambda>_. 7) 6 [(1, [0, 5])]) = Inr (6, [(1, [0, 5])])"
    by (rule parse_snapshot_bytes) (simp_all add: crc_laws_def index_ok_def)
  show "index_ok 6 [(1, [0, 5])]" using snapshot_accepts_wellformed [OF parsed] by blast
qed

text \<open>C39. Snapshots round-trip: what \<open>write_snapshot\<close> puts in place for a well-formed index is read
  back with the same tree size and the same map, whatever order the hash map is iterated in; a
  failed write leaves either the old file or the complete new one.\<close>

theorem snapshot_roundtrip:
  assumes "crc_laws crc" and "iter_laws iter" and "index_ok tree_size index"
    and "tree_size < 2 ^ 64" and "length index < 2 ^ 64"
  shows "\<exists>r f'. write_snapshot crc iter io tree_size index f = (r, f')
    \<and> (is_ok r \<longleftrightarrow> io = Snap_Ok)
    \<and> (read_snapshot crc f' = read_snapshot crc f \<and> r \<noteq> Inr ()
       \<or> (\<exists>index'. read_snapshot crc f' = Some (tree_size, index')
            \<and> map_of index' = map_of index \<and> index_ok tree_size index'))"
proof -
  have m: "mset (iter index) = mset index" using assms(2) by (simp add: iter_laws_def)
  then have ok: "index_ok tree_size (iter index)" using assms(3) index_ok_mset by blast
  have "map_of (iter index) = map_of index"
    using ok m by (intro map_of_mset) (simp_all add: index_ok_def)
  moreover have "parse_snapshot crc (snapshot_bytes crc tree_size (iter index)) = Inr (tree_size, iter index)"
    using parse_snapshot_bytes [OF assms(1) ok assms(4)] assms(5) mset_eq_length [OF m] by simp
  ultimately show ?thesis using ok
    by (cases io) (auto simp: write_snapshot_def read_snapshot_def Let_def)
qed

theorem snapshot_roundtrip_witness:
  "\<exists>r f'. write_snapshot (\<lambda>_. 7) rev Snap_Ok 6 [(1, [0, 5]), (2, [3]), (3, [])] \<lparr>sf_bytes = None, sf_durable = None\<rparr> = (r, f')
    \<and> (is_ok r \<longleftrightarrow> Snap_Ok = Snap_Ok)
    \<and> (read_snapshot (\<lambda>_. 7) f' = read_snapshot (\<lambda>_. 7) \<lparr>sf_bytes = None, sf_durable = None\<rparr> \<and> r \<noteq> Inr ()
       \<or> (\<exists>index'. read_snapshot (\<lambda>_. 7) f' = Some (6, index')
            \<and> map_of index' = map_of [(1, [0, 5]), (2, [3]), (3, [])] \<and> index_ok 6 index'))"
  by (rule snapshot_roundtrip) (simp_all add: crc_laws_def iter_laws_def index_ok_def)

end
