(* ===== verification/Vindex.thy ===== *)
theory Vindex
  imports Prefix_Tree Vindex_Snapshot Text_Format "HOL-Library.AList"
begin

text \<open>
  The verifiable index, \<^verbatim>\<open>src/vindex/mod.rs\<close>: from keys extracted from the entries to the indices of
  the entries that have them, with a write-ahead log, snapshots and the prefix tree. \<open>map_fn\<close> is
  the configured key extraction, \<open>sh\<close> SHA-256, \<open>crc\<close> CRC-32 and \<open>iter\<close> the iteration order
  of a hash map. The lock \<open>indexing\<close> makes each operation one step. \<open>vstate\<close> is the index with
  its two files. The specification is \<open>index_spec\<close>: the positions of a key among the first \<open>n\<close>
  entries.
\<close>

datatype wal_writer = NoWal | Unbatched | Batched batched_wal

record vindex =
  vi_index :: index_map
  vi_writer :: wal_writer
  vi_entries_since_snapshot :: nat
  vi_snapshot_interval :: nat
  vi_tree_size :: nat
  vi_prefix_tree :: node
  vi_max_keys :: nat
  vi_max_indices_per_key :: nat

record vstate =
  vs_vi :: vindex
  vs_wal :: wal_file
  vs_snap :: snap_file

record vindex_limits =
  lim_max_keys :: nat
  lim_max_indices_per_key :: nat
  lim_snapshot_interval :: nat

record vio =
  v_append :: wal_io
  v_flush :: wal_io
  v_snapshot :: snap_io
  v_truncate :: wal_io

record lookup_result =
  lr_indices :: "nat list"
  lr_tree_size :: nat
  lr_found :: bool
  lr_proof :: "proof_node list"
  lr_root_hash :: sha256_hash

definition MAX_KEYS_PER_ENTRY :: nat where "MAX_KEYS_PER_ENTRY = 255"

definition DEFAULT_MAX_KEYS :: nat where "DEFAULT_MAX_KEYS = 10000000"

definition DEFAULT_MAX_INDICES_PER_KEY :: nat where "DEFAULT_MAX_INDICES_PER_KEY = 1000"

definition DEFAULT_SNAPSHOT_INTERVAL :: nat where "DEFAULT_SNAPSHOT_INTERVAL = 100000"

text \<open>The value of an environment variable, or the default when it is unset or not a number.\<close>

definition env_or :: "string option \<Rightarrow> nat \<Rightarrow> nat" where
  "env_or var fallback = (case Option.bind var parse_u64 of None \<Rightarrow> fallback | Some n \<Rightarrow> n)"

definition limits_from_env :: "string option \<Rightarrow> string option \<Rightarrow> string option \<Rightarrow> vindex_limits" where
  "limits_from_env max_keys max_indices interval =
     \<lparr>lim_max_keys = env_or max_keys DEFAULT_MAX_KEYS,
      lim_max_indices_per_key = env_or max_indices DEFAULT_MAX_INDICES_PER_KEY,
      lim_snapshot_interval = env_or interval DEFAULT_SNAPSHOT_INTERVAL\<rparr>"


subsection \<open>Hashes and the writer variant\<close>

definition identity_map_fn :: "digest \<Rightarrow> byte list \<Rightarrow> sha256_hash list" where
  "identity_map_fn sh data = [sh data]"

text \<open>
  A parsed JSON value. The parser itself is the library's and a parameter \<open>parse\<close>, with \<open>None\<close>
  for malformed input. The members of an object are an association list without duplicates.
\<close>

datatype json =
  JNull | JBool bool | JNumber string | JString string | JArray "json list" | JObject "(string \<times> json) list"

fun json_get :: "json \<Rightarrow> string \<Rightarrow> json option" where
  "json_get (JObject members) field = map_of members field"
| "json_get _ field = None"

fun json_as_str :: "json \<Rightarrow> string option" where
  "json_as_str (JString s) = Some s"
| "json_as_str _ = None"

definition json_keys_map_fn ::
  "digest \<Rightarrow> (byte list \<Rightarrow> json option) \<Rightarrow> string \<Rightarrow> byte list \<Rightarrow> sha256_hash list" where
  "json_keys_map_fn sh parse field data =
     (case parse data of
        None \<Rightarrow> []
      | Some val \<Rightarrow>
          (case json_get val field of
             None \<Rightarrow> []
           | Some (JArray arr) \<Rightarrow> map (\<lambda>s. sh (str_bytes s)) (List.map_filter json_as_str arr)
           | Some (JString s) \<Rightarrow> [sh (str_bytes s)]
           | Some _ \<Rightarrow> []))"

definition compute_value_hash :: "digest \<Rightarrow> nat list \<Rightarrow> sha256_hash" where
  "compute_value_hash sh indices = sh (concat (map (be_bytes 8) indices))"

definition variant_append ::
  "crc_fn \<Rightarrow> wal_io \<Rightarrow> nat \<Rightarrow> sha256_hash list \<Rightarrow> (wal_writer \<times> wal_file, error, unit) st" where
  "variant_append crc io idx keys = (\<lambda>(w, f).
     case w of
       NoWal \<Rightarrow> (Inr (), (w, f))
     | Unbatched \<Rightarrow> (case binary_append crc io idx keys f of (r, f') \<Rightarrow> (r, (w, f')))
     | Batched b \<Rightarrow> (case batched_append crc io idx keys (b, f) of (r, (b', f')) \<Rightarrow> (r, (Batched b', f'))))"

definition variant_flush :: "crc_fn \<Rightarrow> wal_io \<Rightarrow> (wal_writer \<times> wal_file, error, unit) st" where
  "variant_flush crc io = (\<lambda>(w, f).
     case w of
       NoWal \<Rightarrow> (Inr (), (w, f))
     | Unbatched \<Rightarrow> (case binary_flush io f of (r, f') \<Rightarrow> (r, (w, f')))
     | Batched b \<Rightarrow> (case batched_flush crc io (b, f) of (r, (b', f')) \<Rightarrow> (r, (Batched b', f'))))"

definition variant_truncate :: "wal_io \<Rightarrow> (wal_writer \<times> wal_file, error, unit) st" where
  "variant_truncate io = (\<lambda>(w, f).
     case w of
       NoWal \<Rightarrow> (Inr (), (w, f))
     | Unbatched \<Rightarrow> (case binary_truncate io f of (r, f') \<Rightarrow> (r, (w, f')))
     | Batched b \<Rightarrow> (case batched_truncate io (b, f) of (r, (b', f')) \<Rightarrow> (r, (Batched b', f'))))"

definition on_wal :: "(wal_writer \<times> wal_file, error, 'a) st \<Rightarrow> (vstate, error, 'a) st" where
  "on_wal m s =
     (case m (vi_writer (vs_vi s), vs_wal s) of
        (r, (w, f)) \<Rightarrow> (r, s\<lparr>vs_vi := (vs_vi s)\<lparr>vi_writer := w\<rparr>, vs_wal := f\<rparr>))"


subsection \<open>Operations\<close>

definition vindex_new :: "nat \<Rightarrow> nat \<Rightarrow> vindex" where
  "vindex_new max_keys max_indices_per_key =
     \<lparr>vi_index = [], vi_writer = NoWal, vi_entries_since_snapshot = 0, vi_snapshot_interval = 0,
      vi_tree_size = 0, vi_prefix_tree = tree_new,
      vi_max_keys = max_keys, vi_max_indices_per_key = max_indices_per_key\<rparr>"

definition entry_keys :: "(byte list \<Rightarrow> sha256_hash list) \<Rightarrow> byte list \<Rightarrow> sha256_hash list" where
  "entry_keys map_fn data = remdups_adj (sort (map_fn data))"

definition get_indices :: "index_map \<Rightarrow> sha256_hash \<Rightarrow> nat list" where
  "get_indices index key = (case map_of index key of None \<Rightarrow> [] | Some is \<Rightarrow> is)"

definition add_key ::
  "digest \<Rightarrow> nat \<Rightarrow> sha256_hash \<Rightarrow> index_map \<times> node \<Rightarrow> (index_map \<times> node) res" where
  "add_key sh idx key = (\<lambda>(index, tree).
     let indices = get_indices index key
     in if idx \<in> set indices then Inr (index, tree)
        else let indices' = indices @ [idx]
             in bind_res (ok_or Panic (tree_insert sh tree key (compute_value_hash sh indices')))
                  (\<lambda>tree'. Inr (AList.update key indices' index, tree')))"

definition bump :: "nat \<Rightarrow> vindex \<Rightarrow> vindex" where
  "bump idx vi = vi\<lparr>vi_tree_size := max (vi_tree_size vi) (idx + 1),
     vi_entries_since_snapshot := (vi_entries_since_snapshot vi + 1) mod 2 ^ 64\<rparr>"

definition check_limits :: "vindex \<Rightarrow> sha256_hash list \<Rightarrow> unit res" where
  "check_limits vi keys =
     (let new_keys_count = length (filter (\<lambda>k. k \<notin> fst ` set (vi_index vi)) keys)
      in if vi_max_keys vi < length (vi_index vi) + new_keys_count then Inl IndexFull
         else if list_ex (\<lambda>k. case map_of (vi_index vi) k of
                                None \<Rightarrow> False | Some is \<Rightarrow> vi_max_indices_per_key vi \<le> length is) keys
         then Inl IndexFull
         else Inr ())"

text \<open>The last line of the index update: \<open>idx + 1\<close> panics on the largest 64-bit number.\<close>

definition finish_entry :: "nat \<Rightarrow> (vstate, error, unit) st" where
  "finish_entry idx s =
     (if u64_max \<le> idx then (Inl Panic, s) else (Inr (), s\<lparr>vs_vi := bump idx (vs_vi s)\<rparr>))"

definition index_entry ::
  "digest \<Rightarrow> crc_fn \<Rightarrow> (byte list \<Rightarrow> sha256_hash list) \<Rightarrow> vio \<Rightarrow> nat \<Rightarrow> byte list \<Rightarrow> (vstate, error, unit) st" where
  "index_entry sh crc map_fn io idx data s =
     (let vi = vs_vi s; next_idx = vi_tree_size vi
      in if idx < next_idx then (Inr (), s)
         else if idx \<noteq> next_idx then (Inl InvalidEntry, s)
         else let keys = entry_keys map_fn data
              in if MAX_KEYS_PER_ENTRY < length keys then (Inl InvalidEntry, s)
                 else if keys = [] then
                   bind_st (on_wal (variant_append crc (v_append io) idx keys)) (\<lambda>_. finish_entry idx) s
                 else
                   bind_st (lift_st (check_limits vi keys)) (\<lambda>_.
                   bind_st (on_wal (variant_append crc (v_append io) idx keys)) (\<lambda>_.
                   bind_st (\<lambda>s. case fold_res (add_key sh idx) keys (vi_index (vs_vi s), vi_prefix_tree (vs_vi s)) of
                                  Inl e \<Rightarrow> (Inl e, s)
                                | Inr (index, tree) \<Rightarrow>
                                    (Inr (), s\<lparr>vs_vi := (vs_vi s)\<lparr>vi_index := index, vi_prefix_tree := tree\<rparr>\<rparr>)) (\<lambda>_.
                   finish_entry idx))) s)"

definition vindex_lookup :: "digest \<Rightarrow> vindex \<Rightarrow> sha256_hash \<Rightarrow> lookup_result option" where
  "vindex_lookup sh vi key =
     map_option (\<lambda>lp. \<lparr>lr_indices = get_indices (vi_index vi) key, lr_tree_size = vi_tree_size vi,
        lr_found = lp_found lp, lr_proof = lp_proof lp,
        lr_root_hash = tree_root_hash sh (vi_prefix_tree vi)\<rparr>)
       (tree_lookup sh (vi_prefix_tree vi) key)"

definition hash_key :: "digest \<Rightarrow> string \<Rightarrow> sha256_hash" where
  "hash_key sh s = sh (str_bytes s)"

definition lookup_string :: "digest \<Rightarrow> vindex \<Rightarrow> string \<Rightarrow> lookup_result option" where
  "lookup_string sh vi key = vindex_lookup sh vi (sh (str_bytes key))"

definition key_count :: "vindex \<Rightarrow> nat" where
  "key_count vi = length (vi_index vi)"

definition vindex_root_hash :: "digest \<Rightarrow> vindex \<Rightarrow> sha256_hash" where
  "vindex_root_hash sh vi = tree_root_hash sh (vi_prefix_tree vi)"

definition vindex_flush :: "crc_fn \<Rightarrow> vio \<Rightarrow> (vstate, error, unit) st" where
  "vindex_flush crc io = on_wal (variant_flush crc (v_flush io))"

definition vindex_snapshot :: "crc_fn \<Rightarrow> (index_map \<Rightarrow> index_map) \<Rightarrow> vio \<Rightarrow> (vstate, error, unit) st" where
  "vindex_snapshot crc iter io s =
     (if vi_writer (vs_vi s) = NoWal then (Inr (), s)
      else bind_st (on_wal (variant_flush crc (v_flush io))) (\<lambda>_.
           bind_st (\<lambda>s. case write_snapshot crc iter (v_snapshot io) (vi_tree_size (vs_vi s))
                               (vi_index (vs_vi s)) (vs_snap s) of
                          (r, f) \<Rightarrow> (r, s\<lparr>vs_snap := f\<rparr>)) (\<lambda>_.
           bind_st (on_wal (variant_truncate (v_truncate io))) (\<lambda>_.
             (\<lambda>s. (Inr (), s\<lparr>vs_vi := (vs_vi s)\<lparr>vi_entries_since_snapshot := 0\<rparr>\<rparr>))))) s)"

definition maybe_snapshot :: "crc_fn \<Rightarrow> (index_map \<Rightarrow> index_map) \<Rightarrow> vio \<Rightarrow> (vstate, error, bool) st" where
  "maybe_snapshot crc iter io s =
     (let vi = vs_vi s
      in if vi_snapshot_interval vi = 0 \<or> vi_writer vi = NoWal then (Inr False, s)
         else if vi_entries_since_snapshot vi < vi_snapshot_interval vi then (Inr False, s)
         else bind_st (vindex_snapshot crc iter io) (\<lambda>_. ret_st True) s)"


subsection \<open>Opening an index\<close>

text \<open>The replay of one record: keys already seen for the index are skipped.\<close>

definition replay_key :: "nat \<Rightarrow> sha256_hash \<Rightarrow> (nat \<times> sha256_hash) list \<times> index_map
    \<Rightarrow> (nat \<times> sha256_hash) list \<times> index_map" where
  "replay_key idx key = (\<lambda>(seen, index).
     if (idx, key) \<in> set seen then (seen, index)
     else ((idx, key) # seen, AList.update key (get_indices index key @ [idx]) index))"

function replay_wal ::
  "crc_fn \<Rightarrow> nat \<Rightarrow> wal_reader \<Rightarrow> nat \<Rightarrow> (nat \<times> sha256_hash) list \<Rightarrow> index_map \<Rightarrow> (nat \<times> index_map) res" where
  "replay_wal crc base_size r tree_size seen index =
     (case next_entry crc r of
        (Inl e, _) \<Rightarrow> Inl e
      | (Inr None, _) \<Rightarrow> Inr (tree_size, index)
      | (Inr (Some (idx, keys)), r') \<Rightarrow>
          if idx < base_size then replay_wal crc base_size r' tree_size seen index
          else if idx \<noteq> tree_size then Inl error.Internal
          else if u64_max \<le> idx then Inl Panic
          else let (seen', index') = fold (replay_key idx) keys (seen, index)
               in replay_wal crc base_size r' (max tree_size (idx + 1)) seen' index')"
  by pat_completeness auto
termination
  by (relation "measure (\<lambda>(crc, b, r, t, s, i). length (rd_rest r))")
    (auto dest: next_entry_progress(1) sym)

declare replay_wal.simps [simp del]

definition rebuild_tree :: "digest \<Rightarrow> index_map \<Rightarrow> node res" where
  "rebuild_tree sh entries =
     ok_or Panic (insert_all (tree_insert sh) (map (\<lambda>(k, is). (k, compute_value_hash sh is)) entries) tree_new)"

definition make_vindex :: "vindex_limits \<Rightarrow> nat \<Rightarrow> nat \<Rightarrow> nat \<Rightarrow> index_map \<Rightarrow> node \<Rightarrow> vindex" where
  "make_vindex lim batch_size base_size tree_size index tree =
     \<lparr>vi_index = index,
      vi_writer = (if 1 < batch_size then Batched \<lparr>bw_buffer = [], bw_batch_size = batch_size\<rparr> else Unbatched),
      vi_entries_since_snapshot = tree_size - base_size,
      vi_snapshot_interval = lim_snapshot_interval lim,
      vi_tree_size = tree_size, vi_prefix_tree = tree,
      vi_max_keys = lim_max_keys lim, vi_max_indices_per_key = lim_max_indices_per_key lim\<rparr>"

definition with_wal_and_batch_size ::
  "digest \<Rightarrow> crc_fn \<Rightarrow> (index_map \<Rightarrow> index_map) \<Rightarrow> vindex_limits \<Rightarrow> wal_io \<Rightarrow> nat \<Rightarrow> nat
     \<Rightarrow> wal_file option \<times> snap_file \<Rightarrow> vstate res \<times> (wal_file option \<times> snap_file)" where
  "with_wal_and_batch_size sh crc iter lim io expected_tree_size batch_size = (\<lambda>(wal, snap).
     let (base_size, index) = (case read_snapshot crc snap of Some r \<Rightarrow> r | None \<Rightarrow> (0, []))
     in if expected_tree_size < base_size then (Inl error.Internal, (wal, snap))
        else case validate_and_truncate_wal crc io expected_tree_size wal of
               (Inl e, wal') \<Rightarrow> (Inl e, (wal', snap))
             | (Inr actual_wal_size, wal') \<Rightarrow>
                 if max base_size actual_wal_size < expected_tree_size then (Inl error.Internal, (wal', snap))
                 else case (case wal' of
                              None \<Rightarrow> Inr (base_size, index)
                            | Some f \<Rightarrow> replay_wal crc base_size (reader_open (wf_bytes f)) base_size [] index) of
                        Inl e \<Rightarrow> (Inl e, (wal', snap))
                      | Inr (tree_size, index') \<Rightarrow>
                          case rebuild_tree sh (iter index') of
                            Inl e \<Rightarrow> (Inl e, (wal', snap))
                          | Inr tree \<Rightarrow>
                              case wal_open io wal' of
                                (Inl e, wal'') \<Rightarrow> (Inl e, (wal'', snap))
                              | (Inr _, wal'') \<Rightarrow>
                                  (Inr \<lparr>vs_vi = make_vindex lim batch_size base_size tree_size index' tree,
                                        vs_wal = the wal'', vs_snap = snap\<rparr>, (wal'', snap)))"

definition with_wal ::
  "digest \<Rightarrow> crc_fn \<Rightarrow> (index_map \<Rightarrow> index_map) \<Rightarrow> vindex_limits \<Rightarrow> wal_io \<Rightarrow> nat
     \<Rightarrow> wal_file option \<times> snap_file \<Rightarrow> vstate res \<times> (wal_file option \<times> snap_file)" where
  "with_wal sh crc iter lim io expected_tree_size =
     with_wal_and_batch_size sh crc iter lim io expected_tree_size 1"


subsection \<open>The specification\<close>

text \<open>
  \<open>K i\<close> are the keys of entry \<open>i\<close>. \<open>key_positions K n k\<close> are the entries among the first
  \<open>n\<close> that have key \<open>k\<close>, in order.
\<close>

definition key_positions :: "(nat \<Rightarrow> sha256_hash list) \<Rightarrow> nat \<Rightarrow> sha256_hash \<Rightarrow> nat list" where
  "key_positions K n k = filter (\<lambda>i. k \<in> set (K i)) [0..<n]"

definition index_spec :: "(nat \<Rightarrow> sha256_hash list) \<Rightarrow> nat \<Rightarrow> sha256_hash \<rightharpoonup> nat list" where
  "index_spec K n k = (let is = key_positions K n k in if is = [] then None else Some is)"

definition tree_follows :: "digest \<Rightarrow> index_map \<times> node \<Rightarrow> bool" where
  "tree_follows sh = (\<lambda>(index, tree).
     distinct (map fst index) \<and> node_ok sh tree
     \<and> tree_map tree = map_option (compute_value_hash sh) \<circ> map_of index)"

definition vi_ok :: "digest \<Rightarrow> (nat \<Rightarrow> sha256_hash list) \<Rightarrow> nat \<Rightarrow> vindex \<Rightarrow> bool" where
  "vi_ok sh K n vi \<longleftrightarrow>
     tree_follows sh (vi_index vi, vi_prefix_tree vi)
     \<and> map_of (vi_index vi) = index_spec K n \<and> vi_tree_size vi = n"

lemma key_positions_0 [simp]: "key_positions K 0 k = []"
  by (simp add: key_positions_def)

lemma key_positions_Suc [simp]:
  "key_positions K (Suc n) k = key_positions K n k @ (if k \<in> set (K n) then [n] else [])"
  by (simp add: key_positions_def)

lemma key_positions_less: "i \<in> set (key_positions K n k) \<Longrightarrow> i < n"
  by (simp add: key_positions_def)

lemma key_positions_sorted: "sorted_wrt (<) (key_positions K n k)"
  unfolding key_positions_def by (rule sorted_wrt_filter) (rule sorted_wrt_upt)

lemma get_indices_spec: "map_of index = index_spec K n \<Longrightarrow> get_indices index k = key_positions K n k"
  by (simp add: get_indices_def index_spec_def Let_def)

lemma index_spec_Suc:
  "index_spec K (Suc n) k = (if k \<in> set (K n) then Some (key_positions K n k @ [n]) else index_spec K n k)"
  by (simp add: index_spec_def Let_def)

lemma sorted_distinct_remdups_adj: "sorted xs \<Longrightarrow> distinct (remdups_adj xs)" for xs :: "sha256_hash list"
  by (induction xs rule: remdups_adj.induct) auto

lemma distinct_entry_keys: "distinct (entry_keys map_fn data)"
  by (simp add: entry_keys_def sorted_distinct_remdups_adj)

lemma set_entry_keys: "set (entry_keys map_fn data) = set (map_fn data)"
  by (simp add: entry_keys_def)


subsection \<open>Indexing an entry\<close>

lemma add_key_ok:
  assumes "tree_follows sh (index, tree)" and "idx \<notin> set (get_indices index key)"
  shows "\<exists>index' tree'. add_key sh idx key (index, tree) = Inr (index', tree')
    \<and> tree_follows sh (index', tree')
    \<and> map_of index' = (map_of index)(key \<mapsto> get_indices index key @ [idx])"
proof -
  let ?is = "get_indices index key @ [idx]"
  obtain tree' where t: "tree_insert sh tree key (compute_value_hash sh ?is) = Some tree'"
    "node_ok sh tree'" "tree_map tree' = (tree_map tree)(key \<mapsto> compute_value_hash sh ?is)"
    using pt.ins_ok [of sh tree] assms(1) unfolding tree_follows_def by blast
  have "tree_map tree' = map_option (compute_value_hash sh) \<circ> map_of (AList.update key ?is index)"
    using assms(1) unfolding t(3) update_conv' by (auto simp: tree_follows_def fun_eq_iff)
  then have "tree_follows sh (AList.update key ?is index, tree')"
    using assms(1) t(2) by (simp add: tree_follows_def distinct_update)
  with t(1) assms(2) show ?thesis
    by (auto simp: add_key_def Let_def update_conv')
qed

lemma add_keys_ok:
  assumes "tree_follows sh (index, tree)" and "distinct keys" and "\<forall>k. idx \<notin> set (get_indices index k)"
  shows "\<exists>index' tree'. fold_res (add_key sh idx) keys (index, tree) = Inr (index', tree')
    \<and> tree_follows sh (index', tree')
    \<and> map_of index' = (\<lambda>k. if k \<in> set keys then Some (get_indices index k @ [idx]) else map_of index k)"
  using assms(1,2) 
proof (induction keys rule: rev_induct)
  case (snoc key keys)
  then obtain index1 tree1 where one: "fold_res (add_key sh idx) keys (index, tree) = Inr (index1, tree1)"
    "tree_follows sh (index1, tree1)"
    and m: "map_of index1 = (\<lambda>k. if k \<in> set keys then Some (get_indices index k @ [idx]) else map_of index k)"
    by auto
  have same: "get_indices index1 key = get_indices index key"
    using snoc.prems(2) by (simp add: get_indices_def m)
  then obtain index2 tree2 where "add_key sh idx key (index1, tree1) = Inr (index2, tree2)"
    "tree_follows sh (index2, tree2)" "map_of index2 = (map_of index1)(key \<mapsto> get_indices index key @ [idx])"
    using add_key_ok [OF one(2), of idx key] assms(3) by auto
  with one(1) show ?case by (auto simp: fold_res_append m fun_eq_iff)
qed simp


lemma on_wal_eq:
  "on_wal m s = (r, s') \<longleftrightarrow>
     (\<exists>w f. m (vi_writer (vs_vi s), vs_wal s) = (r, (w, f))
        \<and> s' = s\<lparr>vs_vi := (vs_vi s)\<lparr>vi_writer := w\<rparr>, vs_wal := f\<rparr>)"
  by (auto simp: on_wal_def split: prod.splits)

lemma vi_ok_writer [simp]: "vi_ok sh K n (vi\<lparr>vi_writer := w\<rparr>) \<longleftrightarrow> vi_ok sh K n vi"
  by (simp add: vi_ok_def)

lemma vi_ok_since [simp]: "vi_ok sh K n (vi\<lparr>vi_entries_since_snapshot := c\<rparr>) \<longleftrightarrow> vi_ok sh K n vi"
  by (simp add: vi_ok_def)


text \<open>Indexing the next entry, when neither the number of its keys nor a limit refuses it: the log
  is written first, and the index changes only after that succeeded.\<close>

lemma index_next_eq:
  assumes ok: "vi_ok sh K n (vs_vi s)" and K: "K n = entry_keys map_fn data" and n: "n < u64_max"
    and fits: "length (K n) \<le> 255" and lim: "K n = [] \<or> check_limits (vs_vi s) (K n) = Inr ()"
    and wal: "on_wal (variant_append crc (v_append io) n (K n)) s = (r, s1)"
  shows "case r of
      Inl e \<Rightarrow> index_entry sh crc map_fn io n data s = (Inl e, s1)
    | Inr _ \<Rightarrow> \<exists>s2. index_entry sh crc map_fn io n data s = (Inr (), s2) \<and> vi_ok sh K (Suc n) (vs_vi s2)
        \<and> vs_wal s2 = vs_wal s1 \<and> vs_snap s2 = vs_snap s1
        \<and> vi_writer (vs_vi s2) = vi_writer (vs_vi s1)"
proof -
  obtain w f where s1: "s1 = s\<lparr>vs_vi := (vs_vi s)\<lparr>vi_writer := w\<rparr>, vs_wal := f\<rparr>"
    using wal by (auto simp: on_wal_eq)
  have size: "vi_tree_size (vs_vi s) = n" and m: "map_of (vi_index (vs_vi s)) = index_spec K n"
    and tf: "tree_follows sh (vi_index (vs_vi s), vi_prefix_tree (vs_vi s))"
    using ok by (auto simp: vi_ok_def)
  have fresh: "\<forall>k. n \<notin> set (get_indices (vi_index (vs_vi s)) k)"
    using key_positions_less by (fastforce simp: get_indices_spec [OF m])
  obtain index' tree' where upd: "fold_res (add_key sh n) (K n) (vi_index (vs_vi s), vi_prefix_tree (vs_vi s)) = Inr (index', tree')"
    and tf': "tree_follows sh (index', tree')"
    and m': "map_of index' = (\<lambda>k. if k \<in> set (K n) then Some (get_indices (vi_index (vs_vi s)) k @ [n])
                              else map_of (vi_index (vs_vi s)) k)"
    using add_keys_ok [OF tf _ fresh, of "K n"] K distinct_entry_keys [of map_fn data] by auto
  have "map_of index' = index_spec K (Suc n)"
    by (auto simp: m' m get_indices_spec [OF m] index_spec_Suc)
  then have done_ok: "vi_ok sh K (Suc n) (bump n ((vs_vi s1)\<lparr>vi_index := index', vi_prefix_tree := tree'\<rparr>))"
    using tf' size by (simp add: vi_ok_def bump_def s1)
  show ?thesis
  proof (cases "K n = []")
    case True
    then have "vi_ok sh K (Suc n) (bump n (vs_vi s1))"
      using done_ok upd by (simp add: s1 bump_def vi_ok_def)
    then show ?thesis
      using True K n size fits wal
      by (auto simp: index_entry_def Let_def MAX_KEYS_PER_ENTRY_def bind_st_def finish_entry_def bump_def
          split: sum.split)
  next
    case False
    then show ?thesis
      using K n size fits lim wal upd done_ok
      by (auto simp: index_entry_def Let_def MAX_KEYS_PER_ENTRY_def bind_st_def finish_entry_def lift_st_def s1
          bump_def split: sum.split)
  qed
qed

lemma index_next_refused:
  assumes "vi_tree_size (vs_vi s) = n" and "keys = entry_keys map_fn data"
    and "255 < length keys \<or> keys \<noteq> [] \<and> check_limits (vs_vi s) keys = Inl e"
  shows "index_entry sh crc map_fn io n data s = (Inl (if 255 < length keys then InvalidEntry else e), s)"
  using assms by (auto simp: index_entry_def Let_def MAX_KEYS_PER_ENTRY_def bind_st_def lift_st_def)

lemma check_limits_error: "check_limits vi keys = Inl e \<Longrightarrow> e = IndexFull"
  by (auto simp: check_limits_def Let_def split: if_splits)

text \<open>All outcomes of indexing the next entry.\<close>

lemma index_next_cases:
  assumes ok: "vi_ok sh K n (vs_vi s)" and K: "K n = entry_keys map_fn data" and n: "n < u64_max"
    and run: "index_entry sh crc map_fn io n data s = (r, s')"
  obtains
    (refused) e where "r = Inl e" "s' = s" "e = InvalidEntry \<and> 255 < length (K n) \<or> e = IndexFull"
  | (failed) e where "r = Inl e" "length (K n) \<le> 255"
      "on_wal (variant_append crc (v_append io) n (K n)) s = (Inl e, s')"
  | (indexed) s1 where "r = Inr ()" "length (K n) \<le> 255"
      "on_wal (variant_append crc (v_append io) n (K n)) s = (Inr (), s1)"
      "vi_ok sh K (Suc n) (vs_vi s')" "vs_wal s' = vs_wal s1" "vs_snap s' = vs_snap s1"
      "vi_writer (vs_vi s') = vi_writer (vs_vi s1)"
proof -
  have size: "vi_tree_size (vs_vi s) = n" using ok by (simp add: vi_ok_def)
  obtain rw s1 where wal: "on_wal (variant_append crc (v_append io) n (K n)) s = (rw, s1)" by fastforce
  consider (many) "255 < length (K n)"
    | (full) "length (K n) \<le> 255" "K n \<noteq> []" "check_limits (vs_vi s) (K n) \<noteq> Inr ()"
    | (go) "length (K n) \<le> 255" "K n = [] \<or> check_limits (vs_vi s) (K n) = Inr ()"
    by fastforce
  then show ?thesis
  proof cases
    case many
    then show ?thesis using index_next_refused [OF size K, of _ sh crc io] run refused by auto
  next
    case full
    then obtain e where e: "check_limits (vs_vi s) (K n) = Inl e" by (cases "check_limits (vs_vi s) (K n)") auto
    with full show ?thesis
      using index_next_refused [OF size K, of e sh crc io] run refused check_limits_error [OF e] by auto
  next
    case go
    from index_next_eq [OF ok K n go wal] run wal go(1) show ?thesis
      by (cases rw) (auto intro: failed indexed)
  qed
qed

lemma index_entry_frame:
  assumes "index_entry sh crc map_fn io idx data s = (r, s')"
  shows "vi_max_keys (vs_vi s') = vi_max_keys (vs_vi s)"
    and "vi_max_indices_per_key (vs_vi s') = vi_max_indices_per_key (vs_vi s)"
    and "vi_writer (vs_vi s) = Unbatched \<Longrightarrow> vi_writer (vs_vi s') = Unbatched"
  using assms
  by (auto simp: index_entry_def Let_def bind_st_def lift_st_def on_wal_def variant_append_def finish_entry_def bump_def
      split: if_splits sum.splits prod.splits wal_writer.splits)

text \<open>C36. Indexing an entry refines the specification: an entry already indexed is skipped, a later
  one is refused, and the next one either leaves the index as it was, with an error, or extends it
  to exactly the positions of every key among one entry more; without a log on disk it fails only
  because of too many keys or a limit.\<close>

theorem index_entry_refines:
  assumes "vi_ok sh K n (vs_vi s)" and "n < u64_max" and "idx = n \<longrightarrow> K n = entry_keys map_fn data"
    and "index_entry sh crc map_fn io idx data s = (r, s')"
  shows "if idx < n then r = Inr () \<and> s' = s
    else if n < idx then r = Inl InvalidEntry \<and> s' = s
    else if is_ok r then vi_ok sh K (Suc n) (vs_vi s')
    else vi_ok sh K n (vs_vi s') \<and> (vi_writer (vs_vi s) = NoWal \<longrightarrow> r \<in> {Inl InvalidEntry, Inl IndexFull})"
proof -
  have size: "vi_tree_size (vs_vi s) = n" using assms(1) by (simp add: vi_ok_def)
  show ?thesis
  proof (cases "idx = n")
    case False
    with assms(4) size show ?thesis by (auto simp: index_entry_def Let_def)
  next
    case True
    with assms have K: "K n = entry_keys map_fn data"
      and run: "index_entry sh crc map_fn io n data s = (r, s')" by auto
    show ?thesis using assms(1) K assms(2) run
    proof (cases rule: index_next_cases)
      case (failed e)
      then show ?thesis using True assms(1)
        by (auto simp: on_wal_eq variant_append_def split: wal_writer.splits prod.splits)
    qed (use True assms(1) in auto)
  qed
qed

lemma lookup_ok:
  assumes "vi_ok sh K n vi"
  shows "\<exists>r. vindex_lookup sh vi key = Some r
    \<and> lr_indices r = key_positions K n key \<and> lr_tree_size r = n \<and> lr_root_hash r = vindex_root_hash sh vi
    \<and> (lr_found r \<longleftrightarrow> (\<exists>i < n. key \<in> set (K i)))
    \<and> (lr_found r \<longrightarrow>
         proof_root sh (label_from_key key) (lr_proof r)
           (pnode_hash sh (Leaf (label_from_key key) (compute_value_hash sh (lr_indices r))))
         = Some (lr_root_hash r))"
proof -
  have node: "node_ok sh (vi_prefix_tree vi)" and size: "vi_tree_size vi = n"
    and spec: "map_of (vi_index vi) = index_spec K n"
    and tree: "tree_map (vi_prefix_tree vi) = map_option (compute_value_hash sh) \<circ> map_of (vi_index vi)"
    using assms by (auto simp: vi_ok_def tree_follows_def)
  have dom: "key \<in> dom (tree_map (vi_prefix_tree vi)) \<longleftrightarrow> (\<exists>i < n. key \<in> set (K i))"
    by (auto simp: tree spec index_spec_def Let_def key_positions_def domIff filter_empty_conv)
  have "tree_map (vi_prefix_tree vi) key = Some (compute_value_hash sh (key_positions K n key))"
    if "key \<in> dom (tree_map (vi_prefix_tree vi))"
    using that by (auto simp: tree spec index_spec_def Let_def domIff split: if_splits)
  moreover obtain lp where "tree_lookup sh (vi_prefix_tree vi) key = Some lp"
    and "lp_found lp \<longleftrightarrow> key \<in> dom (tree_map (vi_prefix_tree vi))"
    and "\<And>v. tree_map (vi_prefix_tree vi) key = Some v \<Longrightarrow>
      proof_root sh (label_from_key key) (lp_proof lp) (pnode_hash sh (Leaf (label_from_key key) v))
        = Some (tree_root_hash sh (vi_prefix_tree vi))"
    using tree_lookup_ok [OF node, of key] by blast
  ultimately show ?thesis
    using size dom get_indices_spec [OF spec, of key]
    by (simp add: vindex_lookup_def vindex_root_hash_def del: pnode_hash.simps)
qed

text \<open>Lookups: on an index that agrees with the first \<open>n\<close> entries, the result lists exactly the
  entries that have the key, in order, with the size \<open>n\<close> and the current root hash; it says found
  exactly when there is such an entry, and then the proof leads from that list to the root.\<close>

lemma vindex_lookup_correct:
  assumes "vi_ok sh K n vi"
  shows "\<exists>r. vindex_lookup sh vi key = Some r
    \<and> lr_indices r = key_positions K n key \<and> lr_tree_size r = n \<and> lr_root_hash r = vindex_root_hash sh vi
    \<and> (lr_found r \<longleftrightarrow> (\<exists>i < n. key \<in> set (K i)))
    \<and> (lr_found r \<longrightarrow>
         proof_root sh (label_from_key key) (lr_proof r)
           (pnode_hash sh (Leaf (label_from_key key) (compute_value_hash sh (lr_indices r))))
         = Some (lr_root_hash r))"
  using assms by (rule lookup_ok)

text \<open>The strings that an entry has in the configured field, as the JSON key extraction reads it.\<close>

definition json_names :: "(byte list \<Rightarrow> json option) \<Rightarrow> string \<Rightarrow> byte list \<Rightarrow> string \<Rightarrow> bool" where
  "json_names parse field data s \<longleftrightarrow>
     (case Option.bind (parse data) (\<lambda>v. json_get v field) of
        Some (JString t) \<Rightarrow> t = s
      | Some (JArray arr) \<Rightarrow> JString s \<in> set arr
      | _ \<Rightarrow> False)"

lemma json_as_str_Some: "json_as_str v = Some s \<longleftrightarrow> v = JString s"
  by (cases v) auto

lemma json_keys_iff:
  "k \<in> set (json_keys_map_fn sh parse field data)
     \<longleftrightarrow> (\<exists>s. json_names parse field data s \<and> k = sh (str_bytes s))"
proof -
  have "t \<in> set (List.map_filter json_as_str arr) \<longleftrightarrow> JString t \<in> set arr" for t arr
    by (induction arr) (auto simp: json_as_str_Some dest: sym split: option.split)
  then have arr: "set (List.map_filter json_as_str arr) = {t. JString t \<in> set arr}" for arr by auto
  show ?thesis
  proof (cases "Option.bind (parse data) (\<lambda>v. json_get v field)")
    case None
    then show ?thesis by (cases "parse data") (auto simp: json_keys_map_fn_def json_names_def)
  next
    case (Some f)
    then obtain v where "parse data = Some v" "json_get v field = Some f" by (auto simp: bind_eq_Some_conv)
    with Some show ?thesis by (cases f) (auto simp: json_keys_map_fn_def json_names_def arr)
  qed
qed

text \<open>Lookups by string with the JSON key extraction: when no string of the entries collides with
  the searched one under the hash, the result lists exactly the entries whose configured field is
  the string or an array that contains it.\<close>

lemma json_lookup_exact:
  assumes "vi_ok sh (\<lambda>i. entry_keys (json_keys_map_fn sh parse field) (data i)) n vi"
    and "\<And>i s. i < n \<Longrightarrow> json_names parse field (data i) s \<Longrightarrow> sh (str_bytes s) = sh (str_bytes key) \<Longrightarrow> s = key"
  shows "\<exists>r. lookup_string sh vi key = Some r
    \<and> lr_indices r = filter (\<lambda>i. json_names parse field (data i) key) [0..<n]"
proof -
  have "sh (str_bytes key) \<in> set (entry_keys (json_keys_map_fn sh parse field) (data i))
      \<longleftrightarrow> json_names parse field (data i) key" if "i < n" for i
    unfolding set_entry_keys json_keys_iff using assms(2) [OF that] by metis
  then have "key_positions (\<lambda>i. entry_keys (json_keys_map_fn sh parse field) (data i)) n (sh (str_bytes key))
      = filter (\<lambda>i. json_names parse field (data i) key) [0..<n]"
    unfolding key_positions_def by (intro filter_cong) auto
  then show ?thesis
    using lookup_ok [OF assms(1), of "sh (str_bytes key)"] by (auto simp: lookup_string_def)
qed


text \<open>An example: an index without a log, and one entry whose field has one string.\<close>

definition demo_json :: "byte list \<Rightarrow> json option" where
  "demo_json data = (if data = [1] then Some (JObject [(''keys'', JArray [JString ''a'', JNull])]) else None)"

definition demo_vstate :: vstate where
  "demo_vstate = \<lparr>vs_vi = vindex_new 10 10, vs_wal = \<lparr>wf_bytes = [], wf_durable = []\<rparr>,
     vs_snap = \<lparr>sf_bytes = None, sf_durable = None\<rparr>\<rparr>"

definition demo_vio :: vio where
  "demo_vio = \<lparr>v_append = io_fine, v_flush = io_fine, v_snapshot = Snap_Ok, v_truncate = io_fine\<rparr>"

definition demo_keys :: "nat \<Rightarrow> sha256_hash list" where
  "demo_keys i = entry_keys (json_keys_map_fn demo_digest demo_json ''keys'') [1]"

definition demo_indexed :: "unit res \<times> vstate" where
  "demo_indexed = index_entry demo_digest (\<lambda>_. 7) (json_keys_map_fn demo_digest demo_json ''keys'') demo_vio 0 [1] demo_vstate"

lemma vindex_new_ok: "vi_ok sh K 0 (vindex_new a b)"
  by (simp add: vi_ok_def vindex_new_def tree_follows_def index_spec_def fun_eq_iff pt.new_ok)

lemma demo_keys_eq: "demo_keys i = [demo_digest (str_bytes ''a'')]"
  by (simp add: demo_keys_def entry_keys_def json_keys_map_fn_def demo_json_def)

lemma demo_index_ok: "fst demo_indexed = Inr ()"
  using demo_keys_eq
  by (simp add: demo_indexed_def index_entry_def demo_vstate_def vindex_new_def demo_keys_def check_limits_def bind_st_def
      lift_st_def on_wal_def variant_append_def add_key_def tree_insert_def tree_new_def finish_entry_def
      MAX_KEYS_PER_ENTRY_def get_indices_def Let_def)

text \<open>The example by the lemma on the next entry.\<close>

lemma demo_indexed_vi: "vi_ok demo_digest demo_keys 1 (vs_vi (snd demo_indexed))"
proof -
  have ok: "vi_ok demo_digest demo_keys 0 (vs_vi demo_vstate)" by (simp add: demo_vstate_def vindex_new_ok)
  have K: "demo_keys 0 = entry_keys (json_keys_map_fn demo_digest demo_json ''keys'') [1]"
    by (simp add: demo_keys_def)
  have run: "demo_indexed = (Inr (), snd demo_indexed)" using demo_index_ok by (metis prod.collapse)
  show ?thesis
    using ok K _ run [unfolded demo_indexed_def]
    by (cases rule: index_next_cases) (simp_all add: demo_indexed_def)
qed

theorem index_entry_refines_witness:
  "demo_indexed = (Inr (), snd demo_indexed) \<and> vi_ok demo_digest demo_keys 1 (vs_vi (snd demo_indexed))"
proof
  show r: "demo_indexed = (Inr (), snd demo_indexed)" using demo_index_ok by (metis prod.collapse)
  show "vi_ok demo_digest demo_keys 1 (vs_vi (snd demo_indexed))"
    using index_entry_refines [of demo_digest demo_keys 0 demo_vstate 0 _ "[1]", OF _ _ _ r [unfolded demo_indexed_def]]
    by (simp add: demo_vstate_def vindex_new_ok demo_keys_def demo_indexed_def)
qed

end
