(* ===== verification/Vindex_Recovery.thy ===== *)
theory Vindex_Recovery
  imports Vindex
begin

text \<open>
  Crash recovery of the verifiable index. \<open>wlog\<close> is the content of a log that holds the entries of a
  range; \<open>crash_image\<close> relates a state to what a crash may leave of its files: of the log any
  prefix that contains what was synced, of the snapshot the old or the new file. The runs of the
  index are sequences of successful operations from fresh files; a crash may come during any
  operation after such a run, whatever its calls to the file system do.
\<close>


subsection \<open>Logs of a range of entries\<close>

definition entries :: "(nat \<Rightarrow> sha256_hash list) \<Rightarrow> nat \<Rightarrow> nat \<Rightarrow> wal_entry list" where
  "entries K a b = map (\<lambda>i. (i, K i)) [a..<b]"

definition wlog :: "crc_fn \<Rightarrow> (nat \<Rightarrow> sha256_hash list) \<Rightarrow> nat \<Rightarrow> nat \<Rightarrow> byte list" where
  "wlog crc K a b = concat (map (enc crc) (entries K a b))"

lemma wlog_Suc: "a \<le> b \<Longrightarrow> wlog crc K a (Suc b) = wlog crc K a b @ enc crc (b, K b)"
  by (simp add: wlog_def entries_def)

lemma wlog_empty [simp]: "wlog crc K a a = []"
  by (simp add: wlog_def entries_def)

lemma entries_split: "a \<le> b \<Longrightarrow> b \<le> c \<Longrightarrow> entries K a c = entries K a b @ entries K b c"
  using upt_add_eq_append [of a b "c - b"] by (simp add: entries_def flip: map_append)

lemma wlog_split: "a \<le> b \<Longrightarrow> b \<le> c \<Longrightarrow> wlog crc K a c = wlog crc K a b @ wlog crc K b c"
  by (simp add: wlog_def entries_split [of a b c])

lemma enc_not_Nil: "enc crc e \<noteq> []"
  by (simp add: enc_def encode_entry_def entry_body_def Let_def)

text \<open>A prefix of a log is whole records and a torn one.\<close>

lemma take_wlog:
  "a \<le> N \<Longrightarrow> \<exists>b j'. a \<le> b \<and> b \<le> N \<and> j' < length (enc crc (b, K b)) \<and> (b = N \<longrightarrow> j' = 0)
     \<and> take j (wlog crc K a N) = wlog crc K a b @ take j' (enc crc (b, K b))
     \<and> (\<forall>D. a \<le> D \<and> D \<le> N \<and> length (wlog crc K a D) \<le> j \<longrightarrow> D \<le> b)"
proof (induction N)
  case 0
  then show ?case using enc_not_Nil by (intro exI [of _ 0]) auto
next
  case (Suc N)
  show ?case
  proof (cases "a = Suc N")
    case True
    then show ?thesis using enc_not_Nil by (intro exI [of _ "Suc N"] exI [of _ 0]) auto
  next
    case False
    then have le: "a \<le> N" using Suc.prems by simp
    let ?L = "length (wlog crc K a N)" and ?e = "enc crc (N, K N)"
    have mono: "D \<le> N" if "length (wlog crc K a D) \<le> j" "j < ?L + length ?e" "D \<le> Suc N" for D
      using that wlog_Suc [OF le, of crc K] by (cases "D = Suc N") auto
    consider "j < ?L" | "?L \<le> j" "j < ?L + length ?e" | "?L + length ?e \<le> j" by linarith
    then show ?thesis
    proof cases
      case 1
      from Suc.IH [OF le] obtain b j' where b: "a \<le> b" "b \<le> N" "j' < length (enc crc (b, K b))"
        "take j (wlog crc K a N) = wlog crc K a b @ take j' (enc crc (b, K b))"
        "\<forall>D. a \<le> D \<and> D \<le> N \<and> length (wlog crc K a D) \<le> j \<longrightarrow> D \<le> b"
        by blast
      moreover have "take j (wlog crc K a (Suc N)) = take j (wlog crc K a N)"
        using 1 by (simp add: wlog_Suc [OF le])
      ultimately show ?thesis
        using 1 mono by (intro exI [of _ b] exI [of _ j']) auto
    next
      case 2
      then have "take j (wlog crc K a (Suc N)) = wlog crc K a N @ take (j - ?L) ?e"
        by (simp add: wlog_Suc [OF le])
      with 2 le mono show ?thesis by (intro exI [of _ N] exI [of _ "j - ?L"]) auto
    next
      case 3
      then have "take j (wlog crc K a (Suc N)) = wlog crc K a (Suc N)"
        by (simp add: wlog_Suc [OF le])
      with le enc_not_Nil show ?thesis by (intro exI [of _ "Suc N"] exI [of _ 0]) auto
    qed
  qed
qed


subsection \<open>Replay\<close>

lemma replay_keys_ok:
  assumes "distinct keys" and "\<forall>k. (idx, k) \<notin> set seen" and "distinct (map fst index)"
  shows "\<exists>seen' index'. fold (replay_key idx) keys (seen, index) = (seen', index')
    \<and> fst ` set seen' \<subseteq> insert idx (fst ` set seen) \<and> distinct (map fst index')
    \<and> map_of index' = (\<lambda>k. if k \<in> set keys then Some (get_indices index k @ [idx]) else map_of index k)"
proof -
  have "\<exists>seen' index'. fold (replay_key idx) keys (seen, index) = (seen', index')
    \<and> set seen' = Pair idx ` set keys \<union> set seen \<and> distinct (map fst index')
    \<and> map_of index' = (\<lambda>k. if k \<in> set keys then Some (get_indices index k @ [idx]) else map_of index k)"
    using assms(1)
  proof (induction keys rule: rev_induct)
    case (snoc key keys)
    then obtain seen1 index1 where one: "fold (replay_key idx) keys (seen, index) = (seen1, index1)"
      "set seen1 = Pair idx ` set keys \<union> set seen" "distinct (map fst index1)"
      and m: "map_of index1 = (\<lambda>k. if k \<in> set keys then Some (get_indices index k @ [idx]) else map_of index k)"
      by auto
    have "(idx, key) \<notin> set seen1" using snoc.prems one(2) assms(2) by auto
    moreover have "get_indices index1 key = get_indices index key"
      using snoc.prems by (simp add: get_indices_def m)
    ultimately have "replay_key idx key (seen1, index1)
        = ((idx, key) # seen1, AList.update key (get_indices index key @ [idx]) index1)"
      by (simp add: replay_key_def)
    then show ?case using one by (auto simp: update_conv' m distinct_update fun_eq_iff)
  qed (use assms(3) in simp)
  then show ?thesis by fastforce
qed

lemma replay_wal_ok:
  assumes "list_all2 (frames crc) cs (entries K a b)" and "\<And>i. distinct (K i)" and "b \<le> u64_max"
    and "map_of index = index_spec K (max base a)" and "distinct (map fst index)"
    and "\<forall>i \<in> fst ` set seen. i < max base a"
  shows "\<exists>index'. replay_wal crc base \<lparr>rd_rest = concat cs, rd_valid_pos = pos\<rparr> (max base a) seen index
      = Inr (max base (max a b), index')
    \<and> map_of index' = index_spec K (max base (max a b)) \<and> distinct (map fst index')"
  using assms(1,4,5,6)
proof (induction "b - a" arbitrary: a cs seen index pos)
  case 0
  then have "max a b = a" and "cs = []" by (auto simp: entries_def)
  with 0 show ?case by (subst replay_wal.simps) (simp add: next_entry_def)
next
  case (Suc x)
  then have ab: "a < b" by simp
  then have "entries K a b = (a, K a) # entries K (Suc a) b" by (simp add: entries_def upt_conv_Cons)
  with Suc.prems(1) obtain c cs' where cs: "cs = c # cs'" "frames crc c (a, K a)"
    "list_all2 (frames crc) cs' (entries K (Suc a) b)"
    by (auto simp: list_all2_Cons2)
  note step = framesD [OF cs(2), of "concat cs'" pos]
  show ?case
  proof (cases "a < base")
    case True
    then have "max base (Suc a) = max base a" by simp
    with Suc.hyps(1) [OF _ cs(3), of index seen "pos + length c"] Suc.hyps(2) Suc.prems True ab step
    show ?thesis by (subst replay_wal.simps) (simp add: cs(1))
  next
    case False
    then have m: "map_of index = index_spec K a" and seen: "\<forall>k. (a, k) \<notin> set seen"
      using Suc.prems(2,4) by (auto simp: max_def)
    obtain seen' index' where f: "fold (replay_key a) (K a) (seen, index) = (seen', index')"
      "fst ` set seen' \<subseteq> insert a (fst ` set seen)" "distinct (map fst index')"
      and m': "map_of index' = (\<lambda>k. if k \<in> set (K a) then Some (get_indices index k @ [a]) else map_of index k)"
      using replay_keys_ok [OF assms(2) seen Suc.prems(3)] by blast
    have "map_of index' = index_spec K (Suc a)"
      by (auto simp: m' m get_indices_spec [OF m] index_spec_Suc)
    moreover have "\<forall>i \<in> fst ` set seen'. i < max base (Suc a)"
      using f(2) Suc.prems(4) False by fastforce
    ultimately have "\<exists>index''. replay_wal crc base \<lparr>rd_rest = concat cs', rd_valid_pos = pos + length c\<rparr>
          (max base (Suc a)) seen' index' = Inr (max base (max (Suc a) b), index'')
        \<and> map_of index'' = index_spec K (max base (max (Suc a) b)) \<and> distinct (map fst index'')"
      using Suc.hyps f(3) cs(3) False by (intro Suc.hyps(1)) (simp_all add: max_def)
    moreover have "max base (max (Suc a) b) = max base (max a b)" using ab by simp
    moreover have "max base a = a" and "max base (Suc a) = Suc a" using False by simp_all
    ultimately show ?thesis
      using step f(1) False ab assms(3) by (subst replay_wal.simps) (simp add: cs(1))
  qed
qed



subsection \<open>Opening from a prefix of a log\<close>

text \<open>The snapshot file holds the index of the first \<open>B\<close> entries; no file stands for none.\<close>

definition snap_holds :: "crc_fn \<Rightarrow> (nat \<Rightarrow> sha256_hash list) \<Rightarrow> nat \<Rightarrow> byte list option \<Rightarrow> bool" where
  "snap_holds crc K B bytes \<longleftrightarrow>
     (case bytes of
        None \<Rightarrow> B = 0
      | Some data \<Rightarrow> \<exists>index. parse_snapshot crc data = Inr (B, index)
          \<and> map_of index = index_spec K B \<and> distinct (map fst index))"

lemma snap_holds_read:
  assumes "snap_holds crc K B (sf_bytes snap)"
  obtains index where "(case read_snapshot crc snap of Some r \<Rightarrow> r | None \<Rightarrow> (0, [])) = (B, index)"
    and "map_of index = index_spec K B" and "distinct (map fst index)"
proof (cases "sf_bytes snap")
  case None
  with assms that [of "[]"] show ?thesis
    by (simp add: snap_holds_def read_snapshot_def index_spec_def fun_eq_iff)
next
  case (Some data)
  with assms that show ?thesis by (auto simp: snap_holds_def read_snapshot_def)
qed

lemma update_all_map_of:
  "distinct (map fst kvs) \<Longrightarrow> update_all kvs m = m ++ map_of kvs"
proof (induction kvs arbitrary: m)
  case (Cons kv kvs)
  obtain k v where kv: "kv = (k, v)" by (cases kv)
  have "k \<notin> dom (map_of kvs)" using Cons.prems kv by (simp add: dom_map_of_conv_image_fst)
  with Cons kv show ?case by (auto simp: fun_eq_iff map_add_def split: option.splits)
qed simp

lemma rebuild_tree_ok:
  assumes "distinct (map fst index)" and "iter_laws iter"
  shows "\<exists>tree. rebuild_tree sh (iter index) = Inr tree \<and> tree_follows sh (index, tree)"
proof -
  let ?kvs = "map (\<lambda>(k, is). (k, compute_value_hash sh is)) (iter index)"
  have perm: "mset (iter index) = mset index" using assms(2) by (simp add: iter_laws_def)
  then have dist: "distinct (map fst (iter index))"
    using assms(1) mset_eq_imp_distinct_iff [of "map fst (iter index)" "map fst index"] by simp
  have "map fst ?kvs = map fst (iter index)" by auto
  then have "distinct (map fst ?kvs)" using dist by (simp only:)
  then have "update_all ?kvs Map.empty = map_of ?kvs"
    by (simp only: update_all_map_of empty_map_add)
  also have "\<dots> = map_option (compute_value_hash sh) \<circ> map_of (iter index)"
    by (rule map_of_map)
  also have "map_of (iter index) = map_of index" using map_of_mset [OF dist perm] .
  finally have m: "update_all ?kvs Map.empty = map_option (compute_value_hash sh) \<circ> map_of index" .
  obtain tree where "insert_all (tree_insert sh) ?kvs tree_new = Some tree" "node_ok sh tree"
    "tree_map tree = update_all ?kvs Map.empty"
    using pt.insert_all_ok [OF pt.new_ok(1), of sh ?kvs] unfolding pt.new_ok(2) by blast
  with m assms(1) show ?thesis by (auto simp: rebuild_tree_def tree_follows_def)
qed

definition keys_fit :: "(nat \<Rightarrow> sha256_hash list) \<Rightarrow> nat \<Rightarrow> bool" where
  "keys_fit K N \<longleftrightarrow> N \<le> u64_max \<and> (\<forall>i < N. length (K i) \<le> 255) \<and> (\<forall>i. distinct (K i))"

lemma keys_fit_entry: "keys_fit K N \<Longrightarrow> i < N \<Longrightarrow> entry_fits (i, K i)"
  by (simp add: keys_fit_def entry_fits_def)

lemma keys_fit_mono: "keys_fit K N \<Longrightarrow> M \<le> N \<Longrightarrow> keys_fit K M"
  by (simp add: keys_fit_def)

lemma filter_entries: "filter (\<lambda>e. fst e < N) (entries K a b) = entries K a (min b N)"
proof -
  have "filter (\<lambda>i. i < N) [a..<b] = [a..<min b N]"
    by (induction b) (auto simp: min_def not_less_eq_eq dest: le_antisym)
  then show ?thesis by (simp add: entries_def filter_map comp_def)
qed

text \<open>Validation of whole records followed by a torn one.\<close>

lemma validate_log:
  assumes "keys_fit K N" and crc: "crc_laws crc" and ab: "a \<le> b" and "b \<le> N"
    and j: "j < length (enc crc (b, K b))" and last: "b = N \<Longrightarrow> j = 0"
    and f: "wf_bytes f = wlog crc K a b @ take j (enc crc (b, K b))"
    and io: "open_ok io" "set_len_ok io" "sync_ok io"
  shows "\<exists>f'. validate_and_truncate_wal crc io D (Some f)
      = (Inr (if a < min b D then min b D else 0), Some f') \<and> wf_bytes f' = wlog crc K a (min b D)"
proof -
  define t where "t = (if b = N then (0, []) else (b, K b))"
  have t: "entry_fits t" "j < length (enc crc t)" "take j (enc crc (b, K b)) = take j (enc crc t)"
    using assms(1,4) j last enc_not_Nil [of crc t] keys_fit_entry [of K N b]
    by (auto simp: t_def entry_fits_def)
  have fits: "\<forall>e \<in> set (entries K a b). entry_fits e"
    using assms(1,4) by (auto simp: entries_def intro: keys_fit_entry)
  have fsts: "map fst (entries K a c) = [a..<c]" for c by (simp add: entries_def comp_def)
  obtain f' where v: "validate_and_truncate_wal crc io D (Some f)
      = (Inr (case max_index (entries K a (min b D)) None of Some i \<Rightarrow> i + 1 | None \<Rightarrow> 0), Some f')"
    and f': "wf_bytes f' = wlog crc K a (min b D)"
    using validate_clean [OF fits t(1) crc _ t(2) _ io, of f D] f t(3)
    by (auto simp: fsts filter_entries wlog_def)
  have "max_index (entries K a (min b D)) None = (if a < min b D then Some (min b D - 1) else None)"
  proof (cases "a < min b D")
    case True
    then have "entries K a (min b D) \<noteq> []" by (auto simp: entries_def min_def split: if_splits)
    moreover from this have "fst (last (entries K a (min b D))) = last [a..<min b D]"
      by (metis fsts last_map)
    ultimately show ?thesis
      using True max_index_sorted [of "entries K a (min b D)"] by (simp add: fsts)
  next
    case False
    then have "[a..<min b D] = []" by (auto simp: min_def)
    then have "entries K a (min b D) = []" unfolding entries_def by (simp only: list.map)
    with False show ?thesis by (simp only: if_False max_index_def) simp
  qed
  with v f' show ?thesis by auto
qed

text \<open>What opening needs of the files: a snapshot of \<open>B\<close> entries, a log that starts at or before
  \<open>B\<close>, and together the first \<open>D\<close> entries.\<close>

definition image_good ::
  "crc_fn \<Rightarrow> (nat \<Rightarrow> sha256_hash list) \<Rightarrow> nat \<Rightarrow> wal_file option \<times> snap_file \<Rightarrow> bool" where
  "image_good crc K D = (\<lambda>(wal, snap). \<exists>a B N j.
     snap_holds crc K B (sf_bytes snap) \<and> a \<le> B \<and> B \<le> D \<and> a \<le> N \<and> keys_fit K N
     \<and> (\<exists>f. wal = Some f \<and> wf_bytes f = take j (wlog crc K a N))
     \<and> (D = B \<or> D \<le> N \<and> length (wlog crc K a D) \<le> j))"

lemma recover_ok:
  assumes good: "image_good crc K D img" and crc: "crc_laws crc" and iter: "iter_laws iter"
    and io: "open_ok io" "set_len_ok io" "sync_ok io"
  shows "\<exists>s img'. with_wal_and_batch_size sh crc iter lim io D batch img = (Inr s, img')
    \<and> vi_ok sh K D (vs_vi s)"
proof -
  obtain wal snap where img0: "img = (wal, snap)" by (cases img)
  from good obtain f a B N j where wal: "wal = Some f"
    and snap: "snap_holds crc K B (sf_bytes snap)" and aB: "a \<le> B" and BD: "B \<le> D" and aN: "a \<le> N"
    and fit: "keys_fit K N" and f: "wf_bytes f = take j (wlog crc K a N)"
    and cov: "D = B \<or> D \<le> N \<and> length (wlog crc K a D) \<le> j"
    unfolding image_good_def img0 prod.case by blast
  note img = img0 [unfolded wal]
  obtain b j' where b: "a \<le> b" "b \<le> N" "j' < length (enc crc (b, K b))" "b = N \<Longrightarrow> j' = 0"
    "take j (wlog crc K a N) = wlog crc K a b @ take j' (enc crc (b, K b))"
    "\<And>D. a \<le> D \<Longrightarrow> D \<le> N \<Longrightarrow> length (wlog crc K a D) \<le> j \<Longrightarrow> D \<le> b"
    using take_wlog [OF aN, of crc K j] by blast
  have Db: "D = B \<or> D \<le> b" using cov b(6) aB BD by auto
  let ?m = "min b D"
  have valid: "\<exists>f'. validate_and_truncate_wal crc io D (Some f) = (Inr (if a < ?m then ?m else 0), Some f')
      \<and> wf_bytes f' = wlog crc K a ?m"
    using validate_log [OF fit crc b(1-4) _ io] f b(5) by simp
  then obtain f' where v: "validate_and_truncate_wal crc io D (Some f) = (Inr (if a < ?m then ?m else 0), Some f')"
    and f': "wf_bytes f' = wlog crc K a ?m" by blast
  obtain index where index: "(case read_snapshot crc snap of Some r \<Rightarrow> r | None \<Rightarrow> (0, [])) = (B, index)"
    "map_of index = index_spec K B" "distinct (map fst index)"
    using snap_holds_read [OF snap] .
  have sizes: "\<not> max B (if a < ?m then ?m else 0) < D" and top: "max B (max a ?m) = D"
    using Db aB BD by (auto simp: max_def min_def)
  have "?m \<le> u64_max" using fit b(2) by (auto simp: keys_fit_def min_def)
  moreover have "max B a = B" using aB by simp
  moreover have "list_all2 (frames crc) (map (enc crc) (entries K a ?m)) (entries K a ?m)"
    using fit b(2) crc by (intro map_enc_frames) (auto simp: entries_def intro: keys_fit_entry)
  ultimately obtain index' where replay: "replay_wal crc B (reader_open (wf_bytes f')) B [] index = Inr (D, index')"
    and index': "map_of index' = index_spec K D" "distinct (map fst index')"
    using replay_wal_ok [of crc "map (enc crc) (entries K a ?m)" K a ?m index B "[]" 0] index(2,3) fit b(2) top
    by (auto simp: keys_fit_def f' wlog_def reader_open_def)
  obtain tree where "rebuild_tree sh (iter index') = Inr tree" and "tree_follows sh (index', tree)"
    using rebuild_tree_ok [OF index'(2) iter] by blast
  then show ?thesis
    using index(1) BD v sizes replay index' io
    by (auto simp: with_wal_and_batch_size_def img wal_open_def make_vindex_def vi_ok_def)
qed



subsection \<open>The log file during a run\<close>

text \<open>
  \<open>file_ok\<close>: the file holds the entries from \<open>a\<close> to \<open>m\<close>, of which those before \<open>d\<close> are
  synced; the rest up to \<open>n\<close> is in the buffer of a batched writer, which syncs all it writes.
  \<open>file_good\<close> is what is left of this when an operation fails.
\<close>

definition file_ok ::
  "crc_fn \<Rightarrow> (nat \<Rightarrow> sha256_hash list) \<Rightarrow> nat \<Rightarrow> nat \<Rightarrow> nat \<Rightarrow> nat \<Rightarrow> wal_writer \<Rightarrow> wal_file \<Rightarrow> bool" where
  "file_ok crc K a d m n w f \<longleftrightarrow>
     a \<le> d \<and> d \<le> m \<and> m \<le> n \<and> wf_bytes f = wlog crc K a m \<and> wf_durable f = wlog crc K a d
     \<and> (case w of NoWal \<Rightarrow> False | Unbatched \<Rightarrow> m = n | Batched b \<Rightarrow> bw_buffer b = entries K m n \<and> d = m)"

definition file_good ::
  "crc_fn \<Rightarrow> (nat \<Rightarrow> sha256_hash list) \<Rightarrow> nat \<Rightarrow> nat \<Rightarrow> nat \<Rightarrow> wal_file \<Rightarrow> bool" where
  "file_good crc K a d N f \<longleftrightarrow>
     (\<exists>d' j. a \<le> d \<and> d \<le> d' \<and> d' \<le> N \<and> wf_durable f = wlog crc K a d'
        \<and> length (wlog crc K a d') \<le> j \<and> wf_bytes f = take j (wlog crc K a N))"

lemma wlog_mono: "a \<le> b \<Longrightarrow> b \<le> c \<Longrightarrow> length (wlog crc K a b) \<le> length (wlog crc K a c)"
  by (simp add: wlog_split [of a b c])

lemma file_goodI:
  "a \<le> d \<Longrightarrow> d \<le> d' \<Longrightarrow> d' \<le> m \<Longrightarrow> m \<le> N \<Longrightarrow> wf_durable f = wlog crc K a d' \<Longrightarrow>
     wf_bytes f = wlog crc K a m @ take k (wlog crc K m N) \<Longrightarrow> file_good crc K a d N f"
  unfolding file_good_def
  by (intro exI [of _ d'] exI [of _ "length (wlog crc K a m) + k"])
    (simp add: wlog_split [of a m N] wlog_mono trans_le_add1)

lemma file_ok_good: "file_ok crc K a d m n w f \<Longrightarrow> n \<le> N \<Longrightarrow> file_good crc K a d N f"
  by (rule file_goodI [of a d d m N f crc K 0]) (auto simp: file_ok_def)

text \<open>Writing the records from \<open>m\<close> to \<open>N\<close>, with and without a sync.\<close>

lemma write_log:
  assumes "a \<le> d" "d \<le> m" "m \<le> N" and "wf_bytes f = wlog crc K a m" and "wf_durable f = wlog crc K a d"
    and "write_all io (wlog crc K m N) f = (r, f')"
  shows "file_good crc K a d N f'"
    and "r = Inr () \<Longrightarrow> wf_bytes f' = wlog crc K a N \<and> wf_durable f' = wlog crc K a d"
    and "r = Inr () \<or> r = Inl error.Internal"
proof -
  show "file_good crc K a d N f'"
  proof (cases "write_torn io")
    case None
    with assms show ?thesis
      by (intro file_goodI [of a d d m N f' crc K "length (wlog crc K m N)"]) (auto simp: write_all_def)
  next
    case (Some k)
    with assms show ?thesis
      by (intro file_goodI [of a d d m N f' crc K k]) (auto simp: write_all_def)
  qed
  show "r = Inr () \<Longrightarrow> wf_bytes f' = wlog crc K a N \<and> wf_durable f' = wlog crc K a d"
    and "r = Inr () \<or> r = Inl error.Internal"
    using assms by (auto simp: write_all_def wlog_split [of a m N] split: option.splits)
qed

lemma sync_log:
  assumes "a \<le> d" "d \<le> N" and "wf_bytes f = wlog crc K a N" and "wf_durable f = wlog crc K a d"
    and "sync_file io f = (r, f')"
  shows "file_good crc K a d N f'"
    and "r = Inr () \<Longrightarrow> wf_bytes f' = wlog crc K a N \<and> wf_durable f' = wlog crc K a N"
proof -
  have eq: "f' = (if sync_ok io then f\<lparr>wf_durable := wf_bytes f\<rparr> else f)"
    and r: "r = Inr () \<longleftrightarrow> sync_ok io"
    using assms(5) by (auto simp: sync_file_def split: if_splits)
  show "file_good crc K a d N f'"
    using assms(1-4)
    by (intro file_goodI [of a d "if sync_ok io then N else d" N N f' crc K 0]) (auto simp: eq)
  show "r = Inr () \<Longrightarrow> wf_bytes f' = wlog crc K a N \<and> wf_durable f' = wlog crc K a N"
    using assms(3) r by (simp add: eq)
qed

lemma encode_entries: "encode_batch crc [] (entries K m N) = wlog crc K m N"
  by (simp add: encode_batch_concat wlog_def)

lemma write_batch_log:
  assumes "a \<le> m" "m \<le> N" and "wf_bytes f = wlog crc K a m" and "wf_durable f = wlog crc K a m"
    and "bw_buffer b = entries K m N" and "wal_flush_batch crc io (b, f) = (r, (b', f'))"
  shows "file_good crc K a m N f'"
    and "r = Inr () \<Longrightarrow> file_ok crc K a N N N (Batched b') f'"
proof -
  have "file_good crc K a m N f' \<and> (r = Inr () \<longrightarrow> file_ok crc K a N N N (Batched b') f')"
  proof (cases "m = N")
    case True
    then have "bw_buffer b = []" using assms(5) by (simp add: entries_def)
    then have "r = Inr ()" "b' = b" "f' = f" using assms(6) by (auto simp: wal_flush_batch_def)
    moreover have "file_good crc K a m N f"
      using True assms(1,3,4) by (intro file_goodI [of a m m N N f crc K 0]) auto
    ultimately show ?thesis using assms(1,3-5) True by (simp add: file_ok_def)
  next
    case False
    then have "bw_buffer b \<noteq> []" using assms(2,5) by (simp add: entries_def)
    then have run: "wal_flush_batch crc io (b, f) =
        (case bind_st (write_all io (wlog crc K m N)) (\<lambda>_. sync_file io) f of
           (Inl e, f') \<Rightarrow> (Inl e, (b, f')) | (Inr _, f') \<Rightarrow> (Inr (), (b\<lparr>bw_buffer := []\<rparr>, f')))"
      by (simp add: wal_flush_batch_def assms(5) encode_entries)
    obtain rw f1 where w: "write_all io (wlog crc K m N) f = (rw, f1)" by fastforce
    note wr = write_log [OF assms(1) order.refl assms(2-4) w]
    from wr(3) show ?thesis
    proof
      assume ok: "rw = Inr ()"
      obtain rs f2 where sy: "sync_file io f1 = (rs, f2)" by fastforce
      note sl = sync_log [OF assms(1,2) conjunct1 [OF wr(2) [OF ok]] conjunct2 [OF wr(2) [OF ok]] sy]
      show ?thesis
        using sl assms(1,2,6) w sy ok
        by (cases rs) (auto simp: run bind_st_def file_ok_def entries_def)
    next
      assume "rw = Inl error.Internal"
      then show ?thesis using wr(1) assms(6) w by (auto simp: run bind_st_def)
    qed
  qed
  then show "file_good crc K a m N f'"
    and "r = Inr () \<Longrightarrow> file_ok crc K a N N N (Batched b') f'" by auto
qed


lemma append_log:
  assumes ok: "file_ok crc K a d m n w f" and fit: "length (K n) \<le> 255"
    and run: "variant_append crc io n (K n) (w, f) = (r, (w', f'))"
  shows "file_good crc K a d (Suc n) f' \<and> (r = Inr () \<longrightarrow> (\<exists>d' m'. d \<le> d' \<and> file_ok crc K a d' m' (Suc n) w' f'))"
proof (cases w)
  case NoWal
  with ok show ?thesis by (simp add: file_ok_def)
next
  case Unbatched
  then have f: "a \<le> d" "d \<le> n" "wf_bytes f = wlog crc K a n" "wf_durable f = wlog crc K a d"
    using ok by (auto simp: file_ok_def)
  have "encode_entry crc [] n (K n) = wlog crc K n (Suc n)" by (simp add: wlog_Suc enc_def)
  then have w: "write_all io (wlog crc K n (Suc n)) f = (r, f')" and "w' = Unbatched"
    using run fit Unbatched by (auto simp: variant_append_def binary_append_def split: prod.splits)
  note wl = write_log [OF f(1,2) le_SucI [OF order.refl] f(3,4) w]
  then have "r = Inr () \<Longrightarrow> file_ok crc K a d (Suc n) (Suc n) w' f'"
    using \<open>w' = Unbatched\<close> f(1,2) by (simp add: file_ok_def)
  with wl(1) show ?thesis by blast
next
  case (Batched b)
  then have f: "a \<le> m" "m \<le> n" "d = m" "wf_bytes f = wlog crc K a m" "wf_durable f = wlog crc K a m"
    and buf: "bw_buffer b = entries K m n"
    using ok by (auto simp: file_ok_def)
  let ?b = "b\<lparr>bw_buffer := bw_buffer b @ [(n, K n)]\<rparr>"
  have buf': "bw_buffer ?b = entries K m (Suc n)" using buf f(2) by (simp add: entries_def)
  show ?thesis
  proof (cases "bw_batch_size ?b \<le> length (bw_buffer ?b)")
    case True
    then obtain b' where "wal_flush_batch crc io (?b, f) = (r, (b', f'))" and w': "w' = Batched b'"
      using run fit Batched by (auto simp: variant_append_def batched_append_def Let_def split: prod.splits)
    with write_batch_log [OF f(1) le_SucI [OF f(2)] f(4,5) buf'] f(2,3) show ?thesis
      by (auto intro!: exI [of _ "Suc n"])
  next
    case False
    then have eqs: "r = Inr ()" "w' = Batched ?b" "f' = f"
      using run fit Batched by (auto simp: variant_append_def batched_append_def Let_def split: prod.splits)
    moreover have "file_ok crc K a m m (Suc n) (Batched ?b) f"
      using f buf' by (simp add: file_ok_def)
    ultimately show ?thesis
      using file_ok_good [of crc K a m m "Suc n" "Batched ?b" f "Suc n"] f(3) by auto
  qed
qed

lemma flush_log:
  assumes ok: "file_ok crc K a d m n w f" and run: "variant_flush crc io (w, f) = (r, (w', f'))"
  shows "file_good crc K a d n f' \<and> (r = Inr () \<longrightarrow> file_ok crc K a n n n w' f')"
proof (cases w)
  case NoWal
  with ok show ?thesis by (simp add: file_ok_def)
next
  case Unbatched
  then have f: "a \<le> d" "d \<le> n" "wf_bytes f = wlog crc K a n" "wf_durable f = wlog crc K a d"
    using ok by (auto simp: file_ok_def)
  have sy: "sync_file io f = (r, f')" and "w' = Unbatched"
    using run Unbatched by (auto simp: variant_flush_def binary_flush_def split: prod.splits)
  with sync_log [OF f sy] f(1,2) show ?thesis by (simp add: file_ok_def)
next
  case (Batched b)
  then have f: "a \<le> m" "m \<le> n" "d = m" "wf_bytes f = wlog crc K a m" "wf_durable f = wlog crc K a m"
    and buf: "bw_buffer b = entries K m n"
    using ok by (auto simp: file_ok_def)
  obtain b' where "wal_flush_batch crc io (b, f) = (r, (b', f'))" and "w' = Batched b'"
    using run Batched
    by (auto simp: variant_flush_def batched_flush_def wal_flush_batch_def split: prod.splits if_splits)
  with write_batch_log [OF f(1,2,4,5) buf] f(3) show ?thesis by auto
qed

text \<open>Truncation: without a sync the old content may come back.\<close>

lemma truncate_log:
  assumes ok: "file_ok crc K a n n n w f" and run: "variant_truncate io (w, f) = (r, (w', f'))"
  shows "(file_good crc K a n n f' \<or> wf_bytes f' = [] \<and> wf_durable f' \<in> {wlog crc K a n, []})
    \<and> (r = Inr () \<longrightarrow> file_ok crc K n n n n w' f')"
proof -
  have good: "file_good crc K a n n f" using file_ok_good [OF ok] by simp
  have f: "a \<le> n" "wf_durable f = wlog crc K a n" using ok by (auto simp: file_ok_def)
  let ?t = "bind_st (set_len io 0) (\<lambda>_. sync_file io) f"
  have t: "?t = (if \<not> set_len_ok io then (Inl error.Internal, f)
      else if \<not> sync_ok io then (Inl error.Internal, f\<lparr>wf_bytes := []\<rparr>)
      else (Inr (), f\<lparr>wf_bytes := [], wf_durable := []\<rparr>))"
    by (simp add: bind_st_def set_len_def sync_file_def)
  show ?thesis
  proof (cases w)
    case NoWal
    with ok show ?thesis by (simp add: file_ok_def)
  next
    case Unbatched
    then have "?t = (r, f')" and "w' = Unbatched"
      using run by (auto simp: variant_truncate_def binary_truncate_def split: prod.splits)
    with good f show ?thesis unfolding t by (auto simp: file_ok_def split: if_splits)
  next
    case (Batched b)
    then have "bw_buffer b = []" using ok by (simp add: file_ok_def entries_def)
    then have "?t = (r, f')" and "w' = Batched b"
      using run Batched by (auto simp: variant_truncate_def batched_truncate_def split: prod.splits)
    with good f \<open>bw_buffer b = []\<close> show ?thesis unfolding t
      by (auto simp: file_ok_def entries_def split: if_splits)
  qed
qed



subsection \<open>Crashes\<close>

definition crash_image :: "vstate \<Rightarrow> wal_file option \<times> snap_file \<Rightarrow> bool" where
  "crash_image s = (\<lambda>(wal, snap). \<exists>f.
     wal = Some f
     \<and> (wf_bytes f = wf_durable (vs_wal s)
        \<or> (\<exists>j. wf_bytes f = take j (wf_bytes (vs_wal s))
             \<and> (prefix (wf_durable (vs_wal s)) (wf_bytes (vs_wal s)) \<longrightarrow> length (wf_durable (vs_wal s)) \<le> j)))
     \<and> sf_bytes snap \<in> {sf_bytes (vs_snap s), sf_durable (vs_snap s)})"

text \<open>The two snapshots that may be found, both from an index of at most \<open>D\<close> entries.\<close>

definition snaps_hold :: "crc_fn \<Rightarrow> (nat \<Rightarrow> sha256_hash list) \<Rightarrow> nat \<Rightarrow> nat \<Rightarrow> snap_file \<Rightarrow> bool" where
  "snaps_hold crc K a D snap \<longleftrightarrow>
     (\<forall>bytes \<in> {sf_bytes snap, sf_durable snap}. \<exists>B. snap_holds crc K B bytes \<and> a \<le> B \<and> B \<le> D)"

lemma images_good:
  assumes "file_good crc K a d N (vs_wal s)" and "keys_fit K N" and "snaps_hold crc K a D (vs_snap s)"
    and "D \<le> d" and "crash_image s img"
  shows "image_good crc K D img"
proof -
  obtain f snap where img: "img = (Some f, snap)"
    and f: "wf_bytes f = wf_durable (vs_wal s)
      \<or> (\<exists>k. wf_bytes f = take k (wf_bytes (vs_wal s))
           \<and> (prefix (wf_durable (vs_wal s)) (wf_bytes (vs_wal s)) \<longrightarrow> length (wf_durable (vs_wal s)) \<le> k))"
    and snap: "sf_bytes snap \<in> {sf_bytes (vs_snap s), sf_durable (vs_snap s)}"
    using assms(5) unfolding crash_image_def by (cases img) blast
  obtain B where B: "snap_holds crc K B (sf_bytes snap)" "a \<le> B" "B \<le> D"
    using assms(3) snap unfolding snaps_hold_def by blast
  obtain d' j where d: "a \<le> d" "d \<le> d'" "d' \<le> N" and dur: "wf_durable (vs_wal s) = wlog crc K a d'"
    and j: "length (wlog crc K a d') \<le> j" and bytes: "wf_bytes (vs_wal s) = take j (wlog crc K a N)"
    using assms(1) unfolding file_good_def by blast
  have whole: "take (length (wlog crc K a d')) (wlog crc K a N) = wlog crc K a d'"
    using d by (simp add: wlog_split [of a d' N])
  have "prefix (wf_durable (vs_wal s)) (wf_bytes (vs_wal s))"
    unfolding bytes dur using j d by (simp add: wlog_split [of a d' N])
  with f consider "wf_bytes f = wlog crc K a d'"
    | i where "wf_bytes f = take i (take j (wlog crc K a N))" "length (wlog crc K a d') \<le> i"
    using dur bytes by auto
  then have "\<exists>k. wf_bytes f = take k (wlog crc K a N) \<and> length (wlog crc K a d') \<le> k"
  proof cases
    case 1
    then show ?thesis using whole by (intro exI [of _ "length (wlog crc K a d')"]) simp
  next
    case (2 i)
    then show ?thesis using j by (intro exI [of _ "min i j"]) simp
  qed
  then obtain k where k: "wf_bytes f = take k (wlog crc K a N)" "length (wlog crc K a d') \<le> k" by blast
  moreover have "length (wlog crc K a D) \<le> k"
    using wlog_mono [of a D d' crc K] B(2,3) assms(4) d k(2) by linarith
  ultimately show ?thesis
    using B assms(2,4) d unfolding image_good_def img prod.case
    by (intro exI [of _ a] exI [of _ B] exI [of _ N] exI [of _ k]) auto
qed

lemma images_truncated:
  assumes "wf_bytes (vs_wal s) = []" and "wf_durable (vs_wal s) \<in> {wlog crc K a n, []}" and "a \<le> n"
    and "keys_fit K n" and "\<forall>bytes \<in> {sf_bytes (vs_snap s), sf_durable (vs_snap s)}. snap_holds crc K n bytes"
    and "crash_image s img"
  shows "image_good crc K n img"
proof -
  obtain f snap where img: "img = (Some f, snap)" and f: "wf_bytes f = [] \<or> wf_bytes f = wlog crc K a n"
    and snap: "snap_holds crc K n (sf_bytes snap)"
    using assms(1,2,5,6) unfolding crash_image_def by (cases img) auto
  from f have "\<exists>k. wf_bytes f = take k (wlog crc K a n)"
    by (metis take_0 take_all_iff le_refl)
  with snap assms(3,4) show ?thesis unfolding image_good_def img prod.case by blast
qed


subsection \<open>Runs\<close>

definition clean ::
  "digest \<Rightarrow> crc_fn \<Rightarrow> (nat \<Rightarrow> sha256_hash list) \<Rightarrow> nat \<Rightarrow> nat \<Rightarrow> nat \<Rightarrow> vstate \<Rightarrow> bool" where
  "clean sh crc K B d n s \<longleftrightarrow>
     (\<exists>a m. vi_ok sh K n (vs_vi s) \<and> keys_fit K n \<and> a \<le> B \<and> B \<le> d
        \<and> file_ok crc K a d m n (vi_writer (vs_vi s)) (vs_wal s)
        \<and> sf_durable (vs_snap s) = sf_bytes (vs_snap s) \<and> snap_holds crc K B (sf_bytes (vs_snap s)))"

lemma clean_images:
  assumes "clean sh crc K B d n s" and "B \<le> D" and "D \<le> d" and "crash_image s img"
  shows "image_good crc K D img"
proof -
  obtain a m where "a \<le> B" "keys_fit K n" "file_ok crc K a d m n (vi_writer (vs_vi s)) (vs_wal s)"
    "sf_durable (vs_snap s) = sf_bytes (vs_snap s)" "snap_holds crc K B (sf_bytes (vs_snap s))"
    using assms(1) unfolding clean_def by blast
  then show ?thesis
    using assms(2-4) by (intro images_good [OF file_ok_good [OF _ order.refl]]) (auto simp: snaps_hold_def)
qed

lemma index_entry_run:
  assumes cl: "clean sh crc K B d n s" and K: "\<And>i. K i = entry_keys map_fn (data i)" and n: "n < u64_max"
    and run: "index_entry sh crc map_fn io n (data n) s = (r, s')"
  shows "(\<forall>img D. B \<le> D \<and> D \<le> d \<and> crash_image s' img \<longrightarrow> image_good crc K D img)
    \<and> (r = Inr () \<longrightarrow> (\<exists>d' \<ge> d. clean sh crc K B d' (Suc n) s'))"
proof -
  obtain a m where ok: "vi_ok sh K n (vs_vi s)" and fit: "keys_fit K n" and B: "a \<le> B" "B \<le> d"
    and fok: "file_ok crc K a d m n (vi_writer (vs_vi s)) (vs_wal s)"
    and snap: "sf_durable (vs_snap s) = sf_bytes (vs_snap s)" "snap_holds crc K B (sf_bytes (vs_snap s))"
    using cl unfolding clean_def by blast
  have fit': "keys_fit K (Suc n)" if "length (K n) \<le> 255"
    using fit that n by (auto simp: keys_fit_def less_Suc_eq)
  have images: "image_good crc K D img"
    if "file_good crc K a d (Suc n) (vs_wal s')" "vs_snap s' = vs_snap s" "length (K n) \<le> 255"
      and "B \<le> D" "D \<le> d" "crash_image s' img" for D img
    using that snap B fit' by (intro images_good [OF that(1)]) (auto simp: snaps_hold_def)
  show ?thesis using ok K [of n] n run
  proof (cases rule: index_next_cases)
    case (refused e)
    then show ?thesis using clean_images [OF cl] by auto
  next
    case (failed e)
    then obtain w f where "variant_append crc (v_append io) n (K n) (vi_writer (vs_vi s), vs_wal s) = (Inl e, (w, f))"
      and s': "s' = s\<lparr>vs_vi := (vs_vi s)\<lparr>vi_writer := w\<rparr>, vs_wal := f\<rparr>"
      by (auto simp: on_wal_eq)
    with append_log [OF fok failed(2)] have "file_good crc K a d (Suc n) (vs_wal s')" by auto
    with images failed s' show ?thesis by auto
  next
    case (indexed s1)
    then obtain w f where "variant_append crc (v_append io) n (K n) (vi_writer (vs_vi s), vs_wal s) = (Inr (), (w, f))"
      and s1: "s1 = s\<lparr>vs_vi := (vs_vi s)\<lparr>vi_writer := w\<rparr>, vs_wal := f\<rparr>"
      by (auto simp: on_wal_eq)
    with append_log [OF fok indexed(2)] obtain d' m' where good: "file_good crc K a d (Suc n) f"
      and d': "d \<le> d'" and fok': "file_ok crc K a d' m' (Suc n) w f" by blast
    have s': "vs_wal s' = f" "vs_snap s' = vs_snap s" "vi_writer (vs_vi s') = w" using indexed s1 by auto
    have "clean sh crc K B d' (Suc n) s'"
      unfolding clean_def using indexed(4) fit' [OF indexed(2)] B d' fok' snap s'
      by (intro exI [of _ a] exI [of _ m']) auto
    with images good s' indexed(2) d' show ?thesis by auto
  qed
qed

lemma flush_run:
  assumes cl: "clean sh crc K B d n s" and run: "vindex_flush crc io s = (r, s')"
  shows "(\<forall>img D. B \<le> D \<and> D \<le> d \<and> crash_image s' img \<longrightarrow> image_good crc K D img)
    \<and> (r = Inr () \<longrightarrow> clean sh crc K B n n s')"
proof -
  obtain a m where ok: "vi_ok sh K n (vs_vi s)" and fit: "keys_fit K n" and B: "a \<le> B" "B \<le> d"
    and fok: "file_ok crc K a d m n (vi_writer (vs_vi s)) (vs_wal s)"
    and snap: "sf_durable (vs_snap s) = sf_bytes (vs_snap s)" "snap_holds crc K B (sf_bytes (vs_snap s))"
    using cl unfolding clean_def by blast
  obtain w f where v: "variant_flush crc (v_flush io) (vi_writer (vs_vi s), vs_wal s) = (r, (w, f))"
    and s': "s' = s\<lparr>vs_vi := (vs_vi s)\<lparr>vi_writer := w\<rparr>, vs_wal := f\<rparr>"
    using run by (auto simp: vindex_flush_def on_wal_eq)
  note fl = flush_log [OF fok v]
  have "image_good crc K D img" if "B \<le> D" "D \<le> d" "crash_image s' img" for D img
    using that fl fit snap B s' by (intro images_good [of crc K a d n s']) (auto simp: snaps_hold_def)
  moreover have "d \<le> n" using fok by (simp add: file_ok_def)
  then have "clean sh crc K B n n s'" if "r = Inr ()"
    unfolding clean_def using fl that ok fit B snap s' by (intro exI [of _ a] exI [of _ n]) auto
  ultimately show ?thesis by blast
qed


text \<open>An index of less than \<open>2 ^ 32\<close> entries fits the fields of a snapshot.\<close>

lemma vi_ok_index_ok:
  assumes "vi_ok sh K n vi" and "n < 2 ^ 32"
  shows "index_ok n (vi_index vi)"
proof -
  have m: "map_of (vi_index vi) = index_spec K n" and dist: "distinct (map fst (vi_index vi))"
    using assms(1) by (auto simp: vi_ok_def tree_follows_def)
  have "sorted_wrt (<) is \<and> list_all (\<lambda>i. i < n) is \<and> length is < 2 ^ 32" if "(k, is) \<in> set (vi_index vi)" for k "is"
  proof -
    have "index_spec K n k = Some is" using m map_of_is_SomeI [OF dist that] by simp
    then have pos: "is = key_positions K n k" by (simp add: index_spec_def Let_def split: if_splits)
    have "length (key_positions K n k) \<le> n"
      unfolding key_positions_def using length_filter_le [of _ "[0..<n]"] by (metis diff_zero length_upt)
    then show ?thesis
      unfolding pos using key_positions_sorted key_positions_less assms(2) by (auto simp: list_all_iff)
  qed
  with dist show ?thesis by (auto simp: index_ok_def list_all_iff)
qed

lemma vi_ok_key_count:
  assumes "vi_ok sh K n vi" and "keys_fit K n" and "n < 2 ^ 32"
  shows "length (vi_index vi) < 2 ^ 64"
proof -
  have m: "map_of (vi_index vi) = index_spec K n" and dist: "distinct (map fst (vi_index vi))"
    using assms(1) by (auto simp: vi_ok_def tree_follows_def)
  have "fst ` set (vi_index vi) \<subseteq> (\<Union>i \<in> {..<n}. set (K i))"
  proof
    fix k assume "k \<in> fst ` set (vi_index vi)"
    then have "index_spec K n k \<noteq> None" using m by (simp add: map_of_eq_None_iff flip: m)
    then show "k \<in> (\<Union>i \<in> {..<n}. set (K i))"
      by (auto simp: index_spec_def Let_def key_positions_def filter_empty_conv split: if_splits)
  qed
  then have "card (fst ` set (vi_index vi)) \<le> card (\<Union>i \<in> {..<n}. set (K i))"
    by (intro card_mono) auto
  also have "\<dots> \<le> (\<Sum>i \<in> {..<n}. card (set (K i)))" by (rule card_UN_le) simp
  also have "\<dots> \<le> (\<Sum>i \<in> {..<n}. 255)"
    using assms(2) by (intro sum_mono) (auto simp: keys_fit_def intro: order.trans [OF card_length])
  finally have "card (fst ` set (vi_index vi)) \<le> n * 255" by simp
  moreover have "card (fst ` set (vi_index vi)) = length (vi_index vi)"
    using distinct_card [OF dist] by simp
  ultimately show ?thesis using assms(3) by simp
qed

lemma new_snapshot_holds:
  assumes "vi_ok sh K n vi" and "keys_fit K n" and "n < 2 ^ 32" and "crc_laws crc" and "iter_laws iter"
  shows "snap_holds crc K n (Some (snapshot_bytes crc n (iter (vi_index vi))))"
proof -
  have perm: "mset (iter (vi_index vi)) = mset (vi_index vi)" using assms(5) by (simp add: iter_laws_def)
  then have ok: "index_ok n (iter (vi_index vi))"
    using vi_ok_index_ok [OF assms(1,3)] index_ok_mset by blast
  then have dist: "distinct (map fst (iter (vi_index vi)))" by (simp add: index_ok_def)
  have "parse_snapshot crc (snapshot_bytes crc n (iter (vi_index vi))) = Inr (n, iter (vi_index vi))"
    using parse_snapshot_bytes [OF assms(4) ok] vi_ok_key_count [OF assms(1-3)] assms(3) mset_eq_length [OF perm]
    by simp
  moreover have "map_of (iter (vi_index vi)) = index_spec K n"
    using map_of_mset [OF dist perm] assms(1) by (simp add: vi_ok_def)
  ultimately show ?thesis using dist by (simp add: snap_holds_def)
qed

text \<open>The last step of a snapshot, once the new file is in place: the log is emptied.\<close>

lemma truncate_run:
  assumes fok: "file_ok crc K a n n n w0 f0" and tr: "variant_truncate io (w0, f0) = (r3, (w, f))"
    and fit: "keys_fit K n" and a: "a \<le> n"
    and s': "vs_wal s' = f" "vi_writer (vs_vi s') = w" "vi_ok sh K n (vs_vi s')"
      "vs_snap s' = \<lparr>sf_bytes = new, sf_durable = new\<rparr>"
    and new: "snap_holds crc K n new"
  shows "(\<forall>img. crash_image s' img \<longrightarrow> image_good crc K n img) \<and> (r3 = Inr () \<longrightarrow> clean sh crc K n n n s')"
proof -
  note tl = truncate_log [OF fok tr]
  have "image_good crc K n img" if "crash_image s' img" for img
  proof (cases "file_good crc K a n n f")
    case True
    with that s' new a fit show ?thesis
      by (intro images_good [of crc K a n n s' n img]) (auto simp: snaps_hold_def)
  next
    case False
    with tl s' new a fit that show ?thesis
      by (intro images_truncated [of s' crc K a n img]) auto
  qed
  moreover have "clean sh crc K n n n s'" if "r3 = Inr ()"
    unfolding clean_def using that tl s' new fit by (intro exI [of _ n]) auto
  ultimately show ?thesis by blast
qed

lemma snapshot_run:
  assumes cl: "clean sh crc K B d n s" and laws: "crc_laws crc" "iter_laws iter" and n: "n < 2 ^ 32"
    and run: "vindex_snapshot crc iter io s = (r, s')"
  shows "(d = n \<longrightarrow> (\<forall>img. crash_image s' img \<longrightarrow> image_good crc K n img))
    \<and> (r = Inr () \<longrightarrow> clean sh crc K n n n s')"
proof -
  have "vi_writer (vs_vi s) \<noteq> NoWal" using cl by (auto simp: clean_def file_ok_def)
  moreover obtain r1 s1 where fl: "vindex_flush crc io s = (r1, s1)" by fastforce
  ultimately have run1: "vindex_snapshot crc iter io s = (case r1 of Inl e \<Rightarrow> (Inl e, s1) | Inr _ \<Rightarrow>
      bind_st (\<lambda>s. case write_snapshot crc iter (v_snapshot io) (vi_tree_size (vs_vi s))
                          (vi_index (vs_vi s)) (vs_snap s) of (r, f) \<Rightarrow> (r, s\<lparr>vs_snap := f\<rparr>)) (\<lambda>_.
      bind_st (on_wal (variant_truncate (v_truncate io))) (\<lambda>_.
        (\<lambda>s. (Inr (), s\<lparr>vs_vi := (vs_vi s)\<lparr>vi_entries_since_snapshot := 0\<rparr>\<rparr>)))) s1)"
    by (auto simp: vindex_snapshot_def vindex_flush_def bind_st_def split: sum.split)
  note flr = flush_run [OF cl fl]
  have Bd: "B \<le> d" using cl by (auto simp: clean_def)
  show ?thesis
  proof (cases r1)
    case (Inl e)
    then show ?thesis using run run1 flr Bd by auto
  next
    case (Inr u)
    then have cl1: "clean sh crc K B n n s1" using flr by simp
    then obtain a m where ok: "vi_ok sh K n (vs_vi s1)" and fit: "keys_fit K n" and B: "a \<le> B" "B \<le> n"
      and fok: "file_ok crc K a n m n (vi_writer (vs_vi s1)) (vs_wal s1)"
      and snap: "sf_durable (vs_snap s1) = sf_bytes (vs_snap s1)" "snap_holds crc K B (sf_bytes (vs_snap s1))"
      unfolding clean_def by blast
    then have fokn: "file_ok crc K a n n n (vi_writer (vs_vi s1)) (vs_wal s1)" by (auto simp: file_ok_def)
    let ?new = "Some (snapshot_bytes crc n (iter (vi_index (vs_vi s1))))"
    have new: "snap_holds crc K n ?new" by (rule new_snapshot_holds [OF ok fit n laws])
    have size: "vi_tree_size (vs_vi s1) = n" using ok by (simp add: vi_ok_def)
    show ?thesis
    proof (cases "v_snapshot io")
      case Snap_Fails_Before
      then have "s' = s1" "r \<noteq> Inr ()" using run run1 Inr by (auto simp: write_snapshot_def bind_st_def Let_def)
      then show ?thesis using clean_images [OF cl1 B(2) order.refl] by auto
    next
      case Snap_Fails_After
      then have s': "s' = s1\<lparr>vs_snap := (vs_snap s1)\<lparr>sf_bytes := ?new\<rparr>\<rparr>" "r \<noteq> Inr ()"
        using run run1 Inr size by (auto simp: write_snapshot_def bind_st_def Let_def)
      have "image_good crc K n img" if "crash_image s' img" for img
        using that s' snap new B fit file_ok_good [OF fokn order.refl]
        by (intro images_good [of crc K a n n s' n img]) (auto simp: snaps_hold_def)
      with s'(2) show ?thesis by blast
    next
      case Snap_Ok
      obtain r3 w f where tr: "variant_truncate (v_truncate io) (vi_writer (vs_vi s1), vs_wal s1) = (r3, (w, f))"
        by (metis surj_pair)
      then have s': "vs_wal s' = f" "vs_snap s' = \<lparr>sf_bytes = ?new, sf_durable = ?new\<rparr>" "r = Inr () \<longleftrightarrow> r3 = Inr ()"
        "vi_writer (vs_vi s') = w" "vi_ok sh K n (vs_vi s')"
        using run run1 Inr size Snap_Ok ok
        by (auto simp: write_snapshot_def bind_st_def Let_def on_wal_def split: sum.splits)
      have "a \<le> n" using B by simp
      from truncate_run [OF fokn tr fit this s'(1,4,5,2) new] s'(3) show ?thesis by blast
    qed
  qed
qed



text \<open>
  \<open>vindex_run B d n s\<close>: from fresh files, successful operations reached \<open>s\<close> with \<open>n\<close> entries
  indexed, a snapshot of \<open>B\<close> and the first \<open>d\<close> flushed. Refused and repeated calls of
  \<open>index_entry\<close> leave the state as it is and need no rule.
\<close>

definition no_files :: "wal_file option \<times> snap_file" where
  "no_files = (None, \<lparr>sf_bytes = None, sf_durable = None\<rparr>)"

inductive vindex_run ::
  "digest \<Rightarrow> crc_fn \<Rightarrow> (index_map \<Rightarrow> index_map) \<Rightarrow> (byte list \<Rightarrow> sha256_hash list) \<Rightarrow> (nat \<Rightarrow> byte list)
     \<Rightarrow> nat \<Rightarrow> nat \<Rightarrow> nat \<Rightarrow> vstate \<Rightarrow> bool"
  for sh crc iter map_fn data where
  vr_open: "with_wal_and_batch_size sh crc iter lim io 0 batch no_files = (Inr s, fs)
     \<Longrightarrow> vindex_run sh crc iter map_fn data 0 0 0 s"
| vr_entry: "vindex_run sh crc iter map_fn data B d n s \<Longrightarrow> n < 2 ^ 32
     \<Longrightarrow> index_entry sh crc map_fn io n (data n) s = (Inr (), s')
     \<Longrightarrow> vindex_run sh crc iter map_fn data B d (Suc n) s'"
| vr_flush: "vindex_run sh crc iter map_fn data B d n s
     \<Longrightarrow> vindex_flush crc io s = (Inr (), s')
     \<Longrightarrow> vindex_run sh crc iter map_fn data B n n s'"
| vr_snapshot: "vindex_run sh crc iter map_fn data B d n s \<Longrightarrow> n < 2 ^ 32
     \<Longrightarrow> vindex_snapshot crc iter io s = (Inr (), s')
     \<Longrightarrow> vindex_run sh crc iter map_fn data n n n s'"

lemma open_fresh:
  assumes "with_wal_and_batch_size sh crc iter lim io 0 batch no_files = (Inr s, fs)"
    and "iter_laws iter" and "\<And>i. distinct (K i)"
  shows "clean sh crc K 0 0 0 s"
proof -
  have iter: "iter [] = []" using assms(2) by (metis iter_laws_def mset_zero_iff)
  have tree: "rebuild_tree sh (iter []) = Inr tree_new" by (simp add: rebuild_tree_def iter)
  have "s = \<lparr>vs_vi = make_vindex lim batch 0 0 [] tree_new, vs_wal = \<lparr>wf_bytes = [], wf_durable = []\<rparr>,
      vs_snap = \<lparr>sf_bytes = None, sf_durable = None\<rparr>\<rparr>"
    using assms(1) tree
    by (auto simp: with_wal_and_batch_size_def no_files_def read_snapshot_def validate_and_truncate_wal_def
        wal_open_def split: if_splits)
  moreover have "tree_follows sh ([], tree_new)"
    by (simp add: tree_follows_def pt.new_ok fun_eq_iff)
  ultimately show ?thesis using assms(3)
    by (auto simp: clean_def vi_ok_def make_vindex_def keys_fit_def file_ok_def snap_holds_def entries_def
        index_spec_def fun_eq_iff)
qed

lemma run_clean:
  assumes "vindex_run sh crc iter map_fn data B d n s" and laws: "crc_laws crc" "iter_laws iter"
    and K: "\<And>i. K i = entry_keys map_fn (data i)"
  shows "\<exists>d' \<ge> d. clean sh crc K B d' n s"
  using assms(1)
proof induction
  case (vr_open lim io batch s fs)
  have "clean sh crc K 0 0 0 s"
    by (rule open_fresh [OF vr_open.hyps laws(2)]) (simp add: K distinct_entry_keys)
  then show ?case by blast
next
  case (vr_entry B d n s io s')
  then obtain d' where "d \<le> d'" "clean sh crc K B d' n s" by blast
  moreover have "n < u64_max" using vr_entry.hyps(2) by simp
  ultimately show ?case
    using index_entry_run [where map_fn = map_fn and data = data, OF _ K _ vr_entry.hyps(3)]
    by (meson order.trans)
next
  case (vr_flush B d n s io s')
  then show ?case using flush_run [OF _ vr_flush.hyps(2)] by blast
next
  case (vr_snapshot B d n s io s')
  then show ?case using snapshot_run [OF _ laws vr_snapshot.hyps(2,3)] by blast
qed

text \<open>C35. Crash recovery of the index: after any run of successful operations, let an operation start
  and the process die at any moment, with its writes torn or lost as far as they were not synced.
  If the database then says \<open>D\<close> entries are integrated, where \<open>D\<close> lies between the last snapshot
  and the last flush, reopening succeeds and yields exactly the index of the first \<open>D\<close> entries.
  (A snapshot is taken only when all indexed entries are integrated.)\<close>

theorem vindex_crash_recovery:
  assumes "crc_laws crc" and "iter_laws iter" and "vindex_run sh crc iter map_fn data B d n s" and "n < 2 ^ 32"
    and "index_entry sh crc map_fn vio n (data n) s = (r, s') \<or> vindex_flush crc vio s = (r, s')
      \<or> D = n \<and> vindex_snapshot crc iter vio s = (r, s')"
    and "B \<le> D" and "D \<le> d" and "crash_image s' img"
    and "open_ok io" and "set_len_ok io" and "sync_ok io"
  shows "\<exists>v img'. with_wal_and_batch_size sh crc iter lim io D batch img = (Inr v, img')
    \<and> vi_ok sh (\<lambda>i. entry_keys map_fn (data i)) D (vs_vi v)"
proof -
  let ?K = "\<lambda>i. entry_keys map_fn (data i)"
  obtain d' where d': "d \<le> d'" and cl: "clean sh crc ?K B d' n s"
    using run_clean [OF assms(3,1,2), of ?K] by blast
  have n: "n < u64_max" using assms(4) by simp
  have D: "B \<le> D" "D \<le> d'" using assms(6,7) d' by simp_all
  from assms(5) have "image_good crc ?K D img"
  proof (elim disjE conjE)
    assume "index_entry sh crc map_fn vio n (data n) s = (r, s')"
    from index_entry_run [where map_fn = map_fn and data = data, OF cl refl n this] D assms(8) show ?thesis by blast
  next
    assume "vindex_flush crc vio s = (r, s')"
    from flush_run [OF cl this] D assms(8) show ?thesis by blast
  next
    assume "D = n" "vindex_snapshot crc iter vio s = (r, s')"
    moreover from this have "d' = n" using D cl by (auto simp: clean_def file_ok_def)
    ultimately show ?thesis using snapshot_run [OF cl assms(1,2,4)] assms(8) by blast
  qed
  then show ?thesis using recover_ok [OF _ assms(1,2,9-11)] by blast
qed


text \<open>
  An example: open new files, index an entry, flush it, and crash in the middle of writing the
  record of the next entry.
\<close>

definition demo_limits :: vindex_limits where
  "demo_limits = \<lparr>lim_max_keys = 10, lim_max_indices_per_key = 10, lim_snapshot_interval = 0\<rparr>"

definition demo_fresh :: vstate where
  "demo_fresh = \<lparr>vs_vi = make_vindex demo_limits 1 0 0 [] tree_new, vs_wal = \<lparr>wf_bytes = [], wf_durable = []\<rparr>,
     vs_snap = \<lparr>sf_bytes = None, sf_durable = None\<rparr>\<rparr>"

definition demo_s1 :: vstate where
  "demo_s1 = snd (index_entry demo_digest (\<lambda>_. 7) (identity_map_fn demo_digest) demo_vio 0 [1] demo_fresh)"

definition demo_s2 :: vstate where
  "demo_s2 = snd (vindex_flush (\<lambda>_. 7) demo_vio demo_s1)"

definition demo_torn :: vstate where
  "demo_torn = snd (index_entry demo_digest (\<lambda>_. 7) (identity_map_fn demo_digest)
     (demo_vio\<lparr>v_append := io_fine\<lparr>write_torn := Some 3\<rparr>\<rparr>) 1 [1] demo_s2)"

lemma demo_open: "with_wal_and_batch_size sh crc rev demo_limits io_fine 0 1 no_files = (Inr demo_fresh, (Some \<lparr>wf_bytes = [], wf_durable = []\<rparr>, \<lparr>sf_bytes = None, sf_durable = None\<rparr>))"
  by (simp add: with_wal_and_batch_size_def no_files_def read_snapshot_def validate_and_truncate_wal_def
      wal_open_def io_fine_def rebuild_tree_def demo_fresh_def)

lemma demo_entry_indexed:
  "index_entry demo_digest (\<lambda>_. 7) (identity_map_fn demo_digest) demo_vio 0 [1] demo_fresh = (Inr (), demo_s1)"
proof -
  have "fst (index_entry demo_digest (\<lambda>_. 7) (identity_map_fn demo_digest) demo_vio 0 [1] demo_fresh) = Inr ()"
    by (simp add: index_entry_def Let_def entry_keys_def identity_map_fn_def demo_fresh_def make_vindex_def demo_limits_def
        check_limits_def bind_st_def lift_st_def on_wal_def variant_append_def binary_append_def write_all_def demo_vio_def
        io_fine_def add_key_def tree_insert_def tree_new_def finish_entry_def MAX_KEYS_PER_ENTRY_def get_indices_def)
  then show ?thesis unfolding demo_s1_def by (metis prod.collapse)
qed

lemma demo_flushed: "vindex_flush (\<lambda>_. 7) demo_vio demo_s1 = (Inr (), demo_s2)"
proof -
  have "vi_writer (vs_vi demo_s1) = Unbatched"
    by (rule index_entry_frame(3) [OF demo_entry_indexed]) (simp add: demo_fresh_def make_vindex_def)
  then have "fst (vindex_flush (\<lambda>_. 7) demo_vio demo_s1) = Inr ()"
    by (simp add: vindex_flush_def on_wal_def variant_flush_def binary_flush_def sync_file_def demo_vio_def io_fine_def)
  then show ?thesis unfolding demo_s2_def by (metis prod.collapse)
qed

theorem vindex_crash_recovery_witness:
  "\<exists>v img'. with_wal_and_batch_size demo_digest (\<lambda>_. 7) rev demo_limits io_fine 1 1
      (Some (vs_wal demo_torn), vs_snap demo_torn) = (Inr v, img')
    \<and> vi_ok demo_digest (\<lambda>i. entry_keys (identity_map_fn demo_digest) [1]) 1 (vs_vi v)"
proof (rule vindex_crash_recovery [where data = "\<lambda>_. [1]" and n = 1 and d = 1 and B = 0 and s' = demo_torn])
  have "vindex_run demo_digest (\<lambda>_. 7) rev (identity_map_fn demo_digest) (\<lambda>_. [1]) 0 0 0 demo_fresh"
    by (rule vr_open [OF demo_open])
  from vr_entry [OF this _ demo_entry_indexed]
  have "vindex_run demo_digest (\<lambda>_. 7) rev (identity_map_fn demo_digest) (\<lambda>_. [1]) 0 0 1 demo_s1" by simp
  from vr_flush [OF this demo_flushed]
  show "vindex_run demo_digest (\<lambda>_. 7) rev (identity_map_fn demo_digest) (\<lambda>_. [1]) 0 1 1 demo_s2" .
  show "index_entry demo_digest (\<lambda>_. 7) (identity_map_fn demo_digest)
      (demo_vio\<lparr>v_append := io_fine\<lparr>write_torn := Some 3\<rparr>\<rparr>) 1 [1] demo_s2
      = (fst (index_entry demo_digest (\<lambda>_. 7) (identity_map_fn demo_digest)
          (demo_vio\<lparr>v_append := io_fine\<lparr>write_torn := Some 3\<rparr>\<rparr>) 1 [1] demo_s2), demo_torn)
    \<or> vindex_flush (\<lambda>_. 7) (demo_vio\<lparr>v_append := io_fine\<lparr>write_torn := Some 3\<rparr>\<rparr>) demo_s2
      = (fst (index_entry demo_digest (\<lambda>_. 7) (identity_map_fn demo_digest)
          (demo_vio\<lparr>v_append := io_fine\<lparr>write_torn := Some 3\<rparr>\<rparr>) 1 [1] demo_s2), demo_torn)
    \<or> (1 :: nat) = 1 \<and> vindex_snapshot (\<lambda>_. 7) rev (demo_vio\<lparr>v_append := io_fine\<lparr>write_torn := Some 3\<rparr>\<rparr>) demo_s2
      = (fst (index_entry demo_digest (\<lambda>_. 7) (identity_map_fn demo_digest)
          (demo_vio\<lparr>v_append := io_fine\<lparr>write_torn := Some 3\<rparr>\<rparr>) 1 [1] demo_s2), demo_torn)"
    unfolding demo_torn_def by simp
  show "crash_image demo_torn (Some (vs_wal demo_torn), vs_snap demo_torn)"
    by (auto simp: crash_image_def intro!: exI [of _ "length (wf_bytes (vs_wal demo_torn))"] prefix_length_le)
qed (simp_all add: crc_laws_def iter_laws_def io_fine_def)

end
