(* ===== verification/Vindex_Log.thy ===== *)
theory Vindex_Log
  imports Vindex_Recovery Worker
begin

text \<open>
  The index as a part of the log: the integration worker indexes every batch before it records the
  new size, the program opens the index with the recorded size, and rebuilds it from the entry
  bundles when that fails (\<^verbatim>\<open>rebuild_from_storage\<close> in \<^verbatim>\<open>src/vindex/mod.rs\<close>, the worker in
  \<^verbatim>\<open>src/worker.rs\<close>, the start of the index in \<^verbatim>\<open>src/main.rs\<close>). The theorems join the recovery of the
  index with the invariant of the whole log.
\<close>

subsection \<open>Rebuilding from the entry bundles\<close>

text \<open>
  The files are removed first (\<open>rm_ok\<close>: whether that works); \<open>ios\<close> gives the outcomes of the calls for
  each entry and, at the expected size, for the final flush and snapshot.
\<close>

definition rebuild_bundle ::
  "digest \<Rightarrow> crc_fn \<Rightarrow> (byte list \<Rightarrow> sha256_hash list) \<Rightarrow> (nat \<Rightarrow> vio) \<Rightarrow> 's operator \<Rightarrow> 's \<Rightarrow> nat
     \<Rightarrow> nat \<Rightarrow> (vstate, error, unit) st" where
  "rebuild_bundle sh crc map_fn ios op store expected_tree_size bundle_idx =
     (let partial = partial_tile_size 0 bundle_idx expected_tree_size
      in bind_st (lift_st (bind_res (read_entry_bundle op store bundle_idx partial) (ok_or error.Internal))) (\<lambda>bundle.
           let expected_entries = min (expected_tree_size - bundle_idx * ENTRY_BUNDLE_WIDTH) ENTRY_BUNDLE_WIDTH
           in if length (bundle_entries bundle) \<noteq> expected_entries then lift_st (Inl error.Internal)
              else for_st (\<lambda>(offset, data). let idx = bundle_idx * ENTRY_BUNDLE_WIDTH + offset
                                             in index_entry sh crc map_fn (ios idx) idx data)
                     (enumerate 0 (bundle_entries bundle))))"

definition rebuild_from_storage ::
  "digest \<Rightarrow> crc_fn \<Rightarrow> (index_map \<Rightarrow> index_map) \<Rightarrow> (byte list \<Rightarrow> sha256_hash list) \<Rightarrow> vindex_limits
     \<Rightarrow> bool \<Rightarrow> wal_io \<Rightarrow> (nat \<Rightarrow> vio) \<Rightarrow> 's operator \<Rightarrow> 's \<Rightarrow> nat \<Rightarrow> vstate res" where
  "rebuild_from_storage sh crc iter map_fn lim rm_ok io ios op store expected_tree_size =
     (if \<not> rm_ok then Inl Io
      else bind_res (fst (with_wal sh crc iter lim io 0 no_files)) (\<lambda>s0.
           if expected_tree_size = 0 then Inr s0
           else let last_bundle = (expected_tree_size - 1) div ENTRY_BUNDLE_WIDTH
                in case bind_st (for_st (rebuild_bundle sh crc map_fn ios op store expected_tree_size)
                                   [0..<last_bundle + 1]) (\<lambda>_.
                        bind_st (vindex_flush crc (ios expected_tree_size)) (\<lambda>_.
                          vindex_snapshot crc iter (ios expected_tree_size))) s0 of
                     (Inl e, _) \<Rightarrow> Inl e
                   | (Inr _, s) \<Rightarrow> Inr s))"

text \<open>
  The start of the index in the program. Without a path for the log the index lives in memory, which
  only an empty log may have; \<open>files\<close> are the files found at the path.
\<close>

datatype startup_error = Failed error | WalPathRequired

record vindex_setup =
  vs_limits :: vindex_limits
  vs_open_io :: wal_io
  vs_rm_ok :: bool
  vs_rebuild_open_io :: wal_io
  vs_rebuild_ios :: "nat \<Rightarrow> vio"

definition init_vindex ::
  "digest \<Rightarrow> crc_fn \<Rightarrow> (index_map \<Rightarrow> index_map) \<Rightarrow> (byte list \<Rightarrow> sha256_hash list) \<Rightarrow> vindex_setup
     \<Rightarrow> 's operator \<Rightarrow> 's \<Rightarrow> database \<Rightarrow> (wal_file option \<times> snap_file) option \<Rightarrow> startup_error + vstate" where
  "init_vindex sh crc iter map_fn su op store db files =
     (case get_log_state db of
        Inl e \<Rightarrow> Inl (Failed e)
      | Inr log_state \<Rightarrow>
          let expected_tree_size = integrated_size log_state
          in case files of
               Some fs \<Rightarrow>
                 (case fst (with_wal sh crc iter (vs_limits su) (vs_open_io su) expected_tree_size fs) of
                    Inr vi \<Rightarrow> Inr vi
                  | Inl _ \<Rightarrow>
                      (case rebuild_from_storage sh crc iter map_fn (vs_limits su) (vs_rm_ok su)
                              (vs_rebuild_open_io su) (vs_rebuild_ios su) op store expected_tree_size of
                         Inl e \<Rightarrow> Inl (Failed e)
                       | Inr vi \<Rightarrow> Inr vi))
             | None \<Rightarrow>
                 if 0 < expected_tree_size then Inl WalPathRequired
                 else Inr \<lparr>vs_vi = vindex_new (lim_max_keys (vs_limits su)) (lim_max_indices_per_key (vs_limits su)),
                           vs_wal = \<lparr>wf_bytes = [], wf_durable = []\<rparr>,
                           vs_snap = \<lparr>sf_bytes = None, sf_durable = None\<rparr>\<rparr>)"

text \<open>The operations the worker calls on an index, with the outcomes of their writes.\<close>

definition vindex_ops ::
  "digest \<Rightarrow> crc_fn \<Rightarrow> (index_map \<Rightarrow> index_map) \<Rightarrow> (byte list \<Rightarrow> sha256_hash list) \<Rightarrow> (nat \<Rightarrow> vio) \<Rightarrow> vio
     \<Rightarrow> vstate index_ops" where
  "vindex_ops sh crc iter map_fn ios io =
     \<lparr>io_index_entry = (\<lambda>idx data. index_entry sh crc map_fn (ios idx) idx data),
      io_flush = vindex_flush crc io,
      io_maybe_snapshot = bind_st (maybe_snapshot crc iter io) (\<lambda>_. ret_st ())\<rparr>"


subsection \<open>Loops over the entries\<close>

lemma for_st_append:
  "for_st f (xs @ ys) s = (case for_st f xs s of (Inl e, s') \<Rightarrow> (Inl e, s') | (Inr _, s') \<Rightarrow> for_st f ys s')"
  by (induction xs arbitrary: s) (auto split: prod.splits sum.splits)

lemma for_st_concat: "for_st (\<lambda>x. for_st f (g x)) xs s = for_st f (concat (map g xs)) s"
  by (induction xs arbitrary: s) (auto simp: for_st_append split: prod.splits sum.splits)

lemma for_st_same: "(\<And>x s. x \<in> set xs \<Longrightarrow> f x s = g x s) \<Longrightarrow> for_st f xs s = for_st g xs s"
  by (rule for_st_cong [where P = "\<lambda>_. True"]) auto

lemma concat_bundles:
  "concat (map (\<lambda>b. [b * 256..<min n (b * 256 + 256)]) [0..<k]) = [0..<min n (k * 256)]"
proof (induction k)
  case (Suc k)
  show ?case
  proof (cases "k * 256 \<le> n")
    case True
    then have "[0..<k * 256] @ [k * 256..<min n (k * 256 + 256)] = [0..<min n (k * 256 + 256)]"
      by (intro upt_split) simp_all
    with Suc True show ?thesis by (simp add: min_absorb2 add.commute)
  qed (use Suc in simp)
qed simp

text \<open>The call that indexes entry \<open>i\<close> of the log.\<close>

definition index_at ::
  "digest \<Rightarrow> crc_fn \<Rightarrow> (byte list \<Rightarrow> sha256_hash list) \<Rightarrow> (nat \<Rightarrow> vio) \<Rightarrow> entry list \<Rightarrow> nat \<Rightarrow> (vstate, error, unit) st" where
  "index_at sh crc map_fn ios E i = index_entry sh crc map_fn (ios i) i (entry_data (E ! i))"

lemma rebuild_bundle_eq:
  assumes "bundles_serve op store E n" and "b * 256 < n"
  shows "rebuild_bundle sh crc map_fn ios op store n b s
    = for_st (index_at sh crc map_fn ios E) [b * 256..<min n (b * 256 + 256)] s"
proof -
  let ?is = "[b * 256..<min n (b * 256 + 256)]"
  have "read_entry_bundle op store b (partial_tile_size 0 b n) = Inr (Some \<lparr>bundle_entries = bundle_data E n b\<rparr>)"
    using assms by (metis bundles_serve_def get_bundle_Some_iff)
  moreover have "length (bundle_data E n b) = min (n - b * 256) 256"
    by (simp add: bundle_data_def min_def) linarith
  moreover have "enumerate 0 (bundle_data E n b) = map (\<lambda>i. (i - b * 256, entry_data (E ! i))) ?is"
    by (rule nth_equalityI) (auto simp: bundle_data_def nth_enumerate_eq less_diff_conv add.commute)
  ultimately have "rebuild_bundle sh crc map_fn ios op store n b s
    = for_st (\<lambda>(offset, data). index_entry sh crc map_fn (ios (b * 256 + offset)) (b * 256 + offset) data)
        (map (\<lambda>i. (i - b * 256, entry_data (E ! i))) ?is) s"
    by (simp add: rebuild_bundle_def Let_def bind_st_def lift_st_def ENTRY_BUNDLE_WIDTH_def TILE_WIDTH_def)
  also have "\<dots> = for_st (index_at sh crc map_fn ios E) ?is s"
    unfolding for_st_map by (rule for_st_same) (simp add: index_at_def)
  finally show ?thesis .
qed

lemma rebuild_bundles_eq:
  assumes "bundles_serve op store E n" and "0 < n"
  shows "for_st (rebuild_bundle sh crc map_fn ios op store n) [0..<(n - 1) div ENTRY_BUNDLE_WIDTH + 1] s
    = for_st (index_at sh crc map_fn ios E) [0..<n] s"
proof -
  let ?k = "(n - 1) div 256 + 1"
  have k: "b * 256 < n" if "b < ?k" for b using that assms(2) by linarith
  have "n \<le> ?k * 256" using dividend_less_div_times [of 256 "n - 1"] by simp
  then have n: "min n (?k * 256) = n" by simp
  have "for_st (rebuild_bundle sh crc map_fn ios op store n) [0..<?k] s
      = for_st (\<lambda>b. for_st (index_at sh crc map_fn ios E) [b * 256..<min n (b * 256 + 256)]) [0..<?k] s"
    by (intro for_st_same rebuild_bundle_eq [OF assms(1)] k) (simp only: set_upt atLeastLessThan_iff)
  then show ?thesis
    unfolding for_st_concat concat_bundles n by (simp add: ENTRY_BUNDLE_WIDTH_def TILE_WIDTH_def)
qed


subsection \<open>Indexing a range of the log\<close>

text \<open>The keys of the entries of the log.\<close>

definition log_keys :: "(byte list \<Rightarrow> sha256_hash list) \<Rightarrow> entry list \<Rightarrow> nat \<Rightarrow> sha256_hash list" where
  "log_keys map_fn E i = entry_keys map_fn (entry_data (E ! i))"

lemma clean_tree_size: "clean sh crc K B d n s \<Longrightarrow> vi_tree_size (vs_vi s) = n"
  by (auto simp: clean_def vi_ok_def)

lemma clean_bounds: "clean sh crc K B d n s \<Longrightarrow> B \<le> d \<and> d \<le> n"
  by (auto simp: clean_def file_ok_def)

text \<open>
  Entries from \<open>k\<close> to \<open>n\<close> are offered to an index that already has those before \<open>x\<close>: those it has
  are skipped, the others indexed, and wherever the loop stops the files still recover any size
  that was safe at the start.
\<close>

lemma index_range_run:
  assumes cl: "clean sh crc (log_keys map_fn E) B d x s" and kx: "k \<le> x" "x \<le> n" and n: "n < u64_max"
    and run: "for_st (index_at sh crc map_fn ios E) [k..<n] s = (r, s')"
  shows "(\<forall>img D. B \<le> D \<and> D \<le> d \<and> crash_image s' img \<longrightarrow> image_good crc (log_keys map_fn E) D img)
    \<and> (r = Inr () \<longrightarrow> (\<exists>d' \<ge> d. clean sh crc (log_keys map_fn E) B d' n s'))"
  using cl kx run
proof (induction "n - k" arbitrary: k x d s)
  case 0
  then have "x = n" "s' = s" "[k..<n] = []" by auto
  with 0 show ?case using clean_images by auto
next
  case (Suc l)
  then have kn: "k < n" and l: "l = n - Suc k" by auto
  obtain r1 s1 where one: "index_at sh crc map_fn ios E k s = (r1, s1)" by fastforce
  have rest: "(r, s') = (case r1 of Inl e \<Rightarrow> (Inl e, s1) | Inr _ \<Rightarrow> for_st (index_at sh crc map_fn ios E) [Suc k..<n] s1)"
    using Suc.prems(4) one kn by (simp add: upt_conv_Cons split: sum.splits)
  show ?case
  proof (cases "k < x")
    case True
    then have "r1 = Inr ()" "s1 = s"
      using one clean_tree_size [OF Suc.prems(1)] by (auto simp: index_at_def index_entry_def)
    with Suc.hyps(1) [OF l Suc.prems(1)] True Suc.prems(3) rest show ?thesis by simp
  next
    case False
    then have x: "x = k" using Suc.prems(2) by simp
    have "index_entry sh crc map_fn (ios k) k (entry_data (E ! k)) s = (r1, s1)"
      using one by (simp add: index_at_def)
    note step = index_entry_run [where map_fn = map_fn and data = "\<lambda>i. entry_data (E ! i)",
        OF Suc.prems(1) [unfolded x] log_keys_def _ this]
    show ?thesis
    proof (cases r1)
      case (Inl e)
      with rest step kn n show ?thesis by auto
    next
      case (Inr u)
      with step kn n obtain d' where d': "d \<le> d'" and cl': "clean sh crc (log_keys map_fn E) B d' (Suc k) s1" by auto
      from Suc.hyps(1) [OF l cl'] rest Inr kn
      have "(\<forall>img D. B \<le> D \<and> D \<le> d' \<and> crash_image s' img \<longrightarrow> image_good crc (log_keys map_fn E) D img)
        \<and> (r = Inr () \<longrightarrow> (\<exists>d'' \<ge> d'. clean sh crc (log_keys map_fn E) B d'' n s'))" by simp
      with d' show ?thesis by (meson order.trans)
    qed
  qed
qed

lemma index_range_flush_run:
  assumes cl: "clean sh crc (log_keys map_fn E) B d x s" and "k \<le> x" "x \<le> n" and "n < u64_max"
    and run: "bind_st (for_st (index_at sh crc map_fn ios E) [k..<n]) (\<lambda>_. vindex_flush crc io) s = (r, s')"
  shows "(\<forall>img D. B \<le> D \<and> D \<le> d \<and> crash_image s' img \<longrightarrow> image_good crc (log_keys map_fn E) D img)
    \<and> (r = Inr () \<longrightarrow> clean sh crc (log_keys map_fn E) B n n s')"
proof -
  obtain r1 s1 where loop: "for_st (index_at sh crc map_fn ios E) [k..<n] s = (r1, s1)" by fastforce
  note range = index_range_run [OF assms(1-4) loop]
  show ?thesis
  proof (cases r1)
    case (Inl e)
    with run loop range show ?thesis by (auto simp: bind_st_def)
  next
    case (Inr u)
    with range obtain d' where "d \<le> d'" and cl': "clean sh crc (log_keys map_fn E) B d' n s1" by auto
    moreover have "vindex_flush crc io s1 = (r, s')" using run loop Inr by (simp add: bind_st_def)
    ultimately show ?thesis using flush_run [OF cl', of io r s'] by (auto intro: order.trans)
  qed
qed

text \<open>Rebuilding, when it succeeds, yields exactly the index of the log, flushed and snapshotted.\<close>

lemma rebuild_clean:
  assumes "bundles_serve op store E n" and n: "n < 2 ^ 32" and laws: "crc_laws crc" "iter_laws iter"
    and run: "rebuild_from_storage sh crc iter map_fn lim rm_ok io ios op store n = Inr s"
  shows "clean sh crc (log_keys map_fn E) n n n s"
proof -
  let ?K = "log_keys map_fn E"
  obtain s0 fs where s0: "with_wal_and_batch_size sh crc iter lim io 0 1 no_files = (Inr s0, fs)"
    using run by (cases "with_wal sh crc iter lim io 0 no_files")
      (auto simp: rebuild_from_storage_def with_wal_def res_simps split: if_splits)
  have cl0: "clean sh crc ?K 0 0 0 s0"
    by (rule open_fresh [OF s0 laws(2)]) (simp add: log_keys_def distinct_entry_keys)
  show ?thesis
  proof (cases "n = 0")
    case True
    with run s0 cl0 show ?thesis by (auto simp: rebuild_from_storage_def with_wal_def split: if_splits)
  next
    case False
    have "bind_st (bind_st (for_st (index_at sh crc map_fn ios E) [0..<n]) (\<lambda>_. vindex_flush crc (ios n)))
        (\<lambda>_. vindex_snapshot crc iter (ios n)) s0 = (Inr (), s)"
      using run s0 False rebuild_bundles_eq [OF assms(1), of sh crc map_fn ios s0]
      by (auto simp: rebuild_from_storage_def with_wal_def bind_st_def Let_def split: if_splits prod.splits sum.splits)
    then obtain s1 where
      idx: "bind_st (for_st (index_at sh crc map_fn ios E) [0..<n]) (\<lambda>_. vindex_flush crc (ios n)) s0 = (Inr (), s1)"
      and snap: "vindex_snapshot crc iter (ios n) s1 = (Inr (), s)"
      by (auto simp: res_simps)
    have "n < u64_max" using n by simp
    then have "clean sh crc ?K 0 n n s1" using index_range_flush_run [OF cl0 _ _ _ idx] by simp
    from snapshot_run [OF this laws n snap] show ?thesis by simp
  qed
qed


subsection \<open>The worker and the index\<close>

lemma maybe_snapshot_run:
  assumes cl: "clean sh crc K B n n s" and laws: "crc_laws crc" "iter_laws iter" and n: "n < 2 ^ 32"
    and run: "bind_st (maybe_snapshot crc iter io) (\<lambda>_. ret_st ()) s = (r, s')"
  shows "(\<forall>img. crash_image s' img \<longrightarrow> image_good crc K n img)
    \<and> (r = Inr () \<longrightarrow> (\<exists>B' \<le> n. clean sh crc K B' n n s'))"
proof -
  have B: "B \<le> n" using clean_bounds [OF cl] by simp
  obtain r1 s1 where sn: "vindex_snapshot crc iter io s = (r1, s1)" by fastforce
  note snap = snapshot_run [OF cl laws n sn]
  consider (skip) "r = Inr ()" "s' = s" | (taken) "(r, s') = (r1, s1)"
    using run sn unfolding maybe_snapshot_def Let_def bind_st_def ret_st_def
    by (auto split: if_splits sum.splits)
  then show ?thesis
  proof cases
    case skip
    with cl B show ?thesis using clean_images [OF cl B order.refl] by blast
  next
    case taken
    with snap show ?thesis by auto
  qed
qed

lemma index_pending_ops:
  "index_pending (vindex_ops sh crc iter map_fn ios io) (map (pending_at E) [m..<n])
     = bind_st (for_st (index_at sh crc map_fn ios E) [m..<n]) (\<lambda>_. vindex_flush crc io)"
proof -
  have "for_st (\<lambda>e. index_entry sh crc map_fn (ios (pe_index e)) (pe_index e) (pe_data e)) (map (pending_at E) [m..<n]) s
      = for_st (index_at sh crc map_fn ios E) [m..<n] s" for s
    unfolding for_st_map by (rule for_st_same) (simp add: index_at_def pending_at_def)
  then show ?thesis by (simp add: index_pending_def vindex_ops_def fun_eq_iff bind_st_def)
qed

text \<open>
  The index follows the log: it has all integrated entries, on disk, and beyond them at most the batch that
  the worker is about to integrate; its snapshot is not ahead of the database.
\<close>

definition index_follows ::
  "digest \<Rightarrow> crc_fn \<Rightarrow> (byte list \<Rightarrow> sha256_hash list) \<Rightarrow> nat \<Rightarrow> entry list \<Rightarrow> nat \<Rightarrow> vstate \<Rightarrow> bool" where
  "index_follows sh crc map_fn batch E m s \<longleftrightarrow>
     (\<exists>B d x. clean sh crc (log_keys map_fn E) B d x s \<and> B \<le> m \<and> m \<le> d \<and> x \<le> min (m + batch) (length E))"

lemma index_follows_images:
  assumes "index_follows sh crc map_fn batch E m s" and "crash_image s img"
  shows "image_good crc (log_keys map_fn E) m img"
  using assms clean_images unfolding index_follows_def by blast

lemma cycle_run:
  assumes fol: "index_follows sh crc map_fn (integration_batch_size cfg) E m (w_index w)"
    and laws: "crc_laws crc" "iter_laws iter" and small: "length E < 2 ^ 32"
    and n: "n = min (m + integration_batch_size cfg) (length E)"
    and fin: "cycle_end hc op (Some (vindex_ops sh crc iter map_fn ios io)) E m n w r w'"
  shows "\<exists>m'. m \<le> m' \<and> sys_ok hc op E m' w' \<and> (r = Inr () \<longrightarrow> m' = n)
    \<and> (r = Inr () \<longrightarrow> index_follows sh crc map_fn (integration_batch_size cfg) E m' (w_index w'))
    \<and> (\<forall>img. crash_image (w_index w') img \<longrightarrow> image_good crc (log_keys map_fn E) m' img)"
proof -
  let ?ops = "vindex_ops sh crc iter map_fn ios io"
  obtain B d x where cl: "clean sh crc (log_keys map_fn E) B d x (w_index w)"
    and b: "B \<le> m" "m \<le> d" "x \<le> n"
    using fol by (auto simp: index_follows_def n)
  have mx: "m \<le> x" using clean_bounds [OF cl] b by simp
  have big: "n < u64_max" "n < 2 ^ 32" using n small by auto
  note indexing = index_range_flush_run [OF cl mx b(3) big(1), of ios io, folded index_pending_ops [of _ _ iter]]
  have indexed: "\<forall>img. crash_image v img \<longrightarrow> image_good crc (log_keys map_fn E) k img"
    if "index_pending ?ops (map (pending_at E) [m..<n]) (w_index w) = (Inr (), v)" "B \<le> k" "k \<le> n" for v k
    using indexing that clean_images [of sh crc "log_keys map_fn E" B n n v k] by auto
  from fin [unfolded cycle_end_def option.case] show ?thesis
  proof (elim disjE conjE exE)
    assume "sys_ok hc op E m w'" "w_index w' = w_index w" "r = Inr () \<longrightarrow> n = m"
    then show ?thesis using fol index_follows_images [OF fol] by (intro exI [of _ m]) auto
  next
    assume "sys_ok hc op E m w'" "r \<noteq> Inr ()"
      and "index_pending ?ops (map (pending_at E) [m..<n]) (w_index w) = (r, w_index w')"
    then show ?thesis using indexing b by (intro exI [of _ m]) auto
  next
    assume "sys_ok hc op E m w'" "r \<noteq> Inr ()"
      and "index_pending ?ops (map (pending_at E) [m..<n]) (w_index w) = (Inr (), w_index w')"
    then show ?thesis using indexed [of "w_index w'" m] b mx by (intro exI [of _ m]) auto
  next
    assume "sys_ok hc op E n w'" "r \<noteq> Inr ()"
      and "index_pending ?ops (map (pending_at E) [m..<n]) (w_index w) = (Inr (), w_index w')"
    then show ?thesis using indexed [of "w_index w'" n] b mx by (intro exI [of _ n]) auto
  next
    fix v assume ok: "sys_ok hc op E n w'"
      and run: "index_pending ?ops (map (pending_at E) [m..<n]) (w_index w) = (Inr (), v)"
      and snap: "io_maybe_snapshot ?ops v = (r, w_index w')"
    have cl': "clean sh crc (log_keys map_fn E) B n n v" using indexing run by simp
    from maybe_snapshot_run [OF cl' laws big(2)] snap
    have "(\<forall>img. crash_image (w_index w') img \<longrightarrow> image_good crc (log_keys map_fn E) n img)
      \<and> (r = Inr () \<longrightarrow> index_follows sh crc map_fn (integration_batch_size cfg) E n (w_index w'))"
      unfolding index_follows_def by (fastforce simp: vindex_ops_def n)
    then show ?thesis using ok mx b(3) by (intro exI [of _ n]) auto
  qed
qed

text \<open>What the program finds when it starts: files from a crash, or files that it refuses.\<close>

lemma init_vindex_ok:
  assumes ok: "sys_ok hc op E m w" and m: "m < 2 ^ 32" and laws: "crc_laws crc" "iter_laws iter"
    and start: "init_vindex sh crc iter map_fn su op (w_store w) (w_db w) (Some fs) = Inr v"
    and fs: "image_good crc (log_keys map_fn E) m fs
      \<or> \<not> is_ok (fst (with_wal sh crc iter (vs_limits su) (vs_open_io su) m fs))"
    and io: "open_ok (vs_open_io su)" "set_len_ok (vs_open_io su)" "sync_ok (vs_open_io su)"
  shows "vi_ok sh (log_keys map_fn E) m (vs_vi v)"
proof -
  have sv: "bundles_serve op (w_store w) E m" using ok by (simp add: sys_ok_def)
  obtain root where state: "get_log_state (w_db w)
      = Inr \<lparr>next_index = length E, integrated_size = m, state_root_hash = root\<rparr>"
    using cycle_reads(1) [OF ok refl] by blast
  let ?open = "fst (with_wal sh crc iter (vs_limits su) (vs_open_io su) m fs)"
  show ?thesis
  proof (cases ?open)
    case (Inl e)
    then have "rebuild_from_storage sh crc iter map_fn (vs_limits su) (vs_rm_ok su)
        (vs_rebuild_open_io su) (vs_rebuild_ios su) op (w_store w) m = Inr v"
      using start state by (auto simp: init_vindex_def split: sum.splits)
    from rebuild_clean [OF sv m laws this] show ?thesis by (auto simp: clean_def)
  next
    case (Inr v')
    then have "v' = v" using start state by (simp add: init_vindex_def)
    moreover have "image_good crc (log_keys map_fn E) m fs" using fs Inr by auto
    ultimately show ?thesis
      using recover_ok [OF _ laws io, of "log_keys map_fn E" m fs sh "vs_limits su" 1] Inr
      by (auto simp: with_wal_def)
  qed
qed


subsection \<open>When rebuilding succeeds\<close>

definition fits_limits :: "(nat \<Rightarrow> sha256_hash list) \<Rightarrow> nat \<Rightarrow> vindex_limits \<Rightarrow> bool" where
  "fits_limits K n lim \<longleftrightarrow>
     list_all (\<lambda>i. length (K i) \<le> MAX_KEYS_PER_ENTRY) [0..<n]
     \<and> card (\<Union>i \<in> {..<n}. set (K i)) \<le> lim_max_keys lim
     \<and> list_all (\<lambda>i. list_all (\<lambda>k. length (key_positions K n k) \<le> lim_max_indices_per_key lim) (K i)) [0..<n]"

definition vio_fine :: "vio \<Rightarrow> bool" where
  "vio_fine io \<longleftrightarrow> v_append io = io_fine \<and> v_flush io = io_fine \<and> v_snapshot io = Snap_Ok \<and> v_truncate io = io_fine"

lemma key_positions_mono: "a \<le> b \<Longrightarrow> length (key_positions K a k) \<le> length (key_positions K b k)"
  by (induction rule: dec_induct) auto

lemma vi_ok_keys:
  assumes "vi_ok sh K n vi"
  shows "fst ` set (vi_index vi) = (\<Union>i \<in> {..<n}. set (K i))"
proof -
  have "map_of (vi_index vi) k \<noteq> None \<longleftrightarrow> (\<exists>i < n. k \<in> set (K i))" for k
    using assms by (auto simp: vi_ok_def index_spec_def Let_def key_positions_def filter_empty_conv)
  then show ?thesis by (auto simp: map_of_eq_None_iff)
qed

lemma check_limits_fits:
  assumes vi: "vi_ok sh K i vi" and i: "i < n" and fit: "fits_limits K n lim" and dist: "distinct (K i)"
    and lim: "vi_max_keys vi = lim_max_keys lim" "vi_max_indices_per_key vi = lim_max_indices_per_key lim"
  shows "check_limits vi (K i) = Inr ()"
proof -
  let ?old = "fst ` set (vi_index vi)"
  have "distinct (map fst (vi_index vi))" using vi by (simp add: vi_ok_def tree_follows_def)
  then have "length (vi_index vi) = card ?old" by (metis distinct_card length_map list.set_map)
  moreover have "set (filter (\<lambda>k. k \<notin> ?old) (K i)) = set (K i) - ?old" by auto
  then have "length (filter (\<lambda>k. k \<notin> ?old) (K i)) = card (set (K i) - ?old)"
    using distinct_card [of "filter (\<lambda>k. k \<notin> ?old) (K i)"] dist by simp
  ultimately have "length (vi_index vi) + length (filter (\<lambda>k. k \<notin> ?old) (K i)) = card (?old \<union> (set (K i) - ?old))"
    by (subst card_Un_disjoint) auto
  also have "\<dots> \<le> card (\<Union>i \<in> {..<n}. set (K i))"
    using i by (intro card_mono) (auto simp: vi_ok_keys [OF vi] intro: less_trans)
  finally have keys: "length (vi_index vi) + length (filter (\<lambda>k. k \<notin> ?old) (K i)) \<le> lim_max_keys lim"
    using fit by (simp add: fits_limits_def)
  have "length is < lim_max_indices_per_key lim" if "k \<in> set (K i)" "map_of (vi_index vi) k = Some is" for k "is"
  proof -
    have "is = key_positions K i k"
      using vi that(2) by (auto simp: vi_ok_def index_spec_def Let_def split: if_splits)
    then have "length is < length (key_positions K (Suc i) k)" using that(1) by simp
    also have "\<dots> \<le> length (key_positions K n k)" using i by (intro key_positions_mono) simp
    finally show ?thesis using fit i that(1) by (force simp: fits_limits_def list_all_iff)
  qed
  then have "\<not> list_ex (\<lambda>k. case map_of (vi_index vi) k of
      None \<Rightarrow> False | Some is \<Rightarrow> lim_max_indices_per_key lim \<le> length is) (K i)"
    by (fastforce simp: list_ex_iff split: option.splits)
  with keys show ?thesis unfolding check_limits_def Let_def lim by simp
qed

text \<open>Progress of one step: the limits and the log on disk do not refuse the entry.\<close>

definition rebuild_ready :: "digest \<Rightarrow> (nat \<Rightarrow> sha256_hash list) \<Rightarrow> vindex_limits \<Rightarrow> nat \<Rightarrow> vstate \<Rightarrow> bool" where
  "rebuild_ready sh K lim i s \<longleftrightarrow> vi_ok sh K i (vs_vi s) \<and> vi_writer (vs_vi s) = Unbatched
     \<and> vi_max_keys (vs_vi s) = lim_max_keys lim \<and> vi_max_indices_per_key (vs_vi s) = lim_max_indices_per_key lim"

lemma index_at_progress:
  assumes rd: "rebuild_ready sh (log_keys map_fn E) lim i s" and i: "i < n" "n \<le> u64_max"
    and fit: "fits_limits (log_keys map_fn E) n lim" and io: "v_append (ios i) = io_fine"
  shows "\<exists>s'. index_at sh crc map_fn ios E i s = (Inr (), s') \<and> rebuild_ready sh (log_keys map_fn E) lim (Suc i) s'"
proof -
  let ?K = "log_keys map_fn E"
  have vi: "vi_ok sh ?K i (vs_vi s)" using rd by (simp add: rebuild_ready_def)
  have len: "length (?K i) \<le> 255" using fit i by (simp add: fits_limits_def list_all_iff MAX_KEYS_PER_ENTRY_def)
  have lim: "check_limits (vs_vi s) (?K i) = Inr ()"
    using check_limits_fits [OF vi i(1) fit] rd distinct_entry_keys by (simp add: rebuild_ready_def log_keys_def)
  obtain s1 where wal: "on_wal (variant_append crc (v_append (ios i)) i (?K i)) s = (Inr (), s1)"
    using rd len io
    by (simp add: on_wal_def rebuild_ready_def variant_append_def binary_append_def write_all_def io_fine_def)
  have K: "?K i = entry_keys map_fn (entry_data (E ! i))" by (simp add: log_keys_def)
  have "i < u64_max" using i by simp
  from index_next_eq [OF vi K this len _ wal] lim obtain s2 where
    run: "index_entry sh crc map_fn (ios i) i (entry_data (E ! i)) s = (Inr (), s2)"
    and "vi_ok sh ?K (Suc i) (vs_vi s2)" by auto
  moreover from index_entry_frame [OF run] rd have "vi_writer (vs_vi s2) = Unbatched"
    "vi_max_keys (vs_vi s2) = lim_max_keys lim" "vi_max_indices_per_key (vs_vi s2) = lim_max_indices_per_key lim"
    by (simp_all add: rebuild_ready_def)
  ultimately show ?thesis by (simp add: index_at_def rebuild_ready_def)
qed

lemma index_range_progress:
  assumes "rebuild_ready sh (log_keys map_fn E) lim 0 s" and "n \<le> u64_max"
    and "fits_limits (log_keys map_fn E) n lim" and "\<And>i. v_append (ios i) = io_fine"
  shows "k \<le> n \<Longrightarrow> \<exists>s'. for_st (index_at sh crc map_fn ios E) [0..<k] s = (Inr (), s')
    \<and> rebuild_ready sh (log_keys map_fn E) lim k s'"
proof (induction k)
  case (Suc k)
  then obtain s1 where "for_st (index_at sh crc map_fn ios E) [0..<k] s = (Inr (), s1)"
    "rebuild_ready sh (log_keys map_fn E) lim k s1" by auto
  moreover from this obtain s2 where "index_at sh crc map_fn ios E k s1 = (Inr (), s2)"
    "rebuild_ready sh (log_keys map_fn E) lim (Suc k) s2"
    using index_at_progress [OF _ _ assms(2,3), of sh k s1 ios crc] Suc.prems assms(4) by auto
  ultimately show ?case by (auto simp: for_st_append)
qed (use assms(1) in simp)

lemma rebuild_progress:
  assumes sv: "bundles_serve op store E n" and n: "n < 2 ^ 32" and iter: "iter_laws iter"
    and fit: "fits_limits (log_keys map_fn E) n lim"
    and fine: "open_ok io" "\<And>i. vio_fine (ios i)"
  shows "\<exists>s. rebuild_from_storage sh crc iter map_fn lim True io ios op store n = Inr s"
proof -
  have "iter [] = []" using iter by (metis iter_laws_def mset_zero_iff)
  then obtain s0 fs where s0: "with_wal sh crc iter lim io 0 no_files = (Inr s0, fs)"
    and rd: "vs_vi s0 = make_vindex lim 1 0 0 [] tree_new"
    using fine(1)
    by (auto simp: with_wal_def with_wal_and_batch_size_def no_files_def read_snapshot_def
        validate_and_truncate_wal_def wal_open_def rebuild_tree_def)
  have "rebuild_ready sh (log_keys map_fn E) lim 0 s0"
    by (simp add: rebuild_ready_def rd make_vindex_def vi_ok_def tree_follows_def index_spec_def fun_eq_iff pt.new_ok)
  moreover have "n \<le> u64_max" "\<And>i. v_append (ios i) = io_fine" using n fine by (simp_all add: vio_fine_def)
  ultimately obtain s1 where "for_st (index_at sh crc map_fn ios E) [0..<n] s0 = (Inr (), s1)"
    and "rebuild_ready sh (log_keys map_fn E) lim n s1" using index_range_progress [OF _ _ fit] by blast
  moreover from this have "\<exists>s2. bind_st (vindex_flush crc (ios n)) (\<lambda>_. vindex_snapshot crc iter (ios n)) s1 = (Inr (), s2)"
    using fine(2) [of n]
    by (simp add: vio_fine_def rebuild_ready_def vindex_flush_def vindex_snapshot_def bind_st_def on_wal_def variant_flush_def
        variant_truncate_def binary_flush_def binary_truncate_def sync_file_def set_len_def write_snapshot_def io_fine_def Let_def)
  ultimately show ?thesis
    using s0 rebuild_bundles_eq [OF sv, of sh crc map_fn ios s0]
    by (cases "n = 0") (auto simp: rebuild_from_storage_def bind_st_def Let_def)
qed


subsection \<open>Properties\<close>

text \<open>C37. Rebuilding the index from storage: when the entry bundles are those of the log, a rebuilt index
  answers for exactly its first \<open>n\<close> entries and survives a crash right after; and the rebuild does
  succeed when the entries fit the limits and the writes work.\<close>

theorem rebuild_from_storage_correct:
  assumes "bundles_serve op store E n" and "n < 2 ^ 32" and "crc_laws crc" and "iter_laws iter"
  shows "(\<forall>s. rebuild_from_storage sh crc iter map_fn lim rm_ok io ios op store n = Inr s
      \<longrightarrow> vi_ok sh (log_keys map_fn E) n (vs_vi s)
        \<and> (\<forall>img. crash_image s img \<longrightarrow>
             (\<exists>v. fst (with_wal sh crc iter lim io_fine n img) = Inr v \<and> vi_ok sh (log_keys map_fn E) n (vs_vi v))))
    \<and> (rm_ok \<and> open_ok io \<and> (\<forall>i. vio_fine (ios i)) \<and> fits_limits (log_keys map_fn E) n lim
       \<longrightarrow> (\<exists>s. rebuild_from_storage sh crc iter map_fn lim rm_ok io ios op store n = Inr s))"
proof (intro conjI allI impI)
  fix s assume "rebuild_from_storage sh crc iter map_fn lim rm_ok io ios op store n = Inr s"
  from rebuild_clean [OF assms this] have cl: "clean sh crc (log_keys map_fn E) n n n s" .
  then show "vi_ok sh (log_keys map_fn E) n (vs_vi s)" by (auto simp: clean_def)
  fix img assume "crash_image s img"
  from clean_images [OF cl order.refl order.refl this] recover_ok [OF _ assms(3,4), of "log_keys map_fn E" n img io_fine sh lim 1]
  show "\<exists>v. fst (with_wal sh crc iter lim io_fine n img) = Inr v \<and> vi_ok sh (log_keys map_fn E) n (vs_vi v)"
    by (auto simp: with_wal_def io_fine_def)
next
  assume "rm_ok \<and> open_ok io \<and> (\<forall>i. vio_fine (ios i)) \<and> fits_limits (log_keys map_fn E) n lim"
  then show "\<exists>s. rebuild_from_storage sh crc iter map_fn lim rm_ok io ios op store n = Inr s"
    using rebuild_progress [OF assms(1,2,4)] by auto
qed

text \<open>C34. The index and the log stay together across crashes: from a state in which the index follows the
  log, run one integration cycle with any outcome of its calls, its reads and its writes, the commit of
  the mark that fails or loses its answer included, and let the process die then. The
  log is intact with some size not below the old one, and the restarted program has an index of
  exactly the entries recorded as integrated. When the cycle succeeds the index follows again.\<close>

theorem vindex_cycle_crash_safe:
  assumes "sys_ok hc op E m w" and "index_follows sh crc map_fn (integration_batch_size cfg) E m (w_index w)"
    and "length E < 2 ^ 32" and "crc_laws crc" and "iter_laws iter"
    and "run_integration_cycle hc op cfg env (Some (vindex_ops sh crc iter map_fn ios io)) w = (r, w')"
    and "vs_open_io su = io_fine" and "order_laws (ce_order env)"
  shows "\<exists>m'. m \<le> m' \<and> sys_ok hc op E m' w'
    \<and> (r = Inr () \<longrightarrow> m' = min (m + integration_batch_size cfg) (length E)
         \<and> index_follows sh crc map_fn (integration_batch_size cfg) E m' (w_index w'))
    \<and> (\<forall>img. crash_image (w_index w') img \<longrightarrow>
         (\<exists>v. init_vindex sh crc iter map_fn su op (w_store w') (w_db w') (Some img) = Inr v
            \<and> vi_ok sh (log_keys map_fn E) m' (vs_vi v)))"
proof -
  obtain m' where m': "m \<le> m'" "sys_ok hc op E m' w'"
    "r = Inr () \<longrightarrow> m' = min (m + integration_batch_size cfg) (length E)
       \<and> index_follows sh crc map_fn (integration_batch_size cfg) E m' (w_index w')"
    and good: "\<And>img. crash_image (w_index w') img \<Longrightarrow> image_good crc (log_keys map_fn E) m' img"
    using cycle_run [OF assms(2,4,5,3) refl integration_cycle_end [OF assms(1,8,6) refl]] by blast
  have "\<exists>v. init_vindex sh crc iter map_fn su op (w_store w') (w_db w') (Some img) = Inr v
      \<and> vi_ok sh (log_keys map_fn E) m' (vs_vi v)" if img: "crash_image (w_index w') img" for img
  proof -
    obtain v where "fst (with_wal sh crc iter (vs_limits su) (vs_open_io su) m' img) = Inr v"
      "vi_ok sh (log_keys map_fn E) m' (vs_vi v)"
      using recover_ok [OF good [OF img] assms(4,5), of io_fine sh "vs_limits su" 1]
      by (auto simp: with_wal_def io_fine_def assms(7))
    moreover obtain root where "get_log_state (w_db w')
        = Inr \<lparr>next_index = length E, integrated_size = m', state_root_hash = root\<rparr>"
      using cycle_reads(1) [OF m'(2) refl] by blast
    ultimately show ?thesis by (simp add: init_vindex_def)
  qed
  with m' show ?thesis by blast
qed


text \<open>An example: one entry is sequenced and the worker runs a cycle, whose mark is committed with its
  answer lost.\<close>

definition demo_log :: "entry list" where
  "demo_log = [\<lparr>entry_data = [1], entry_leaf_hash = 5\<rparr>]"

definition demo_vworld :: "((string \<times> byte list) list, vstate) world" where
  "demo_vworld = \<lparr>w_db = snd (sequence_entries demo_log (empty_db None)), w_store = [], w_index = demo_fresh\<rparr>"

definition demo_setup :: vindex_setup where
  "demo_setup = \<lparr>vs_limits = demo_limits, vs_open_io = io_fine, vs_rm_ok = True, vs_rebuild_open_io = io_fine,
     vs_rebuild_ios = \<lambda>_. demo_vio\<rparr>"

definition demo_cycle_env :: cycle_env where
  "demo_cycle_env = calm_env\<lparr>ce_mark := Call_Lost, ce_order := rev\<rparr>"

definition demo_vcycle :: "unit res \<times> ((string \<times> byte list) list, vstate) world" where
  "demo_vcycle = run_integration_cycle demo_hash memory_op \<lparr>integration_batch_size = 4, witness_quorum = None\<rparr> demo_cycle_env
     (Some (vindex_ops demo_digest (\<lambda>_. 7) rev (identity_map_fn demo_digest) (\<lambda>_. demo_vio) demo_vio)) demo_vworld"

lemma demo_vworld_ok: "sys_ok hc memory_op demo_log 0 demo_vworld"
proof -
  have "db_log (snd (sequence_entries demo_log (empty_db None))) demo_log 0"
    using sequence_entries_ok [OF empty_db_log refl, of None demo_log]
    by (auto simp: demo_log_def)
  then show ?thesis
    using store_serves_empty [OF memory_op_laws]
    by (simp add: sys_ok_def demo_vworld_def leaves_def bundles_serve_def memory_op_laws)
qed

lemma demo_vworld_follows:
  "index_follows demo_digest (\<lambda>_. 7) (identity_map_fn demo_digest) 4 demo_log 0 (w_index demo_vworld)"
proof -
  have "clean demo_digest (\<lambda>_. 7) (log_keys (identity_map_fn demo_digest) demo_log) 0 0 0 demo_fresh"
    by (rule open_fresh [OF demo_open]) (simp_all add: iter_laws_def log_keys_def distinct_entry_keys)
  then show ?thesis unfolding index_follows_def by (auto simp: demo_vworld_def)
qed

theorem vindex_cycle_crash_safe_witness:
  "\<exists>m'. sys_ok demo_hash memory_op demo_log m' (snd demo_vcycle)
    \<and> (\<forall>img. crash_image (w_index (snd demo_vcycle)) img \<longrightarrow>
         (\<exists>v. init_vindex demo_digest (\<lambda>_. 7) rev (identity_map_fn demo_digest) demo_setup memory_op
              (w_store (snd demo_vcycle)) (w_db (snd demo_vcycle)) (Some img) = Inr v
            \<and> vi_ok demo_digest (log_keys (identity_map_fn demo_digest) demo_log) m' (vs_vi v)))"
proof -
  have "run_integration_cycle demo_hash memory_op \<lparr>integration_batch_size = 4, witness_quorum = None\<rparr> demo_cycle_env
     (Some (vindex_ops demo_digest (\<lambda>_. 7) rev (identity_map_fn demo_digest) (\<lambda>_. demo_vio) demo_vio)) demo_vworld
     = (fst demo_vcycle, snd demo_vcycle)" by (simp add: demo_vcycle_def)
  from vindex_cycle_crash_safe [OF demo_vworld_ok _ _ _ _ this, of demo_setup] demo_vworld_follows show ?thesis
    by (auto simp: demo_cycle_env_def order_laws_def demo_log_def crc_laws_def iter_laws_def demo_setup_def)
qed

theorem rebuild_from_storage_correct_witness:
  "bundles_serve memory_op (snd (write_entry_bundle memory_op 0 1 \<lparr>bundle_entries = [[1]]\<rparr> [])) demo_log 1
   \<and> (\<exists>s. rebuild_from_storage demo_digest (\<lambda>_. 7) rev (identity_map_fn demo_digest) demo_limits True io_fine (\<lambda>_. demo_vio)
        memory_op (snd (write_entry_bundle memory_op 0 1 \<lparr>bundle_entries = [[1]]\<rparr> [])) 1 = Inr s
      \<and> vi_ok demo_digest (log_keys (identity_map_fn demo_digest) demo_log) 1 (vs_vi s))"
proof
  let ?b = "\<lparr>bundle_entries = [[1]]\<rparr>"
  have "write_entry_bundle memory_op 0 1 ?b [] = (Inr (), snd (write_entry_bundle memory_op 0 1 ?b []))"
    by (simp add: write_entry_bundle_def bundle_to_bytes_def memory_op_def bind_st_def lift_st_def)
  from write_entry_bundle_same [OF memory_op_laws this]
  show sv: "bundles_serve memory_op (snd (write_entry_bundle memory_op 0 1 ?b [])) demo_log 1"
    by (auto simp: bundles_serve_def memory_op_laws get_bundle_Some_iff bundle_data_def demo_log_def bundle_partial)
  have "fits_limits (log_keys (identity_map_fn demo_digest) demo_log) 1 demo_limits"
    by (simp add: fits_limits_def log_keys_def entry_keys_def identity_map_fn_def demo_log_def demo_limits_def
        MAX_KEYS_PER_ENTRY_def key_positions_def)
  with rebuild_from_storage_correct [OF sv, of "\<lambda>_. 7" rev demo_digest "identity_map_fn demo_digest" demo_limits True
      io_fine "\<lambda>_. demo_vio"]
  show "\<exists>s. rebuild_from_storage demo_digest (\<lambda>_. 7) rev (identity_map_fn demo_digest) demo_limits True io_fine (\<lambda>_. demo_vio)
        memory_op (snd (write_entry_bundle memory_op 0 1 ?b [])) 1 = Inr s
      \<and> vi_ok demo_digest (log_keys (identity_map_fn demo_digest) demo_log) 1 (vs_vi s)"
    by (auto simp: crc_laws_def iter_laws_def io_fine_def demo_vio_def vio_fine_def)
qed

end
