(* ===== verification/Api_Handlers.thy ===== *)
theory Api_Handlers
  imports Log_Client Vindex_Log
begin

unbundle bit_operations_syntax

text \<open>
  The HTTP API of the log, \<^verbatim>\<open>src/api/handlers.rs\<close> with the read routes of \<^verbatim>\<open>src/api/mod.rs\<close>. A
  handler is a function of the application state and the request; its result is the response or an
  error, which \<open>into_response\<close> turns into a status. The answer of the sequencer is the argument
  \<open>add\<close>, the hex codec the argument \<open>hx\<close>, and the serialized JSON of a body is left to the
  library. The last part serves the log to the client of \<open>Log_Client\<close>.
\<close>


subsection \<open>State and responses\<close>

record 's app_state =
  as_db :: database
  as_store :: 's
  as_vindex :: "vindex option"
  as_api_key :: "string option"

record vindex_lookup_response =
  vr_indices :: "nat list"
  vr_tree_size :: nat
  vr_found :: bool
  vr_proof :: "(nat \<times> string \<times> string) list"
  vr_root_hash :: string

record vindex_stats_response =
  sr_tree_size :: nat
  sr_key_count :: nat
  sr_root_hash :: string

record ready_response =
  rr_next_index :: nat
  rr_integrated_size :: nat
  rr_pending_count :: nat

datatype api_body =
  Text string | Raw "byte list" | Lookup_Json vindex_lookup_response | Stats_Json vindex_stats_response
  | Ready_Json ready_response | Error_Body response_body | Json json

record api_response =
  ar_status :: nat
  ar_headers :: "(string \<times> string) list"
  ar_body :: api_body

record hex_codec =
  hx_encode :: "byte list \<Rightarrow> string"
  hx_decode :: "string \<Rightarrow> byte list option"

definition hex_laws :: "hex_codec \<Rightarrow> bool" where
  "hex_laws hx \<longleftrightarrow> (\<forall>bs. hx_decode hx (hx_encode hx bs) = Some bs)"

definition MAX_ENTRY_SIZE :: nat where "MAX_ENTRY_SIZE = u16_max"


subsection \<open>Adding entries\<close>

definition constant_time_eq :: "byte list \<Rightarrow> byte list \<Rightarrow> bool" where
  "constant_time_eq a b =
     (if length a \<noteq> length b then False
      else fold (\<lambda>(left, right) diff. diff OR (left XOR right)) (zip a b) 0 = 0)"

text \<open>\<open>HeaderValue::to_str\<close> is defined for visible ASCII and tabs; \<open>str::strip_prefix\<close>.\<close>

definition header_to_str :: "byte list \<Rightarrow> string option" where
  "header_to_str v = (if list_all (\<lambda>b. b = 9 \<or> 32 \<le> b \<and> b < 127) v then Some (bytes_str v) else None)"

definition strip_prefix :: "string \<Rightarrow> string \<Rightarrow> string option" where
  "strip_prefix p s = (if starts_with p s then Some (drop (length p) s) else None)"

definition authorize_write :: "string option \<Rightarrow> byte list option \<Rightarrow> unit res" where
  "authorize_write api_key authorization =
     (case api_key of
        None \<Rightarrow> Inr ()
      | Some expected_key \<Rightarrow>
          (case Option.bind (Option.bind authorization header_to_str) (strip_prefix ''Bearer '') of
             Some token \<Rightarrow>
               if constant_time_eq (str_bytes token) (str_bytes expected_key) then Inr () else Inl Unauthorized
           | None \<Rightarrow> Inl Unauthorized))"

definition add_entry ::
  "(byte list \<Rightarrow> sha256_hash) \<Rightarrow> (entry \<Rightarrow> nat res) \<Rightarrow> 's app_state \<Rightarrow> byte list option \<Rightarrow> byte list \<Rightarrow> api_response res" where
  "add_entry hash_leaf add st authorization body =
     bind_res (authorize_write (as_api_key st) authorization) (\<lambda>_.
       if body = [] then Inl InvalidEntry
       else if MAX_ENTRY_SIZE < length body then Inl InvalidEntry
       else bind_res (add (new_entry hash_leaf body)) (\<lambda>index.
            Inr \<lparr>ar_status = 200, ar_headers = [], ar_body = Text (dec index)\<rparr>))"


subsection \<open>Reading the log\<close>

definition get_checkpoint :: "'s operator \<Rightarrow> 's app_state \<Rightarrow> api_response res" where
  "get_checkpoint op st =
     bind_res (read_checkpoint op (as_store st)) (\<lambda>found.
       case found of
         Some data \<Rightarrow> Inr \<lparr>ar_status = 200, ar_headers = [(''cache-control'', ''no-cache'')], ar_body = Raw data\<rparr>
       | None \<Rightarrow> Inl NotFound)"

definition handle_get_tile :: "'s operator \<Rightarrow> 's app_state \<Rightarrow> string \<Rightarrow> string \<Rightarrow> api_response res" where
  "handle_get_tile op st level_str path_str =
     bind_res (parse_tile_path level_str path_str) (\<lambda>(level, index, partial).
     bind_res (read_raw op (as_store st) (tile_path level index partial)) (\<lambda>found.
       case found of
         Some data \<Rightarrow>
           Inr \<lparr>ar_status = 200,
                ar_headers = [(''cache-control'', ''max-age=31536000, immutable''),
                              (''content-type'', ''application/octet-stream'')],
                ar_body = Raw data\<rparr>
       | None \<Rightarrow> Inl NotFound))"

definition get_entries :: "'s operator \<Rightarrow> 's app_state \<Rightarrow> string \<Rightarrow> api_response res" where
  "get_entries op st path_str =
     bind_res (parse_tile_index path_str) (\<lambda>(index, partial).
     bind_res (read_raw op (as_store st) (entries_path index partial)) (\<lambda>found.
       case found of
         Some data \<Rightarrow>
           Inr \<lparr>ar_status = 200, ar_headers = [(''content-type'', ''application/octet-stream'')], ar_body = Raw data\<rparr>
       | None \<Rightarrow> Inl NotFound))"

definition health :: api_response where
  "health = \<lparr>ar_status = 200, ar_headers = [], ar_body = Text ''ok''\<rparr>"

definition api_ready :: "'s operator \<Rightarrow> 's app_state \<Rightarrow> api_response res" where
  "api_ready op st =
     bind_res (get_log_state (as_db st)) (\<lambda>log_state.
     bind_res (read_checkpoint op (as_store st)) (\<lambda>_.
     bind_res (pending_count log_state) (\<lambda>count.
       Inr \<lparr>ar_status = 200, ar_headers = [],
            ar_body = Ready_Json \<lparr>rr_next_index = next_index log_state,
              rr_integrated_size = integrated_size log_state, rr_pending_count = count\<rparr>\<rparr>)))"


subsection \<open>Lookups in the index\<close>

text \<open>
  The lookup and the root hash are two calls on the index, which the worker may change in between:
  \<open>vi\<close> and \<open>vi'\<close> are the index at the two calls.
\<close>

definition lookup_response :: "hex_codec \<Rightarrow> lookup_result \<Rightarrow> sha256_hash \<Rightarrow> api_response" where
  "lookup_response hx result root =
     \<lparr>ar_status = 200, ar_headers = [],
      ar_body = Lookup_Json
        \<lparr>vr_indices = lr_indices result, vr_tree_size = lr_tree_size result, vr_found = lr_found result,
         vr_proof = map (\<lambda>n. (label_bit_len n, hx_encode hx (label_path n), hx_encode hx (hash_bytes (pn_hash n))))
           (lr_proof result),
         vr_root_hash = hx_encode hx (hash_bytes root)\<rparr>\<rparr>"

definition handle_vindex_lookup ::
  "hex_codec \<Rightarrow> digest \<Rightarrow> (vindex \<times> vindex) option \<Rightarrow> string \<Rightarrow> api_response res" where
  "handle_vindex_lookup hx sh vindexes hash_str =
     bind_res (ok_or error.Internal vindexes) (\<lambda>(vi, vi').
     bind_res (ok_or InvalidEntry (hx_decode hx hash_str)) (\<lambda>key.
       if length key \<noteq> 32 then Inl InvalidEntry
       else bind_res (ok_or Panic (vindex_lookup sh vi (hash_from_bytes key))) (\<lambda>result.
            Inr (lookup_response hx result (vindex_root_hash sh vi')))))"

definition handle_vindex_lookup_key ::
  "hex_codec \<Rightarrow> digest \<Rightarrow> (vindex \<times> vindex) option \<Rightarrow> string \<Rightarrow> api_response res" where
  "handle_vindex_lookup_key hx sh vindexes key =
     bind_res (ok_or error.Internal vindexes) (\<lambda>(vi, vi').
     bind_res (ok_or Panic (lookup_string sh vi key)) (\<lambda>result.
       Inr (lookup_response hx result (vindex_root_hash sh vi'))))"

definition vindex_stats :: "hex_codec \<Rightarrow> digest \<Rightarrow> vindex option \<Rightarrow> api_response res" where
  "vindex_stats hx sh vindex =
     bind_res (ok_or error.Internal vindex) (\<lambda>vi.
       Inr \<lparr>ar_status = 200, ar_headers = [],
            ar_body = Stats_Json \<lparr>sr_tree_size = vi_tree_size vi, sr_key_count = key_count vi,
              sr_root_hash = hx_encode hx (hash_bytes (vindex_root_hash sh vi))\<rparr>\<rparr>)"


subsection \<open>Routes\<close>

text \<open>The read routes: a fixed segment is preferred to a parameter, and \<open>{*path}\<close> is not empty.\<close>

datatype route = Checkpoint_Route | Entries_Route string | Tile_Route string string | Health_Route | Ready_Route

definition route_get :: "string \<Rightarrow> route option" where
  "route_get path =
     (if path = ''/checkpoint'' then Some Checkpoint_Route
      else if path = ''/health'' then Some Health_Route
      else if path = ''/ready'' then Some Ready_Route
      else if starts_with ''/tile/entries/'' path \<and> drop 14 path \<noteq> [] then Some (Entries_Route (drop 14 path))
      else if starts_with ''/tile/'' path then
        (let rest = drop 6 path; level = takeWhile (\<lambda>c. c \<noteq> CHR ''/'') rest; tl_path = drop (length level + 1) rest
         in if level = [] \<or> tl_path = [] then None else Some (Tile_Route level tl_path))
      else None)"

definition error_response :: "error \<Rightarrow> api_response" where
  "error_response e = (case into_response e of (status, body) \<Rightarrow>
     \<lparr>ar_status = status, ar_headers = [], ar_body = Error_Body body\<rparr>)"

definition to_response :: "api_response res \<Rightarrow> api_response" where
  "to_response r = (case r of Inl e \<Rightarrow> error_response e | Inr resp \<Rightarrow> resp)"

definition serve_get :: "'s operator \<Rightarrow> 's app_state \<Rightarrow> string \<Rightarrow> api_response" where
  "serve_get op st path =
     (case route_get path of
        Some Checkpoint_Route \<Rightarrow> to_response (get_checkpoint op st)
      | Some (Entries_Route p) \<Rightarrow> to_response (get_entries op st p)
      | Some (Tile_Route level p) \<Rightarrow> to_response (handle_get_tile op st level p)
      | Some Health_Route \<Rightarrow> health
      | Some Ready_Route \<Rightarrow> to_response (api_ready op st)
      | None \<Rightarrow> \<lparr>ar_status = 404, ar_headers = [], ar_body = Text []\<rparr>)"


subsection \<open>Authorization and entry sizes\<close>

lemma fold_diff_zero:
  fixes d :: byte
  shows "length a = length b \<Longrightarrow>
    fold (\<lambda>(left, right) diff. diff OR (left XOR right)) (zip a b) d = 0 \<longleftrightarrow> d = 0 \<and> a = b"
proof (induction a b arbitrary: d rule: list_induct2)
  case (Cons x xs y ys)
  have "d OR (x XOR y) = 0 \<longleftrightarrow> d = 0 \<and> x = y"
    by (metis or_eq_0_iff xor.commute xor_self_eq xor.left_neutral xor.assoc)
  with Cons show ?case by auto
qed simp

lemma constant_time_eq_iff: "constant_time_eq a b \<longleftrightarrow> a = b"
  by (auto simp: constant_time_eq_def fold_diff_zero)

lemma starts_with_iff: "starts_with p s \<longleftrightarrow> (\<exists>t. s = p @ t)"
  by (induction p s rule: starts_with.induct) auto

lemma header_authorized_iff:
  "authorize_write (Some key) authorization = Inr ()
     \<longleftrightarrow> Option.bind authorization header_to_str = Some (''Bearer '' @ key)"
proof -
  have inj: "str_bytes a = str_bytes b \<longleftrightarrow> a = b" for a b by (metis str_bytes_inverse)
  show ?thesis
  proof (cases "Option.bind authorization header_to_str")
    case None
    then show ?thesis by (simp add: authorize_write_def)
  next
    case (Some s)
    show ?thesis
    proof (cases "starts_with ''Bearer '' s")
      case True
      then obtain token where "s = ''Bearer '' @ token" by (auto simp: starts_with_iff)
      with Some True show ?thesis by (simp add: authorize_write_def strip_prefix_def constant_time_eq_iff inj)
    next
      case False
      then have "s \<noteq> ''Bearer '' @ key" by (auto simp: starts_with_iff)
      with Some False show ?thesis by (simp add: authorize_write_def strip_prefix_def)
    qed
  qed
qed

lemma authorize_write_cases: "authorize_write key authorization \<in> {Inr (), Inl Unauthorized}"
  by (auto simp: authorize_write_def split: option.splits)

text \<open>What a write needs: the sequencer sees an entry exactly when the header carries the configured
  key and the body has between one byte and the size that a bundle can hold; every other request
  gets its error, and entries that were accepted can always be written to a bundle.\<close>

lemma add_entry_guarded:
  "add_entry hash_leaf add st authorization body =
     (if as_api_key st \<noteq> None \<and> Option.bind authorization header_to_str \<noteq> map_option (append ''Bearer '') (as_api_key st)
      then Inl Unauthorized
      else if body = [] \<or> u16_max < length body then Inl InvalidEntry
      else bind_res (add (new_entry hash_leaf body)) (\<lambda>index.
        Inr \<lparr>ar_status = 200, ar_headers = [], ar_body = Text (dec index)\<rparr>))
   \<and> (list_all (\<lambda>b. is_ok (add_entry hash_leaf add st authorization b)) bodies
        \<longrightarrow> is_ok (bundle_to_bytes \<lparr>bundle_entries = bodies\<rparr>))"
proof
  show "add_entry hash_leaf add st authorization body =
     (if as_api_key st \<noteq> None \<and> Option.bind authorization header_to_str \<noteq> map_option (append ''Bearer '') (as_api_key st)
      then Inl Unauthorized
      else if body = [] \<or> u16_max < length body then Inl InvalidEntry
      else bind_res (add (new_entry hash_leaf body)) (\<lambda>index.
        Inr \<lparr>ar_status = 200, ar_headers = [], ar_body = Text (dec index)\<rparr>))"
  proof (cases "as_api_key st")
    case None
    then show ?thesis by (simp add: add_entry_def authorize_write_def MAX_ENTRY_SIZE_def)
  next
    case (Some key)
    then show ?thesis
      using header_authorized_iff [of key authorization] authorize_write_cases [of "Some key" authorization]
      by (auto simp: add_entry_def MAX_ENTRY_SIZE_def)
  qed
  have "length b \<le> u16_max" if "is_ok (add_entry hash_leaf add st authorization b)" for b
    using that by (auto simp: add_entry_def MAX_ENTRY_SIZE_def res_simps not_less split: if_splits)
  then show "list_all (\<lambda>b. is_ok (add_entry hash_leaf add st authorization b)) bodies
      \<longrightarrow> is_ok (bundle_to_bytes \<lparr>bundle_entries = bodies\<rparr>)"
    by (simp add: bundle_to_bytes_def bundle_encode_eq list_all_iff)
qed


subsection \<open>Serving the log to its client\<close>

text \<open>
  A log server as the client sees it, at the URL \<open>base\<close>: \<open>ser\<close> is the serialization of a body, which
  leaves raw bytes as they are, and \<open>chop\<close> how the connection cuts them into chunks.
\<close>

definition log_server ::
  "(api_body \<Rightarrow> byte list) \<Rightarrow> (byte list \<Rightarrow> byte list list) \<Rightarrow> 's operator \<Rightarrow> 's app_state \<Rightarrow> string \<Rightarrow> http_get" where
  "log_server ser chop op st base url =
     (if starts_with base url
      then let r = serve_get op st (drop (length base) url) in Some (ar_status r, map Inr (chop (ser (ar_body r))))
      else None)"

definition wire_laws :: "(api_body \<Rightarrow> byte list) \<Rightarrow> (byte list \<Rightarrow> byte list list) \<Rightarrow> bool" where
  "wire_laws ser chop \<longleftrightarrow> (\<forall>d. ser (Raw d) = d) \<and> (\<forall>d. concat (chop d) = d)"

lemma bounded_body_concat:
  "length data + length (concat cs) \<le> limit \<Longrightarrow> bounded_body limit data (map Inr cs) = Inr (data @ concat cs)"
  by (induction cs arbitrary: data) auto

lemma client_reads_raw:
  assumes "wire_laws ser chop" and "cl_url c = base"
    and "serve_get op st (CHR ''/'' # path) = \<lparr>ar_status = 200, ar_headers = hs, ar_body = Raw data\<rparr>"
    and "length data \<le> limit"
  shows "client_read (log_server ser chop op st base) c path limit = Inr data"
  using assms bounded_body_concat [of "[]" "chop data" limit]
  by (simp add: client_read_def log_server_def wire_laws_def)

lemma suffix_not_Nil: "format_n_with_suffix n p \<noteq> []"
proof -
  have "r \<noteq> [] \<Longrightarrow> format_n_loop m r \<noteq> []" for m r
    by (induction m r rule: format_n_loop.induct) (subst format_n_loop.simps, simp)
  moreover have "pad3 m \<noteq> []" for m by (simp add: pad3_def)
  ultimately show ?thesis by (simp add: format_n_with_suffix_def format_n_def)
qed

lemma route_tile: "route_get (CHR ''/'' # tile_path l i p) = Some (Tile_Route (dec l) (format_n_with_suffix i p))"
proof -
  have d: "list_all is_digit (dec l)" by (simp add: dec_digits)
  then have no_slash: "\<forall>c \<in> set (dec l). c \<noteq> CHR ''/''" by (auto simp: list_all_iff digit_chars)
  obtain c cs where c: "dec l = c # cs" "is_digit c" using d by (cases "dec l") (auto simp: dec_digits)
  then have e: "CHR ''e'' \<noteq> c" by (auto simp: is_digit_def)
  then have "\<not> starts_with ''/tile/entries/'' (CHR ''/'' # tile_path l i p)"
    using e by (simp add: tile_path_def c(1))
  moreover have "takeWhile (\<lambda>c. c \<noteq> CHR ''/'') (dec l @ CHR ''/'' # format_n_with_suffix i p) = dec l"
    using no_slash by (simp add: takeWhile_append2)
  ultimately show ?thesis
    using c(1) e by (simp add: route_get_def tile_path_def suffix_not_Nil Let_def)
qed

lemma route_entries: "route_get (CHR ''/'' # entries_path i p) = Some (Entries_Route (format_n_with_suffix i p))"
  by (simp add: route_get_def entries_path_def suffix_not_Nil)

lemma serve_tile:
  assumes "l \<le> 63" and "tile_key (l, i, p)" and "op_read op (as_store st) (tile_path l i p) = OpFound data"
  shows "\<exists>hs. serve_get op st (CHR ''/'' # tile_path l i p) = \<lparr>ar_status = 200, ar_headers = hs, ar_body = Raw data\<rparr>"
  using assms parse_tile_path_roundtrip [of l i p]
  by (auto simp: serve_get_def route_tile handle_get_tile_def read_raw_def to_response_def)

lemma serve_entries:
  assumes "bundle_key (i, p)" and "op_read op (as_store st) (entries_path i p) = OpFound data"
  shows "\<exists>hs. serve_get op st (CHR ''/'' # entries_path i p) = \<lparr>ar_status = 200, ar_headers = hs, ar_body = Raw data\<rparr>"
  using assms parse_format_suffix [of i p]
  by (auto simp: serve_get_def route_entries get_entries_def read_raw_def to_response_def)


lemma stored_tile_read: "get_tile op s (l, i, p) = Some t \<Longrightarrow> op_read op s (tile_path l i p) = OpFound (hash_tile_to_bytes t)"
  unfolding get_tile_Some_iff
  by (auto simp: Tile_Store.read_tile_def res_simps hash_tile_encode_decode split: op_read.splits)

lemma stored_bundle_read:
  "get_bundle op s (i, p) = Some b \<Longrightarrow> \<exists>data. op_read op s (entries_path i p) = OpFound data \<and> bundle_from_bytes data = Inr b"
  unfolding get_bundle_Some_iff by (auto simp: read_entry_bundle_def res_simps split: op_read.splits)

lemma take_tile_bytes: "k \<le> length (tile_nodes t) \<Longrightarrow>
  take (k * 32) (hash_tile_to_bytes t) = hash_tile_to_bytes (t\<lparr>tile_nodes := take k (tile_nodes t)\<rparr>)"
proof -
  have "take (k * 32) (concat (map hash_bytes ns)) = concat (map hash_bytes (take k ns))" for ns
    by (induction ns arbitrary: k) (auto simp: take_Cons split: nat.split)
  then show ?thesis by (simp add: hash_tile_to_bytes_def)
qed

text \<open>The client together with the server it talks to is a source of tiles.\<close>

definition http_reader ::
  "(api_body \<Rightarrow> byte list) \<Rightarrow> (byte list \<Rightarrow> byte list list) \<Rightarrow> 's operator \<Rightarrow> 's app_state \<times> log_client \<Rightarrow> tile_reader" where
  "http_reader ser chop op = (\<lambda>(st, c). client_reader (log_server ser chop op st (cl_url c)) c)"

definition http_serves ::
  "hash_fn \<Rightarrow> (api_body \<Rightarrow> byte list) \<Rightarrow> (byte list \<Rightarrow> byte list list) \<Rightarrow> 's operator
     \<Rightarrow> 's app_state \<times> log_client \<Rightarrow> sha256_hash list \<Rightarrow> bool" where
  "http_serves hc ser chop op = (\<lambda>(st, c) D. store_serves hc op (as_store st) D \<and> wire_laws ser chop
     \<and> cache_ok (log_server ser chop op st (cl_url c)) c)"

lemma served_tile:
  assumes sv: "store_serves hc op (as_store st) D" and wire: "wire_laws ser chop"
    and l: "l < 8" and i: "i * 256 < length D div 256 ^ l"
  shows "\<exists>tile. fetch_tile (log_server ser chop op st url) url l i (partial_tile_size l i (length D)) = Inr (Some tile)
    \<and> row_ok hc D l i (tile_nodes tile)"
proof -
  let ?p = "partial_tile_size l i (length D)" and ?k = "row_count (length D) l i"
  obtain t where t: "get_tile op (as_store st) (l, i, ?p) = Some t" and row: "row_ok hc D l i (tile_nodes t)"
    using sv l i by (auto simp: store_serves_def)
  have pos: "0 < ?k" using i by (simp add: row_count_pos_iff)
  have k: "(if ?p = 0 then 256 else ?p) = ?k"
  proof -
    have "?k \<le> 256" by (simp add: row_count_def)
    with pos show ?thesis using partial_row [OF l pos] by (cases "?k = 256") auto
  qed
  have len: "?k \<le> length (tile_nodes t)" "length (tile_nodes t) \<le> 511" using row by (simp_all add: row_ok_def)
  have "length D \<le> i64_max" using sv by (simp add: store_serves_def)
  then have key: "tile_key (l, i, ?p)" by (rule row_tile_key [OF pos])
  obtain hs where "serve_get op st (CHR ''/'' # tile_path l i ?p)
      = \<lparr>ar_status = 200, ar_headers = hs, ar_body = Raw (hash_tile_to_bytes t)\<rparr>"
    using serve_tile [OF _ key stored_tile_read [OF t]] l by auto
  then have "client_read (log_server ser chop op st url) \<lparr>cl_url = url, cl_tiles = []\<rparr> (tile_path l i ?p) (511 * 32)
      = Inr (hash_tile_to_bytes t)"
    using len by (intro client_reads_raw [OF wire]) simp_all
  then have "fetch_tile (log_server ser chop op st url) url l i ?p
      = Inr (Some (t\<lparr>tile_nodes := take ?k (tile_nodes t)\<rparr>))"
    using len by (simp add: fetch_tile_def client_reader_def client_read_tile_def Let_def k take_tile_bytes
        hash_tile_decode_encode)
  moreover have "row_ok hc D l i (take ?k (tile_nodes t))" using row by (simp add: row_ok_def)
  ultimately show ?thesis by auto
qed

interpretation http: tile_source hc "http_reader ser chop op" "http_serves hc ser chop op" for hc ser chop op
proof (unfold_locales, goal_cases)
  case (1 sc D)
  then show ?case by (auto simp: http_serves_def store_serves_def split: prod.splits)
next
  case (2 sc D l i)
  obtain st c where sc: "sc = (st, c)" by (cases sc)
  with 2 have sv: "store_serves hc op (as_store st) D" and wire: "wire_laws ser chop"
    and cache: "cache_ok (log_server ser chop op st (cl_url c)) c" by (auto simp: http_serves_def)
  have "length D \<le> i64_max" using sv by (simp add: store_serves_def)
  then have "tile_key (l, i, partial_tile_size l i (length D))"
    using 2 by (intro row_tile_key) (simp_all add: row_count_pos_iff)
  from client_reader_eq [OF cache this] served_tile [OF sv wire 2(2,3)] show ?case
    by (simp add: sc http_reader_def)
qed

lemma served_bundle:
  assumes sv: "bundles_serve op (as_store st) E m" and wire: "wire_laws ser chop" and b: "b * 256 < m"
  shows "client_bundle (log_server ser chop op st (cl_url c)) c b m = Inr \<lparr>bundle_entries = bundle_data E m b\<rparr>"
proof -
  let ?count = "min (m - b * 256) 256" and ?B = "\<lparr>bundle_entries = bundle_data E m b\<rparr>"
  have m: "m \<le> i64_max" using sv by (simp add: bundles_serve_def)
  have p: "partial_tile_size 0 b m = ?count mod 256" using bundle_partial [OF b] by (simp add: min.commute)
  have "get_bundle op (as_store st) (b, ?count mod 256) = Some ?B" using sv b p by (metis bundles_serve_def)
  then obtain data where read: "op_read op (as_store st) (entries_path b (?count mod 256)) = OpFound data"
    and dec: "bundle_from_bytes data = Inr ?B" by (blast dest: stored_bundle_read)
  have key: "bundle_key (b, ?count mod 256)" using b m by simp
  have len: "length (bundle_data E m b) = ?count" by (simp add: bundle_data_def min_def) linarith
  have "length data \<le> ?count * 65537"
  proof -
    have frames: "data = concat (map frame (bundle_data E m b))"
      and small: "\<forall>d \<in> set (bundle_data E m b). length d \<le> u16_max"
      using dec bundle_decode_sound [of data 0 "[]" "bundle_data E m b"]
      by (auto simp: bundle_from_bytes_def res_simps list_all_iff)
    have "length (concat (map frame ds)) \<le> length ds * 65537" if "\<forall>d \<in> set ds. length d \<le> u16_max" for ds
      using that by (induction ds) (auto simp: frame_def)
    from this [OF small] show ?thesis by (simp add: frames len)
  qed
  moreover obtain hs where "serve_get op st (CHR ''/'' # entries_path b (?count mod 256))
      = \<lparr>ar_status = 200, ar_headers = hs, ar_body = Raw data\<rparr>"
    using serve_entries [OF key read] by blast
  ultimately have "client_read (log_server ser chop op st (cl_url c)) c (entries_path b (?count mod 256)) (?count * (65535 + 2))
      = Inr data"
    by (intro client_reads_raw [OF wire refl]) simp_all
  moreover have "\<not> (m + 255) div 256 \<le> b" using b by linarith
  ultimately show ?thesis using m dec len by (simp add: client_bundle_def Let_def)
qed

text \<open>C15. The log and its client: from a log whose invariant holds, over HTTP and through its cache, a client
  gets the entry at any integrated index in its bundle, and its check of that entry against a
  checkpoint with the root of the log succeeds.\<close>

theorem client_accepts_served_log:
  assumes "sys_ok hc op E m w" and "as_store st = w_store w" and "wire_laws ser chop"
    and "inclusion_laws hc verify_inclusion" and "cache_ok (log_server ser chop op st (cl_url c)) c"
    and "index < m" and "entry_leaf_hash (E ! index) = hash_leaf (entry_data (E ! index))"
    and "cp_size cp = m" and "cp_root cp = mth hc empty_root_hash (leaves E m)"
  shows "\<exists>b. client_bundle (log_server ser chop op st (cl_url c)) c (index div 256) m = Inr b
    \<and> bundle_entries b ! (index mod 256) = entry_data (E ! index)
    \<and> verify_entry hc hash_leaf verify_inclusion (client_reader (log_server ser chop op st (cl_url c)) c)
        (entry_data (E ! index)) index cp = Inr ()"
proof -
  have sv: "store_serves hc op (as_store st) (leaves E m)" and bs: "bundles_serve op (as_store st) E m"
    using assms(1,2) by (simp_all add: sys_ok_def)
  have m: "m \<le> length E" using bs by (simp add: bundles_serve_def)
  let ?b = "index div 256"
  have b: "?b * 256 < m" using assms(6) by linarith
  have off: "index = ?b * 256 + index mod 256" by simp
  have "[?b * 256..<min m (?b * 256 + 256)] ! (index mod 256) = index"
    using assms(6) by (subst nth_upt) simp_all
  then have "bundle_data E m ?b ! (index mod 256) = entry_data (E ! index)"
    using assms(6) by (simp add: bundle_data_def less_diff_conv)
  moreover have "verify_entry hc hash_leaf verify_inclusion (http_reader ser chop op (st, c))
      (entry_data (E ! index)) index cp = Inr ()"
  proof (rule http.verify_entry_ok [OF assms(4)])
    show "http_serves hc ser chop op (st, c) (leaves E m)"
      using sv assms(3,5) by (simp add: http_serves_def)
    show "leaves E m ! index = hash_leaf (entry_data (E ! index))"
      using assms(6,7) m by (simp add: leaves_def)
  qed (use assms(6,8,9) length_leaves [OF m] in simp_all)
  ultimately show ?thesis using served_bundle [OF bs assms(3) b, of c] by (auto simp: http_reader_def)
qed


subsection \<open>Lookups over HTTP\<close>

text \<open>The proof in a response, decoded.\<close>

definition decode_node :: "hex_codec \<Rightarrow> nat \<times> string \<times> string \<Rightarrow> proof_node option" where
  "decode_node hx = (\<lambda>(len, path, h).
     Option.bind (hx_decode hx path) (\<lambda>p. Option.bind (hx_decode hx h) (\<lambda>bs.
       Some \<lparr>label_bit_len = len, label_path = p, pn_hash = hash_from_bytes bs\<rparr>)))"

definition response_verifies :: "hex_codec \<Rightarrow> digest \<Rightarrow> sha256_hash \<Rightarrow> vindex_lookup_response \<Rightarrow> bool" where
  "response_verifies hx sh key r =
     (case (map_option hash_from_bytes (hx_decode hx (vr_root_hash r)), those (map (decode_node hx) (vr_proof r))) of
        (Some root, Some ns) \<Rightarrow>
          proof_root sh (label_from_key key) ns
            (pnode_hash sh (Leaf (label_from_key key) (compute_value_hash sh (vr_indices r)))) = Some root
      | _ \<Rightarrow> False)"

lemma decode_lookup_nodes:
  assumes "hex_laws hx"
  shows "those (map (decode_node hx)
      (map (\<lambda>n. (label_bit_len n, hx_encode hx (label_path n), hx_encode hx (hash_bytes (pn_hash n)))) ns)) = Some ns"
  using assms by (induction ns) (simp_all add: decode_node_def hex_laws_def)

text \<open>C20. A lookup over HTTP: the response for a key that some indexed entry has lists the positions of those
  entries, and its proof, decoded, leads from that list to the root hash in the response exactly
  when the index has the same root hash at the two calls of the handler. So it verifies when
  the index is left alone, and does not when the worker changes the tree between the lookup and the
  reading of the root hash, although the lookup result carried a root hash that fits.\<close>

theorem lookup_response_verifies:
  assumes "hex_laws hx" and "vi_ok sh K n vi" and "hx_decode hx hash_str = Some (hash_bytes key)"
    and "i < n" and "key \<in> set (K i)"
  shows "\<exists>resp r. handle_vindex_lookup hx sh (Some (vi, vi')) hash_str = Inr resp \<and> ar_body resp = Lookup_Json r
    \<and> vr_found r \<and> vr_indices r = key_positions K n key
    \<and> (response_verifies hx sh key r \<longleftrightarrow> vindex_root_hash sh vi' = vindex_root_hash sh vi)"
proof -
  obtain r where r: "vindex_lookup sh vi key = Some r" "lr_indices r = key_positions K n key"
    "lr_root_hash r = vindex_root_hash sh vi" "lr_found r"
    "proof_root sh (label_from_key key) (lr_proof r)
       (pnode_hash sh (Leaf (label_from_key key) (compute_value_hash sh (lr_indices r)))) = Some (lr_root_hash r)"
    using lookup_ok [OF assms(2), of key] assms(4,5) by blast
  then show ?thesis
    using assms(1,3) decode_lookup_nodes [OF assms(1), of "lr_proof r"]
    by (auto simp: handle_vindex_lookup_def lookup_response_def response_verifies_def hex_laws_def
        simp del: pnode_hash.simps)
qed

text \<open>Examples.\<close>

definition demo_hex :: hex_codec where
  "demo_hex = \<lparr>hx_encode = bytes_str, hx_decode = \<lambda>s. Some (str_bytes s)\<rparr>"

definition demo_reindexed :: "unit res \<times> vstate" where
  "demo_reindexed = index_entry demo_digest (\<lambda>_. 7) (json_keys_map_fn demo_digest demo_json ''keys'') demo_vio 1 [1]
     (snd demo_indexed)"

lemma demo_hex_laws: "hex_laws demo_hex"
proof -
  have "str_bytes (bytes_str bs) = bs" for bs :: "byte list"
  proof (induction bs)
    case (Cons b bs)
    have "unat b < 256" using unsigned_less [of b] by simp
    with Cons show ?case by (simp add: str_bytes_def bytes_str_def of_char_of)
  qed (simp add: str_bytes_def bytes_str_def)
  then show ?thesis by (simp add: hex_laws_def demo_hex_def)
qed

lemma demo_leaf_hash: "pnode_hash demo_digest (Leaf (label_from_key k) v) = 65 + of_nat (unat v mod 256)"
  by (simp add: demo_digest_def label_from_key_def last_hash_bytes hash_bytes_not_Nil unat_of_nat take_bit_eq_mod)

lemmas demo_index_simps = index_entry_def Let_def check_limits_def bind_st_def lift_st_def on_wal_def
  variant_append_def add_key_def tree_insert_def tree_new_def finish_entry_def bump_def MAX_KEYS_PER_ENTRY_def
  get_indices_def demo_keys_eq [unfolded demo_keys_def]

lemma demo_indexed_eq:
  "snd demo_indexed = demo_vstate\<lparr>vs_vi := (vindex_new 10 10)\<lparr>vi_index := [(demo_digest (str_bytes ''a''), [0])],
     vi_prefix_tree := Leaf (label_from_key (demo_digest (str_bytes ''a''))) (compute_value_hash demo_digest [0]),
     vi_tree_size := 1, vi_entries_since_snapshot := 1\<rparr>\<rparr>"
  by (simp add: demo_indexed_def demo_vstate_def vindex_new_def demo_index_simps)

lemma demo_roots:
  "vindex_root_hash demo_digest (vs_vi (snd demo_indexed)) = 73"
  "vindex_root_hash demo_digest (vs_vi (snd demo_reindexed)) = 82"
proof -
  have vals: "compute_value_hash demo_digest [0] = 8" "compute_value_hash demo_digest [0, Suc 0] = 17"
    by code_simp+
  show "vindex_root_hash demo_digest (vs_vi (snd demo_indexed)) = 73"
    by (simp add: vindex_root_hash_def demo_indexed_eq tree_root_hash_def demo_leaf_hash vals del: pnode_hash.simps)
  have "vi_prefix_tree (vs_vi (snd demo_reindexed))
      = Leaf (label_from_key (demo_digest (str_bytes ''a''))) (compute_value_hash demo_digest [0, 1])"
    unfolding demo_reindexed_def demo_indexed_eq
    by (simp add: demo_vstate_def vindex_new_def demo_index_simps)
  then show "vindex_root_hash demo_digest (vs_vi (snd demo_reindexed)) = 82"
    by (simp add: vindex_root_hash_def tree_root_hash_def demo_leaf_hash vals del: pnode_hash.simps)
qed

theorem lookup_response_verifies_witness:
  "\<exists>resp r. handle_vindex_lookup demo_hex demo_digest (Some (vs_vi (snd demo_indexed), vs_vi (snd demo_reindexed)))
       (bytes_str (hash_bytes (demo_digest (str_bytes ''a'')))) = Inr resp \<and> ar_body resp = Lookup_Json r
     \<and> vr_found r \<and> vr_indices r = [0] \<and> \<not> response_verifies demo_hex demo_digest (demo_digest (str_bytes ''a'')) r"
proof -
  have "hx_decode demo_hex (bytes_str (hash_bytes (demo_digest (str_bytes ''a''))))
      = Some (hash_bytes (demo_digest (str_bytes ''a'')))"
    using demo_hex_laws by (simp add: hex_laws_def demo_hex_def)
  from lookup_response_verifies [OF demo_hex_laws demo_indexed_vi this, of 0 "vs_vi (snd demo_reindexed)"] show ?thesis
    by (simp add: demo_keys_eq demo_roots key_positions_def)
qed

text \<open>A log with one integrated entry, its server and a client.\<close>

definition demo_app :: "(string \<times> byte list) list app_state" where
  "demo_app = \<lparr>as_db = empty_db None,
     as_store = [(tile_path 0 0 1, hash_tile_to_bytes \<lparr>tile_nodes = [5]\<rparr>), (entries_path 0 1, frame [1])],
     as_vindex = None, as_api_key = Some ''key''\<rparr>"

definition demo_ser :: "api_body \<Rightarrow> byte list" where
  "demo_ser b = (case b of Raw d \<Rightarrow> d | _ \<Rightarrow> [])"

definition demo_client :: log_client where
  "demo_client = \<lparr>cl_url = ''http://log'', cl_tiles = []\<rparr>"

lemma demo_app_ok:
  "\<exists>db. sys_ok demo_hash memory_op demo_log 1 \<lparr>w_db = db, w_store = as_store demo_app, w_index = ()\<rparr>"
proof -
  have "db_log (snd (sequence_entries demo_log (empty_db None))) demo_log 0"
    using sequence_entries_ok [OF empty_db_log refl, of None demo_log] by (auto simp: demo_log_def)
  from mark_integrated_ok [OF this, of 1 "mth demo_hash empty_root_hash (leaves demo_log 1)"]
  obtain db where db: "db_log db demo_log 1" "stored_root db = Some (mth demo_hash empty_root_hash (leaves demo_log 1))"
    by (auto simp: stored_root_def demo_log_def)
  have leaves: "leaves demo_log 1 = [5]" by (simp add: leaves_def demo_log_def)
  have "store_serves demo_hash memory_op (as_store demo_app) [5]"
  proof -
    have part: "partial_tile_size 0 0 1 = 1" by (simp add: partial_tile_size_eq)
    have tile: "get_tile memory_op (as_store demo_app) (0, 0, 1) = Some \<lparr>tile_nodes = [5]\<rparr>"
      by (simp add: get_tile_def Tile_Store.read_tile_def memory_op_def demo_app_def hash_tile_decode_encode)
    have row: "row_ok demo_hash [5] 0 0 [5]"
      by (simp add: row_ok_def row_count_def node_hash_leaf)
    have "l = 0 \<and> i = 0" if "i * 256 < 1 div 256 ^ l" for l i :: nat
    proof (cases l)
      case (Suc k)
      have "1 \<le> (256::nat) ^ k" by simp
      then have "1 < (256::nat) * 256 ^ k" by linarith
      with that Suc show ?thesis by simp
    qed (use that in simp)
    then show ?thesis using part tile row by (fastforce simp: store_serves_def memory_op_laws)
  qed
  moreover have "bundles_serve memory_op (as_store demo_app) demo_log 1"
  proof -
    have "bundle_to_bytes \<lparr>bundle_entries = [[1]]\<rparr> = Inr (frame [1])"
      by (simp add: bundle_to_bytes_def bundle_encode_eq)
    then have "get_bundle memory_op (as_store demo_app) (0, 1) = Some \<lparr>bundle_entries = [[1]]\<rparr>"
      using bundle_decode_encode tile_path_neq_entries_path [symmetric]
      by (simp add: get_bundle_def read_entry_bundle_def memory_op_def demo_app_def)
    then show ?thesis
      by (auto simp: bundles_serve_def memory_op_laws bundle_data_def demo_log_def bundle_partial)
  qed
  ultimately show ?thesis using db leaves by (auto simp: sys_ok_def)
qed

lemma demo_served: "store_serves demo_hash memory_op (as_store demo_app) [5]"
  using demo_app_ok by (auto simp: sys_ok_def leaves_def demo_log_def)

theorem client_accepts_served_log_witness:
  "\<exists>b. client_bundle (log_server demo_ser (\<lambda>d. [d]) memory_op demo_app ''http://log'') demo_client 0 1 = Inr b
     \<and> bundle_entries b ! 0 = [1]
     \<and> verify_entry demo_hash (\<lambda>_. 5) demo_inclusion
         (client_reader (log_server demo_ser (\<lambda>d. [d]) memory_op demo_app ''http://log'') demo_client) [1] 0
         \<lparr>cp_origin = ''log'', cp_size = 1, cp_root = 5\<rparr> = Inr ()"
proof -
  obtain db where ok: "sys_ok demo_hash memory_op demo_log 1 \<lparr>w_db = db, w_store = as_store demo_app, w_index = ()\<rparr>"
    using demo_app_ok by blast
  have "leaves demo_log 1 = [5]" by (simp add: leaves_def demo_log_def)
  with client_accepts_served_log [OF ok, of demo_app demo_ser "\<lambda>d. [d]" demo_inclusion demo_client 0 "\<lambda>_. 5"
      "\<lparr>cp_origin = ''log'', cp_size = 1, cp_root = 5\<rparr>"] show ?thesis
    by (simp add: wire_laws_def demo_ser_def demo_inclusion_laws cache_ok_def demo_client_def demo_log_def)
qed

end
