(* ===== verification/Bulk_Import.thy ===== *)
theory Bulk_Import
  imports Api_Handlers "HOL-Library.Multiset"
begin

text \<open>
  The offline import of a log, \<^verbatim>\<open>src/import.rs\<close>. The entries come from an iterator, modelled as the
  list of what it yields; it is read once for the fingerprint and once for the import, so the two
  lists may differ. \<open>order\<close> is the order in which the concurrent uploads of a chunk reach the storage,
  some permutation of them; \<open>sha\<close>, \<open>hx\<close> and \<open>manifest\<close> are SHA-256, the hex codec and the serialized
  manifest. The database transaction is open during the import and takes effect only at
  \<open>finish_import\<close>.
\<close>

record input_summary =
  is_entries :: nat
  is_sha256 :: string

record import_config =
  ic_chunk_size :: nat
  ic_upload_concurrency :: nat
  ic_resume :: bool

record import_summary =
  im_tree_size :: nat
  im_root_hash :: sha256_hash
  im_objects_written :: nat
  im_objects_verified :: nat

definition MANIFEST_PATH :: string where "MANIFEST_PATH = ''import-manifest.json''"

definition default_import_config :: import_config where
  "default_import_config = \<lparr>ic_chunk_size = 4096, ic_upload_concurrency = 16, ic_resume = False\<rparr>"


subsection \<open>Fingerprints\<close>

text \<open>The digest so far is the bytes that were fed to it.\<close>

definition fingerprint_entry :: "byte list \<Rightarrow> byte list \<Rightarrow> byte list res" where
  "fingerprint_entry data dg =
     (if data = [] \<or> MAX_ENTRY_SIZE < length data then Inl InvalidEntry
      else Inr (dg @ be_bytes 8 (length data) @ data))"

definition scan_entry :: "byte list res \<Rightarrow> byte list \<times> nat \<Rightarrow> (byte list \<times> nat) res" where
  "scan_entry entry = (\<lambda>(dg, count).
     bind_res entry (\<lambda>data.
     bind_res (fingerprint_entry data dg) (\<lambda>dg'.
       if count = u64_max then Inl InvalidEntry else Inr (dg', count + 1))))"

definition scan :: "digest \<Rightarrow> hex_codec \<Rightarrow> byte list res list \<Rightarrow> input_summary res" where
  "scan sha hx yielded =
     bind_res (fold_res scan_entry yielded ([], 0)) (\<lambda>(dg, count).
       if count = 0 \<or> i64_max < count then Inl InvalidEntry
       else Inr \<lparr>is_entries = count, is_sha256 = hx_encode hx (hash_bytes (sha dg))\<rparr>)"


subsection \<open>Importing\<close>

fun chunks_of :: "nat \<Rightarrow> 'a list \<Rightarrow> 'a list list" where
  "chunks_of n [] = []"
| "chunks_of n (x # xs) = (if n = 0 then [] else take n (x # xs) # chunks_of n (drop n (x # xs)))"

definition import_objects ::
  "nat \<Rightarrow> integration_result \<Rightarrow> byte list list \<Rightarrow> (string \<times> byte list) list res" where
  "import_objects sz result chunk =
     (let new_sz = new_size result;
          tiles = map (\<lambda>(tid, tile).
            let partial = partial_tile_size (tile_level tid) (tile_index tid) new_sz
            in (tile_path (tile_level tid) (tile_index tid) partial, hash_tile_to_bytes tile)) (result_tiles result)
      in bind_res
           (map_res (\<lambda>(offset, data).
              let index = sz div 256 + offset; partial = partial_tile_size 0 index new_sz
              in bind_res (bundle_to_bytes \<lparr>bundle_entries = data\<rparr>) (\<lambda>bytes. Inr (entries_path index partial, bytes)))
             (enumerate 0 (chunks_of 256 chunk)))
           (\<lambda>bundles. Inr (tiles @ bundles)))"

text \<open>The variables of the import loop.\<close>

record 's import_state =
  im_store :: 's
  im_digest :: "byte list"
  im_size :: nat
  im_root :: "sha256_hash option"
  im_written :: nat
  im_verified :: nat

definition upload :: "'s operator \<Rightarrow> bool \<Rightarrow> string \<times> byte list \<Rightarrow> ('s import_state, error, unit) st" where
  "upload op resume = (\<lambda>(path, data) im.
     case write_import_object op path data resume (im_store im) of
       (Inl e, s) \<Rightarrow> (Inl e, im\<lparr>im_store := s\<rparr>)
     | (Inr wrote, s) \<Rightarrow>
         (Inr (), if wrote then im\<lparr>im_store := s, im_written := im_written im + 1\<rparr>
                  else im\<lparr>im_store := s, im_verified := im_verified im + 1\<rparr>))"

type_synonym upload_order = "(string \<times> byte list) list \<Rightarrow> (string \<times> byte list) list"

definition import_chunk ::
  "hash_fn \<Rightarrow> (byte list \<Rightarrow> sha256_hash) \<Rightarrow> 's operator \<Rightarrow> bool \<Rightarrow> upload_order \<Rightarrow> nat \<Rightarrow> byte list list
     \<Rightarrow> ('s import_state, error, unit) st" where
  "import_chunk hc hash_leaf op resume order total_entries chunk im =
     (if total_entries - im_size im < length chunk then (Inl InvalidEntry, im)
      else case fold_res fingerprint_entry chunk (im_digest im) of
             Inl e \<Rightarrow> (Inl e, im)
           | Inr dg \<Rightarrow>
               (case integrate hc (Tile_Store.read_tile op (im_store im)) (im_size im) (map hash_leaf chunk) of
                  Inl e \<Rightarrow> (Inl e, im)
                | Inr result \<Rightarrow>
                    (case import_objects (im_size im) result chunk of
                       Inl e \<Rightarrow> (Inl e, im)
                     | Inr objects \<Rightarrow>
                         bind_st (for_st (upload op resume) (order objects)) (\<lambda>_ im'.
                           (Inr (), im'\<lparr>im_digest := dg, im_size := new_size result,
                                        im_root := Some (root_hash result)\<rparr>)) im)))"

function import_loop ::
  "hash_fn \<Rightarrow> (byte list \<Rightarrow> sha256_hash) \<Rightarrow> 's operator \<Rightarrow> bool \<Rightarrow> upload_order \<Rightarrow> nat \<Rightarrow> nat \<Rightarrow> byte list res list
     \<Rightarrow> 's import_state \<Rightarrow> unit res \<times> 's import_state" where
  "import_loop hc hash_leaf op resume order chunk_size total_entries yielded im =
     (case map_res id (take chunk_size yielded) of
        Inl e \<Rightarrow> (Inl e, im)
      | Inr [] \<Rightarrow> (Inr (), im)
      | Inr chunk \<Rightarrow>
          (case import_chunk hc hash_leaf op resume order total_entries chunk im of
             (Inl e, im') \<Rightarrow> (Inl e, im')
           | (Inr _, im') \<Rightarrow>
               import_loop hc hash_leaf op resume order chunk_size total_entries (drop chunk_size yielded) im'))"
  by pat_completeness auto
termination
  by (relation "measure (\<lambda>(hc, hl, op, r, ord, c, n, es, im). length es)")
    (auto simp: map_res_Inr_iff list_all2_Cons2 dest!: arg_cong [of _ _ length] split: if_splits)

declare import_loop.simps [simp del]

definition chunk_size_ok :: "nat \<Rightarrow> bool" where
  "chunk_size_ok n \<longleftrightarrow> n \<noteq> 0 \<and> n \<le> 65536 \<and> n mod 256 = 0"

text \<open>\<open>sync\<close>: the outcome of flushing the directories before the database is committed.\<close>

definition bulk_import ::
  "hash_fn \<Rightarrow> (byte list \<Rightarrow> sha256_hash) \<Rightarrow> digest \<Rightarrow> hex_codec \<Rightarrow> (input_summary \<Rightarrow> nat \<Rightarrow> byte list) \<Rightarrow> upload_order
     \<Rightarrow> unit res \<Rightarrow> 's operator \<Rightarrow> input_summary \<Rightarrow> import_config \<Rightarrow> byte list res list
     \<Rightarrow> (database \<times> 's, error, import_summary) st" where
  "bulk_import hc hash_leaf sha hx manifest order sync op input cfg yielded = (\<lambda>(db, s).
     if \<not> chunk_size_ok (ic_chunk_size cfg) \<or> ic_upload_concurrency cfg = 0 \<or> 256 < ic_upload_concurrency cfg
     then (Inl Config, (db, s))
     else if is_entries input = 0 \<or> i64_max < is_entries input then (Inl InvalidEntry, (db, s))
     else case begin_import db of
       (Inl e, db') \<Rightarrow> (Inl e, (db', s))
     | (Inr _, db') \<Rightarrow>
         case read_checkpoint op s of
           Inl e \<Rightarrow> (Inl e, (db', s))
         | Inr (Some _) \<Rightarrow> (Inl Config, (db', s))
         | Inr None \<Rightarrow>
             case (if ic_resume cfg then bind_res (read_raw op s MANIFEST_PATH) (ok_or Config) else Inr []) of
               Inl e \<Rightarrow> (Inl e, (db', s))
             | Inr _ \<Rightarrow>
                 case write_import_object op MANIFEST_PATH (manifest input (ic_chunk_size cfg)) (ic_resume cfg) s of
                   (Inl e, s1) \<Rightarrow> (Inl e, (db', s1))
                 | (Inr _, s1) \<Rightarrow>
                     case import_loop hc hash_leaf op (ic_resume cfg) order (ic_chunk_size cfg) (is_entries input) yielded
                            \<lparr>im_store = s1, im_digest = [], im_size = 0, im_root = None, im_written = 0, im_verified = 0\<rparr> of
                       (Inl e, im) \<Rightarrow> (Inl e, (db', im_store im))
                     | (Inr _, im) \<Rightarrow>
                         if im_size im \<noteq> is_entries input
                            \<or> hx_encode hx (hash_bytes (sha (im_digest im))) \<noteq> is_sha256 input
                         then (Inl InvalidEntry, (db', im_store im))
                         else case bind_res (ok_or InvalidEntry (im_root im)) (\<lambda>root. bind_res sync (\<lambda>_. Inr root)) of
                           Inl e \<Rightarrow> (Inl e, (db', im_store im))
                         | Inr root \<Rightarrow>
                             case finish_import (im_size im) root db' of
                               (Inl e, db'') \<Rightarrow> (Inl e, (db'', im_store im))
                             | (Inr _, db'') \<Rightarrow>
                                 (Inr \<lparr>im_tree_size = im_size im, im_root_hash = root,
                                       im_objects_written = im_written im, im_objects_verified = im_verified im\<rparr>,
                                  (db'', im_store im)))"


subsection \<open>Objects that are written once\<close>

text \<open>The uploads are a key-value store over raw objects.\<close>

definition raw_object :: "'s operator \<Rightarrow> 's \<Rightarrow> string \<Rightarrow> byte list option" where
  "raw_object op s p = (case op_read op s p of OpFound d \<Rightarrow> Some d | _ \<Rightarrow> None)"

lemma write_import_object_same:
  assumes "op_laws op" and "write_import_object op p d resume s = (Inr w, s')"
  shows "raw_object op s' p = Some d"
  using assms(2) op_read_written [OF assms(1), of p d]
  by (auto simp: write_import_object_def read_raw_def raw_object_def res_simps
      split: op_read.splits if_splits)

lemma write_import_object_other:
  assumes "op_laws op" and "q \<noteq> p"
  shows "op_read op (snd (write_import_object op p d resume s)) q = op_read op s q"
  by (auto simp: write_import_object_def read_raw_def bind_st_def ret_st_def op_read_other [OF assms, of d s, symmetric]
      split: op_read.splits prod.splits sum.splits)


lemma upload_store: "im_store (snd (upload op resume (p, d) im)) = snd (write_import_object op p d resume (im_store im))"
  by (auto simp: upload_def split: prod.splits sum.splits)

interpretation uploads: object_kv
  "\<lambda>_. op_laws op" "\<lambda>im. raw_object op (im_store im)" "\<lambda>p d. upload op resume (p, d)" for op resume
proof (unfold_locales, goal_cases)
  case (1 p d im im')
  then obtain w s where "write_import_object op p d resume (im_store im) = (Inr w, s)" "im_store im' = s"
    by (auto simp: upload_def split: prod.splits sum.splits if_splits)
  then show ?case using write_import_object_same [OF 1(1)] by simp
next
  case (2 p q d im)
  then show ?case by (simp add: upload_store raw_object_def write_import_object_other)
qed

text \<open>An upload changes only the storage and the counters.\<close>

definition same_progress :: "'s import_state \<Rightarrow> 's import_state \<Rightarrow> bool" where
  "same_progress im im' \<longleftrightarrow> im_digest im' = im_digest im \<and> im_size im' = im_size im \<and> im_root im' = im_root im"

lemma upload_progress: "same_progress im (snd (upload op resume pd im))"
  by (cases pd) (auto simp: upload_def same_progress_def split: prod.splits sum.splits)

lemma uploads_progress: "same_progress im (snd (for_st (upload op resume) objs im))"
proof (rule for_st_keeps [where P = "same_progress im"])
  show "same_progress im (snd (upload op resume x s))" if "same_progress im s" for x s
    using that upload_progress [of s op resume x] by (simp add: same_progress_def)
qed (simp add: same_progress_def)

lemma get_tile_raw:
  "get_tile op s (l, i, p) =
     Option.bind (raw_object op s (tile_path l i p))
       (\<lambda>d. case hash_tile_from_bytes d of Inr t \<Rightarrow> Some t | Inl _ \<Rightarrow> None)"
  by (auto simp: get_tile_def Tile_Store.read_tile_def raw_object_def split: op_read.splits sum.splits)

lemma get_bundle_raw:
  "get_bundle op s (b, p) =
     Option.bind (raw_object op s (entries_path b p))
       (\<lambda>d. case bundle_from_bytes d of Inr t \<Rightarrow> Some t | Inl _ \<Rightarrow> None)"
  by (auto simp: get_bundle_def read_entry_bundle_def raw_object_def split: op_read.splits sum.splits)


subsection \<open>The objects of a chunk\<close>

lemma chunks_of_nth:
  assumes "0 < k"
  shows "j < length (chunks_of k xs) \<longleftrightarrow> j * k < length xs"
    and "j < length (chunks_of k xs) \<Longrightarrow> chunks_of k xs ! j = take k (drop (j * k) xs)"
  using assms
proof (induction k xs arbitrary: j rule: chunks_of.induct)
  case (2 n x xs)
  { case 1
    show ?case
    proof (cases j)
      case (Suc i)
      then show ?thesis using "2"(1) [of i] 1 by (auto simp: algebra_simps)
    qed (use 1 in simp) }
  { case 2
    then show ?case using "2.IH"(2) [of "j - 1"] by (cases j) (auto simp: algebra_simps) }
qed auto

lemma bundle_data_chunk:
  assumes "length D = m" and "m mod 256 = 0"
  shows "bundle_data (map (new_entry hl) (D @ chunk)) (length (D @ chunk)) (m div 256 + j)
    = take 256 (drop (j * 256) chunk)"
proof -
  have m: "m div 256 * 256 = m" using assms(2) by auto
  show ?thesis
    unfolding bundle_data_def
  proof (rule nth_equalityI, goal_cases)
    case 1
    show ?case using m assms(1) by (simp add: add_mult_distrib min_def) linarith
  next
    case (2 i)
    then have "m div 256 * 256 + j * 256 + i < length D + length chunk" by (simp add: add_mult_distrib)
    with 2 m assms(1) show ?case
      by (simp add: add_mult_distrib nth_append new_entry_def del: nth_map map_append)
        (simp add: nth_map nth_append new_entry_def)
  qed
qed

lemma touched_aligned:
  "m mod 256 = 0 \<Longrightarrow> touched m n b \<longleftrightarrow> (\<exists>j. b = m div 256 + j \<and> m + j * 256 < n)"
proof -
  assume "m mod 256 = 0"
  then have m: "m = m div 256 * 256" by auto
  have "touched m n b \<longleftrightarrow> m \<le> b * 256 \<and> b * 256 < n"
  proof (cases "m div 256 \<le> b")
    case True
    then have "m \<le> b * 256" using m by linarith
    then show ?thesis by (auto simp: touched_def bundle_range_def)
  next
    case False
    then have "b * 256 + 256 \<le> m" using m by linarith
    then show ?thesis by (auto simp: touched_def bundle_range_def)
  qed
  also have "\<dots> \<longleftrightarrow> m div 256 \<le> b \<and> b * 256 < n" using m by linarith
  also have "\<dots> \<longleftrightarrow> (\<exists>j. b = m div 256 + j \<and> m + j * 256 < n)"
    using m by (auto simp: add_mult_distrib le_iff_add)
  finally show ?thesis .
qed

text \<open>The paths and contents that a chunk contributes.\<close>

lemma import_objects_ok:
  assumes objs: "import_objects m result chunk = Inr objects" and D: "length D = m" and m: "m mod 256 = 0"
    and n: "new_size result = length (D @ chunk)" "length (D @ chunk) \<le> i64_max"
    and tiles: "tiles_ok hc m (L :: sha256_hash list) (result_tiles result)" "length L = length (D @ chunk)"
  defines "n \<equiv> length (D @ chunk)"
  shows "\<And>l i p t. ((l, i, p), t) \<in> set (tile_kvs n (result_tiles result))
      \<Longrightarrow> (tile_path l i p, hash_tile_to_bytes t) \<in> set objects"
    and "\<And>b. touched m n b \<Longrightarrow> \<exists>bytes. (entries_path b (partial_tile_size 0 b n), bytes) \<in> set objects
      \<and> bundle_from_bytes bytes = Inr \<lparr>bundle_entries = bundle_data (map (new_entry hl) (D @ chunk)) n b\<rparr>"
    and "\<And>q. q \<in> fst ` set objects \<longleftrightarrow>
      (\<exists>l i p. q = tile_path l i p \<and> (l, i, p) \<in> fst ` set (tile_kvs n (result_tiles result)))
      \<or> (\<exists>b. q = entries_path b (partial_tile_size 0 b n) \<and> touched m n b)"
    and "distinct (map fst objects)"
proof -
  let ?kvs = "tile_kvs n (result_tiles result)" and ?cs = "chunks_of 256 chunk"
  let ?path = "\<lambda>j. entries_path (m div 256 + j) (partial_tile_size 0 (m div 256 + j) n)"
  define ts where "ts = map (\<lambda>((l, i, p), t). (tile_path l i p, hash_tile_to_bytes t)) ?kvs"
  from objs obtain bs where objects: "objects = ts @ bs"
    and bs: "list_all2 (\<lambda>(j, data) y. \<exists>bytes. bundle_to_bytes \<lparr>bundle_entries = data\<rparr> = Inr bytes \<and> y = (?path j, bytes))
      (enumerate 0 ?cs) bs"
  proof -
    have "ts = map (\<lambda>(tid, t). (tile_path (tile_level tid) (tile_index tid)
        (partial_tile_size (tile_level tid) (tile_index tid) n), hash_tile_to_bytes t)) (result_tiles result)"
      by (auto simp: ts_def tile_kvs_def)
    with objs n(1) obtain bs where "objects = ts @ bs"
      and "map_res (\<lambda>(j, data). bind_res (bundle_to_bytes \<lparr>bundle_entries = data\<rparr>) (\<lambda>bytes. Inr (?path j, bytes)))
          (enumerate 0 ?cs) = Inr bs"
      by (auto simp: import_objects_def Let_def bind_res_Inr_iff n_def)
    then show thesis
      by (intro that) (auto simp: map_res_Inr_iff bind_res_Inr_iff split_def elim!: list_all2_mono)
  qed
  have len: "length bs = length ?cs" using bs by (simp add: list_all2_lengthD [symmetric])
  have nth: "\<exists>bytes. bundle_to_bytes \<lparr>bundle_entries = take 256 (drop (j * 256) chunk)\<rparr> = Inr bytes \<and> bs ! j = (?path j, bytes)"
    if "j < length bs" for j
    using list_all2_nthD2 [OF bs that] that len chunks_of_nth(2) [of 256 j chunk]
    by (simp add: nth_enumerate_eq)
  have touched: "touched m n b \<longleftrightarrow> (\<exists>j < length bs. b = m div 256 + j)" for b
    unfolding touched_aligned [OF m] len chunks_of_nth(1) [OF zero_less_numeral]
    using D by (auto simp: n_def)
  have bpaths: "map fst bs = map ?path [0..<length bs]"
    by (rule nth_equalityI) (use nth in fastforce)+
  have key: "bundle_key (m div 256 + j, partial_tile_size 0 (m div 256 + j) n)" if "j < length bs" for j
    using touched_bound [of m n] touched that n(2) bundle_key_ok n_def by blast
  have "inj_on ?path {0..<length bs}"
  proof (rule inj_onI)
    fix i j assume "i \<in> {0..<length bs}" "j \<in> {0..<length bs}" and "?path i = ?path j"
    then show "i = j"
      using key [of i] key [of j] entries_path_inj [of "m div 256 + i" "partial_tile_size 0 (m div 256 + i) n"
          "m div 256 + j" "partial_tile_size 0 (m div 256 + j) n"] by simp
  qed
  then have dbs: "distinct (map fst bs)" unfolding bpaths by (simp add: distinct_map)
  have kvs_key: "tile_key k" if "k \<in> fst ` set ?kvs" for k
  proof -
    obtain l i p where k: "k = (l, i, p)" by (cases k)
    then have "row_count m l i < row_count n l i \<and> p = partial_tile_size l i n"
      using kvs_keys [OF tiles(1), of l i p] that tiles(2) n_def by simp
    then show ?thesis using row_tile_key [of n l i n] n(2) n_def k by simp
  qed
  have "inj_on (\<lambda>(l, i, p). tile_path l i p) (fst ` set ?kvs)"
  proof (rule inj_onI)
    fix k k' assume k: "k \<in> fst ` set ?kvs" and k': "k' \<in> fst ` set ?kvs"
      and eq: "(case k of (l, i, p) \<Rightarrow> tile_path l i p) = (case k' of (l, i, p) \<Rightarrow> tile_path l i p)"
    obtain l i p l' i' p' where kk: "k = (l, i, p)" "k' = (l', i', p')" by (cases k; cases k')
    then show "k = k'"
      using eq kvs_key [OF k] kvs_key [OF k'] tile_path_inj [of i p i' p' l l'] by simp
  qed
  then have "distinct (map (\<lambda>(l, i, p). tile_path l i p) (map fst ?kvs))"
    by (subst distinct_map) (intro conjI kvs_distinct [OF tiles(1)], simp)
  moreover have "map fst ts = map (\<lambda>(l, i, p). tile_path l i p) (map fst ?kvs)"
    by (auto simp: ts_def)
  ultimately have dts: "distinct (map fst ts)" by simp
  have fts: "fst ` set ts = (\<lambda>(l, i, p). tile_path l i p) ` fst ` set ?kvs"
    using \<open>map fst ts = _\<close> by (metis image_set)
  have fbs: "fst ` set bs = ?path ` {0..<length bs}"
    using arg_cong [OF bpaths, of set] by (simp only: set_map set_upt)
  show "(tile_path l i p, hash_tile_to_bytes t) \<in> set objects" if "((l, i, p), t) \<in> set ?kvs" for l i p t
    using imageI [OF that, of "\<lambda>((l, i, p), t). (tile_path l i p, hash_tile_to_bytes t)"]
    by (simp add: objects ts_def)
  show "\<exists>bytes. (entries_path b (partial_tile_size 0 b n), bytes) \<in> set objects
      \<and> bundle_from_bytes bytes = Inr \<lparr>bundle_entries = bundle_data (map (new_entry hl) (D @ chunk)) n b\<rparr>"
    if b: "touched m n b" for b
  proof -
    obtain j where j: "j < length bs" "b = m div 256 + j" using b touched by blast
    then obtain bytes where "bundle_to_bytes \<lparr>bundle_entries = take 256 (drop (j * 256) chunk)\<rparr> = Inr bytes"
      "bs ! j = (?path j, bytes)" using nth by blast
    with j show ?thesis
      using bundle_decode_encode bundle_data_chunk [OF D m, of hl chunk j] nth_mem [OF j(1)]
      by (intro exI [of _ bytes]) (simp add: objects n_def)
  qed
  show "q \<in> fst ` set objects \<longleftrightarrow>
      (\<exists>l i p. q = tile_path l i p \<and> (l, i, p) \<in> fst ` set ?kvs)
      \<or> (\<exists>b. q = entries_path b (partial_tile_size 0 b n) \<and> touched m n b)" for q
  proof -
    have "q \<in> (\<lambda>(l, i, p). tile_path l i p) ` K \<longleftrightarrow> (\<exists>l i p. q = tile_path l i p \<and> (l, i, p) \<in> K)" for K
      by force
    then show ?thesis unfolding objects set_append image_Un fts fbs touched by auto
  qed
  show "distinct (map fst objects)"
    using dts dbs tile_path_neq_entries_path unfolding objects map_append distinct_append set_map fts fbs
    by auto
qed


subsection \<open>What an import has stored\<close>

definition fingerprint_bytes :: "byte list list \<Rightarrow> byte list" where
  "fingerprint_bytes D = concat (map (\<lambda>d. be_bytes 8 (length d) @ d) D)"

definition entry_size_ok :: "byte list \<Rightarrow> bool" where
  "entry_size_ok d \<longleftrightarrow> d \<noteq> [] \<and> length d \<le> MAX_ENTRY_SIZE"

lemma fingerprint_entry_Inr [res_simps]:
  "fingerprint_entry d dg = Inr dg' \<longleftrightarrow> entry_size_ok d \<and> dg' = dg @ be_bytes 8 (length d) @ d"
  by (auto simp: fingerprint_entry_def entry_size_ok_def)

lemma fold_fingerprint [res_simps]:
  "fold_res fingerprint_entry D dg = Inr dg' \<longleftrightarrow> (\<forall>d \<in> set D. entry_size_ok d) \<and> dg' = dg @ fingerprint_bytes D"
  by (induction D arbitrary: dg) (auto simp: res_simps fingerprint_bytes_def)

lemma fingerprint_append: "fingerprint_bytes (D @ D') = fingerprint_bytes D @ fingerprint_bytes D'"
  by (simp add: fingerprint_bytes_def)

definition imported :: "hash_fn \<Rightarrow> (byte list \<Rightarrow> sha256_hash) \<Rightarrow> 's operator \<Rightarrow> byte list list \<Rightarrow> 's import_state \<Rightarrow> bool" where
  "imported hc hl op D im \<longleftrightarrow>
     store_serves hc op (im_store im) (map hl D) \<and>
     bundles_serve op (im_store im) (map (new_entry hl) D) (length D) \<and>
     im_size im = length D \<and>
     im_digest im = fingerprint_bytes D \<and>
     im_root im = (if D = [] then None else Some (mth hc empty_root_hash (map hl D)))"

definition permutes_uploads :: "upload_order \<Rightarrow> bool" where
  "permutes_uploads order \<longleftrightarrow> (\<forall>xs. mset (order xs) = mset xs)"

lemma import_chunk_ok:
  assumes im: "imported hc hl op D im" and al: "length D mod 256 = 0" and order: "permutes_uploads order"
    and new: "chunk \<noteq> []" and limit: "length D \<le> limit" "limit \<le> i64_max"
    and run: "import_chunk hc hl op resume order limit chunk im = (Inr (), im')"
  shows "imported hc hl op (D @ chunk) im'" and "length (D @ chunk) \<le> limit"
    and "\<forall>d \<in> set chunk. entry_size_ok d"
proof -
  let ?n = "length (D @ chunk)" and ?E = "map (new_entry hl) (D @ chunk)"
  have size: "im_size im = length D" using im by (simp add: imported_def)
  have sv: "store_serves hc op (im_store im) (map hl D)"
    and bs: "bundles_serve op (im_store im) (map (new_entry hl) D) (length D)"
    using im by (simp_all add: imported_def)
  have laws: "op_laws op" using sv by (simp add: store_serves_def)
  have fits: "\<not> limit - im_size im < length chunk" using run by (auto simp: import_chunk_def)
  then show n: "?n \<le> limit" using size limit(1) by simp
  then obtain tiles where result: "integrate hc (Tile_Store.read_tile op (im_store im)) (im_size im) (map hl chunk)
      = Inr \<lparr>new_size = ?n, root_hash = mth hc empty_root_hash (map hl (D @ chunk)), result_tiles = tiles\<rparr>"
    and tiles: "tiles_ok hc (length D) (map hl D @ map hl chunk) tiles"
    using store.integrate_ok [OF sv, of "map hl chunk"] new limit(2) size by auto
  let ?r = "\<lparr>new_size = ?n, root_hash = mth hc empty_root_hash (map hl (D @ chunk)), result_tiles = tiles\<rparr>"
  from run fits result obtain dg objects imu where
    dg: "fold_res fingerprint_entry chunk (im_digest im) = Inr dg"
    and objects: "import_objects (length D) ?r chunk = Inr objects"
    and uploads: "for_st (upload op resume) (order objects) im = (Inr (), imu)"
    and im': "im' = imu\<lparr>im_digest := dg, im_size := ?n, im_root := Some (mth hc empty_root_hash (map hl (D @ chunk)))\<rparr>"
    using size by (auto simp: import_chunk_def res_simps split: sum.splits)
  show "\<forall>d \<in> set chunk. entry_size_ok d" using dg by (simp add: res_simps)
  have ok: "tiles_ok hc (length D) (map hl D @ map hl chunk) (result_tiles ?r)" using tiles by simp
  have ns: "new_size ?r = ?n" by simp
  have ni: "?n \<le> i64_max" using n limit(2) by simp
  have ln: "length (map hl D @ map hl chunk) = ?n" by simp
  note objs = import_objects_ok [OF objects refl al ns ni ok ln]
  have m: "mset (order objects) = mset objects" using order by (simp add: permutes_uploads_def)
  have same_set: "set (order objects) = set objects" by (rule mset_eq_setD [OF m])
  have dist: "distinct (map fst (order objects))"
    using objs(4) mset_eq_imp_distinct_iff [of "map fst (order objects)" "map fst objects"] m by simp
  have uploads': "for_st (\<lambda>(p, d). upload op resume (p, d)) (order objects) im = (Inr (), imu)"
    using uploads by simp
  have stored: "raw_object op (im_store imu) p = Some d" if "(p, d) \<in> set objects" for p d
    using uploads.put_all_same [OF _ dist uploads'] that laws same_set by auto
  have kept: "raw_object op (im_store imu) q = raw_object op (im_store im) q" if "q \<notin> fst ` set objects" for q
    using uploads.put_all_other [of "order objects" op q resume im] that laws same_set uploads by simp
  have "store_serves hc op (im_store imu) (map hl D @ map hl chunk)"
  proof (rule tiles_step [OF sv])
    show "tiles_ok hc (length (map hl D)) (map hl D @ map hl chunk) tiles" using tiles by simp
    show "length (map hl D @ map hl chunk) \<le> i64_max" using ni by simp
  next
    fix k t assume "(k, t) \<in> set (tile_kvs (length (map hl D @ map hl chunk)) tiles)"
    moreover obtain l i p where "k = (l, i, p)" by (cases k)
    ultimately have "(tile_path l i p, hash_tile_to_bytes t) \<in> set objects" using objs(1) by simp
    then show "get_tile op (im_store imu) k = Some t"
      using stored \<open>k = (l, i, p)\<close> by (simp add: get_tile_raw hash_tile_decode_encode)
  next
    fix k assume key: "tile_key k" and fresh: "k \<notin> fst ` set (tile_kvs (length (map hl D @ map hl chunk)) tiles)"
    obtain l i p where k: "k = (l, i, p)" by (cases k)
    have "tile_path l i p \<notin> fst ` set objects"
    proof
      assume "tile_path l i p \<in> fst ` set objects"
      then obtain l' i' p' where eq: "tile_path l i p = tile_path l' i' p'"
        and mem: "(l', i', p') \<in> fst ` set (tile_kvs ?n tiles)"
        using objs(3) tile_path_neq_entries_path by (metis integration_result.select_convs(3))
      have "row_count (length D) l' i' < row_count ?n l' i' \<and> p' = partial_tile_size l' i' ?n"
        using kvs_keys [OF tiles, of l' i' p'] mem by simp
      then have "tile_key (l', i', p')" using row_tile_key [of ?n l' i' ?n] ni by simp
      with key eq mem k fresh show False using tile_path_inj [of i p i' p' l l'] by auto
    qed
    then show "get_tile op (im_store imu) k = get_tile op (im_store im) k"
      using kept by (simp add: k get_tile_raw)
  qed
  moreover have "bundles_serve op (im_store imu) ?E ?n"
  proof (rule bundles_step)
    show "bundles_serve op (im_store im) ?E (length D)"
      using bundles_serve_append [OF bs] by simp
    show "length D \<le> ?n" "?n \<le> i64_max" "?n \<le> length ?E" using ni by simp_all
  next
    fix b assume "touched (length D) ?n b"
    then obtain bytes where "(entries_path b (partial_tile_size 0 b ?n), bytes) \<in> set objects"
      "bundle_from_bytes bytes = Inr \<lparr>bundle_entries = bundle_data ?E ?n b\<rparr>" using objs(2) by blast
    then show "get_bundle op (im_store imu) (b, partial_tile_size 0 b ?n) = Some \<lparr>bundle_entries = bundle_data ?E ?n b\<rparr>"
      using stored by (simp add: get_bundle_raw)
  next
    fix b assume b: "b * 256 < ?n" "\<not> touched (length D) ?n b"
    have "entries_path b (partial_tile_size 0 b ?n) \<notin> fst ` set objects"
    proof
      assume "entries_path b (partial_tile_size 0 b ?n) \<in> fst ` set objects"
      then obtain b' where t: "touched (length D) ?n b'"
        and eq: "entries_path b (partial_tile_size 0 b ?n) = entries_path b' (partial_tile_size 0 b' ?n)"
        using objs(3) tile_path_neq_entries_path by metis
      then show False
        using bundle_key_ok [OF b(1) ni] bundle_key_ok [OF touched_bound [OF t] ni] b(2)
          entries_path_inj [of b "partial_tile_size 0 b ?n" b' "partial_tile_size 0 b' ?n"] by auto
    qed
    then show "get_bundle op (im_store imu) (b, partial_tile_size 0 b ?n)
        = get_bundle op (im_store im) (b, partial_tile_size 0 b ?n)"
      using kept by (simp add: get_bundle_raw)
  qed
  ultimately show "imported hc hl op (D @ chunk) im'"
    using dg im new by (simp add: imported_def im' fingerprint_append res_simps)
qed


lemma map_res_id [res_simps]: "map_res id xs = Inr ys \<longleftrightarrow> xs = map Inr ys"
  by (induction xs arbitrary: ys) (auto simp: bind_res_Inr_iff)

lemma import_loop_ok:
  assumes "imported hc hl op D im" and "length D mod 256 = 0 \<or> yielded = []" and "permutes_uploads order"
    and "chunk_size_ok k" and "length D \<le> limit" "limit \<le> i64_max"
    and "import_loop hc hl op resume order k limit yielded im = (Inr (), im')"
  shows "\<exists>data. yielded = map Inr data \<and> imported hc hl op (D @ data) im' \<and> length (D @ data) \<le> limit
    \<and> (\<forall>d \<in> set data. entry_size_ok d)"
  using assms
proof (induction hc hl op resume order k limit yielded im arbitrary: D rule: import_loop.induct)
  case (1 hc hl op resume order k limit yielded im)
  have k: "k \<noteq> 0" "k mod 256 = 0" using "1.prems"(4) by (simp_all add: chunk_size_ok_def)
  from "1.prems"(7) obtain chunk where chunk: "map_res id (take k yielded) = Inr chunk"
    by (auto simp: import_loop.simps [of hc hl op resume order k limit yielded] split: sum.splits)
  then have taken: "take k yielded = map Inr chunk" by (simp only: map_res_id)
  show ?case
  proof (cases chunk)
    case Nil
    then have "yielded = []" using taken k(1) by simp
    moreover from this have "im' = im"
      using "1.prems"(7) by (simp add: import_loop.simps [of hc hl op resume order k limit "[]"])
    ultimately show ?thesis using "1.prems"(1,5) by simp
  next
    case (Cons d ds)
    from "1.prems"(7) chunk Cons obtain im1
      where run: "import_chunk hc hl op resume order limit chunk im = (Inr (), im1)"
        and rest: "import_loop hc hl op resume order k limit (drop k yielded) im1 = (Inr (), im')"
      by (auto simp: import_loop.simps [of hc hl op resume order k limit yielded] split: prod.splits sum.splits)
    have aligned: "length D mod 256 = 0" using "1.prems"(2) taken Cons by auto
    note step = import_chunk_ok [OF "1.prems"(1) aligned "1.prems"(3) _ "1.prems"(5,6) run]
    have "length (D @ chunk) mod 256 = 0 \<or> drop k yielded = []"
    proof (cases "k < length yielded")
      case True
      then have "length chunk = k" using arg_cong [OF taken, of length] by simp
      then show ?thesis using aligned k(2) by (simp add: mod_add_eq [symmetric])
    qed simp
    with "1.IH" [OF chunk Cons run [symmetric, unfolded Cons] refl step(1) _ "1.prems"(3,4) step(2) "1.prems"(6) rest] Cons
    obtain data where data: "drop k yielded = map Inr data" "imported hc hl op ((D @ chunk) @ data) im'"
      "length ((D @ chunk) @ data) \<le> limit" "\<forall>d \<in> set data. entry_size_ok d" by auto
    have "yielded = map Inr (chunk @ data)"
      using taken data(1) append_take_drop_id [of k yielded] by (simp flip: map_append)
    then show ?thesis
      using data step(3) Cons by (intro exI [of _ "chunk @ data"]) auto
  qed
qed

lemma scan_map_Inr:
  assumes "\<forall>d \<in> set D. entry_size_ok d" and "c + length D \<le> u64_max"
  shows "fold_res scan_entry (map Inr D) (dg, c) = Inr (dg @ fingerprint_bytes D, c + length D)"
  using assms
proof (induction D arbitrary: dg c)
  case (Cons d D)
  have "fingerprint_entry d dg = Inr (dg @ be_bytes 8 (length d) @ d)" using Cons.prems(1) by (simp add: res_simps)
  with Cons show ?case by (simp add: scan_entry_def fingerprint_bytes_def)
qed (simp add: fingerprint_bytes_def)







subsection \<open>The import\<close>

lemma begin_import_Inr:
  assumes "begin_import db = (Inr (), db')"
  shows "\<exists>row. db_log_state db' = Some row \<and> row_next_index row = 0 \<and> row_integrated_size row = 0"
    and "db_pending db' = []" and "db_mode db' = Some ''tessera''"
  using assms
  by (auto simp: begin_import_def res_simps ensure_mode_def Let_def split: option.splits if_splits)


lemma finish_import_ok:
  assumes "begin_import db = (Inr (), db1)" and "finish_import (length E) root db1 = (Inr (), db2)"
  shows "db_log db2 E (length E)" and "stored_root db2 = Some root"
proof -
  have small: "length E \<le> i64_max" using assms(2) by (auto simp: finish_import_def split: if_splits)
  obtain row where db2: "db2 = db1\<lparr>db_log_state := Some \<lparr>row_next_index = int (length E),
      row_integrated_size = int (length E), row_root_hash = Some (hash_bytes root)\<rparr>\<rparr>"
    using assms(2) by (auto simp: finish_import_def split: if_splits option.splits)
  show "db_log db2 E (length E)"
    using small begin_import_Inr(2,3) [OF assms(1)] by (simp add: db_log_def db2)
  show "stored_root db2 = Some root"
    using small by (simp add: stored_root_def get_log_state_def db2)
qed

text \<open>The stages that a successful import has gone through.\<close>

lemma bulk_import_Inr:
  assumes "bulk_import hc hl sha hx manifest order sync op input cfg yielded (db, s) = (Inr sm, (db', s'))"
  obtains db1 s1 w im root where "chunk_size_ok (ic_chunk_size cfg)" "0 < is_entries input" "is_entries input \<le> i64_max"
    "begin_import db = (Inr (), db1)" "read_checkpoint op s = Inr None"
    "write_import_object op MANIFEST_PATH (manifest input (ic_chunk_size cfg)) (ic_resume cfg) s = (Inr w, s1)"
    "import_loop hc hl op (ic_resume cfg) order (ic_chunk_size cfg) (is_entries input) yielded
       \<lparr>im_store = s1, im_digest = [], im_size = 0, im_root = None, im_written = 0, im_verified = 0\<rparr> = (Inr (), im)"
    "im_size im = is_entries input" "hx_encode hx (hash_bytes (sha (im_digest im))) = is_sha256 input"
    "im_root im = Some root" "finish_import (im_size im) root db1 = (Inr (), db')"
    "s' = im_store im" "im_tree_size sm = im_size im" "im_root_hash sm = root"
  using assms
  by (auto simp: bulk_import_def res_simps split: if_splits prod.splits sum.splits option.splits)

lemma imported_empty: "op_laws op \<Longrightarrow> imported hc hl op []
   \<lparr>im_store = s, im_digest = [], im_size = 0, im_root = None, im_written = 0, im_verified = 0\<rparr>"
  by (simp add: imported_def store_serves_empty bundles_serve_def fingerprint_bytes_def)

text \<open>
  C12. An import that succeeds leaves a complete log of what the iterator yielded: the database is at
  the log of these entries, all integrated; storage has every tile and every entry bundle of that
  tree, also when the import was resumed over objects of an earlier attempt and whatever the order
  of the concurrent uploads; the summary and the database hold the RFC 6962 root; and the entries
  are those that a scan fingerprinted as \<open>input\<close>.
\<close>

theorem import_correct:
  assumes "op_laws op" and "permutes_uploads order"
    and "bulk_import hc hl sha hx manifest order sync op input cfg yielded (db, s) = (Inr sm, (db', s'))"
  shows "\<exists>data. yielded = map Inr data
    \<and> sys_ok hc op (map (new_entry hl) data) (length data) \<lparr>w_db = db', w_store = s', w_index = ()\<rparr>
    \<and> im_tree_size sm = length data \<and> im_root_hash sm = mth hc empty_root_hash (map hl data)
    \<and> scan sha hx yielded = Inr input"
proof -
  from assms(3) obtain db1 s1 w im root where size: "chunk_size_ok (ic_chunk_size cfg)"
    and lim: "0 < is_entries input" "is_entries input \<le> i64_max"
    and begun: "begin_import db = (Inr (), db1)"
    and loop: "import_loop hc hl op (ic_resume cfg) order (ic_chunk_size cfg) (is_entries input) yielded
       \<lparr>im_store = s1, im_digest = [], im_size = 0, im_root = None, im_written = 0, im_verified = 0\<rparr> = (Inr (), im)"
    and total: "im_size im = is_entries input" "hx_encode hx (hash_bytes (sha (im_digest im))) = is_sha256 input"
    and root: "im_root im = Some root" and finished: "finish_import (im_size im) root db1 = (Inr (), db')"
    and out: "s' = im_store im" "im_tree_size sm = im_size im" "im_root_hash sm = root"
    by (rule bulk_import_Inr)
  obtain data where data: "yielded = map Inr data" "imported hc hl op data im" "length data \<le> is_entries input"
    "\<forall>d \<in> set data. entry_size_ok d"
    using import_loop_ok [OF imported_empty [OF assms(1)] _ assms(2) size _ lim(2) loop] by auto
  have im: "im_size im = length data" "im_digest im = fingerprint_bytes data"
    "root = mth hc empty_root_hash (map hl data)" "data \<noteq> []"
    using data(2) root by (auto simp: imported_def split: if_splits)
  have leaf: "leaves (map (new_entry hl) data) (length data) = map hl data"
    by (simp add: leaves_def new_entry_def)
  have "finish_import (length (map (new_entry hl) data)) root db1 = (Inr (), db')"
    using finished im(1) by simp
  note db = finish_import_ok [OF begun this]
  have "sys_ok hc op (map (new_entry hl) data) (length data) \<lparr>w_db = db', w_store = s', w_index = ()\<rparr>"
    using db data(2) im(3) by (simp add: sys_ok_def leaf out(1) imported_def)
  moreover have "scan sha hx yielded = Inr input"
    using data(4) im lim(2) total scan_map_Inr [of data 0 "[]"] by (simp add: scan_def data(1))
  ultimately show ?thesis using data(1) im out by auto
qed


subsection \<open>An import into a fresh namespace succeeds\<close>

definition storage_total :: "'s operator \<Rightarrow> bool" where
  "storage_total op \<longleftrightarrow> (\<forall>s p. op_read op s p \<noteq> OpFailed) \<and> (\<forall>p d s. fst (op_write op p d s) = Inr ())"

lemma upload_absent:
  assumes "storage_total op" and "raw_object op (im_store im) p = None"
  shows "fst (upload op resume (p, d) im) = Inr ()"
proof -
  have "op_read op (im_store im) p = OpNotFound"
    using assms by (auto simp: storage_total_def raw_object_def split: op_read.splits)
  moreover obtain s' where "op_write op p d (im_store im) = (Inr (), s')"
    using assms(1) by (metis storage_total_def prod.collapse)
  ultimately show ?thesis
    by (simp add: upload_def write_import_object_def read_raw_def bind_st_def ret_st_def)
qed

lemma uploads_succeed:
  assumes "op_laws op" and "storage_total op" and "distinct (map fst objs)"
    and "\<forall>p \<in> fst ` set objs. raw_object op (im_store im) p = None"
  shows "fst (for_st (upload op resume) objs im) = Inr ()"
  using assms(3,4)
proof (induction objs arbitrary: im)
  case (Cons pd objs)
  obtain p d where pd: "pd = (p, d)" by (cases pd)
  obtain im1 where run: "upload op resume pd im = (Inr (), im1)"
    using upload_absent [OF assms(2), of im p resume d] Cons.prems(2) by (metis pd fst_conv image_eqI list.set_intros(1) prod.collapse)
  have "\<forall>q \<in> fst ` set objs. raw_object op (im_store im1) q = None"
  proof
    fix q assume q: "q \<in> fst ` set objs"
    then have "q \<noteq> p" using Cons.prems(1) pd by auto
    then show "raw_object op (im_store im1) q = None"
      using uploads.put_other [of op q p resume d im] assms(1) run pd q Cons.prems(2) by simp
  qed
  then show ?case using Cons.IH [of im1] Cons.prems(1) run by simp
qed simp

lemma import_objects_total:
  assumes "\<forall>d \<in> set chunk. entry_size_ok d"
  shows "\<exists>objs. import_objects m r chunk = Inr objs"
proof -
  have "\<exists>bytes. bundle_to_bytes \<lparr>bundle_entries = ds\<rparr> = Inr bytes" if ds: "ds \<in> set (chunks_of 256 chunk)" for ds
  proof -
    obtain j where "j < length (chunks_of 256 chunk)" "ds = chunks_of 256 chunk ! j"
      using ds by (auto simp: in_set_conv_nth)
    then have "ds = take 256 (drop (j * 256) chunk)" by (simp add: chunks_of_nth)
    then have "set ds \<subseteq> set chunk" by (auto dest: in_set_takeD in_set_dropD)
    then have "\<forall>d \<in> set ds. length d \<le> u16_max"
      using assms by (fastforce simp: entry_size_ok_def MAX_ENTRY_SIZE_def)
    then have "is_ok (bundle_to_bytes \<lparr>bundle_entries = ds\<rparr>)"
      by (simp add: bundle_to_bytes_def bundle_encode_eq list_all_iff)
    then show ?thesis by (simp add: res_simps)
  qed
  then obtain f where f: "\<forall>ds \<in> set (chunks_of 256 chunk). bundle_to_bytes \<lparr>bundle_entries = ds\<rparr> = Inr (f ds)"
    by metis
  have "\<exists>bs. map_res (\<lambda>(j, ds). bind_res (bundle_to_bytes \<lparr>bundle_entries = ds\<rparr>) (\<lambda>bytes. Inr (g j, bytes)))
      (enumerate 0 (chunks_of 256 chunk)) = Inr bs" for g :: "nat \<Rightarrow> string"
  proof (rule exI)
    show "map_res (\<lambda>(j, ds). bind_res (bundle_to_bytes \<lparr>bundle_entries = ds\<rparr>) (\<lambda>bytes. Inr (g j, bytes)))
      (enumerate 0 (chunks_of 256 chunk)) = Inr (map (\<lambda>(j, ds). (g j, f ds)) (enumerate 0 (chunks_of 256 chunk)))"
    proof (rule map_res_all_ok)
      fix x assume "x \<in> set (enumerate 0 (chunks_of 256 chunk))"
      then have "snd x \<in> set (chunks_of 256 chunk)" by (metis map_snd_enumerate image_eqI set_map)
      then show "(case x of (j, ds) \<Rightarrow> bind_res (bundle_to_bytes \<lparr>bundle_entries = ds\<rparr>) (\<lambda>bytes. Inr (g j, bytes)))
          = Inr (case x of (j, ds) \<Rightarrow> (g j, f ds))"
        using f by (cases x) simp
    qed
  qed
  then show ?thesis by (auto simp: import_objects_def Let_def bind_res_Inr_iff)
qed

lemma partial_fresh:
  assumes "0 < row_count n l i" and "row_count n l i < row_count n' l i" and "n' \<le> i64_max"
  shows "partial_tile_size l i n \<noteq> partial_tile_size l i n'"
proof
  assume eq: "partial_tile_size l i n = partial_tile_size l i n'"
  have l: "l < 8" using row_level_bound [of n' l i] assms by simp
  have "row_count n l i mod 256 = row_count n' l i mod 256"
    using partial_row [OF l, of n i] partial_row [OF l, of n' i] assms eq by simp
  moreover note row_count_le [of n' l i]
  ultimately show False using assms(1,2) by (cases "row_count n' l i = 256") auto
qed

text \<open>The only objects of the log in storage are those of smaller trees.\<close>

definition only_smaller :: "'s operator \<Rightarrow> nat \<Rightarrow> 's \<Rightarrow> bool" where
  "only_smaller op m s \<longleftrightarrow>
     (\<forall>l i p. tile_key (l, i, p) \<longrightarrow> raw_object op s (tile_path l i p) \<noteq> None \<longrightarrow>
        (\<exists>n \<le> m. 0 < row_count n l i \<and> p = partial_tile_size l i n)) \<and>
     (\<forall>b p. bundle_key (b, p) \<longrightarrow> raw_object op s (entries_path b p) \<noteq> None \<longrightarrow>
        (\<exists>n \<le> m. 0 < row_count n 0 b \<and> p = partial_tile_size 0 b n))"

lemma import_chunk_succeeds:
  assumes im: "imported hc hl op D im" and al: "length D mod 256 = 0" and order: "permutes_uploads order"
    and total: "storage_total op" and fresh: "only_smaller op (length D) (im_store im)"
    and new: "chunk \<noteq> []" and sizes: "\<forall>d \<in> set chunk. entry_size_ok d"
    and limit: "length (D @ chunk) \<le> limit" "limit \<le> i64_max"
  shows "\<exists>im'. import_chunk hc hl op resume order limit chunk im = (Inr (), im')
    \<and> only_smaller op (length (D @ chunk)) (im_store im')"
proof -
  let ?m = "length D" and ?n = "length (D @ chunk)"
  have size: "im_size im = ?m" using im by (simp add: imported_def)
  have sv: "store_serves hc op (im_store im) (map hl D)" using im by (simp add: imported_def)
  have laws: "op_laws op" using sv by (simp add: store_serves_def)
  have ni: "?n \<le> i64_max" using limit by simp
  obtain tiles where result: "integrate hc (Tile_Store.read_tile op (im_store im)) ?m (map hl chunk)
      = Inr \<lparr>new_size = ?n, root_hash = mth hc empty_root_hash (map hl (D @ chunk)), result_tiles = tiles\<rparr>"
    and tiles: "tiles_ok hc ?m (map hl D @ map hl chunk) tiles"
    using store.integrate_ok [OF sv, of "map hl chunk"] new ni by auto
  let ?r = "\<lparr>new_size = ?n, root_hash = mth hc empty_root_hash (map hl (D @ chunk)), result_tiles = tiles\<rparr>"
  obtain objects where objects: "import_objects ?m ?r chunk = Inr objects"
    using import_objects_total [OF sizes] by blast
  have ok: "tiles_ok hc ?m (map hl D @ map hl chunk) (result_tiles ?r)" using tiles by simp
  have ns: "new_size ?r = ?n" by simp
  have ln: "length (map hl D @ map hl chunk) = ?n" by simp
  note objs = import_objects_ok [OF objects refl al ns ni ok ln]
  have m: "mset (order objects) = mset objects" using order by (simp add: permutes_uploads_def)
  have same_set: "set (order objects) = set objects" by (rule mset_eq_setD [OF m])
  have dist: "distinct (map fst (order objects))"
    using objs(4) mset_eq_imp_distinct_iff [of "map fst (order objects)" "map fst objects"] m by simp
  have tile: "row_count ?m l i < row_count ?n l i \<and> p = partial_tile_size l i ?n \<and> tile_key (l, i, p)"
    if "(l, i, p) \<in> fst ` set (tile_kvs ?n tiles)" for l i p
    using that kvs_keys [OF tiles, of l i p] row_tile_key [of ?n l i ?n] ni by simp
  have bkey: "row_count ?m 0 b < row_count ?n 0 b \<and> bundle_key (b, partial_tile_size 0 b ?n)"
    if "touched ?m ?n b" for b
    using that touched_iff [of ?m ?n b] bundle_key_ok [OF touched_bound [OF that] ni] by simp
  have absent: "raw_object op (im_store im) q = None" if q: "q \<in> fst ` set objects" for q
  proof (rule ccontr)
    assume some: "raw_object op (im_store im) q \<noteq> None"
    from objs(3) [of q] q consider l i p where "q = tile_path l i p" "(l, i, p) \<in> fst ` set (tile_kvs ?n tiles)"
      | b where "q = entries_path b (partial_tile_size 0 b ?n)" "touched ?m ?n b" by auto
    then show False
    proof cases
      case 1
      note t = tile [OF 1(2)]
      with fresh some obtain n where "n \<le> ?m" "0 < row_count n l i" "p = partial_tile_size l i n"
        unfolding only_smaller_def 1(1) by blast
      then show False
        using partial_fresh [of n l i ?n] t row_count_mono [of n ?m l i] ni by simp
    next
      case 2
      note t = bkey [OF 2(2)]
      with fresh some obtain n where "n \<le> ?m" "0 < row_count n 0 b" "partial_tile_size 0 b ?n = partial_tile_size 0 b n"
        unfolding only_smaller_def 2(1) by blast
      then show False
        using partial_fresh [of n 0 b ?n] t row_count_mono [of n ?m 0 b] ni by simp
    qed
  qed
  obtain imu where up: "for_st (upload op resume) (order objects) im = (Inr (), imu)"
    using uploads_succeed [OF laws total dist, of im resume] absent same_set by (metis prod.collapse)
  have kept: "raw_object op (im_store imu) q = raw_object op (im_store im) q" if "q \<notin> fst ` set objects" for q
    using uploads.put_all_other [of "order objects" op q resume im] that laws same_set up by simp
  have step: "\<exists>n \<le> ?n. P n" if "\<exists>n \<le> ?m. P n" for P
    using that by (metis le_add1 length_append order_trans)
  have "only_smaller op ?n (im_store imu)"
    unfolding only_smaller_def
  proof (intro conjI allI impI)
    fix l i p assume key: "tile_key (l, i, p)" and some: "raw_object op (im_store imu) (tile_path l i p) \<noteq> None"
    show "\<exists>n \<le> ?n. 0 < row_count n l i \<and> p = partial_tile_size l i n"
    proof (cases "tile_path l i p \<in> fst ` set objects")
      case True
      then obtain l' i' p' where eq: "tile_path l i p = tile_path l' i' p'"
        and mem: "(l', i', p') \<in> fst ` set (tile_kvs ?n tiles)"
        using objs(3) tile_path_neq_entries_path by (metis integration_result.select_convs(3))
      have "l' = l \<and> i' = i \<and> p' = p" using eq key tile [OF mem] tile_path_inj [of i p i' p' l l'] by simp
      then show ?thesis using tile [OF mem] by (intro exI [of _ ?n]) auto
    next
      case False
      then show ?thesis using fresh some key kept by (intro step) (simp add: only_smaller_def)
    qed
  next
    fix b p assume key: "bundle_key (b, p)" and some: "raw_object op (im_store imu) (entries_path b p) \<noteq> None"
    show "\<exists>n \<le> ?n. 0 < row_count n 0 b \<and> p = partial_tile_size 0 b n"
    proof (cases "entries_path b p \<in> fst ` set objects")
      case True
      then obtain b' where eq: "entries_path b p = entries_path b' (partial_tile_size 0 b' ?n)"
        and mem: "touched ?m ?n b'"
        using objs(3) tile_path_neq_entries_path by metis
      have "b' = b \<and> partial_tile_size 0 b' ?n = p"
        using eq key bkey [OF mem] entries_path_inj [of b p b' "partial_tile_size 0 b' ?n"] by simp
      then show ?thesis using bkey [OF mem] by (intro exI [of _ ?n]) auto
    next
      case False
      then show ?thesis using fresh some key kept by (intro step) (simp add: only_smaller_def)
    qed
  qed
  moreover have "fold_res fingerprint_entry chunk (im_digest im) = Inr (im_digest im @ fingerprint_bytes chunk)"
    using sizes by (simp add: res_simps)
  ultimately show ?thesis
    using limit size result objects up by (simp add: import_chunk_def bind_st_def)
qed

lemma import_loop_succeeds:
  assumes "imported hc hl op D im" and "length D mod 256 = 0 \<or> data = []" and "permutes_uploads order"
    and "storage_total op" and "only_smaller op (length D) (im_store im)" and "\<forall>d \<in> set data. entry_size_ok d"
    and "chunk_size_ok k" and "length (D @ data) \<le> limit" "limit \<le> i64_max"
  shows "\<exists>im'. import_loop hc hl op resume order k limit (map Inr data) im = (Inr (), im')"
  using assms
proof (induction "length data" arbitrary: D data im rule: less_induct)
  case less
  let ?chunk = "take k data"
  have k: "0 < k" "k mod 256 = 0" using less.prems(7) by (simp_all add: chunk_size_ok_def)
  have taken: "map_res id (take k (map (Inr :: _ \<Rightarrow> byte list res) data)) = Inr ?chunk" by (simp add: map_res_id take_map)
  show ?case
  proof (cases data)
    case Nil
    then show ?thesis by (simp add: import_loop.simps)
  next
    case (Cons d ds)
    then have new: "?chunk \<noteq> []" and aligned: "length D mod 256 = 0" using k(1) less.prems(2) by auto
    have len: "length (D @ ?chunk) \<le> length (D @ data)" by simp
    have sizes: "\<forall>d \<in> set ?chunk. entry_size_ok d" using less.prems(6) by (auto dest: in_set_takeD)
    have "length (D @ ?chunk) \<le> limit" using len less.prems(8) by (rule order_trans)
    from import_chunk_succeeds [OF less.prems(1) aligned less.prems(3-5) new sizes this less.prems(9)]
    obtain im1 where run: "import_chunk hc hl op resume order limit ?chunk im = (Inr (), im1)"
      and fresh: "only_smaller op (length (D @ ?chunk)) (im_store im1)" by blast
    have im1: "imported hc hl op (D @ ?chunk) im1"
      using import_chunk_ok(1) [OF less.prems(1) aligned less.prems(3) new _ less.prems(9) run] less.prems(8) by simp
    have al: "length (D @ ?chunk) mod 256 = 0 \<or> drop k data = []"
      using aligned k(2) by (auto simp: min_def mod_add_eq [symmetric])
    have shorter: "length (drop k data) < length data" using k(1) Cons by simp
    have rest: "\<forall>d \<in> set (drop k data). entry_size_ok d" using less.prems(6) by (auto dest: in_set_dropD)
    have "length ((D @ ?chunk) @ drop k data) \<le> limit" using less.prems(8) by simp
    from less.hyps [OF shorter im1 al less.prems(3,4) fresh rest less.prems(7) this less.prems(9)]
    obtain im' where "import_loop hc hl op resume order k limit (map Inr (drop k data)) im1 = (Inr (), im')" ..
    then show ?thesis
      using run taken new
      by (cases ?chunk) (simp_all add: import_loop.simps [of hc hl op resume order k limit "map Inr data"] drop_map)
  qed
qed

lemma scan_entry_Inr:
  "scan_entry entry (dg, c) = Inr st \<longleftrightarrow>
    (\<exists>d. entry = Inr d \<and> entry_size_ok d \<and> c \<noteq> u64_max \<and> st = (dg @ be_bytes 8 (length d) @ d, c + 1))"
  by (auto simp: scan_entry_def res_simps)

lemma scan_entries_Inr:
  "fold_res scan_entry yielded (dg, c) = Inr (dg', c')
    \<Longrightarrow> \<exists>data. yielded = map Inr data \<and> (\<forall>d \<in> set data. entry_size_ok d)
      \<and> dg' = dg @ fingerprint_bytes data \<and> c' = c + length data"
proof (induction yielded arbitrary: dg c)
  case Nil
  then show ?case by (simp add: fingerprint_bytes_def)
next
  case (Cons entry yielded)
  from Cons.prems obtain d where d: "entry = Inr d" "entry_size_ok d"
    and rest: "fold_res scan_entry yielded (dg @ be_bytes 8 (length d) @ d, c + 1) = Inr (dg', c')"
    by (auto simp: scan_entry_Inr bind_res_Inr_iff)
  from Cons.IH [OF rest] obtain data where "yielded = map Inr data" "\<forall>d \<in> set data. entry_size_ok d"
    "dg' = (dg @ be_bytes 8 (length d) @ d) @ fingerprint_bytes data" "c' = c + 1 + length data" by auto
  with d show ?case by (intro exI [of _ "d # data"]) (simp add: fingerprint_bytes_def)
qed

lemma fresh_import:
  assumes "op_laws op" and "storage_total op" and "permutes_uploads order" and "\<forall>p. op_read op s p = OpNotFound"
    and "chunk_size_ok (ic_chunk_size cfg)" and "1 \<le> ic_upload_concurrency cfg" "ic_upload_concurrency cfg \<le> 256"
    and "\<not> ic_resume cfg" and "begin_import db = (Inr (), db1)" and "scan sha hx yielded = Inr input"
  shows "\<exists>sm db' s'. bulk_import hc hl sha hx manifest order (Inr ()) op input cfg yielded (db, s) = (Inr sm, (db', s'))
    \<and> im_tree_size sm = is_entries input"
proof -
  obtain data where data: "yielded = map Inr data" "\<forall>d \<in> set data. entry_size_ok d"
    and input: "is_entries input = length data" "0 < length data" "length data \<le> i64_max"
      "is_sha256 input = hx_encode hx (hash_bytes (sha (fingerprint_bytes data)))"
    using assms(10) scan_entries_Inr [of yielded "[]" 0]
    by (fastforce simp: scan_def res_simps split: if_splits)
  have empty: "raw_object op s p = None" for p using assms(4) by (simp add: raw_object_def)
  obtain s1 where w: "write_import_object op MANIFEST_PATH (manifest input (ic_chunk_size cfg)) False s = (Inr True, s1)"
  proof -
    obtain s1 where "op_write op MANIFEST_PATH (manifest input (ic_chunk_size cfg)) s = (Inr (), s1)"
      using assms(2) by (metis storage_total_def prod.collapse)
    then show thesis
      using assms(4) by (intro that [of s1]) (simp add: write_import_object_def read_raw_def bind_st_def ret_st_def)
  qed
  have "op_read op s1 q = op_read op s q" if "q \<noteq> MANIFEST_PATH" for q
    using write_import_object_other [OF assms(1) that, of _ False s] w by (metis snd_conv)
  moreover have "tile_path l i p \<noteq> MANIFEST_PATH" "entries_path b p \<noteq> MANIFEST_PATH" for l i p b
    by (simp_all add: tile_path_def entries_path_def MANIFEST_PATH_def)
  ultimately have fresh: "only_smaller op (length ([] :: byte list list)) s1"
    using empty by (simp add: only_smaller_def raw_object_def)
  let ?init = "\<lparr>im_store = s1, im_digest = [], im_size = 0, im_root = None, im_written = 0, im_verified = 0\<rparr>"
  have init: "imported hc hl op [] ?init" by (rule imported_empty [OF assms(1)])
  obtain im where loop: "import_loop hc hl op False order (ic_chunk_size cfg) (length data) (map Inr data) ?init = (Inr (), im)"
    using import_loop_succeeds [OF init _ assms(3,2) _ data(2) assms(5) _ input(3)] fresh by auto
  have im: "imported hc hl op data im"
    using import_loop_ok [OF init _ assms(3,5) _ input(3) loop] by (auto dest: map_inj_on simp: inj_on_def)
  obtain row where "db_log_state db1 = Some row" using begin_import_Inr(1) [OF assms(9)] by blast
  then obtain db2 where "finish_import (length data) (mth hc empty_root_hash (map hl data)) db1 = (Inr (), db2)"
    using input(3) by (simp add: finish_import_def)
  then show ?thesis
    using assms(4-9) input im w loop
    by (auto simp: bulk_import_def read_checkpoint_def imported_def data(1))
qed

text \<open>
  C14. An import succeeds whenever it should: with a valid configuration, an input that was scanned
  before and has not changed since, a database that accepts an import, a storage namespace with no
  objects and no storage failures, it imports every entry.
\<close>

theorem import_succeeds:
  assumes "op_laws op" and "storage_total op" and "permutes_uploads order" and "\<forall>p. op_read op s p = OpNotFound"
    and "chunk_size_ok (ic_chunk_size cfg)" and "1 \<le> ic_upload_concurrency cfg" "ic_upload_concurrency cfg \<le> 256"
    and "\<not> ic_resume cfg" and "begin_import db = (Inr (), db1)" and "scan sha hx yielded = Inr input"
  shows "\<exists>sm db' s'. bulk_import hc hl sha hx manifest order (Inr ()) op input cfg yielded (db, s) = (Inr sm, (db', s'))
    \<and> im_tree_size sm = is_entries input"
  using assms by (rule fresh_import)

text \<open>Two entries imported into an empty log, and an import that stops at an unreadable entry.\<close>

definition demo_import_cfg :: import_config where
  "demo_import_cfg = default_import_config\<lparr>ic_chunk_size := 256\<rparr>"

definition demo_input :: input_summary where
  "demo_input = \<lparr>is_entries = 2, is_sha256 = hx_encode demo_hex (hash_bytes (demo_digest (fingerprint_bytes [[1], [2]])))\<rparr>"

definition demo_import :: "byte list res list \<Rightarrow> import_summary res \<times> database \<times> (string \<times> byte list) list" where
  "demo_import yielded = bulk_import demo_hash (\<lambda>_. 5) demo_digest demo_hex (\<lambda>_ _. []) rev (Inr ()) memory_op
     demo_input demo_import_cfg yielded (empty_db None, [])"

lemma demo_import_setup:
  "permutes_uploads rev" "storage_total memory_op" "chunk_size_ok (ic_chunk_size demo_import_cfg)"
  "\<exists>db. begin_import (empty_db None) = (Inr (), db)" "scan demo_digest demo_hex [Inr [1], Inr [2]] = Inr demo_input"
proof -
  show "permutes_uploads rev" by (simp add: permutes_uploads_def)
  show "storage_total memory_op" by (simp add: storage_total_def memory_op_def split: option.splits)
  show "chunk_size_ok (ic_chunk_size demo_import_cfg)"
    by (simp add: chunk_size_ok_def demo_import_cfg_def default_import_config_def)
  show "\<exists>db. begin_import (empty_db None) = (Inr (), db)"
    by (simp add: begin_import_def ensure_mode_def empty_db_def bind_st_def)
  have "fold_res scan_entry [Inr [1], Inr [2]] ([], 0) = Inr (fingerprint_bytes [[1], [2]], 2)"
    using scan_map_Inr [of "[[1], [2]]" 0 "[]"] by (simp add: entry_size_ok_def MAX_ENTRY_SIZE_def)
  then show "scan demo_digest demo_hex [Inr [1], Inr [2]] = Inr demo_input"
    by (simp add: scan_def demo_input_def)
qed

lemma demo_import_side:
  "1 \<le> ic_upload_concurrency demo_import_cfg" "ic_upload_concurrency demo_import_cfg \<le> 256"
  "\<not> ic_resume demo_import_cfg" "\<forall>p. op_read memory_op [] p = OpNotFound"
  by (simp_all add: demo_import_cfg_def default_import_config_def memory_op_def)

theorem import_succeeds_witness:
  "is_ok (fst (demo_import [Inr [1], Inr [2]]))"
proof -
  obtain db where db: "begin_import (empty_db None) = (Inr (), db)" using demo_import_setup(4) by blast
  from import_succeeds [OF memory_op_laws demo_import_setup(2,1) demo_import_side(4) demo_import_setup(3)
      demo_import_side(1-3) db demo_import_setup(5), of demo_hash "\<lambda>_. 5" "\<lambda>_ _. []"]
  show ?thesis by (auto simp: demo_import_def)
qed

lemma demo_import_runs: "\<exists>sm db' s'. demo_import [Inr [1], Inr [2]] = (Inr sm, (db', s'))"
proof -
  obtain db where db: "begin_import (empty_db None) = (Inr (), db)" using demo_import_setup(4) by blast
  from fresh_import [OF memory_op_laws demo_import_setup(2,1) demo_import_side(4) demo_import_setup(3)
      demo_import_side(1-3) db demo_import_setup(5), of demo_hash "\<lambda>_. 5" "\<lambda>_ _. []"]
  show ?thesis by (auto simp: demo_import_def)
qed

theorem import_correct_witness:
  "\<exists>sm db' s'. demo_import [Inr [1], Inr [2]] = (Inr sm, (db', s')) \<and> im_root_hash sm = 5006
     \<and> sys_ok demo_hash memory_op (map (new_entry (\<lambda>_. 5)) [[1], [2]]) 2 \<lparr>w_db = db', w_store = s', w_index = ()\<rparr>"
proof -
  obtain sm db' s' where run: "demo_import [Inr [1], Inr [2]] = (Inr sm, (db', s'))" using demo_import_runs by blast
  from import_correct [OF memory_op_laws demo_import_setup(1) run [unfolded demo_import_def]]
  obtain data where "[Inr [1], Inr [2]] = map (Inr :: _ \<Rightarrow> byte list res) data"
    "sys_ok demo_hash memory_op (map (new_entry (\<lambda>_. 5)) data) (length data) \<lparr>w_db = db', w_store = s', w_index = ()\<rparr>"
    "im_root_hash sm = mth demo_hash empty_root_hash (map (\<lambda>_. 5) data)" by (elim exE conjE) (rule that)
  moreover from this have "data = [[1], [2]]" by (cases data; cases "tl data") auto
  moreover have "mth demo_hash empty_root_hash [5, 5] = 5006" by code_simp
  ultimately show ?thesis using run by (simp add: numeral_2_eq_2)
qed


end
