(* ===== verification/Monitor.thy ===== *)
theory Monitor
  imports Witness Log_Client
begin

text \<open>
  The validating witness, \<^verbatim>\<open>src/monitor/mod.rs\<close> and \<^verbatim>\<open>src/monitor/handlers.rs\<close>. The trait
  \<open>Monitor\<close> is the record \<open>monitor_ops\<close> over any database \<open>'d\<close> of content and any memory \<open>'m\<close>; the
  promises the witness relies on are the locale \<open>content_monitor\<close>. A request runs in an environment:
  the answers of the log's server, which database calls fail, and what other processes commit
  between the read of the state and the lock. All changes of the transaction take effect at its
  commit, which may also succeed and lose its answer.
\<close>


subsection \<open>The interface of a monitor\<close>

datatype validation_error =
    DuplicateSha256 string nat nat | DuplicateFilename string string string nat nat | ParseError | Other

datatype validation_result = Valid | Invalid validation_error

record ('d, 'm) monitor_ops =
  load_state :: "'d \<Rightarrow> string \<Rightarrow> ('m, error, unit) st"
  validate_entry :: "nat \<Rightarrow> byte list \<Rightarrow> ('m, error, validation_result) st"
  commit_entries :: "string \<Rightarrow> nat \<Rightarrow> nat \<Rightarrow> ('d \<times> 'm, error, unit) st"
  rollback_entries :: "('m, error, unit) st"

datatype monitor_error = Busy | Witness_Error witness_error | Validation_Error validation_error

fun monitor_status_code :: "monitor_error \<Rightarrow> nat" where
  "monitor_status_code Busy = 503"
| "monitor_status_code (Witness_Error e) = status_code e"
| "monitor_status_code (Validation_Error _) = 422"

definition internal :: "'e \<Rightarrow> monitor_error" where "internal e = Witness_Error WitnessInternal"

definition invalid_content :: "'e \<Rightarrow> monitor_error" where "invalid_content e = Witness_Error InvalidProof"


subsection \<open>The environment of a request\<close>

datatype db_call = Get_State | Begin | Lock | Undo | Reread | Update | Commit

record 'd request_env =
  re_now :: "nat option"
  re_get :: "nat \<Rightarrow> http_get"
  re_reader :: "nat \<Rightarrow> tile_reader"
  re_client_ok :: bool
  re_call :: "db_call \<Rightarrow> call_outcome"
  re_other :: "witness_table \<times> 'd \<Rightarrow> witness_table \<times> 'd"
  re_busy :: bool

record ('d, 'm) monitor_world =
  mw_table :: witness_table
  mw_content :: 'd
  mw_monitor :: 'm


subsection \<open>Authentication and validation of the new entries\<close>

definition validate_one ::
  "hash_fn \<Rightarrow> (byte list \<Rightarrow> sha256_hash) \<Rightarrow> inclusion_verifier \<Rightarrow> ('d, 'm) monitor_ops \<Rightarrow> (nat \<Rightarrow> tile_reader)
     \<Rightarrow> checkpoint \<Rightarrow> nat \<Rightarrow> nat \<times> byte list \<Rightarrow> ('m, monitor_error, unit) st" where
  "validate_one hc hl vi ops rd cp old = (\<lambda>(index, entry) m.
     if index < old then (Inr (), m)
     else case verify_entry hc hl vi (rd index) entry index cp of
            Inl e \<Rightarrow> (Inl (invalid_content e), m)
          | Inr _ \<Rightarrow>
              (case validate_entry ops index entry m of
                 (Inl e, m') \<Rightarrow> (Inl (internal e), m')
               | (Inr Valid, m') \<Rightarrow> (Inr (), m')
               | (Inr (Invalid err), m') \<Rightarrow> (Inl (Validation_Error err), m')))"

definition validate_bundle ::
  "hash_fn \<Rightarrow> (byte list \<Rightarrow> sha256_hash) \<Rightarrow> inclusion_verifier \<Rightarrow> ('d, 'm) monitor_ops \<Rightarrow> 'd request_env \<Rightarrow> log_client
     \<Rightarrow> checkpoint \<Rightarrow> nat \<Rightarrow> nat \<Rightarrow> ('m, monitor_error, unit) st" where
  "validate_bundle hc hl vi ops env client cp old bundle_idx m =
     (case client_bundle (re_get env bundle_idx) client bundle_idx (cp_size cp) of
        Inl e \<Rightarrow> (Inl (invalid_content e), m)
      | Inr b \<Rightarrow>
          for_st (validate_one hc hl vi ops (re_reader env) cp old)
            (enumerate (bundle_idx * 256) (bundle_entries b)) m)"

definition monitor_new_entries ::
  "hash_fn \<Rightarrow> (byte list \<Rightarrow> sha256_hash) \<Rightarrow> inclusion_verifier \<Rightarrow> ('d, 'm) monitor_ops \<Rightarrow> 'd request_env \<Rightarrow> log_config
     \<Rightarrow> checkpoint \<Rightarrow> nat \<Rightarrow> 'd \<Rightarrow> ('m, monitor_error, 'd) st" where
  "monitor_new_entries hc hl vi ops env log cp old d m =
     (case lc_url log of
        None \<Rightarrow> (Inl (Witness_Error WitnessInternal), m)
      | Some url \<Rightarrow>
          (case client_new (re_client_ok env) url of
             Inl e \<Rightarrow> (Inl (internal e), m)
           | Inr client \<Rightarrow>
               (case for_st (validate_bundle hc hl vi ops env client cp old)
                       [old div 256..<(cp_size cp + 255) div 256] m of
                  (Inl e, m') \<Rightarrow> (Inl e, m')
                | (Inr _, m') \<Rightarrow>
                    (case commit_entries ops (cp_origin cp) old (cp_size cp) (d, m') of
                       (Inl e, (d', m'')) \<Rightarrow> (Inl (internal e), m'')
                     | (Inr _, (d', m'')) \<Rightarrow> (Inr d', m'')))))"


subsection \<open>The request\<close>

definition monitor_check ::
  "crypto \<Rightarrow> witness \<Rightarrow> add_checkpoint_request \<Rightarrow> witness_error + checkpoint \<times> log_config" where
  "monitor_check cr wit rq =
     bind_res (map_err (\<lambda>_. BadRequest) (from_text cr (rq_checkpoint rq))) (\<lambda>co.
       let cp = co_checkpoint co; origin = cp_origin cp
       in case find (\<lambda>l. lc_origin l = origin) (wit_logs wit) of
            None \<Rightarrow> Inl (UnknownLog origin)
          | Some log \<Rightarrow>
              bind_res (map_err (\<lambda>_. InvalidSignature) (verify cr log co)) (\<lambda>_.
                if i64_max < cp_size cp \<or> cp_size cp < rq_old_size rq then Inl BadRequest
                else Inr (cp, log)))"

text \<open>What happens after the lock, on the transaction's view of the database.\<close>

definition monitor_txn ::
  "hash_fn \<Rightarrow> (byte list \<Rightarrow> sha256_hash) \<Rightarrow> inclusion_verifier \<Rightarrow> ('d, 'm) monitor_ops \<Rightarrow> 'd request_env \<Rightarrow> log_config
     \<Rightarrow> checkpoint \<Rightarrow> string \<Rightarrow> witnessed_state \<Rightarrow> witness_table \<times> 'd \<Rightarrow> ('m, monitor_error, witness_table \<times> 'd) st" where
  "monitor_txn hc hl vi ops env log cp cptext state = (\<lambda>(t, d) m.
     case rollback_entries ops m of
       (Inl e, m1) \<Rightarrow> (Inl (internal e), m1)
     | (Inr _, m1) \<Rightarrow>
         (case load_state ops d (cp_origin cp) m1 of
            (Inl e, m2) \<Rightarrow> (Inl (internal e), m2)
          | (Inr _, m2) \<Rightarrow>
              (case (if ws_size state < cp_size cp
                     then monitor_new_entries hc hl vi ops env log cp (ws_size state) d m2 else (Inr d, m2)) of
                 (Inl e, m3) \<Rightarrow> (Inl e, m3)
               | (Inr d', m3) \<Rightarrow>
                   (case fallible (re_call env Update) (update_in state (cp_size cp) (cp_root cp) cptext) t of
                      (Inl e, _) \<Rightarrow> (Inl (internal e), m3)
                    | (Inr False, _) \<Rightarrow> (Inl (Witness_Error (Conflict (ws_size state))), m3)
                    | (Inr True, t') \<Rightarrow> (Inr (t', d'), m3)))))"

text \<open>The lock was not obtained: the transaction is undone and the current size reported.\<close>

definition monitor_lost ::
  "'d request_env \<Rightarrow> string \<Rightarrow> (('d, 'm) monitor_world, monitor_error, checkpoint_signature) st" where
  "monitor_lost env origin w =
     (if re_call env Undo \<noteq> Call_Ok then (Inl (internal error.Database), w)
      else case fallible (re_call env Reread) (get_or_init origin) (mw_table w) of
             (Inl e, t) \<Rightarrow> (Inl (internal e), w\<lparr>mw_table := t\<rparr>)
           | (Inr cur, t) \<Rightarrow> (Inl (Witness_Error (Conflict (ws_size cur))), w\<lparr>mw_table := t\<rparr>))"

definition monitor_locked ::
  "crypto \<Rightarrow> hash_fn \<Rightarrow> (byte list \<Rightarrow> sha256_hash) \<Rightarrow> inclusion_verifier \<Rightarrow> ('d, 'm) monitor_ops \<Rightarrow> witness
     \<Rightarrow> 'd request_env \<Rightarrow> log_config \<Rightarrow> checkpoint \<Rightarrow> string \<Rightarrow> witnessed_state
     \<Rightarrow> (('d, 'm) monitor_world, monitor_error, checkpoint_signature) st" where
  "monitor_locked cr hc hl vi ops wit env log cp cptext state w =
     (if re_call env Begin \<noteq> Call_Ok then (Inl (internal error.Database), w)
      else case fallible (re_call env Lock) (lock_in state) (mw_table w) of
             (Inl e, _) \<Rightarrow> (Inl (internal e), w)
           | (Inr False, _) \<Rightarrow> monitor_lost env (cp_origin cp) w
           | (Inr True, t) \<Rightarrow>
               (case monitor_txn hc hl vi ops env log cp cptext state (t, mw_content w) (mw_monitor w) of
                  (Inl e, m) \<Rightarrow> (Inl e, w\<lparr>mw_monitor := m\<rparr>)
                | (Inr (t', d'), m) \<Rightarrow>
                    (case re_call env Commit of
                       Call_Ok \<Rightarrow>
                         (map_err internal (cosign_now cr (wit_signer wit) (re_now env) cp),
                          \<lparr>mw_table = t', mw_content = d', mw_monitor = m\<rparr>)
                     | Call_Failed \<Rightarrow> (Inl (internal error.Database), w\<lparr>mw_monitor := m\<rparr>)
                     | Call_Lost \<Rightarrow>
                         (Inl (internal error.Database), \<lparr>mw_table = t', mw_content = d', mw_monitor = m\<rparr>))))"

definition add_locked ::
  "crypto \<Rightarrow> hash_fn \<Rightarrow> (byte list \<Rightarrow> sha256_hash) \<Rightarrow> inclusion_verifier \<Rightarrow> ('d, 'm) monitor_ops \<Rightarrow> witness
     \<Rightarrow> 'd request_env \<Rightarrow> add_checkpoint_request \<Rightarrow> (('d, 'm) monitor_world, monitor_error, checkpoint_signature) st" where
  "add_locked cr hc hl vi ops wit env rq w =
     (case monitor_check cr wit rq of
        Inl e \<Rightarrow> (Inl (Witness_Error e), w)
      | Inr (cp, log) \<Rightarrow>
          (case fallible (re_call env Get_State) (get_or_init (cp_origin cp)) (mw_table w) of
             (Inl e, t) \<Rightarrow> (Inl (internal e), w\<lparr>mw_table := t\<rparr>)
           | (Inr state, t) \<Rightarrow>
               if rq_old_size rq \<noteq> ws_size state
               then (Inl (Witness_Error (Conflict (ws_size state))), w\<lparr>mw_table := t\<rparr>)
               else case verify_consistency hc (ws_size state) (cp_size cp) (ws_root state) (cp_root cp) (rq_proof rq) of
                      Inl e \<Rightarrow> (Inl (Witness_Error InvalidProof), w\<lparr>mw_table := t\<rparr>)
                    | Inr _ \<Rightarrow>
                        (case re_other env (t, mw_content w) of
                           (t2, d2) \<Rightarrow>
                             monitor_locked cr hc hl vi ops wit env log cp (rq_checkpoint rq) state
                               (w\<lparr>mw_table := t2, mw_content := d2\<rparr>))))"

definition monitor_add_checkpoint ::
  "crypto \<Rightarrow> hash_fn \<Rightarrow> (byte list \<Rightarrow> sha256_hash) \<Rightarrow> inclusion_verifier \<Rightarrow> ('d, 'm) monitor_ops \<Rightarrow> witness
     \<Rightarrow> 'd request_env \<Rightarrow> add_checkpoint_request \<Rightarrow> (('d, 'm) monitor_world, monitor_error, checkpoint_signature) st" where
  "monitor_add_checkpoint cr hc hl vi ops wit env rq w =
     (if re_busy env then (Inl Busy, w)
      else case add_locked cr hc hl vi ops wit env rq w of
             (Inr sg, w') \<Rightarrow> (Inr sg, w')
           | (Inl e, w') \<Rightarrow>
               (case rollback_entries ops (mw_monitor w') of
                  (Inl e', m) \<Rightarrow> (Inl (internal e'), w'\<lparr>mw_monitor := m\<rparr>)
                | (Inr _, m) \<Rightarrow> (Inl e, w'\<lparr>mw_monitor := m\<rparr>)))"


subsection \<open>HTTP answers\<close>

record validation_error_details =
  vd_key :: "string option"
  vd_first_index :: "nat option"
  vd_current_index :: "nat option"
  vd_first_hash :: "string option"
  vd_current_hash :: "string option"

record validation_error_response =
  ve_error :: string
  ve_message :: response_text
  ve_details :: "validation_error_details option"

fun validation_response :: "validation_error \<Rightarrow> validation_error_response" where
  "validation_response (DuplicateSha256 h first cur) =
     \<lparr>ve_error = ''duplicate_sha256'',
      ve_message = Exact (''SHA256 '' @ h @ '' already exists at index '' @ dec first),
      ve_details = Some \<lparr>vd_key = Some h, vd_first_index = Some first, vd_current_index = Some cur,
                         vd_first_hash = None, vd_current_hash = None\<rparr>\<rparr>"
| "validation_response (DuplicateFilename f h h' first cur) =
     \<lparr>ve_error = ''duplicate_filename'',
      ve_message = Exact (''Filename '' @ f @ '' already exists with different hash''),
      ve_details = Some \<lparr>vd_key = Some f, vd_first_index = Some first, vd_current_index = Some cur,
                         vd_first_hash = Some h, vd_current_hash = Some h'\<rparr>\<rparr>"
| "validation_response ParseError = \<lparr>ve_error = ''parse_error'', ve_message = Message [], ve_details = None\<rparr>"
| "validation_response Other = \<lparr>ve_error = ''validation_error'', ve_message = Message [], ve_details = None\<rparr>"

datatype monitor_response =
    Plain response | Retry_After response | Validation_Json nat validation_error_response

fun monitor_error_to_response :: "monitor_error \<Rightarrow> monitor_response" where
  "monitor_error_to_response Busy = Retry_After (plain_response 503 (Exact ''monitor busy; retry later''))"
| "monitor_error_to_response (Witness_Error e) = Plain (witness_error_to_response e)"
| "monitor_error_to_response (Validation_Error e) = Validation_Json 422 (validation_response e)"

definition handle_monitor_add_checkpoint ::
  "crypto \<Rightarrow> hash_fn \<Rightarrow> (byte list \<Rightarrow> sha256_hash) \<Rightarrow> inclusion_verifier \<Rightarrow> ('d, 'm) monitor_ops \<Rightarrow> witness
     \<Rightarrow> 'd request_env \<Rightarrow> byte list \<Rightarrow> ('d, 'm) monitor_world \<Rightarrow> monitor_response \<times> ('d, 'm) monitor_world" where
  "handle_monitor_add_checkpoint cr hc hl vi ops wit env body w =
     (if \<not> utf8_ok body then (Plain (plain_response 400 (Message ''invalid UTF-8: '')), w)
      else case from_ascii cr (bytes_str body) of
             Inl e \<Rightarrow> (Plain (plain_response 400 (Message ''parse error: '')), w)
           | Inr rq \<Rightarrow>
               (case monitor_add_checkpoint cr hc hl vi ops wit env rq w of
                  (Inr cosig, w') \<Rightarrow> (Plain (plain_response 200 (Exact (to_line cr cosig))), w')
                | (Inl e, w') \<Rightarrow> (monitor_error_to_response e, w')))"


subsection \<open>Reachable databases\<close>

text \<open>
  The databases that the processes of a validating witness can produce, one commit at a time: the
  initial row of a log, and the transactions of requests whose state matched at the lock. \<open>f\<close> is
  what the database answers to the calls of the monitor, in each transaction anew.
\<close>

inductive monitored ::
  "hash_fn \<Rightarrow> (byte list \<Rightarrow> sha256_hash) \<Rightarrow> inclusion_verifier \<Rightarrow> ('f \<Rightarrow> ('d, 'm) monitor_ops) \<Rightarrow> ('m \<Rightarrow> bool) \<Rightarrow> 'd
     \<Rightarrow> witness_table \<times> 'd \<Rightarrow> bool"
  for hc hl vi ops wf fresh where
  start: "monitored hc hl vi ops wf fresh ([], fresh)"
| initial_row: "monitored hc hl vi ops wf fresh (t, d) \<Longrightarrow>
    monitored hc hl vi ops wf fresh (insert_initial origin t, d)"
| transaction: "monitored hc hl vi ops wf fresh (t, d) \<Longrightarrow> wf m \<Longrightarrow>
    ws_origin state = cp_origin cp \<Longrightarrow> ws_size state \<le> u64_max \<Longrightarrow> cp_size cp \<le> i64_max \<Longrightarrow>
    lock_in state t = (Inr True, t1) \<Longrightarrow>
    monitor_txn hc hl vi (ops f) env log cp cptext state (t1, d) m = (Inr (t', d'), m') \<Longrightarrow>
    monitored hc hl vi ops wf fresh (t', d')"

lemma lock_in_eq: "lock_in state t = (Inr b, t1) \<longleftrightarrow> b = (length (filter (matching state) t) = 1) \<and> t1 = t"
proof -
  have "map (\<lambda>row. if matching state row then row\<lparr>wr_size := wr_size row\<rparr> else row) t = t"
    by (rule map_idI) simp
  then show ?thesis by (auto simp: lock_in_def)
qed

lemma locked_state:
  assumes "table_ok t" and "lock_in state t = (Inr True, t1)" and "ws_size state \<le> u64_max"
  shows "ws_size state \<le> i64_max" and "witnessed t (ws_origin state) = Some (ws_size state, ws_root state)"
proof -
  have count: "length (filter (matching state) t) = 1" using assms(2) by (simp add: lock_in_eq)
  then have "filter (matching state) t \<noteq> []" by auto
  then obtain row where "row \<in> set t" "matching state row" by (auto simp: filter_empty_conv)
  then have "0 \<le> as_i64 (ws_size state)" using assms(1) by (auto simp: table_ok_def matching_def)
  then show small: "ws_size state \<le> i64_max"
    using assms(3) by (auto simp: as_i64_def split: if_splits)
  have "state = \<lparr>ws_origin = ws_origin state, ws_size = ws_size state, ws_root = ws_root state\<rparr>" by simp
  then show "witnessed t (ws_origin state) = Some (ws_size state, ws_root state)"
    using matching_count [OF assms(1) small] count by metis
qed

lemma get_or_init_table: "snd (get_or_init origin t) \<in> {t, insert_initial origin t}"
  by (simp add: get_or_init_def Let_def split: sum.split option.split)

lemma fallible_get: "fallible out (get_or_init origin) t = (r, t') \<Longrightarrow> t' \<in> {t, insert_initial origin t}"
  using get_or_init_table [of origin t] by (cases out) (auto simp: fallible_def)

text \<open>What has happened when a cosignature is returned.\<close>

lemma monitor_cosigned_cases:
  fixes ops :: "('d, 'm) monitor_ops"
  assumes "monitor_add_checkpoint cr hc hl vi ops wit env rq w = (Inr sg, w')"
  obtains cp log state t t2 d2 where "monitor_check cr wit rq = Inr (cp, log)"
    "get_or_init (cp_origin cp) (mw_table w) = (Inr state, t)" "rq_old_size rq = ws_size state"
    "verify_consistency hc (ws_size state) (cp_size cp) (ws_root state) (cp_root cp) (rq_proof rq) = Inr ()"
    "re_other env (t, mw_content w) = (t2, d2)" "lock_in state t2 = (Inr True, t2)"
    "monitor_txn hc hl vi ops env log cp (rq_checkpoint rq) state (t2, d2) (mw_monitor w)
       = (Inr (mw_table w', mw_content w'), mw_monitor w')"
    "cosign_now cr (wit_signer wit) (re_now env) cp = Inr sg"
proof -
  have run: "add_locked cr hc hl vi ops wit env rq w = (Inr sg, w')"
    using assms by (auto simp: monitor_add_checkpoint_def split: if_splits sum.splits prod.splits)
  then obtain cp log state t t2 d2 where 1: "monitor_check cr wit rq = Inr (cp, log)"
    "get_or_init (cp_origin cp) (mw_table w) = (Inr state, t)" "rq_old_size rq = ws_size state"
    "verify_consistency hc (ws_size state) (cp_size cp) (ws_root state) (cp_root cp) (rq_proof rq) = Inr ()"
    "re_other env (t, mw_content w) = (t2, d2)"
    and locked: "monitor_locked cr hc hl vi ops wit env log cp (rq_checkpoint rq) state
      (w\<lparr>mw_table := t2, mw_content := d2\<rparr>) = (Inr sg, w')"
    by (auto simp: add_locked_def fallible_def split: sum.splits prod.splits if_splits call_outcome.splits)
  have lost: "fst (monitor_lost env origin v) \<noteq> Inr sg" for origin and v :: "('d, 'm) monitor_world"
    by (auto simp: monitor_lost_def split: sum.splits prod.splits)
  from locked lost obtain t3 where 2: "lock_in state t2 = (Inr True, t3)"
    "monitor_txn hc hl vi ops env log cp (rq_checkpoint rq) state (t3, d2) (mw_monitor w)
       = (Inr (mw_table w', mw_content w'), mw_monitor w')"
    "cosign_now cr (wit_signer wit) (re_now env) cp = Inr sg"
    unfolding monitor_locked_def
    by (auto simp: fallible_def res_simps split: sum.splits prod.splits if_splits bool.splits call_outcome.splits)
      (metis fst_conv)+
  from 2(1) have "t3 = t2" by (simp add: lock_in_eq)
  with 1 2 show thesis using that by blast
qed

text \<open>
  What a request can do to the database: nothing but the initial row of its log, or the whole of its
  transaction.
\<close>

lemma monitor_locked_db:
  fixes ops :: "('d, 'm) monitor_ops"
  assumes "monitor_locked cr hc hl vi ops wit env log cp cptext state w = (r, w')"
  shows "mw_content w' = mw_content w \<and> mw_table w' \<in> {mw_table w, insert_initial (cp_origin cp) (mw_table w)}
       \<and> \<not> is_ok r
       \<and> mw_monitor w' \<in> {mw_monitor w, snd (monitor_txn hc hl vi ops env log cp cptext state (mw_table w, mw_content w) (mw_monitor w))}
     \<or> lock_in state (mw_table w) = (Inr True, mw_table w)
       \<and> monitor_txn hc hl vi ops env log cp cptext state (mw_table w, mw_content w) (mw_monitor w)
           = (Inr (mw_table w', mw_content w'), mw_monitor w')
       \<and> (re_call env Commit = Call_Lost \<or> r = map_err internal (cosign_now cr (wit_signer wit) (re_now env) cp))"
proof -
  have lost: "mw_content v' = mw_content v \<and> mw_table v' \<in> {mw_table v, insert_initial origin (mw_table v)}
      \<and> mw_monitor v' = mw_monitor v \<and> \<not> is_ok q"
    if "monitor_lost env origin v = (q, v')" for origin q and v v' :: "('d, 'm) monitor_world"
  proof -
    obtain g t where got: "fallible (re_call env Reread) (get_or_init origin) (mw_table v) = (g, t)" by fastforce
    show ?thesis
      using that fallible_get [OF got] got by (auto simp: monitor_lost_def split: if_splits sum.splits)
  qed
  obtain b where lock: "lock_in state (mw_table w) = (Inr b, mw_table w)" by (simp add: lock_in_eq)
  obtain x m where txn: "monitor_txn hc hl vi ops env log cp cptext state (mw_table w, mw_content w) (mw_monitor w) = (x, m)"
    by fastforce
  show ?thesis
  proof (cases "re_call env Begin = Call_Ok \<and> re_call env Lock = Call_Ok")
    case True
    show ?thesis
    proof (cases b)
      case True
      then show ?thesis
        using assms \<open>_ \<and> _\<close> lock txn
        by (cases "re_call env Commit")
          (auto simp: monitor_locked_def fallible_def split: sum.splits)
    next
      case False
      then have "monitor_lost env (cp_origin cp) w = (r, w')"
        using assms True lock by (simp add: monitor_locked_def fallible_def)
      from lost [OF this] show ?thesis by auto
    qed
  next
    case False
    then show ?thesis
      using assms lock by (cases "re_call env Lock") (auto simp: monitor_locked_def fallible_def split: if_splits)
  qed
qed

lemma add_locked_db:
  fixes ops :: "('d, 'm) monitor_ops"
  assumes "add_locked cr hc hl vi ops wit env rq w = (r, w')"
  shows "w' = w \<and> \<not> is_ok r \<or> (\<exists>cp log t. monitor_check cr wit rq = Inr (cp, log)
    \<and> t \<in> {mw_table w, insert_initial (cp_origin cp) (mw_table w)}
    \<and> (w' = w\<lparr>mw_table := t\<rparr> \<and> \<not> is_ok r
       \<or> (\<exists>state t2 d2. re_other env (t, mw_content w) = (t2, d2)
            \<and> fst (get_or_init (cp_origin cp) (mw_table w)) = Inr state
            \<and> monitor_locked cr hc hl vi ops wit env log cp (rq_checkpoint rq) state
                (w\<lparr>mw_table := t2, mw_content := d2\<rparr>) = (r, w'))))"
proof (cases "monitor_check cr wit rq")
  case (Inl e)
  then show ?thesis using assms by (auto simp: add_locked_def)
next
  case (Inr cl)
  then obtain cp log where check: "monitor_check cr wit rq = Inr (cp, log)" by (cases cl) auto
  obtain g t where got: "fallible (re_call env Get_State) (get_or_init (cp_origin cp)) (mw_table w) = (g, t)" by fastforce
  have t: "t \<in> {mw_table w, insert_initial (cp_origin cp) (mw_table w)}" by (rule fallible_get [OF got])
  obtain t2 d2 where other: "re_other env (t, mw_content w) = (t2, d2)" by fastforce
  have "w' = w\<lparr>mw_table := t\<rparr> \<and> \<not> is_ok r
       \<or> (\<exists>state. g = Inr state \<and> monitor_locked cr hc hl vi ops wit env log cp (rq_checkpoint rq) state
                (w\<lparr>mw_table := t2, mw_content := d2\<rparr>) = (r, w'))"
    using assms check got other by (auto simp: add_locked_def split: sum.splits if_splits)
  moreover have "g = Inr state \<Longrightarrow> fst (get_or_init (cp_origin cp) (mw_table w)) = Inr state" for state
    using got by (cases "re_call env Get_State") (auto simp: fallible_def)
  ultimately show ?thesis using check t other by blast
qed

lemma request_db:
  assumes "monitor_add_checkpoint cr hc hl vi ops wit env rq w = (r, w')"
  shows "w' = w \<and> \<not> is_ok r \<or> (\<exists>r1 w1. add_locked cr hc hl vi ops wit env rq w = (r1, w1)
    \<and> mw_table w' = mw_table w1 \<and> mw_content w' = mw_content w1 \<and> (is_ok r \<longrightarrow> r1 = r \<and> w1 = w') \<and> (is_ok r1 \<longrightarrow> is_ok r)
    \<and> (\<not> is_ok r1 \<longrightarrow> mw_monitor w' = snd (rollback_entries ops (mw_monitor w1))))"
  using assms
  by (cases "add_locked cr hc hl vi ops wit env rq w")
    (auto simp: monitor_add_checkpoint_def is_ok_iff split: if_splits sum.splits prod.splits)

subsection \<open>What a monitor promises\<close>

text \<open>
  \<open>stored d origin E\<close>: the content database represents the entries \<open>E\<close> of a log; \<open>holds E P m\<close>: the
  memory represents \<open>E\<close> and the staged entries \<open>P\<close> after them; \<open>clear m\<close>: nothing is staged.
\<close>

locale content_monitor =
  fixes ops :: "'f \<Rightarrow> ('d, 'm) monitor_ops"
    and wf :: "'m \<Rightarrow> bool"
    and clear :: "'m \<Rightarrow> bool"
    and holds :: "byte list list \<Rightarrow> byte list list \<Rightarrow> 'm \<Rightarrow> bool"
    and stored :: "'d \<Rightarrow> string \<Rightarrow> byte list list \<Rightarrow> bool"
    and fresh :: 'd
  assumes rollback_clear: "wf m \<Longrightarrow> rollback_entries (ops f) m = (Inr (), m') \<Longrightarrow> clear m'"
    and load_holds: "clear m \<Longrightarrow> stored d origin E \<Longrightarrow> load_state (ops f) d origin m = (Inr (), m') \<Longrightarrow> holds E [] m'"
    and validate_holds: "holds E P m \<Longrightarrow> validate_entry (ops f) (length (E @ P)) data m = (Inr Valid, m')
      \<Longrightarrow> holds E (P @ [data]) m'"
    and commit_stored: "holds E P m \<Longrightarrow> stored d origin E \<Longrightarrow> length (E @ P) \<le> i64_max
      \<Longrightarrow> commit_entries (ops f) origin (length E) (length (E @ P)) (d, m) = (Inr (), (d', m')) \<Longrightarrow> stored d' origin (E @ P)"
    and commit_other: "commit_entries (ops f) origin a b (d, m) = (r, (d', m')) \<Longrightarrow> origin' \<noteq> origin
      \<Longrightarrow> stored d' origin' E \<longleftrightarrow> stored d origin' E"
    and fresh_stored: "stored fresh origin []"
    and wf_kept: "wf m \<Longrightarrow> wf (snd (rollback_entries (ops f) m))" "wf m \<Longrightarrow> wf (snd (load_state (ops f) d origin m))"
      "wf m \<Longrightarrow> wf (snd (validate_entry (ops f) i data m))" "wf m \<Longrightarrow> wf (snd (snd (commit_entries (ops f) origin a b (d, m))))"
begin

text \<open>The staged entries that were accepted, each authenticated at its position.\<close>

definition checked ::
  "hash_fn \<Rightarrow> (byte list \<Rightarrow> sha256_hash) \<Rightarrow> inclusion_verifier \<Rightarrow> (nat \<Rightarrow> tile_reader) \<Rightarrow> checkpoint
     \<Rightarrow> byte list list \<Rightarrow> byte list list \<Rightarrow> bool" where
  "checked hc hl vi rd cp E P \<longleftrightarrow>
     (\<forall>i < length P. verify_entry hc hl vi (rd (length E + i)) (P ! i) (length E + i) cp = Inr ())"

definition progress ::
  "hash_fn \<Rightarrow> (byte list \<Rightarrow> sha256_hash) \<Rightarrow> inclusion_verifier \<Rightarrow> (nat \<Rightarrow> tile_reader) \<Rightarrow> checkpoint
     \<Rightarrow> byte list list \<Rightarrow> nat \<Rightarrow> 'm \<Rightarrow> bool" where
  "progress hc hl vi rd cp E k m \<longleftrightarrow>
     (\<exists>P. holds E P m \<and> length (E @ P) = max (length E) k \<and> checked hc hl vi rd cp E P)"

lemma validate_one_progress:
  assumes "progress hc hl vi rd cp E k m"
    and "validate_one hc hl vi (ops f) rd cp (length E) (k, entry) m = (Inr (), m')"
  shows "progress hc hl vi rd cp E (Suc k) m'"
proof -
  obtain P where P: "holds E P m" "length (E @ P) = max (length E) k" "checked hc hl vi rd cp E P"
    using assms(1) by (auto simp: progress_def)
  show ?thesis
  proof (cases "k < length E")
    case True
    then have "m' = m" using assms(2) by (simp add: validate_one_def)
    then show ?thesis using P True unfolding progress_def by (intro exI [of _ P]) simp
  next
    case False
    then have k: "length E + length P = k" using P(2) by simp
    have ve: "verify_entry hc hl vi (rd k) entry k cp = Inr ()"
      and va: "validate_entry (ops f) k entry m = (Inr Valid, m')"
      using assms(2) False by (auto simp: validate_one_def split: sum.splits prod.splits validation_result.splits)
    have "holds E (P @ [entry]) m'" using validate_holds [OF P(1)] va k by simp
    moreover have "checked hc hl vi rd cp E (P @ [entry])"
      using P(3) ve k by (auto simp: checked_def nth_append less_Suc_eq)
    ultimately show ?thesis using k unfolding progress_def by (intro exI [of _ "P @ [entry]"]) simp
  qed
qed

lemma validate_all_progress:
  assumes "progress hc hl vi rd cp E k m"
    and "for_st (validate_one hc hl vi (ops f) rd cp (length E)) (enumerate k es) m = (Inr (), m')"
  shows "progress hc hl vi rd cp E (k + length es) m'"
  using assms
proof (induction es arbitrary: k m)
  case (Cons e es)
  from Cons.prems(2) obtain m1 where one: "validate_one hc hl vi (ops f) rd cp (length E) (k, e) m = (Inr (), m1)"
    and rest: "for_st (validate_one hc hl vi (ops f) rd cp (length E)) (enumerate (Suc k) es) m1 = (Inr (), m')"
    by (auto split: prod.splits sum.splits)
  from Cons.IH [OF validate_one_progress [OF Cons.prems(1) one] rest] show ?case by simp
qed simp

lemma validate_bundle_progress:
  assumes "progress hc hl vi (re_reader env) cp E (min (cp_size cp) (b * 256)) m"
    and "validate_bundle hc hl vi (ops f) env c cp (length E) b m = (Inr (), m')"
  shows "progress hc hl vi (re_reader env) cp E (min (cp_size cp) (Suc b * 256)) m'"
proof -
  from assms(2) obtain bn where got: "client_bundle (re_get env b) c b (cp_size cp) = Inr bn"
    and run: "for_st (validate_one hc hl vi (ops f) (re_reader env) cp (length E))
      (enumerate (b * 256) (bundle_entries bn)) m = (Inr (), m')"
    by (auto simp: validate_bundle_def split: sum.splits)
  have lt: "b * 256 < cp_size cp" and len: "length (bundle_entries bn) = min (cp_size cp - b * 256) 256"
    using got by (auto simp: client_bundle_def Let_def res_simps split: if_splits)
  have "min (cp_size cp) (b * 256) = b * 256" using lt by simp
  moreover have "b * 256 + length (bundle_entries bn) = min (cp_size cp) (Suc b * 256)"
    unfolding len using lt by (cases "cp_size cp - b * 256 \<le> 256") (auto simp: min_def)
  ultimately show ?thesis using validate_all_progress [OF _ run] assms(1) by metis
qed

lemma validate_bundles_progress:
  assumes "a \<le> z" and "progress hc hl vi (re_reader env) cp E (min (cp_size cp) (a * 256)) m"
    and "for_st (validate_bundle hc hl vi (ops f) env c cp (length E)) [a..<z] m = (Inr (), m')"
  shows "progress hc hl vi (re_reader env) cp E (min (cp_size cp) (z * 256)) m'"
  using assms
proof (induction "z - a" arbitrary: a m)
  case (Suc n)
  then have az: "[a..<z] = a # [Suc a..<z]" by (simp add: upt_conv_Cons)
  from Suc.prems(3) obtain m1 where one: "validate_bundle hc hl vi (ops f) env c cp (length E) a m = (Inr (), m1)"
    and rest: "for_st (validate_bundle hc hl vi (ops f) env c cp (length E)) [Suc a..<z] m1 = (Inr (), m')"
    by (auto simp: az split: prod.splits sum.splits)
  from Suc.hyps(1) [OF _ _ validate_bundle_progress [OF Suc.prems(2) one] rest] Suc.hyps(2) show ?case by simp
qed simp

text \<open>The new entries that a request commits extend the stored ones, and each was authenticated.\<close>

lemma new_entries_stored:
  assumes st: "stored d (cp_origin cp) E" and h: "holds E [] m"
    and size: "length E < cp_size cp" "cp_size cp \<le> i64_max"
    and run: "monitor_new_entries hc hl vi (ops f) env log cp (length E) d m = (Inr d', m')"
  shows "\<exists>P. stored d' (cp_origin cp) (E @ P) \<and> length (E @ P) = cp_size cp
    \<and> checked hc hl vi (re_reader env) cp E P
    \<and> (\<forall>origin' E'. origin' \<noteq> cp_origin cp \<longrightarrow> stored d' origin' E' = stored d origin' E')"
proof -
  let ?z = "(cp_size cp + 255) div 256"
  from run obtain c m1 where loop: "for_st (validate_bundle hc hl vi (ops f) env c cp (length E)) [length E div 256..<?z] m = (Inr (), m1)"
    and com: "commit_entries (ops f) (cp_origin cp) (length E) (cp_size cp) (d, m1) = (Inr (), (d', m'))"
    by (auto simp: monitor_new_entries_def split: option.splits sum.splits prod.splits)
  have "length E div 256 * 256 \<le> length E" by simp
  then have "max (length E) (min (cp_size cp) (length E div 256 * 256)) = length E" by linarith
  then have "progress hc hl vi (re_reader env) cp E (min (cp_size cp) (length E div 256 * 256)) m"
    using h unfolding progress_def by (intro exI [of _ "[]"]) (simp add: checked_def)
  moreover have "length E div 256 \<le> ?z" using size(1) by (simp add: div_le_mono)
  ultimately have "progress hc hl vi (re_reader env) cp E (min (cp_size cp) (?z * 256)) m1"
    using validate_bundles_progress [OF _ _ loop] by blast
  moreover have "cp_size cp \<le> ?z * 256" by linarith
  ultimately obtain P where P: "holds E P m1" "length (E @ P) = cp_size cp" "checked hc hl vi (re_reader env) cp E P"
    using size(1) unfolding progress_def by (auto simp: min_absorb1)
  have "stored d' (cp_origin cp) (E @ P)"
    using commit_stored [OF P(1) st, of f d' m'] com P(2) size(2) by simp
  then show ?thesis using P(2,3) commit_other [OF com] by blast
qed

text \<open>The content database has exactly as many entries of a log as the witnessed size says.\<close>

definition content_ok :: "witness_table \<times> 'd \<Rightarrow> bool" where
  "content_ok = (\<lambda>(t, d). table_ok t \<and>
     (\<forall>origin. \<exists>E. stored d origin E \<and> length E = (case witnessed t origin of None \<Rightarrow> 0 | Some v \<Rightarrow> fst v)))"

lemma transaction_ok:
  assumes ok: "content_ok (t, d)" and m: "wf m" and origin: "ws_origin state = cp_origin cp"
    and u64: "ws_size state \<le> u64_max" and size: "cp_size cp \<le> i64_max" and lock: "lock_in state t = (Inr True, t1)"
    and run: "monitor_txn hc hl vi (ops f) env log cp cptext state (t1, d) m = (Inr (t', d'), m')"
  shows "content_ok (t', d')"
    and "\<exists>E P. stored d (cp_origin cp) E \<and> length E = ws_size state \<and> stored d' (cp_origin cp) (E @ P)
      \<and> length (E @ P) = cp_size cp \<and> checked hc hl vi (re_reader env) cp E P"
    and "witnessed t' (cp_origin cp) = Some (cp_size cp, cp_root cp)"
proof -
  have t: "table_ok t" and t1: "t1 = t" using ok lock by (simp_all add: content_ok_def lock_in_eq)
  note state = locked_state [OF t lock u64]
  have "\<exists>E. stored d (cp_origin cp) E \<and> length E = (case witnessed t (cp_origin cp) of None \<Rightarrow> 0 | Some v \<Rightarrow> fst v)"
    using ok by (simp add: content_ok_def)
  then obtain E where E: "stored d (cp_origin cp) E" "length E = ws_size state"
    using state(2) origin by auto
  from run obtain m1 m2 where m1: "rollback_entries (ops f) m = (Inr (), m1)"
    and m2: "load_state (ops f) d (cp_origin cp) m1 = (Inr (), m2)"
    and new: "(if ws_size state < cp_size cp
       then monitor_new_entries hc hl vi (ops f) env log cp (ws_size state) d m2 else (Inr d, m2)) = (Inr d', m')"
    and upd: "update_in state (cp_size cp) (cp_root cp) cptext t = (Inr True, t')"
    unfolding monitor_txn_def t1
    by (auto simp: fallible_def split: sum.splits prod.splits bool.splits call_outcome.splits)
  have adv: "advance_ok (ws_size state, ws_root state) (cp_size cp, cp_root cp)"
    using upd by (auto simp: update_in_def advance_ok_def split: if_splits)
  have st: "state = \<lparr>ws_origin = cp_origin cp, ws_size = ws_size state, ws_root = ws_root state\<rparr>"
    using origin by simp
  have t': "t' = snd (table_cas cptext (cp_origin cp) (ws_size state, ws_root state) (cp_size cp, cp_root cp) t)"
    using upd update_in_valid [OF adv, of "cp_origin cp" cptext t] st by (metis snd_conv)
  have table: "table_ok t'" unfolding t' by (rule table_cas_ok [OF t adv])
  have read: "witnessed t' = (witnessed t)(cp_origin cp \<mapsto> (cp_size cp, cp_root cp))"
    unfolding t' table_cas_read [OF t adv] using state(2) origin by simp
  have h: "holds E [] m2" using load_holds [OF rollback_clear [OF m m1] E(1) m2] .
  have "\<exists>P. stored d' (cp_origin cp) (E @ P) \<and> length (E @ P) = cp_size cp
    \<and> checked hc hl vi (re_reader env) cp E P
    \<and> (\<forall>origin' E'. origin' \<noteq> cp_origin cp \<longrightarrow> stored d' origin' E' = stored d origin' E')"
  proof (cases "ws_size state < cp_size cp")
    case True
    then show ?thesis
      using new_entries_stored [OF E(1) h _ size, of hc hl vi f env log d' m'] new E(2) by simp
  next
    case False
    then have "cp_size cp = ws_size state" using adv by (simp add: advance_ok_def)
    then show ?thesis using new E by (intro exI [of _ "[]"]) (simp add: checked_def)
  qed
  then obtain P where P: "stored d' (cp_origin cp) (E @ P)" "length (E @ P) = cp_size cp"
    "checked hc hl vi (re_reader env) cp E P"
    and frame: "\<And>origin' E'. origin' \<noteq> cp_origin cp \<Longrightarrow> stored d' origin' E' = stored d origin' E'" by blast
  then show "\<exists>E P. stored d (cp_origin cp) E \<and> length E = ws_size state \<and> stored d' (cp_origin cp) (E @ P)
      \<and> length (E @ P) = cp_size cp \<and> checked hc hl vi (re_reader env) cp E P"
    using E by blast
  show "witnessed t' (cp_origin cp) = Some (cp_size cp, cp_root cp)" by (simp add: read)
  have "\<exists>E. stored d' origin' E \<and> length E = (case witnessed t' origin' of None \<Rightarrow> 0 | Some v \<Rightarrow> fst v)" for origin'
  proof (cases "origin' = cp_origin cp")
    case True
    then show ?thesis using P(1,2) by (intro exI [of _ "E @ P"]) (simp add: read)
  next
    case False
    then show ?thesis using ok frame by (simp add: content_ok_def read)
  qed
  then show "content_ok (t', d')" using table by (simp add: content_ok_def)
qed

text \<open>Every reachable database is of this kind.\<close>

lemma insert_initial_content:
  assumes "content_ok (t, d)"
  shows "content_ok (insert_initial origin t, d)"
proof -
  have t: "table_ok t" using assms by (simp add: content_ok_def)
  have "(case witnessed (insert_initial origin t) k of None \<Rightarrow> 0 | Some v \<Rightarrow> fst v)
      = (case witnessed t k of None \<Rightarrow> 0 | Some v \<Rightarrow> fst v)" for k
    by (simp add: insert_initial_read)
  then show ?thesis using assms insert_initial_ok [OF t] by (simp add: content_ok_def)
qed

lemma monitored_content: "monitored hc hl vi ops wf fresh db \<Longrightarrow> content_ok db"
proof (induction rule: monitored.induct)
  case start
  then show ?case using fresh_stored by (auto simp: content_ok_def table_ok_def witnessed_def)
next
  case (initial_row t d origin)
  show ?case by (rule insert_initial_content [OF initial_row.IH])
next
  case (transaction t d m state cp t1 env log cptext t' d' m')
  then show ?case using transaction_ok(1) by blast
qed

text \<open>Requests lead from reachable databases to reachable databases.\<close>

lemma validate_one_wf: "wf m \<Longrightarrow> wf (snd (validate_one hc hl vi (ops f) rd cp old ie m))"
  using wf_kept(3) [of m f "fst ie" "snd ie"]
  by (auto simp: validate_one_def split_def split: sum.split validation_result.split prod.split)

lemma new_entries_wf:
  assumes "wf m"
  shows "wf (snd (monitor_new_entries hc hl vi (ops f) env log cp old d m))"
proof -
  have "wf (snd (validate_bundle hc hl vi (ops f) env c cp old b m))" if "wf m" for c b m
    using that for_st_keeps [where P = wf, OF validate_one_wf]
    by (auto simp: validate_bundle_def split: sum.split)
  then have loop: "wf (snd (for_st (validate_bundle hc hl vi (ops f) env c cp old) bs m))" for c bs
    by (intro for_st_keeps [where P = wf] assms)
  show ?thesis
  proof (cases "\<exists>url c. lc_url log = Some url \<and> client_new (re_client_ok env) url = Inr c")
    case True
    then obtain url c where c: "lc_url log = Some url" "client_new (re_client_ok env) url = Inr c" by blast
    obtain r1 m1 where 1: "for_st (validate_bundle hc hl vi (ops f) env c cp old) [old div 256..<(cp_size cp + 255) div 256] m
        = (r1, m1)" by fastforce
    obtain r2 d2 m2 where 2: "commit_entries (ops f) (cp_origin cp) old (cp_size cp) (d, m1) = (r2, (d2, m2))"
      by (metis prod.collapse)
    have "wf m1" using loop 1 by (metis snd_conv)
    moreover from this have "wf m2" using wf_kept(4) [of m1 f "cp_origin cp" old "cp_size cp" d] 2 by simp
    ultimately show ?thesis using c 1 2 by (simp add: monitor_new_entries_def split: sum.split)
  next
    case False
    then show ?thesis using assms by (auto simp: monitor_new_entries_def split: option.split sum.split)
  qed
qed

lemma transaction_wf:
  assumes "wf m"
  shows "wf (snd (monitor_txn hc hl vi (ops f) env log cp cptext state (t, d) m))"
proof -
  obtain r1 m1 where 1: "rollback_entries (ops f) m = (r1, m1)" by fastforce
  obtain r2 m2 where 2: "load_state (ops f) d (cp_origin cp) m1 = (r2, m2)" by fastforce
  have w1: "wf m1" using wf_kept(1) [OF assms, of f] 1 by simp
  then have w2: "wf m2" using wf_kept(2) [of m1 f d "cp_origin cp"] 2 by simp
  then have w3: "wf (snd (monitor_new_entries hc hl vi (ops f) env log cp (ws_size state) d m2))" by (rule new_entries_wf)
  show ?thesis
    using 1 2 w1 w2 w3
    by (auto simp: monitor_txn_def split: sum.split prod.split bool.split)
qed

lemma state_read:
  assumes "table_ok t" and "fst (get_or_init origin t) = Inr state"
  shows "ws_origin state = origin" and "ws_size state \<le> u64_max"
proof -
  have "fst v \<le> u64_max" if w: "witnessed t origin = Some v" for v
  proof -
    obtain row where "find (\<lambda>row. wr_origin row = origin) t = Some row" and v: "fst v = nat (wr_size row)"
      using w by (auto simp: witnessed_def)
    then have "row \<in> set t" using assms(1) find_origin_iff [of t origin row] by (simp add: table_ok_def)
    then have "wr_size row \<le> int i64_max" using assms(1) by (simp add: table_ok_def)
    then show ?thesis using v by simp
  qed
  then have "ws_origin state = origin \<and> ws_size state \<le> u64_max"
    using assms by (auto simp: get_or_init_eq state_at_def split: option.splits)
  then show "ws_origin state = origin" and "ws_size state \<le> u64_max" by simp_all
qed

lemma monitor_check_size: "monitor_check cr wit rq = Inr (cp, log) \<Longrightarrow> cp_size cp \<le> i64_max"
  by (auto simp: monitor_check_def res_simps Let_def split: option.splits if_splits)

lemma request_monitored:
  assumes db: "monitored hc hl vi ops wf fresh (mw_table w, mw_content w)" and m: "wf (mw_monitor w)"
    and others: "\<And>db. monitored hc hl vi ops wf fresh db \<Longrightarrow> monitored hc hl vi ops wf fresh (re_other env db)"
    and run: "monitor_add_checkpoint cr hc hl vi (ops f) wit env rq w = (r, w')"
  shows "monitored hc hl vi ops wf fresh (mw_table w', mw_content w') \<and> wf (mw_monitor w')"
proof -
  have step: "monitored hc hl vi ops wf fresh (mw_table w1, mw_content w1) \<and> wf (mw_monitor w1)"
    if "add_locked cr hc hl vi (ops f) wit env rq w = (r1, w1)" for r1 w1
    using add_locked_db [OF that]
  proof (elim disjE exE conjE)
    fix cp log t
    assume check: "monitor_check cr wit rq = Inr (cp, log)"
      and t: "t \<in> {mw_table w, insert_initial (cp_origin cp) (mw_table w)}"
    have dbt: "monitored hc hl vi ops wf fresh (t, mw_content w)"
      using t db monitored.initial_row [OF db] by auto
    { assume "w1 = w\<lparr>mw_table := t\<rparr>"
      then show ?thesis using dbt m by simp }
    { fix state t2 d2
      assume other: "re_other env (t, mw_content w) = (t2, d2)"
        and read: "fst (get_or_init (cp_origin cp) (mw_table w)) = Inr state"
        and locked: "monitor_locked cr hc hl vi (ops f) wit env log cp (rq_checkpoint rq) state
            (w\<lparr>mw_table := t2, mw_content := d2\<rparr>) = (r1, w1)"
      have db2: "monitored hc hl vi ops wf fresh (t2, d2)" using others [OF dbt] other by simp
      have tok: "table_ok (mw_table w)" using monitored_content [OF db] by (simp add: content_ok_def)
      note st = state_read [OF tok read]
      let ?txn = "monitor_txn hc hl vi (ops f) env log cp (rq_checkpoint rq) state (t2, d2) (mw_monitor w)"
      have wfm: "wf (snd ?txn)" by (rule transaction_wf [OF m])
      have "mw_content w1 = d2 \<and> mw_table w1 \<in> {t2, insert_initial (cp_origin cp) t2}
            \<and> mw_monitor w1 \<in> {mw_monitor w, snd ?txn}
          \<or> lock_in state t2 = (Inr True, t2) \<and> ?txn = (Inr (mw_table w1, mw_content w1), mw_monitor w1)"
        using monitor_locked_db [OF locked] by auto
      then show ?thesis
      proof
        assume "mw_content w1 = d2 \<and> mw_table w1 \<in> {t2, insert_initial (cp_origin cp) t2}
            \<and> mw_monitor w1 \<in> {mw_monitor w, snd ?txn}"
        then show ?thesis using db2 monitored.initial_row [OF db2] m wfm by auto
      next
        assume txn: "lock_in state t2 = (Inr True, t2) \<and> ?txn = (Inr (mw_table w1, mw_content w1), mw_monitor w1)"
        show ?thesis
          using monitored.transaction [OF db2 m st monitor_check_size [OF check] txn [THEN conjunct1] txn [THEN conjunct2]]
            wfm txn by simp
      qed }
  qed (use db m in simp)
  from request_db [OF run] show ?thesis
  proof (elim disjE exE conjE)
    fix r1 w1
    assume "add_locked cr hc hl vi (ops f) wit env rq w = (r1, w1)"
      and same: "mw_table w' = mw_table w1" "mw_content w' = mw_content w1"
      and ok: "is_ok r \<longrightarrow> r1 = r \<and> w1 = w'" "is_ok r1 \<longrightarrow> is_ok r"
      and undone: "\<not> is_ok r1 \<longrightarrow> mw_monitor w' = snd (rollback_entries (ops f) (mw_monitor w1))"
    note st = step [OF this(1)]
    show ?thesis
    proof (cases "is_ok r1")
      case True
      then have "w1 = w'" using ok by blast
      then show ?thesis using st by simp
    next
      case False
      then have "mw_monitor w' = snd (rollback_entries (ops f) (mw_monitor w1))" using undone by blast
      then show ?thesis using st same wf_kept(1) [of "mw_monitor w1" f] by simp
    qed
  qed (use db m in simp)
qed

text \<open>A cosignature is returned only when the new entries were authenticated and accepted.\<close>

lemma cosigned_content:
  assumes db: "monitored hc hl vi ops wf fresh (mw_table w, mw_content w)" and m: "wf (mw_monitor w)"
    and others: "\<And>db. monitored hc hl vi ops wf fresh db \<Longrightarrow> monitored hc hl vi ops wf fresh (re_other env db)"
    and run: "monitor_add_checkpoint cr hc hl vi (ops f) wit env rq w = (Inr sg, w')"
  shows "\<exists>cp log E P. monitor_check cr wit rq = Inr (cp, log) \<and> cosign_now cr (wit_signer wit) (re_now env) cp = Inr sg
    \<and> length E = rq_old_size rq \<and> length (E @ P) = cp_size cp
    \<and> stored (mw_content w') (cp_origin cp) (E @ P) \<and> witnessed (mw_table w') (cp_origin cp) = Some (cp_size cp, cp_root cp)
    \<and> checked hc hl vi (re_reader env) cp E P"
proof -
  from run obtain cp log state t t2 d2 where check: "monitor_check cr wit rq = Inr (cp, log)"
    and got: "get_or_init (cp_origin cp) (mw_table w) = (Inr state, t)" and old: "rq_old_size rq = ws_size state"
    and other: "re_other env (t, mw_content w) = (t2, d2)" and lock: "lock_in state t2 = (Inr True, t2)"
    and txn: "monitor_txn hc hl vi (ops f) env log cp (rq_checkpoint rq) state (t2, d2) (mw_monitor w)
       = (Inr (mw_table w', mw_content w'), mw_monitor w')"
    and sg: "cosign_now cr (wit_signer wit) (re_now env) cp = Inr sg"
    by (rule monitor_cosigned_cases)
  have tok: "table_ok (mw_table w)" using monitored_content [OF db] by (simp add: content_ok_def)
  have st: "ws_origin state = cp_origin cp" "ws_size state \<le> u64_max"
    using state_read [OF tok, of "cp_origin cp" state] got by simp_all
  have "t \<in> {mw_table w, insert_initial (cp_origin cp) (mw_table w)}"
    using get_or_init_table [of "cp_origin cp" "mw_table w"] got by simp
  then have "monitored hc hl vi ops wf fresh (t, mw_content w)" using db monitored.initial_row [OF db] by auto
  from others [OF this] have "content_ok (t2, d2)" using monitored_content other by simp
  note tx = transaction_ok(2,3) [OF this m st monitor_check_size [OF check] lock txn]
  obtain E P where "stored d2 (cp_origin cp) E" "length E = ws_size state"
    "stored (mw_content w') (cp_origin cp) (E @ P)" "length (E @ P) = cp_size cp" "checked hc hl vi (re_reader env) cp E P"
    using tx(1) by blast
  then show ?thesis
    using check sg old tx(2) by (intro exI [of _ cp] exI [of _ log] exI [of _ E] exI [of _ P]) simp
qed

end


subsection \<open>A failed request changes nothing\<close>

lemma insert_initial_twice: "insert_initial origin (insert_initial origin t) = insert_initial origin t"
  by (auto simp: insert_initial_def)

text \<open>
  C11. Content and witnessed checkpoint are committed together or not at all: a request that ends in an
  error, whichever check or call failed, leaves the content as it was and the table of checkpoints as
  it was but for the initial row of a log that was not known. Excepted are a commit that took effect
  and lost its answer, and a clock before 1970, which is noticed only after the commit.
\<close>

theorem monitor_failure_atomic:
  assumes "monitor_add_checkpoint cr hc hl vi ops wit env rq w = (Inl e, w')" and "re_other env = id"
    and "re_call env Commit \<noteq> Call_Lost" and "re_now env \<noteq> None"
  shows "mw_content w' = mw_content w
    \<and> (mw_table w' = mw_table w \<or> (\<exists>origin. mw_table w' = insert_initial origin (mw_table w)))"
proof -
  have locked: "mw_content w1 = mw_content w \<and> mw_table w1 \<in> {t, insert_initial (cp_origin cp) t}"
    if "monitor_locked cr hc hl vi ops wit env log cp cptext state (w\<lparr>mw_table := t, mw_content := mw_content w\<rparr>) = (r1, w1)"
      and "\<not> is_ok r1" for log cp cptext state t r1 w1
    using monitor_locked_db [OF that(1)] that(2) assms(3,4) by (auto simp: cosign_now_def)
  from request_db [OF assms(1)] consider "w' = w"
    | r1 w1 where "add_locked cr hc hl vi ops wit env rq w = (r1, w1)" "mw_table w' = mw_table w1"
        "mw_content w' = mw_content w1" "\<not> is_ok r1"
    by fastforce
  then show ?thesis
  proof cases
    case 2
    from add_locked_db [OF 2(1)] show ?thesis
    proof (elim disjE exE conjE)
      fix cp :: checkpoint and log t
      assume t: "t \<in> {mw_table w, insert_initial (cp_origin cp) (mw_table w)}"
      { assume "w1 = w\<lparr>mw_table := t\<rparr>"
        then show ?thesis using t 2(2,3) by auto }
      { fix state t2 d2
        assume "re_other env (t, mw_content w) = (t2, d2)"
          and run: "monitor_locked cr hc hl vi ops wit env log cp (rq_checkpoint rq) state
            (w\<lparr>mw_table := t2, mw_content := d2\<rparr>) = (r1, w1)"
        then have "t2 = t" "d2 = mw_content w" using assms(2) by simp_all
        then have "mw_content w1 = mw_content w \<and> mw_table w1 \<in> {t, insert_initial (cp_origin cp) t}"
          using locked run 2(4) by blast
        then show ?thesis using t 2(2,3) insert_initial_twice by auto }
    qed (use 2 in simp)
  qed simp
qed

end
