(* ===== verification/Content_Index.thy ===== *)
theory Content_Index
  imports Log_Database "HOL-Library.AList"
begin

text \<open>
  The content index of a monitor, \<^verbatim>\<open>src/monitor/index.rs\<close>: the keys seen so far with the position and
  the value of their first occurrence, entries staged until the request commits, and the table
  \<^verbatim>\<open>content_index\<close> that keeps the index of every log. Its unique index on name, origin and key makes an
  insertion of a known key do nothing; what the database library answers then is the argument
  \<open>conflict\<close>.
\<close>


subsection \<open>The index in memory\<close>

datatype violation_kind = DuplicateKey | ConflictingValue

record index_violation =
  iv_kind :: violation_kind
  iv_key :: string
  iv_first_index :: nat
  iv_current_index :: nat
  iv_context :: "string option"

record staged_entry =
  se_key :: string
  se_index :: nat
  se_value :: "string option"

type_synonym content_map = "(string \<times> nat \<times> string option) list"

record content_index =
  ci_index :: content_map
  ci_pending :: "staged_entry list"
  ci_name :: string

definition index_new :: "string \<Rightarrow> content_index" where
  "index_new name = \<lparr>ci_index = [], ci_pending = [], ci_name = name\<rparr>"

text \<open>The comparison with an entry that has the key, staged or committed.\<close>

definition check_found ::
  "string \<Rightarrow> nat \<Rightarrow> string option \<Rightarrow> nat \<Rightarrow> string option \<Rightarrow> index_violation option" where
  "check_found key current expected first stored =
     (if expected \<noteq> None \<and> stored \<noteq> expected then
        Some \<lparr>iv_kind = ConflictingValue, iv_key = key, iv_first_index = first, iv_current_index = current,
              iv_context = stored\<rparr>
      else if first = current then None
      else Some \<lparr>iv_kind = DuplicateKey, iv_key = key, iv_first_index = first, iv_current_index = current,
                 iv_context = None\<rparr>)"

definition index_check :: "content_index \<Rightarrow> string \<Rightarrow> nat \<Rightarrow> string option \<Rightarrow> index_violation option" where
  "index_check ci key current expected =
     (case find (\<lambda>e. se_key e = key) (ci_pending ci) of
        Some e \<Rightarrow> check_found key current expected (se_index e) (se_value e)
      | None \<Rightarrow>
          (case map_of (ci_index ci) key of
             Some (first, stored) \<Rightarrow> check_found key current expected first stored
           | None \<Rightarrow> None))"

definition index_contains :: "content_index \<Rightarrow> string \<Rightarrow> bool" where
  "index_contains ci key \<longleftrightarrow> (\<exists>e \<in> set (ci_pending ci). se_key e = key) \<or> map_of (ci_index ci) key \<noteq> None"

definition stage :: "string \<Rightarrow> nat \<Rightarrow> string option \<Rightarrow> content_index \<Rightarrow> content_index" where
  "stage key index value ci =
     (if \<exists>e \<in> set (ci_pending ci). se_key e = key \<and> se_index e = index \<and> se_value e = value then ci
      else ci\<lparr>ci_pending := ci_pending ci @ [\<lparr>se_key = key, se_index = index, se_value = value\<rparr>]\<rparr>)"

definition index_insert :: "staged_entry \<Rightarrow> content_map \<Rightarrow> content_map" where
  "index_insert e m = AList.update (se_key e) (se_index e, se_value e) m"

definition index_commit :: "content_index \<Rightarrow> content_index" where
  "index_commit ci = ci\<lparr>ci_index := fold index_insert (ci_pending ci) (ci_index ci), ci_pending := []\<rparr>"

definition index_rollback :: "content_index \<Rightarrow> content_index" where
  "index_rollback ci = ci\<lparr>ci_pending := []\<rparr>"

definition index_len :: "content_index \<Rightarrow> nat" where
  "index_len ci = length (ci_index ci)"

definition index_is_empty :: "content_index \<Rightarrow> bool" where
  "index_is_empty ci \<longleftrightarrow> ci_index ci = []"

definition index_pending_count :: "content_index \<Rightarrow> nat" where
  "index_pending_count ci = length (ci_pending ci)"

definition load_from :: "content_map \<Rightarrow> content_index \<Rightarrow> content_index" where
  "load_from data ci = ci\<lparr>ci_index := data\<rparr>"

definition pending_entries_snapshot :: "content_index \<Rightarrow> (string \<times> nat \<times> string option) list" where
  "pending_entries_snapshot ci = map (\<lambda>e. (se_key e, se_index e, se_value e)) (ci_pending ci)"

definition commit_and_drain :: "content_index \<Rightarrow> (string \<times> nat \<times> string option) list \<times> content_index" where
  "commit_and_drain ci =
     (map (\<lambda>e. (se_key e, se_index e, se_value e)) (ci_pending ci),
      ci\<lparr>ci_index := fold index_insert (ci_pending ci) (ci_index ci), ci_pending := []\<rparr>)"


subsection \<open>The table\<close>

record content_row =
  cr_index_name :: string
  cr_origin :: string
  cr_key :: string
  cr_first_index :: int
  cr_value :: "string option"

type_synonym content_table = "content_row list"

definition load_row :: "content_row \<Rightarrow> content_map \<Rightarrow> content_map" where
  "load_row row m = AList.update (cr_key row) (as_u64 (cr_first_index row), cr_value row) m"

definition store_load :: "string \<Rightarrow> string \<Rightarrow> content_table \<Rightarrow> content_map" where
  "store_load name origin t =
     fold load_row (filter (\<lambda>row. cr_index_name row = name \<and> cr_origin row = origin) t) []"

definition insert_row :: "unit res \<Rightarrow> content_row \<Rightarrow> (content_table, error, unit) st" where
  "insert_row conflict row t =
     (if \<exists>r \<in> set t. cr_index_name r = cr_index_name row \<and> cr_origin r = cr_origin row \<and> cr_key r = cr_key row
      then (conflict, t) else (Inr (), t @ [row]))"

text \<open>\<open>fails\<close> tells which insertions the database refuses for other reasons.\<close>

definition save_one ::
  "unit res \<Rightarrow> (string \<Rightarrow> bool) \<Rightarrow> string \<Rightarrow> string \<Rightarrow> string \<times> nat \<times> string option \<Rightarrow> (content_table, error, unit) st" where
  "save_one conflict fails name origin = (\<lambda>(key, first_index, val) t.
     if fails key then (Inl error.Database, t)
     else insert_row conflict \<lparr>cr_index_name = name, cr_origin = origin, cr_key = key,
                               cr_first_index = as_i64 first_index, cr_value = val\<rparr> t)"

definition store_save ::
  "unit res \<Rightarrow> (string \<Rightarrow> bool) \<Rightarrow> string \<Rightarrow> string \<Rightarrow> (string \<times> nat \<times> string option) list
    \<Rightarrow> (content_table, error, unit) st" where
  "store_save conflict fails name origin es = for_st (save_one conflict fails name origin) es"


subsection \<open>The first occurrences of a list of keys\<close>

text \<open>What an index holds after a list of keys with values: each key with its position.\<close>

definition first_map :: "(string \<times> string option) list \<Rightarrow> string \<Rightarrow> (nat \<times> string option) option" where
  "first_map kvs = map_of (map (\<lambda>(i, k, v). (k, i, v)) (enumerate 0 kvs))"

lemma map_enumerate_keys:
  "(\<And>i k v. f (i, k, v) = k) \<Longrightarrow> map f (enumerate n kvs) = map fst kvs"
  by (induction kvs arbitrary: n) auto

lemma dom_first_map: "first_map kvs k = None \<longleftrightarrow> k \<notin> fst ` set kvs"
proof -
  have "map fst (map (\<lambda>(i, k, v). (k, i, v)) (enumerate 0 kvs)) = map fst kvs"
    unfolding map_map by (rule map_enumerate_keys) simp
  then show ?thesis unfolding first_map_def map_of_eq_None_iff by (metis set_map)
qed

lemma first_map_snoc:
  "k \<notin> fst ` set kvs \<Longrightarrow> first_map (kvs @ [(k, v)]) = (first_map kvs)(k \<mapsto> (length kvs, v))"
proof (rule ext)
  fix j assume new: "k \<notin> fst ` set kvs"
  show "first_map (kvs @ [(k, v)]) j = ((first_map kvs)(k \<mapsto> (length kvs, v))) j"
    using dom_first_map [of kvs k] new
    by (auto simp: first_map_def enumerate_append_eq map_add_def split: option.splits)
qed

text \<open>The position is that of the first occurrence, for every list.\<close>

lemma first_map_Some:
  "first_map kvs k = Some (i, v) \<Longrightarrow> i < length kvs \<and> kvs ! i = (k, v)"
  unfolding first_map_def by (drule map_of_SomeD) (auto simp: in_set_enumerate_eq)

text \<open>The entries staged for the keys after position \<open>n\<close>.\<close>

definition staged_for :: "nat \<Rightarrow> (string \<times> string option) list \<Rightarrow> staged_entry list" where
  "staged_for n kvs = map (\<lambda>(i, k, v). \<lparr>se_key = k, se_index = i, se_value = v\<rparr>) (enumerate n kvs)"

lemma staged_for_simps [simp]:
  "staged_for n [] = []"
  "staged_for n ((k, v) # kvs) = \<lparr>se_key = k, se_index = n, se_value = v\<rparr> # staged_for (Suc n) kvs"
  "staged_for n (kvs @ [(k, v)]) = staged_for n kvs @ [\<lparr>se_key = k, se_index = n + length kvs, se_value = v\<rparr>]"
  by (simp_all add: staged_for_def enumerate_append_eq)

lemma staged_keys: "se_key ` set (staged_for n kvs) = fst ` set kvs"
proof -
  have "map se_key (staged_for n kvs) = map fst kvs"
    unfolding staged_for_def map_map by (rule map_enumerate_keys) simp
  then show ?thesis by (metis set_map)
qed

text \<open>An index that follows a list of committed keys and a list of staged keys.\<close>

definition content_index_ok :: "string \<Rightarrow> (string \<times> string option) list \<Rightarrow> (string \<times> string option) list \<Rightarrow> content_index \<Rightarrow> bool" where
  "content_index_ok name old new ci \<longleftrightarrow>
     ci_name ci = name \<and> distinct (map fst (old @ new)) \<and>
     map_of (ci_index ci) = first_map old \<and> ci_pending ci = staged_for (length old) new"

lemma find_staged:
  "find (\<lambda>e. se_key e = k) (staged_for n kvs)
    = map_option (\<lambda>(i, v). \<lparr>se_key = k, se_index = n + i, se_value = v\<rparr>) (first_map kvs k)"
proof (induction kvs rule: rev_induct)
  case (snoc kv kvs)
  obtain k' v' where kv: "kv = (k', v')" by (cases kv)
  have app: "find P (xs @ [x]) = (case find P xs of None \<Rightarrow> if P x then Some x else None | Some y \<Rightarrow> Some y)"
    for P :: "staged_entry \<Rightarrow> bool" and xs x by (induction xs) auto
  have "first_map (kvs @ [(k', v')]) k
      = (case first_map kvs k of None \<Rightarrow> if k' = k then Some (length kvs, v') else None | Some y \<Rightarrow> Some y)"
    by (auto simp: first_map_def enumerate_append_eq map_add_def split: option.splits)
  then show ?case by (auto simp: kv app snoc split: option.splits)
qed (simp add: first_map_def)

lemma first_map_append:
  "first_map (old @ new) k = (case first_map old k of
     Some y \<Rightarrow> Some y | None \<Rightarrow> map_option (\<lambda>(i, v). (length old + i, v)) (first_map new k))"
proof (induction new rule: rev_induct)
  case Nil
  then show ?case by (simp add: first_map_def split: option.splits)
next
  case (snoc kv new)
  have step: "first_map (xs @ [kv]) k
      = (case first_map xs k of None \<Rightarrow> if fst kv = k then Some (length xs, snd kv) else None | Some y \<Rightarrow> Some y)" for xs
    by (cases kv) (auto simp: first_map_def enumerate_append_eq map_add_def split: option.splits)
  show ?case using step [of "old @ new"] step [of new] snoc by (auto split: option.splits)
qed

text \<open>
  The check in words: it finds the first occurrence of the key, staged or committed, and complains
  unless the key is new, or was seen at the same position with the expected value.
\<close>

lemma index_check_eq:
  assumes "content_index_ok name old new ci"
  shows "index_check ci key current expected
    = (case first_map (old @ new) key of
         None \<Rightarrow> None | Some (first, stored) \<Rightarrow> check_found key current expected first stored)"
proof (cases "first_map new key")
  case None
  then show ?thesis
    using assms by (simp add: index_check_def content_index_ok_def find_staged first_map_append split: option.splits)
next
  case (Some iv)
  then have "key \<in> fst ` set new" using dom_first_map [of new key] by auto
  then have "key \<notin> fst ` set old" using assms by (auto simp: content_index_ok_def)
  then have "first_map old key = None" by (simp add: dom_first_map)
  with Some assms show ?thesis
    by (auto simp: index_check_def content_index_ok_def find_staged first_map_append split: prod.splits)
qed

lemma stage_ok:
  assumes "content_index_ok name old new ci" and "key \<notin> fst ` set (old @ new)"
  shows "content_index_ok name old (new @ [(key, v)]) (stage key (length (old @ new)) v ci)"
proof -
  have "\<not> (\<exists>e \<in> set (ci_pending ci). se_key e = key)"
    using assms staged_keys [of "length old" new] by (auto simp: content_index_ok_def)
  then have "stage key (length (old @ new)) v ci
      = ci\<lparr>ci_pending := ci_pending ci @ [\<lparr>se_key = key, se_index = length (old @ new), se_value = v\<rparr>]\<rparr>"
    by (auto simp: stage_def)
  with assms show ?thesis by (auto simp: content_index_ok_def)
qed

lemma rollback_ok: "content_index_ok name old new ci \<Longrightarrow> content_index_ok name old [] (index_rollback ci)"
  by (simp add: content_index_ok_def index_rollback_def)

lemma insert_staged:
  assumes "distinct (map fst (old @ new))" and "map_of m = first_map old"
  shows "map_of (fold index_insert (staged_for (length old) new) m) = first_map (old @ new)"
  using assms
proof (induction new rule: rev_induct)
  case (snoc kv new)
  obtain k v where kv: "kv = (k, v)" by (cases kv)
  have "k \<notin> fst ` set (old @ new)" using snoc.prems(1) by (auto simp: kv)
  from first_map_snoc [OF this, of v] snoc show ?case
    by (simp add: kv index_insert_def update_conv')
qed simp

lemma commit_ok:
  assumes "content_index_ok name old new ci"
  shows "content_index_ok name (old @ new) [] (index_commit ci)"
  using assms insert_staged [of old new "ci_index ci"] by (simp add: content_index_ok_def index_commit_def)


subsection \<open>Saving and loading\<close>

lemma load_snoc:
  "map_of (store_load name origin (t @ [row])) =
     (if cr_index_name row = name \<and> cr_origin row = origin
      then (map_of (store_load name origin t))(cr_key row \<mapsto> (as_u64 (cr_first_index row), cr_value row))
      else map_of (store_load name origin t))"
  by (simp add: store_load_def load_row_def update_conv')

lemma load_None:
  "map_of (store_load name origin t) k = None \<longleftrightarrow>
     \<not> (\<exists>r \<in> set t. cr_index_name r = name \<and> cr_origin r = origin \<and> cr_key r = k)"
proof (induction t rule: rev_induct)
  case Nil
  then show ?case by (simp add: store_load_def)
next
  case (snoc r t)
  then show ?case by (auto simp: load_snoc)
qed

text \<open>Rows of one index and origin do not touch another.\<close>

lemma save_other:
  assumes "name' \<noteq> name \<or> origin' \<noteq> origin"
  shows "map_of (store_load name' origin' (snd (store_save conflict fails name origin es t)))
    = map_of (store_load name' origin' t)"
  unfolding store_save_def
proof (rule for_st_keeps [where P = "\<lambda>t'. map_of (store_load name' origin' t') = map_of (store_load name' origin' t)"])
  fix e and t' :: content_table
  assume "map_of (store_load name' origin' t') = map_of (store_load name' origin' t)"
  with assms show "map_of (store_load name' origin' (snd (save_one conflict fails name origin e t')))
      = map_of (store_load name' origin' t)"
    by (cases e) (auto simp: save_one_def insert_row_def load_snoc)
qed simp

text \<open>Saving the staged entries of an index extends what is loaded by exactly them.\<close>

lemma save_staged:
  assumes "distinct (map fst (old @ new))" and "length (old @ new) \<le> i64_max"
    and "map_of (store_load name origin t) = first_map old"
    and "store_save conflict fails name origin
      (map (\<lambda>e. (se_key e, se_index e, se_value e)) (staged_for (length old) new)) t = (Inr (), t')"
  shows "map_of (store_load name origin t') = first_map (old @ new)"
  using assms
proof (induction new arbitrary: old t)
  case Nil
  then show ?case by (simp add: store_save_def)
next
  case (Cons kv new)
  obtain k v where kv: "kv = (k, v)" by (cases kv)
  let ?row = "\<lparr>cr_index_name = name, cr_origin = origin, cr_key = k, cr_first_index = as_i64 (length old), cr_value = v\<rparr>"
  have new: "k \<notin> fst ` set old" using Cons.prems(1) by (auto simp: kv)
  then have "map_of (store_load name origin t) k = None" using Cons.prems(3) dom_first_map by simp
  then have "insert_row conflict ?row t = (Inr (), t @ [?row])"
    unfolding load_None by (simp add: insert_row_def)
  with Cons.prems(4) have rest: "store_save conflict fails name origin
      (map (\<lambda>e. (se_key e, se_index e, se_value e)) (staged_for (length (old @ [(k, v)])) new)) (t @ [?row]) = (Inr (), t')"
    by (auto simp: kv store_save_def save_one_def split: if_splits)
  have "as_u64 (as_i64 (length old)) = length old" using Cons.prems(2) by simp
  then have "map_of (store_load name origin (t @ [?row])) = first_map (old @ [(k, v)])"
    using Cons.prems(3) first_map_snoc [OF new, of v] by (simp add: load_snoc)
  from Cons.IH [OF _ _ this rest] Cons.prems(1,2) show ?case by (simp add: kv)
qed

end
