(* ===== verification/Conda_Monitor.thy ===== *)
theory Conda_Monitor
  imports Monitor Content_Index Witness_Safety Api_Handlers
begin

text \<open>
  The monitor of Conda package logs, \<^verbatim>\<open>crates/conda-monitor/src/conda.rs\<close>, over the content index, and
  the validating witness that runs it. The JSON deserialization of an entry, SHA-256 and the hex
  encoding are arguments; \<open>conda_db\<close> collects what the database answers to the calls of the monitor
  within a transaction.
\<close>


subsection \<open>The monitor\<close>

record conda_entry =
  ce_sha256 :: string
  ce_filename :: string

record conda_monitor =
  cm_sha256 :: content_index
  cm_filename :: content_index

type_synonym conda_parser = "byte list \<Rightarrow> conda_entry option"

record conda_db =
  cd_load_sha256 :: bool
  cd_load_filename :: bool
  cd_conflict :: "unit res"
  cd_save_fails :: "string \<Rightarrow> bool"

definition conda_hash_key :: "(byte list \<Rightarrow> sha256_hash) \<Rightarrow> (byte list \<Rightarrow> string) \<Rightarrow> string \<Rightarrow> string" where
  "conda_hash_key sha hex key = hex (hash_bytes (sha (str_bytes key)))"

definition conda_new :: conda_monitor where
  "conda_new = \<lparr>cm_sha256 = index_new ''conda_sha256'', cm_filename = index_new ''conda_filename''\<rparr>"

definition conda_load :: "conda_db \<Rightarrow> content_table \<Rightarrow> string \<Rightarrow> (conda_monitor, error, unit) st" where
  "conda_load db t origin m =
     (if \<not> cd_load_sha256 db then (Inl error.Database, m)
      else let m1 = m\<lparr>cm_sha256 := load_from (store_load (ci_name (cm_sha256 m)) origin t) (cm_sha256 m)\<rparr>
           in if \<not> cd_load_filename db then (Inl error.Database, m1)
              else (Inr (), m1\<lparr>cm_filename := load_from (store_load (ci_name (cm_filename m1)) origin t) (cm_filename m1)\<rparr>))"

definition conda_stage :: "(string \<Rightarrow> string) \<Rightarrow> nat \<Rightarrow> conda_entry \<Rightarrow> conda_monitor \<Rightarrow> conda_monitor" where
  "conda_stage key index e m =
     m\<lparr>cm_sha256 := stage (key (ce_sha256 e)) index None (cm_sha256 m),
       cm_filename := stage (key (ce_filename e)) index (Some (ce_sha256 e)) (cm_filename m)\<rparr>"

definition conda_validate ::
  "(string \<Rightarrow> string) \<Rightarrow> conda_parser \<Rightarrow> nat \<Rightarrow> byte list \<Rightarrow> (conda_monitor, error, validation_result) st" where
  "conda_validate key parse index data m =
     (case parse data of
        None \<Rightarrow> (Inr (Invalid ParseError), m)
      | Some e \<Rightarrow>
          (case index_check (cm_sha256 m) (key (ce_sha256 e)) index None of
             Some v \<Rightarrow> (Inr (Invalid (DuplicateSha256 (ce_sha256 e) (iv_first_index v) index)), m)
           | None \<Rightarrow>
               (case index_check (cm_filename m) (key (ce_filename e)) index (Some (ce_sha256 e)) of
                  None \<Rightarrow> (Inr Valid, conda_stage key index e m)
                | Some v \<Rightarrow>
                    (case iv_kind v of
                       DuplicateKey \<Rightarrow> (Inr Valid, conda_stage key index e m)
                     | ConflictingValue \<Rightarrow>
                         (Inr (Invalid (DuplicateFilename (ce_filename e)
                            (case iv_context v of None \<Rightarrow> [] | Some h \<Rightarrow> h) (ce_sha256 e) (iv_first_index v) index)), m)))))"

definition save_pending :: "conda_db \<Rightarrow> string \<Rightarrow> content_index \<Rightarrow> (content_table, error, unit) st" where
  "save_pending db origin ci t =
     (let es = pending_entries_snapshot ci
      in if es = [] then (Inr (), t) else store_save (cd_conflict db) (cd_save_fails db) (ci_name ci) origin es t)"

definition conda_commit ::
  "conda_db \<Rightarrow> string \<Rightarrow> nat \<Rightarrow> nat \<Rightarrow> (content_table \<times> conda_monitor, error, unit) st" where
  "conda_commit db origin from_index to_index = (\<lambda>(t, m).
     case save_pending db origin (cm_sha256 m) t of
       (Inl e, t1) \<Rightarrow> (Inl e, (t1, m))
     | (Inr _, t1) \<Rightarrow>
         (case save_pending db origin (cm_filename m) t1 of
            (Inl e, t2) \<Rightarrow> (Inl e, (t2, m))
          | (Inr _, t2) \<Rightarrow>
              (Inr (), (t2, \<lparr>cm_sha256 = index_commit (cm_sha256 m), cm_filename = index_commit (cm_filename m)\<rparr>))))"

definition conda_rollback :: "(conda_monitor, error, unit) st" where
  "conda_rollback m =
     (Inr (), \<lparr>cm_sha256 = index_rollback (cm_sha256 m), cm_filename = index_rollback (cm_filename m)\<rparr>)"

definition conda_ops ::
  "(string \<Rightarrow> string) \<Rightarrow> conda_parser \<Rightarrow> conda_db \<Rightarrow> (content_table, conda_monitor) monitor_ops" where
  "conda_ops key parse db =
     \<lparr>load_state = conda_load db, validate_entry = conda_validate key parse,
      commit_entries = conda_commit db, rollback_entries = conda_rollback\<rparr>"


subsection \<open>The rule\<close>

text \<open>
  Every entry is a package, and no two share a content hash or a filename. The rule as coded allows
  a filename to come again with the same content hash, but then the content hash comes again.
\<close>

definition conda_rule :: "conda_parser \<Rightarrow> byte list list \<Rightarrow> bool" where
  "conda_rule parse E \<longleftrightarrow>
     (\<exists>es. map parse E = map Some es \<and> distinct (map ce_sha256 es) \<and> distinct (map ce_filename es))"

definition sha_kvs :: "(string \<Rightarrow> string) \<Rightarrow> conda_entry list \<Rightarrow> (string \<times> string option) list" where
  "sha_kvs key es = map (\<lambda>e. (key (ce_sha256 e), None)) es"

definition filename_kvs :: "(string \<Rightarrow> string) \<Rightarrow> conda_entry list \<Rightarrow> (string \<times> string option) list" where
  "filename_kvs key es = map (\<lambda>e. (key (ce_filename e), Some (ce_sha256 e))) es"

definition conda_named :: "conda_monitor \<Rightarrow> bool" where
  "conda_named m \<longleftrightarrow> ci_name (cm_sha256 m) = ''conda_sha256'' \<and> ci_name (cm_filename m) = ''conda_filename''"

definition conda_clear :: "conda_monitor \<Rightarrow> bool" where
  "conda_clear m \<longleftrightarrow> conda_named m \<and> ci_pending (cm_sha256 m) = [] \<and> ci_pending (cm_filename m) = []"

definition conda_holds ::
  "(string \<Rightarrow> string) \<Rightarrow> conda_parser \<Rightarrow> byte list list \<Rightarrow> byte list list \<Rightarrow> conda_monitor \<Rightarrow> bool" where
  "conda_holds key parse E P m \<longleftrightarrow>
     (\<exists>es ps. map parse E = map Some es \<and> map parse P = map Some ps \<and>
        content_index_ok ''conda_sha256'' (sha_kvs key es) (sha_kvs key ps) (cm_sha256 m) \<and>
        content_index_ok ''conda_filename'' (filename_kvs key es) (filename_kvs key ps) (cm_filename m))"

definition conda_stored ::
  "(string \<Rightarrow> string) \<Rightarrow> conda_parser \<Rightarrow> content_table \<Rightarrow> string \<Rightarrow> byte list list \<Rightarrow> bool" where
  "conda_stored key parse t origin E \<longleftrightarrow>
     (\<exists>es. map parse E = map Some es \<and>
        distinct (map fst (sha_kvs key es)) \<and> distinct (map fst (filename_kvs key es)) \<and>
        map_of (store_load ''conda_sha256'' origin t) = first_map (sha_kvs key es) \<and>
        map_of (store_load ''conda_filename'' origin t) = first_map (filename_kvs key es))"

lemma kvs_simps [simp]:
  "length (sha_kvs key es) = length es" "length (filename_kvs key es) = length es"
  "sha_kvs key [] = []" "filename_kvs key [] = []"
  "sha_kvs key (es @ fs) = sha_kvs key es @ sha_kvs key fs"
  "filename_kvs key (es @ fs) = filename_kvs key es @ filename_kvs key fs"
  "sha_kvs key [e] = [(key (ce_sha256 e), None)]" "filename_kvs key [e] = [(key (ce_filename e), Some (ce_sha256 e))]"
  by (simp_all add: sha_kvs_def filename_kvs_def)

lemma conda_stored_rule: "conda_stored key parse t origin E \<Longrightarrow> conda_rule parse E"
proof -
  assume "conda_stored key parse t origin E"
  then obtain es where "map parse E = map Some es" "distinct (map fst (sha_kvs key es))" "distinct (map fst (filename_kvs key es))"
    by (auto simp: conda_stored_def)
  moreover from this have "distinct (map ce_sha256 es)" "distinct (map ce_filename es)"
    by (auto simp: sha_kvs_def filename_kvs_def comp_def distinct_map inj_on_def)
  ultimately show ?thesis by (auto simp: conda_rule_def)
qed

text \<open>An accepted entry has a content hash and a filename that no entry before it has.\<close>

lemma conda_validate_new:
  assumes "content_index_ok ''conda_sha256'' (sha_kvs key es) (sha_kvs key ps) (cm_sha256 m)"
    and "content_index_ok ''conda_filename'' (filename_kvs key es) (filename_kvs key ps) (cm_filename m)"
    and "conda_validate key parse (length (es @ ps)) data m = (Inr Valid, m')"
  shows "\<exists>e. parse data = Some e \<and> m' = conda_stage key (length (es @ ps)) e m
    \<and> key (ce_sha256 e) \<notin> fst ` set (sha_kvs key (es @ ps))
    \<and> key (ce_filename e) \<notin> fst ` set (filename_kvs key (es @ ps))"
proof -
  let ?n = "length (es @ ps)"
  obtain e where e: "parse data = Some e" "m' = conda_stage key ?n e m"
    and sha: "index_check (cm_sha256 m) (key (ce_sha256 e)) ?n None = None"
    and name: "\<forall>v. index_check (cm_filename m) (key (ce_filename e)) ?n (Some (ce_sha256 e)) = Some v \<longrightarrow> iv_kind v = DuplicateKey"
    using assms(3) by (auto simp: conda_validate_def split: option.splits violation_kind.splits)
  have s: "first_map (sha_kvs key (es @ ps)) (key (ce_sha256 e)) = None"
  proof (rule ccontr)
    assume "first_map (sha_kvs key (es @ ps)) (key (ce_sha256 e)) \<noteq> None"
    then obtain i v where f: "first_map (sha_kvs key (es @ ps)) (key (ce_sha256 e)) = Some (i, v)" by auto
    then have "i < ?n" using first_map_Some [OF f] by simp
    then show False using sha f unfolding index_check_eq [OF assms(1)] by (simp add: check_found_def)
  qed
  moreover have "first_map (filename_kvs key (es @ ps)) (key (ce_filename e)) = None"
  proof (rule ccontr)
    assume "first_map (filename_kvs key (es @ ps)) (key (ce_filename e)) \<noteq> None"
    then obtain i v where f: "first_map (filename_kvs key (es @ ps)) (key (ce_filename e)) = Some (i, v)" by auto
    have "v = Some (ce_sha256 e)"
      using name f unfolding index_check_eq [OF assms(2)] by (auto simp: check_found_def split: if_splits)
    then have "i < ?n" "ce_sha256 ((es @ ps) ! i) = ce_sha256 e"
      using first_map_Some [OF f] by (auto simp: filename_kvs_def simp del: map_append)
    then have "i < length (sha_kvs key (es @ ps))" "sha_kvs key (es @ ps) ! i = (key (ce_sha256 e), None)"
      by (simp_all add: sha_kvs_def del: map_append)
    then have "(key (ce_sha256 e), None) \<in> set (sha_kvs key (es @ ps))" by (metis nth_mem)
    then have "key (ce_sha256 e) \<in> fst ` set (sha_kvs key (es @ ps))" by (metis fst_conv image_eqI)
    then show False using s by (simp add: dom_first_map)
  qed
  ultimately show ?thesis using e by (auto simp: dom_first_map)
qed

lemma stage_name [simp]: "ci_name (stage k i v ci) = ci_name ci"
  by (simp add: stage_def)

text \<open>Saving the staged entries of an index.\<close>

lemma save_pending_ok:
  assumes "content_index_ok name old new ci" and "length (old @ new) \<le> i64_max"
    and "map_of (store_load name origin t) = first_map old" and "save_pending db origin ci t = (Inr (), t')"
  shows "map_of (store_load name origin t') = first_map (old @ new)"
proof (cases "new = []")
  case True
  then show ?thesis
    using assms by (simp add: save_pending_def pending_entries_snapshot_def content_index_ok_def)
next
  case False
  have "length (pending_entries_snapshot ci) = length new"
    using assms(1) by (simp add: pending_entries_snapshot_def content_index_ok_def staged_for_def)
  with False have "pending_entries_snapshot ci \<noteq> []" by auto
  then have "store_save (cd_conflict db) (cd_save_fails db) name origin
      (map (\<lambda>e. (se_key e, se_index e, se_value e)) (staged_for (length old) new)) t = (Inr (), t')"
    using assms(1,4) by (simp add: save_pending_def pending_entries_snapshot_def content_index_ok_def)
  from save_staged [OF _ assms(2,3) this] assms(1) show ?thesis by (simp add: content_index_ok_def)
qed

lemma save_pending_other:
  "name' \<noteq> ci_name ci \<or> origin' \<noteq> origin \<Longrightarrow>
    map_of (store_load name' origin' (snd (save_pending db origin ci t))) = map_of (store_load name' origin' t)"
  by (simp add: save_pending_def Let_def save_other)

interpretation conda: content_monitor "conda_ops key parse" conda_named conda_clear "conda_holds key parse"
  "conda_stored key parse" "[]" for key parse
proof (unfold_locales, goal_cases)
  case (1 m f m')
  then show ?case by (auto simp: conda_ops_def conda_rollback_def conda_clear_def conda_named_def index_rollback_def)
next
  case (2 m t origin E f m')
  then show ?case
    by (auto simp: conda_ops_def conda_load_def conda_clear_def conda_named_def conda_stored_def conda_holds_def
        content_index_ok_def load_from_def Let_def split: if_splits)
next
  case (3 E P m f data m')
  obtain es ps where parsed: "map parse E = map Some es" "map parse P = map Some ps"
    and ok: "content_index_ok ''conda_sha256'' (sha_kvs key es) (sha_kvs key ps) (cm_sha256 m)"
      "content_index_ok ''conda_filename'' (filename_kvs key es) (filename_kvs key ps) (cm_filename m)"
    using 3(1) by (auto simp: conda_holds_def)
  have len: "length (E @ P) = length (es @ ps)" using parsed by (metis length_append length_map)
  then obtain e where e: "parse data = Some e" "m' = conda_stage key (length (es @ ps)) e m"
    and new: "key (ce_sha256 e) \<notin> fst ` set (sha_kvs key es @ sha_kvs key ps)"
      "key (ce_filename e) \<notin> fst ` set (filename_kvs key es @ filename_kvs key ps)"
    using conda_validate_new [OF ok, of parse data m'] 3(2) by (auto simp: conda_ops_def)
  have "content_index_ok ''conda_sha256'' (sha_kvs key es) (sha_kvs key (ps @ [e])) (cm_sha256 m')"
    "content_index_ok ''conda_filename'' (filename_kvs key es) (filename_kvs key (ps @ [e])) (cm_filename m')"
    using stage_ok [OF ok(1) new(1), of None] stage_ok [OF ok(2) new(2), of "Some (ce_sha256 e)"]
    by (simp_all add: e(2) conda_stage_def)
  moreover have "map parse (P @ [data]) = map Some (ps @ [e])" using parsed(2) e(1) by simp
  ultimately show ?case using parsed(1) unfolding conda_holds_def by blast
next
  case (4 E P m t origin f t' m')
  obtain es ps where parsed: "map parse E = map Some es" "map parse P = map Some ps"
    and ok: "content_index_ok ''conda_sha256'' (sha_kvs key es) (sha_kvs key ps) (cm_sha256 m)"
      "content_index_ok ''conda_filename'' (filename_kvs key es) (filename_kvs key ps) (cm_filename m)"
    using 4(1) by (auto simp: conda_holds_def)
  obtain es' where "map parse E = map Some es'"
    and tab: "map_of (store_load ''conda_sha256'' origin t) = first_map (sha_kvs key es')"
      "map_of (store_load ''conda_filename'' origin t) = first_map (filename_kvs key es')"
    using 4(2) by (auto simp: conda_stored_def)
  then have es': "es' = es" using parsed(1) by (simp add: inj_map_eq_map)
  have len: "length (es @ ps) \<le> i64_max" using 4(3) parsed by (metis length_append length_map)
  obtain t1 where s1: "save_pending f origin (cm_sha256 m) t = (Inr (), t1)"
    and s2: "save_pending f origin (cm_filename m) t1 = (Inr (), t')"
    using 4(4) by (auto simp: conda_ops_def conda_commit_def split: sum.splits prod.splits)
  have n: "ci_name (cm_sha256 m) = ''conda_sha256''" "ci_name (cm_filename m) = ''conda_filename''"
    using ok by (simp_all add: content_index_ok_def)
  have "map_of (store_load ''conda_sha256'' origin t1) = first_map (sha_kvs key (es @ ps))"
    using save_pending_ok [OF ok(1) _ _ s1] tab(1) len by (simp add: es')
  moreover have "map_of (store_load ''conda_sha256'' origin t') = map_of (store_load ''conda_sha256'' origin t1)"
    using save_pending_other [of "''conda_sha256''" "cm_filename m" origin origin f t1] s2 n by simp
  moreover have "map_of (store_load ''conda_filename'' origin t1) = map_of (store_load ''conda_filename'' origin t)"
    using save_pending_other [of "''conda_filename''" "cm_sha256 m" origin origin f t] s1 n by simp
  then have "map_of (store_load ''conda_filename'' origin t') = first_map (filename_kvs key (es @ ps))"
    using save_pending_ok [OF ok(2) _ _ s2] tab(2) len by (simp add: es')
  moreover have "map parse (E @ P) = map Some (es @ ps)" using parsed by simp
  moreover have "distinct (map fst (sha_kvs key (es @ ps)))" "distinct (map fst (filename_kvs key (es @ ps)))"
    using ok by (simp_all add: content_index_ok_def)
  ultimately show ?case unfolding conda_stored_def by (intro exI [of _ "es @ ps"]) simp
next
  case (5 f origin a b t m r t' m' origin' E)
  have "map_of (store_load name origin' t') = map_of (store_load name origin' t)" for name
  proof -
    have o: "map_of (store_load name origin' (snd (save_pending f origin ci u))) = map_of (store_load name origin' u)" for ci u
      by (rule save_pending_other) (use 5(2) in simp)
    obtain r1 t1 where s1: "save_pending f origin (cm_sha256 m) t = (r1, t1)" by fastforce
    obtain r2 t2 where s2: "save_pending f origin (cm_filename m) t1 = (r2, t2)" by fastforce
    have "t' = t1 \<or> t' = t2"
      using 5(1) s1 s2 by (auto simp: conda_ops_def conda_commit_def split: sum.splits)
    then show ?thesis using o [of "cm_sha256 m" t] o [of "cm_filename m" t1] s1 s2 by auto
  qed
  then show ?case by (simp add: conda_stored_def)
next
  case (6 origin)
  show ?case by (auto simp: conda_stored_def store_load_def first_map_def)
next
  case (7 m f)
  then show ?case by (simp add: conda_ops_def conda_rollback_def conda_named_def index_rollback_def)
next
  case (8 m f d origin)
  then show ?case by (simp add: conda_ops_def conda_load_def conda_named_def load_from_def Let_def)
next
  case (9 m f i data)
  then show ?case
    by (simp add: conda_ops_def conda_validate_def conda_named_def conda_stage_def
        split: option.split violation_kind.split)
next
  case (10 m f origin a b d)
  then show ?case
    by (auto simp: conda_ops_def conda_commit_def conda_named_def index_commit_def split: sum.split prod.split)
qed


subsection \<open>The validating witness of a Conda log\<close>

text \<open>
  C9. The monitored log keeps the rule: in every database that the processes of the witness can
  produce, by any sequence of requests and failures, the content index of a log represents a list of
  entries, as many as the witnessed size says, all of them packages, no two with the same content
  hash and no two with the same filename.
\<close>

theorem monitored_log_keeps_rule:
  assumes "monitored hc hl vi (conda_ops (conda_hash_key sha hex) parse) conda_named [] (t, d)"
  shows "\<exists>E. conda_stored (conda_hash_key sha hex) parse d origin E \<and> conda_rule parse E
    \<and> length E = (case witnessed t origin of None \<Rightarrow> 0 | Some v \<Rightarrow> fst v)"
  using conda.monitored_content [OF assms] conda_stored_rule unfolding conda.content_ok_def by blast

text \<open>
  C10. A cosignature of the validating witness means that the new entries were authenticated and
  validated: content and table are committed for the new size, old and new entries together keep the
  rule, and whatever leaves the checkpoint's root stands for, the validated entries hash to those at
  their positions, barring a collision among the pairs hashed. The database stays reachable.
\<close>

theorem monitor_cosigns_validated:
  assumes "inclusion_laws hc vi"
    and "monitored hc hl vi (conda_ops key parse) conda_named [] (mw_table w, mw_content w)"
    and "conda_named (mw_monitor w)"
    and "\<forall>db. monitored hc hl vi (conda_ops key parse) conda_named [] db
      \<longrightarrow> monitored hc hl vi (conda_ops key parse) conda_named [] (re_other env db)"
    and "monitor_add_checkpoint cr hc hl vi (conda_ops key parse db) wit env rq w = (Inr sg, w')"
  shows "monitored hc hl vi (conda_ops key parse) conda_named [] (mw_table w', mw_content w') \<and>
    (\<exists>cp E P. cosign_now cr (wit_signer wit) (re_now env) cp = Inr sg
      \<and> length E = rq_old_size rq \<and> length (E @ P) = cp_size cp
      \<and> witnessed (mw_table w') (cp_origin cp) = Some (cp_size cp, cp_root cp)
      \<and> conda_stored key parse (mw_content w') (cp_origin cp) (E @ P) \<and> conda_rule parse (E @ P)
      \<and> (\<forall>D i. length D = cp_size cp \<and> cp_root cp = mth hc empty_root_hash D \<and> i < length P
           \<and> (\<forall>pf. generate_inclusion_proof hc (re_reader env (length E + i)) (length E + i) (length D) = Inr pf
               \<longrightarrow> collision_free hc (mth_calls hc empty_root_hash D
                     \<union> set (path_calls hc (length E + i) (length D) (hl (P ! i)) pf)))
           \<longrightarrow> D ! (length E + i) = hl (P ! i)))"
proof
  show "monitored hc hl vi (conda_ops key parse) conda_named [] (mw_table w', mw_content w')"
    using conda.request_monitored [OF assms(2,3) assms(4) [rule_format] assms(5)] by simp
  from conda.cosigned_content [OF assms(2,3) assms(4) [rule_format] assms(5)] obtain cp E P where cosigned: "cosign_now cr (wit_signer wit) (re_now env) cp = Inr sg"
    and len: "length E = rq_old_size rq" "length (E @ P) = cp_size cp"
    and stored: "conda_stored key parse (mw_content w') (cp_origin cp) (E @ P)"
    and row: "witnessed (mw_table w') (cp_origin cp) = Some (cp_size cp, cp_root cp)"
    and checked: "conda.checked hc hl vi (re_reader env) cp E P" by blast
  have "D ! (length E + i) = hl (P ! i)"
    if D: "length D = cp_size cp" "cp_root cp = mth hc empty_root_hash D" "i < length P"
      and cf: "\<And>pf. generate_inclusion_proof hc (re_reader env (length E + i)) (length E + i) (length D) = Inr pf
        \<Longrightarrow> collision_free hc (mth_calls hc empty_root_hash D
              \<union> set (path_calls hc (length E + i) (length D) (hl (P ! i)) pf))" for D i
  proof -
    have "verify_entry hc hl vi (re_reader env (length E + i)) (P ! i) (length E + i) cp = Inr ()"
      using checked D(3) by (simp add: conda.checked_def)
    from entry_bound [OF assms(1) this D(1) [symmetric] D(2) cf] show ?thesis by simp
  qed
  then show "\<exists>cp E P. cosign_now cr (wit_signer wit) (re_now env) cp = Inr sg
      \<and> length E = rq_old_size rq \<and> length (E @ P) = cp_size cp
      \<and> witnessed (mw_table w') (cp_origin cp) = Some (cp_size cp, cp_root cp)
      \<and> conda_stored key parse (mw_content w') (cp_origin cp) (E @ P) \<and> conda_rule parse (E @ P)
      \<and> (\<forall>D i. length D = cp_size cp \<and> cp_root cp = mth hc empty_root_hash D \<and> i < length P
           \<and> (\<forall>pf. generate_inclusion_proof hc (re_reader env (length E + i)) (length E + i) (length D) = Inr pf
               \<longrightarrow> collision_free hc (mth_calls hc empty_root_hash D
                     \<union> set (path_calls hc (length E + i) (length D) (hl (P ! i)) pf)))
           \<longrightarrow> D ! (length E + i) = hl (P ! i))"
    using cosigned len row stored conda_stored_rule [OF stored] by blast
qed


subsection \<open>An example\<close>

text \<open>A log with one entry, read from storage; the witness has not seen it before.\<close>

definition demo_parse :: conda_parser where
  "demo_parse data = (if data = [] then None else Some \<lparr>ce_sha256 = bytes_str data, ce_filename = ''a.conda''\<rparr>)"

definition demo_key :: "string \<Rightarrow> string" where
  "demo_key = conda_hash_key (\<lambda>bs. of_nat (length bs)) bytes_str"

definition demo_db :: conda_db where
  "demo_db = \<lparr>cd_load_sha256 = True, cd_load_filename = True, cd_conflict = Inl error.Database, cd_save_fails = \<lambda>_. False\<rparr>"

definition demo_env :: "call_outcome \<Rightarrow> content_table request_env" where
  "demo_env commit =
     \<lparr>re_now = Some 11, re_get = \<lambda>_ _. Some (200, [Inr (frame [1])]),
      re_reader = \<lambda>_. Tile_Store.read_tile memory_op (as_store demo_app), re_client_ok = True,
      re_call = \<lambda>c. if c = Commit then commit else Call_Ok, re_other = id, re_busy = False\<rparr>"

definition demo_start :: "(content_table, conda_monitor) monitor_world" where
  "demo_start = \<lparr>mw_table = [], mw_content = [], mw_monitor = conda_new\<rparr>"

definition demo_monitor_run ::
  "log_config \<Rightarrow> call_outcome \<Rightarrow> (monitor_error + checkpoint_signature) \<times> (content_table, conda_monitor) monitor_world" where
  "demo_monitor_run cfg commit = monitor_add_checkpoint demo_crypto demo_hash (\<lambda>_. 5) demo_inclusion
     (conda_ops demo_key demo_parse demo_db) (demo_witness cfg) (demo_env commit) (demo_request 0 [] [5]) demo_start"

lemma verify_url: "verify cr (cfg\<lparr>lc_url := u\<rparr>) co = verify cr cfg co"
proof -
  have "verify_signature cr (cfg\<lparr>lc_url := u\<rparr>) sg body = verify_signature cr cfg sg body" for sg body
    by (simp add: verify_signature_def)
  then show ?thesis by (simp add: verify_def split: option.split)
qed

lemma monitor_check_eq:
  "check_request cr wit rq = Inr co \<Longrightarrow> find (\<lambda>l. lc_origin l = cp_origin (co_checkpoint co)) (wit_logs wit) = Some log
    \<Longrightarrow> monitor_check cr wit rq = Inr (co_checkpoint co, log)"
  by (auto simp: check_request_def monitor_check_def Let_def res_simps split: option.splits if_splits)

lemma demo_new_entries:
  assumes "lc_url cfg = Some ''http://log''"
  shows "\<exists>d m. monitor_new_entries demo_hash (\<lambda>_. 5) demo_inclusion (conda_ops demo_key demo_parse demo_db) (demo_env commit) cfg
    (demo_cp [5]) 0 [] conda_new = (Inr d, m)"
proof -
  have ve: "verify_entry demo_hash (\<lambda>_. 5) demo_inclusion (Tile_Store.read_tile memory_op (as_store demo_app)) [1] 0 (demo_cp [5]) = Inr ()"
    by (rule store.verify_entry_ok [OF demo_inclusion_laws demo_served]) (simp_all add: demo_cp_def)
  have frame: "frame [1] = [0, 1, 1]" by (simp add: frame_def numeral_2_eq_2)
  have "bundle_to_bytes \<lparr>bundle_entries = [[1]]\<rparr> = Inr (frame [1])"
    by (simp add: bundle_to_bytes_def bundle_encode_eq)
  then have dec: "bundle_from_bytes (frame [1]) = Inr \<lparr>bundle_entries = [[1]]\<rparr>" by (rule bundle_decode_encode)
  have fetched: "client_bundle (\<lambda>_. Some (200, [Inr (frame [1])])) c 0 1 = Inr \<lparr>bundle_entries = [[1]]\<rparr>" for c
    using dec by (simp add: client_bundle_def client_read_def frame Let_def)
  show ?thesis
    using ve fetched assms
    by (simp add: monitor_new_entries_def client_new_def demo_env_def validate_bundle_def demo_cp_def validate_one_def
        conda_ops_def conda_validate_def demo_parse_def conda_new_def index_new_def index_check_def conda_stage_def
        stage_def conda_commit_def save_pending_def pending_entries_snapshot_def store_save_def save_one_def insert_row_def
        demo_db_def Let_def)
qed

lemma demo_locked_run:
  assumes "lc_origin cfg = ''log''" and "lc_url cfg = Some ''http://log''"
    and "verify demo_crypto cfg (cosigned_new demo_crypto (demo_cp [5]) demo_signer) = Inr ()"
  shows "is_ok (fst (demo_monitor_run cfg Call_Ok))"
    and "\<exists>w'. demo_monitor_run cfg Call_Failed = (Inl (Witness_Error WitnessInternal), w')"
    and "monitor_check demo_crypto (demo_witness cfg) (demo_request 0 [] [5]) = Inr (demo_cp [5], cfg)"
proof -
  let ?t = "insert_initial ''log'' []" and ?state = "state_at ''log'' (0, empty_root_hash)"
  let ?ops = "conda_ops demo_key demo_parse demo_db"
  have "monitor_check demo_crypto (demo_witness cfg) (demo_request 0 [] [5])
      = Inr (co_checkpoint (cosigned_new demo_crypto (demo_cp [5]) demo_signer), cfg)"
    by (rule monitor_check_eq [OF demo_checked]) (use assms in \<open>simp_all add: demo_witness_def cosigned_new_def demo_cp_def\<close>)
  then show check: "monitor_check demo_crypto (demo_witness cfg) (demo_request 0 [] [5]) = Inr (demo_cp [5], cfg)"
    by (simp add: cosigned_new_def)
  have tok: "table_ok []" "table_ok ?t" "witnessed [] = (\<lambda>_. None)"
    using insert_initial_ok [of "[]" "''log''"] by (auto simp: table_ok_def witnessed_def)
  have got: "get_or_init ''log'' [] = (Inr ?state, ?t)" using get_or_init_eq [OF tok(1)] tok(3) by simp
  have vc: "verify_consistency demo_hash 0 1 empty_root_hash r [] = Inr ()" for r
    by (simp add: verify_consistency_def)
  have row: "witnessed ?t ''log'' = Some (0, empty_root_hash)" by (simp add: insert_initial_read tok(3))
  then have lock: "lock_in ?state ?t = (Inr True, ?t)"
    using matching_count [OF tok(2), of 0 "''log''" empty_root_hash] by (simp add: lock_in_eq state_at_def)
  have adv: "advance_ok (0, empty_root_hash) (1, r)" for r by (simp add: advance_ok_def)
  have upd: "\<exists>t'. update_in ?state 1 r cptext ?t = (Inr True, t')" for r cptext
    using update_in_valid [OF adv, of "''log''" r cptext ?t] table_cas_eq [OF adv, of cptext "''log''" r ?t]
      matching_count [OF tok(2), of 0 "''log''" empty_root_hash] row by (simp add: state_at_def)
  have new: "\<exists>d m. monitor_new_entries demo_hash (\<lambda>_. 5) demo_inclusion ?ops (demo_env commit) cfg
    (demo_cp [5]) 0 [] conda_new = (Inr d, m)" for commit by (rule demo_new_entries [OF assms(2)])
  have m0: "rollback_entries ?ops conda_new = (Inr (), conda_new)" "load_state ?ops [] ''log'' conda_new = (Inr (), conda_new)"
    by (simp_all add: conda_ops_def conda_rollback_def conda_load_def conda_new_def index_new_def index_rollback_def
        load_from_def store_load_def demo_db_def)
  have txn: "\<exists>t' d' m'. monitor_txn demo_hash (\<lambda>_. 5) demo_inclusion ?ops (demo_env commit) cfg (demo_cp [5])
      (rq_checkpoint (demo_request 0 [] [5])) ?state (?t, []) conda_new = (Inr (t', d'), m')" for commit
  proof -
    obtain d m where "monitor_new_entries demo_hash (\<lambda>_. 5) demo_inclusion ?ops (demo_env commit) cfg
      (demo_cp [5]) 0 [] conda_new = (Inr d, m)" using new by blast
    moreover obtain t' where "update_in ?state 1 (cp_root (demo_cp [5])) (rq_checkpoint (demo_request 0 [] [5])) ?t = (Inr True, t')"
      using upd by blast
    ultimately show ?thesis
      using m0 by (simp add: monitor_txn_def demo_cp_def fallible_def demo_env_def state_at_def)
  qed
  have run: "fst (demo_monitor_run cfg commit) = (case commit of
      Call_Ok \<Rightarrow> Inr (cosign_v1 demo_crypto (wit_signer (demo_witness cfg)) (demo_cp [5]) 11)
    | _ \<Rightarrow> Inl (Witness_Error WitnessInternal))" for commit
  proof -
    obtain t' d' m' where "monitor_txn demo_hash (\<lambda>_. 5) demo_inclusion ?ops (demo_env commit) cfg (demo_cp [5])
      (rq_checkpoint (demo_request 0 [] [5])) ?state (?t, []) conda_new = (Inr (t', d'), m')" using txn by blast
    then have "fst (add_locked demo_crypto demo_hash (\<lambda>_. 5) demo_inclusion ?ops (demo_witness cfg) (demo_env commit)
        (demo_request 0 [] [5]) demo_start) = (case commit of
      Call_Ok \<Rightarrow> Inr (cosign_v1 demo_crypto (wit_signer (demo_witness cfg)) (demo_cp [5]) 11)
    | _ \<Rightarrow> Inl (Witness_Error WitnessInternal))"
      using check got vc lock
      by (cases commit) (simp_all add: add_locked_def monitor_locked_def demo_env_def demo_start_def fallible_def demo_cp_def
          demo_request_def state_at_def cosign_now_def internal_def)
    then show ?thesis
      by (auto simp: demo_monitor_run_def monitor_add_checkpoint_def conda_ops_def conda_rollback_def demo_env_def
          split: prod.split sum.split)
  qed
  show "is_ok (fst (demo_monitor_run cfg Call_Ok))" by (simp add: run res_simps)
  show "\<exists>w'. demo_monitor_run cfg Call_Failed = (Inl (Witness_Error WitnessInternal), w')"
    using run [of Call_Failed] by (metis call_outcome.simps(8) prod.collapse)
qed


lemma demo_monitor_config:
  "\<exists>cfg. lc_origin cfg = ''log'' \<and> lc_url cfg = Some ''http://log''
     \<and> verify demo_crypto cfg (cosigned_new demo_crypto (demo_cp [5]) demo_signer) = Inr ()"
proof -
  obtain cfg where "lc_origin cfg = ''log''" "verify demo_crypto cfg (cosigned_new demo_crypto (demo_cp [5]) demo_signer) = Inr ()"
    using demo_config by blast
  then show ?thesis by (intro exI [of _ "cfg\<lparr>lc_url := Some ''http://log''\<rparr>"]) (simp add: verify_url)
qed

lemma demo_monitored_start:
  "monitored hc hl vi ops wfm [] (mw_table demo_start, mw_content demo_start)" "conda_named (mw_monitor demo_start)"
  by (simp_all add: demo_start_def monitored.start conda_named_def conda_new_def index_new_def)

lemma demo_others: "\<forall>db. monitored hc hl vi ops wfm [] db \<longrightarrow> monitored hc hl vi ops wfm [] (re_other (demo_env c) db)"
  by (simp add: demo_env_def)

theorem monitor_cosigns_validated_witness:
  "\<exists>cfg w'. is_ok (fst (demo_monitor_run cfg Call_Ok)) \<and> snd (demo_monitor_run cfg Call_Ok) = w'
    \<and> monitored demo_hash (\<lambda>_. 5) demo_inclusion (conda_ops demo_key demo_parse) conda_named [] (mw_table w', mw_content w')
    \<and> (\<exists>E origin. conda_stored demo_key demo_parse (mw_content w') origin E)"
proof -
  obtain cfg where cfg: "lc_origin cfg = ''log''" "lc_url cfg = Some ''http://log''"
    "verify demo_crypto cfg (cosigned_new demo_crypto (demo_cp [5]) demo_signer) = Inr ()" using demo_monitor_config by blast
  obtain sg w' where run: "demo_monitor_run cfg Call_Ok = (Inr sg, w')"
    using demo_locked_run(1) [OF cfg] by (metis is_ok_iff prod.collapse)
  note res = monitor_cosigns_validated [OF demo_inclusion_laws demo_monitored_start demo_others run [unfolded demo_monitor_run_def]]
  from res [THEN conjunct1] res [THEN conjunct2] run show ?thesis
    by (intro exI [of _ cfg] exI [of _ w']) (auto simp: is_ok_iff)
qed

theorem monitored_log_keeps_rule_witness:
  "\<exists>cfg E. conda_stored demo_key demo_parse (mw_content (snd (demo_monitor_run cfg Call_Ok))) ''log'' E
    \<and> conda_rule demo_parse E \<and> length E = 1"
proof -
  obtain cfg where cfg: "lc_origin cfg = ''log''" "lc_url cfg = Some ''http://log''"
    "verify demo_crypto cfg (cosigned_new demo_crypto (demo_cp [5]) demo_signer) = Inr ()" using demo_monitor_config by blast
  obtain sg w' where run: "demo_monitor_run cfg Call_Ok = (Inr sg, w')"
    using demo_locked_run(1) [OF cfg] by (metis is_ok_iff prod.collapse)
  have reach: "monitored demo_hash (\<lambda>_. 5) demo_inclusion (conda_ops demo_key demo_parse) conda_named []
      (mw_table w', mw_content w')"
    using conda.request_monitored [OF demo_monitored_start demo_others [rule_format] run [unfolded demo_monitor_run_def]] by simp
  have "witnessed (mw_table w') ''log'' = Some (1, cp_root (demo_cp [5]))"
    using conda.cosigned_content [OF demo_monitored_start demo_others [rule_format] run [unfolded demo_monitor_run_def]] demo_locked_run(3) [OF cfg]
    by (auto simp: demo_cp_def)
  then show ?thesis
    using monitored_log_keeps_rule [OF reach [unfolded demo_key_def], of "''log''"] run
    by (intro exI [of _ cfg]) (auto simp: demo_key_def)
qed

theorem monitor_failure_atomic_witness:
  "\<exists>cfg. fst (demo_monitor_run cfg Call_Failed) = Inl (Witness_Error WitnessInternal)
     \<and> mw_content (snd (demo_monitor_run cfg Call_Failed)) = []"
proof -
  obtain cfg where cfg: "lc_origin cfg = ''log''" "lc_url cfg = Some ''http://log''"
    "verify demo_crypto cfg (cosigned_new demo_crypto (demo_cp [5]) demo_signer) = Inr ()" using demo_monitor_config by blast
  obtain w' where run: "demo_monitor_run cfg Call_Failed = (Inl (Witness_Error WitnessInternal), w')"
    using demo_locked_run(2) [OF cfg] by blast
  from monitor_failure_atomic [OF run [unfolded demo_monitor_run_def]] have "mw_content w' = []"
    by (simp add: demo_env_def demo_start_def)
  with run show ?thesis by (intro exI [of _ cfg]) simp
qed

end
