(* ===== verification/Rekor.thy ===== *)
theory Rekor
  imports Api_Handlers "HOL-Library.List_Lexorder" "HOL-Library.Char_ord"
begin

text \<open>
  The entries of the Rekor mode, the first half of \<^verbatim>\<open>src/api/rekor.rs\<close>: the request structures with
  their accepted field names, the choice of an algorithm by \<open>keyDetails\<close>, the checks on key, digest
  and signature, and the canonical JSON that becomes the entry. The record \<open>rekor_lib\<close> holds the
  library calls: the JSON text functions, the two tolerant base64 decoders, the DER parsers, and the
  signature checks. All refusals are \<open>InvalidEntry\<close>; their texts are left out.
\<close>


subsection \<open>JSON objects\<close>

text \<open>
  An object of \<open>serde_json\<close> keeps its members sorted by name. \<open>json_object\<close> is the macro on an object
  literal, \<open>json_set\<close> the assignment \<open>value[key] = ...\<close>, which panics on other values.
\<close>

fun member_insert :: "string \<Rightarrow> json \<Rightarrow> (string \<times> json) list \<Rightarrow> (string \<times> json) list" where
  "member_insert k v [] = [(k, v)]"
| "member_insert k v ((k', v') # ms) =
     (if k < k' then (k, v) # (k', v') # ms
      else if k = k' then (k, v) # ms else (k', v') # member_insert k v ms)"

definition json_object :: "(string \<times> json) list \<Rightarrow> json" where
  "json_object ms = JObject (fold (\<lambda>(k, v). member_insert k v) ms [])"

fun json_set :: "json \<Rightarrow> string \<Rightarrow> json \<Rightarrow> json res" where
  "json_set (JObject ms) k v = Inr (JObject (member_insert k v ms))"
| "json_set JNull k v = Inr (JObject [(k, v)])"
| "json_set _ k v = Inl Panic"

fun json_sorted :: "json \<Rightarrow> bool" where
  "json_sorted (JArray vs) = list_all json_sorted vs"
| "json_sorted (JObject ms) = (sorted_wrt (<) (map fst ms) \<and> list_all json_sorted (map snd ms))"
| "json_sorted _ = True"


subsection \<open>Library calls\<close>

datatype hash_algorithm = SHA256 | SHA384 | SHA512

datatype verification_algorithm =
  ED25519 | ECDSA_P256_SHA256_ASN1 | ECDSA_P384_SHA384_ASN1 | ECDSA_P521_SHA512_ASN1 | RSA_PKCS1_2048_8192_SHA256

text \<open>
  A decoded public key: the identifier of its algorithm, the parameters, which may decode as an
  identifier or be null, and the key itself, \<open>None\<close> when it is not a whole number of bytes.
\<close>

record spki =
  spki_oid :: string
  spki_params :: "(string option \<times> bool) option"
  spki_key :: "byte list option"

record rekor_lib =
  rl_parse :: "byte list \<Rightarrow> json option"
  rl_to_vec :: "json \<Rightarrow> byte list option"
  rl_b64_standard :: "string \<Rightarrow> byte list option"
  rl_b64_url_safe :: "string \<Rightarrow> byte list option"
  rl_spki_from_der :: "byte list \<Rightarrow> spki option"
  rl_certificate_spki :: "byte list \<Rightarrow> spki option"
  rl_modulus_len :: "byte list \<Rightarrow> nat option"
  rl_import_digest :: "hash_algorithm \<Rightarrow> byte list \<Rightarrow> bool"
  rl_verify_digest :: "verification_algorithm \<Rightarrow> byte list \<Rightarrow> byte list \<Rightarrow> byte list \<Rightarrow> bool"
  rl_dalek_signature :: "byte list \<Rightarrow> bool"
  rl_verify_prehashed :: "byte list \<Rightarrow> byte list \<Rightarrow> byte list \<Rightarrow> bool"


subsection \<open>Requests\<close>

text \<open>
  A derived structure is read from an object whose members each bear one of the accepted names of a
  field, no field twice, or from an array with one element for each field. The result lists the
  fields that are present.
\<close>

definition struct_fields :: "string list list \<Rightarrow> json \<Rightarrow> json option list option" where
  "struct_fields names v =
     (case v of
        JObject ms \<Rightarrow>
          if list_all (\<lambda>(k, _). \<exists>ns \<in> set names. k \<in> set ns) ms
             \<and> list_all (\<lambda>ns. length (filter (\<lambda>(k, _). k \<in> set ns) ms) \<le> 1) names
          then Some (map (\<lambda>ns. map_option snd (find (\<lambda>(k, _). k \<in> set ns) ms)) names)
          else None
      | JArray vs \<Rightarrow> if length vs = length names then Some (map Some vs) else None
      | _ \<Rightarrow> None)"

text \<open>A field of an \<open>Option\<close> type may be missing or null.\<close>

definition optional_field :: "(json \<Rightarrow> 'a option) \<Rightarrow> json option \<Rightarrow> 'a option option" where
  "optional_field f field =
     (case field of None \<Rightarrow> Some None | Some JNull \<Rightarrow> Some None | Some v \<Rightarrow> map_option Some (f v))"

record encoded_key =
  raw_bytes :: string

record verifier =
  public_key_field :: "encoded_key option"
  x509_certificate :: "encoded_key option"
  key_details :: json

record signature_field =
  signature_content :: string
  signature_verifier :: verifier

record hashed_rekord =
  rekord_digest :: string
  rekord_signature :: signature_field

record create_entry_request =
  hashed_rekord_request_v002 :: hashed_rekord

definition encoded_key_of :: "json \<Rightarrow> encoded_key option" where
  "encoded_key_of v =
     (case struct_fields [[''rawBytes'', ''raw_bytes'']] v of
        Some [Some (JString s)] \<Rightarrow> Some \<lparr>raw_bytes = s\<rparr>
      | _ \<Rightarrow> None)"

definition verifier_of :: "json \<Rightarrow> verifier option" where
  "verifier_of v =
     (case struct_fields [[''publicKey'', ''public_key''], [''x509Certificate'', ''x509_certificate''],
                          [''keyDetails'', ''key_details'']] v of
        Some [key, cert, Some details] \<Rightarrow>
          Option.bind (optional_field encoded_key_of key) (\<lambda>k.
          Option.bind (optional_field encoded_key_of cert) (\<lambda>c.
            Some \<lparr>public_key_field = k, x509_certificate = c, key_details = details\<rparr>))
      | _ \<Rightarrow> None)"

definition signature_of :: "json \<Rightarrow> signature_field option" where
  "signature_of v =
     (case struct_fields [[''content''], [''verifier'']] v of
        Some [Some (JString content), Some ver] \<Rightarrow>
          map_option (\<lambda>x. \<lparr>signature_content = content, signature_verifier = x\<rparr>) (verifier_of ver)
      | _ \<Rightarrow> None)"

definition hashed_rekord_of :: "json \<Rightarrow> hashed_rekord option" where
  "hashed_rekord_of v =
     (case struct_fields [[''digest''], [''signature'']] v of
        Some [Some (JString dg), Some sg] \<Rightarrow>
          map_option (\<lambda>x. \<lparr>rekord_digest = dg, rekord_signature = x\<rparr>) (signature_of sg)
      | _ \<Rightarrow> None)"

definition create_entry_request_of :: "json \<Rightarrow> create_entry_request option" where
  "create_entry_request_of v =
     (case struct_fields [[''hashedRekordRequestV002'', ''hashed_rekord_request_v002'']] v of
        Some [Some hr] \<Rightarrow> map_option (\<lambda>x. \<lparr>hashed_rekord_request_v002 = x\<rparr>) (hashed_rekord_of hr)
      | _ \<Rightarrow> None)"

definition decode :: "rekor_lib \<Rightarrow> string \<Rightarrow> byte list res" where
  "decode lib s =
     (case rl_b64_standard lib s of
        Some bs \<Rightarrow> Inr bs
      | None \<Rightarrow> ok_or InvalidEntry (rl_b64_url_safe lib s))"


subsection \<open>Algorithms\<close>

definition key_details_name :: "json \<Rightarrow> string res" where
  "key_details_name v =
     (case v of
        JString s \<Rightarrow> Inr s
      | JNumber n \<Rightarrow>
          (case parse_u64 n of
             None \<Rightarrow> Inl InvalidEntry
           | Some k \<Rightarrow>
               if k = 5 then Inr ''PKIX_ECDSA_P256_SHA_256''
               else if k = 8 then Inr ''PKIX_ED25519_PH''
               else if k = 12 then Inr ''PKIX_ECDSA_P384_SHA_384''
               else if k = 13 then Inr ''PKIX_ECDSA_P521_SHA_512''
               else if k = 9 then Inr ''PKIX_RSA_PKCS1V15_2048_SHA256''
               else if k = 10 then Inr ''PKIX_RSA_PKCS1V15_3072_SHA256''
               else if k = 11 then Inr ''PKIX_RSA_PKCS1V15_4096_SHA256''
               else Inl InvalidEntry)
      | _ \<Rightarrow> Inl InvalidEntry)"

record key_algorithm =
  ka_algorithm :: verification_algorithm
  ka_hash :: hash_algorithm
  ka_hash_name :: string
  ka_curve :: "string option"
  ka_rsa_bits :: nat

definition key_algorithm_of :: "string \<Rightarrow> key_algorithm res" where
  "key_algorithm_of details =
     (if details = ''PKIX_ED25519_PH''
      then Inr \<lparr>ka_algorithm = ED25519, ka_hash = SHA512, ka_hash_name = ''SHA2_512'', ka_curve = None, ka_rsa_bits = 0\<rparr>
      else if details = ''PKIX_ECDSA_P256_SHA_256''
      then Inr \<lparr>ka_algorithm = ECDSA_P256_SHA256_ASN1, ka_hash = SHA256, ka_hash_name = ''SHA2_256'',
                ka_curve = Some ''1.2.840.10045.3.1.7'', ka_rsa_bits = 0\<rparr>
      else if details = ''PKIX_ECDSA_P384_SHA_384''
      then Inr \<lparr>ka_algorithm = ECDSA_P384_SHA384_ASN1, ka_hash = SHA384, ka_hash_name = ''SHA2_384'',
                ka_curve = Some ''1.3.132.0.34'', ka_rsa_bits = 0\<rparr>
      else if details = ''PKIX_ECDSA_P521_SHA_512''
      then Inr \<lparr>ka_algorithm = ECDSA_P521_SHA512_ASN1, ka_hash = SHA512, ka_hash_name = ''SHA2_512'',
                ka_curve = Some ''1.3.132.0.35'', ka_rsa_bits = 0\<rparr>
      else if details = ''PKIX_RSA_PKCS1V15_2048_SHA256''
      then Inr \<lparr>ka_algorithm = RSA_PKCS1_2048_8192_SHA256, ka_hash = SHA256, ka_hash_name = ''SHA2_256'',
                ka_curve = None, ka_rsa_bits = 2048\<rparr>
      else if details = ''PKIX_RSA_PKCS1V15_3072_SHA256''
      then Inr \<lparr>ka_algorithm = RSA_PKCS1_2048_8192_SHA256, ka_hash = SHA256, ka_hash_name = ''SHA2_256'',
                ka_curve = None, ka_rsa_bits = 3072\<rparr>
      else if details = ''PKIX_RSA_PKCS1V15_4096_SHA256''
      then Inr \<lparr>ka_algorithm = RSA_PKCS1_2048_8192_SHA256, ka_hash = SHA256, ka_hash_name = ''SHA2_256'',
                ka_curve = None, ka_rsa_bits = 4096\<rparr>
      else Inl InvalidEntry)"

definition check_key :: "rekor_lib \<Rightarrow> string \<Rightarrow> key_algorithm \<Rightarrow> spki \<Rightarrow> byte list \<Rightarrow> unit res" where
  "check_key lib details ka sp raw_key =
     (if details = ''PKIX_ED25519_PH''
      then if spki_oid sp \<noteq> ''1.3.101.112'' \<or> spki_params sp \<noteq> None then Inl InvalidEntry else Inr ()
      else case ka_curve ka of
        Some curve \<Rightarrow>
          if spki_oid sp \<noteq> ''1.2.840.10045.2.1'' \<or> Option.bind (spki_params sp) fst \<noteq> Some curve
          then Inl InvalidEntry else Inr ()
      | None \<Rightarrow>
          if spki_oid sp \<noteq> ''1.2.840.113549.1.1.1'' \<or> (case spki_params sp of None \<Rightarrow> False | Some p \<Rightarrow> \<not> snd p)
          then Inl InvalidEntry
          else bind_res (ok_or InvalidEntry (rl_modulus_len lib raw_key)) (\<lambda>bits.
            if bits \<noteq> ka_rsa_bits ka then Inl InvalidEntry else Inr ()))"

definition check_signature ::
  "crypto \<Rightarrow> rekor_lib \<Rightarrow> string \<Rightarrow> key_algorithm \<Rightarrow> byte list \<Rightarrow> byte list \<Rightarrow> byte list \<Rightarrow> unit res" where
  "check_signature cr lib details ka raw_key hash sg =
     (if \<not> rl_import_digest lib (ka_hash ka) hash then Inl InvalidEntry
      else if details = ''PKIX_ED25519_PH'' then
        (if length raw_key \<noteq> 32 then Inl InvalidEntry
         else if \<not> ed_key_ok cr raw_key then Inl InvalidEntry
         else if \<not> rl_dalek_signature lib sg then Inl InvalidEntry
         else if length hash \<noteq> 64 then Inl InvalidEntry
         else if rl_verify_prehashed lib raw_key hash sg then Inr () else Inl InvalidEntry)
      else if rl_verify_digest lib (ka_algorithm ka) raw_key hash sg then Inr () else Inl InvalidEntry)"


subsection \<open>Canonical entries\<close>

definition key_material :: "crypto \<Rightarrow> rekor_lib \<Rightarrow> verifier \<Rightarrow> (spki \<times> json) res" where
  "key_material cr lib ver =
     (case (public_key_field ver, x509_certificate ver) of
        (Some key, None) \<Rightarrow>
          bind_res (decode lib (raw_bytes key)) (\<lambda>der.
          bind_res (ok_or InvalidEntry (rl_spki_from_der lib der)) (\<lambda>sp.
            Inr (sp, json_object [(''publicKey'', json_object [(''rawBytes'', JString (b64_encode cr der))])])))
      | (None, Some cert) \<Rightarrow>
          bind_res (decode lib (raw_bytes cert)) (\<lambda>der.
          bind_res (ok_or InvalidEntry (rl_certificate_spki lib der)) (\<lambda>sp.
            Inr (sp, json_object [(''x509Certificate'', json_object [(''rawBytes'', JString (b64_encode cr der))])])))
      | _ \<Rightarrow> Inl InvalidEntry)"

definition entry_json :: "crypto \<Rightarrow> string \<Rightarrow> byte list \<Rightarrow> byte list \<Rightarrow> json \<Rightarrow> json" where
  "entry_json cr hash_name hash sg material =
     json_object
       [(''apiVersion'', JString ''0.0.2''), (''kind'', JString ''hashedrekord''),
        (''spec'', json_object
          [(''hashedRekordV002'', json_object
            [(''data'', json_object
               [(''algorithm'', JString hash_name), (''digest'', JString (b64_encode cr hash))]),
             (''signature'', json_object
               [(''content'', JString (b64_encode cr sg)), (''verifier'', material)])])])]"

definition canonical_entry :: "crypto \<Rightarrow> rekor_lib \<Rightarrow> byte list \<Rightarrow> byte list res" where
  "canonical_entry cr lib body =
     bind_res (ok_or InvalidEntry (Option.bind (rl_parse lib body) create_entry_request_of)) (\<lambda>request.
     let hr = hashed_rekord_request_v002 request in
     bind_res (decode lib (signature_content (rekord_signature hr))) (\<lambda>sg.
     bind_res (decode lib (rekord_digest hr)) (\<lambda>hash.
     let ver = signature_verifier (rekord_signature hr) in
     bind_res (key_material cr lib ver) (\<lambda>(sp, material).
     bind_res (key_details_name (key_details ver)) (\<lambda>details.
     bind_res (key_algorithm_of details) (\<lambda>ka.
     bind_res (ok_or InvalidEntry (spki_key sp)) (\<lambda>raw_key.
     bind_res (check_key lib details ka sp raw_key) (\<lambda>_.
     bind_res (check_signature cr lib details ka raw_key hash sg) (\<lambda>_.
     bind_res (json_set material ''keyDetails'' (JString details)) (\<lambda>material.
     bind_res (ok_or error.Internal (rl_to_vec lib (entry_json cr (ka_hash_name ka) hash sg material))) (\<lambda>bytes.
       if MAX_ENTRY_SIZE < length bytes then Inl InvalidEntry else Inr bytes)))))))))))"


subsection \<open>What a request and an entry say\<close>

text \<open>
  A submission is what a request says once its spelling is left out: the digest and signature, the
  encoded key or certificate, and the name of the algorithm.
\<close>

record submission =
  sb_digest :: "byte list"
  sb_signature :: "byte list"
  sb_certificate :: bool
  sb_der :: "byte list"
  sb_details :: string

definition key_der :: "rekor_lib \<Rightarrow> verifier \<Rightarrow> (bool \<times> byte list) res" where
  "key_der lib ver =
     (case (public_key_field ver, x509_certificate ver) of
        (Some key, None) \<Rightarrow> bind_res (decode lib (raw_bytes key)) (\<lambda>der. Inr (False, der))
      | (None, Some cert) \<Rightarrow> bind_res (decode lib (raw_bytes cert)) (\<lambda>der. Inr (True, der))
      | _ \<Rightarrow> Inl InvalidEntry)"

definition request_submission :: "rekor_lib \<Rightarrow> byte list \<Rightarrow> submission res" where
  "request_submission lib body =
     bind_res (ok_or InvalidEntry (Option.bind (rl_parse lib body) create_entry_request_of)) (\<lambda>request.
     let hr = hashed_rekord_request_v002 request; ver = signature_verifier (rekord_signature hr) in
     bind_res (decode lib (signature_content (rekord_signature hr))) (\<lambda>sg.
     bind_res (decode lib (rekord_digest hr)) (\<lambda>hash.
     bind_res (key_der lib ver) (\<lambda>(cert, der).
     bind_res (key_details_name (key_details ver)) (\<lambda>details.
       Inr \<lparr>sb_digest = hash, sb_signature = sg, sb_certificate = cert, sb_der = der, sb_details = details\<rparr>)))))"

definition submission_spki :: "rekor_lib \<Rightarrow> submission \<Rightarrow> spki option" where
  "submission_spki lib sub = (if sb_certificate sub then rl_certificate_spki lib else rl_spki_from_der lib) (sb_der sub)"

text \<open>The signature verifies under a key of the named kind, for a digest of the length of its hash.\<close>

definition digest_len :: "hash_algorithm \<Rightarrow> nat" where
  "digest_len h = (case h of SHA256 \<Rightarrow> 32 | SHA384 \<Rightarrow> 48 | SHA512 \<Rightarrow> 64)"

definition genuine :: "crypto \<Rightarrow> rekor_lib \<Rightarrow> submission \<Rightarrow> key_algorithm \<Rightarrow> bool" where
  "genuine cr lib sub ka \<longleftrightarrow>
     key_algorithm_of (sb_details sub) = Inr ka \<and> length (sb_digest sub) = digest_len (ka_hash ka) \<and>
     (\<exists>sp raw. submission_spki lib sub = Some sp \<and> spki_key sp = Some raw
        \<and> check_key lib (sb_details sub) ka sp raw = Inr ()
        \<and> (if sb_details sub = ''PKIX_ED25519_PH''
           then length raw = 32 \<and> ed_key_ok cr raw \<and> rl_dalek_signature lib (sb_signature sub)
             \<and> rl_verify_prehashed lib raw (sb_digest sub) (sb_signature sub)
           else rl_verify_digest lib (ka_algorithm ka) raw (sb_digest sub) (sb_signature sub)))"

text \<open>The canonical entry of a submission, and how a reader of the log gets the submission back.\<close>

definition submission_json :: "crypto \<Rightarrow> submission \<Rightarrow> string \<Rightarrow> json" where
  "submission_json cr sub hash_name =
     (let key = JObject [(''rawBytes'', JString (b64_encode cr (sb_der sub)))];
          details = (''keyDetails'', JString (sb_details sub));
          material = (if sb_certificate sub then JObject [details, (''x509Certificate'', key)]
                      else JObject [details, (''publicKey'', key)])
      in JObject [(''apiVersion'', JString ''0.0.2''), (''kind'', JString ''hashedrekord''),
           (''spec'', JObject [(''hashedRekordV002'', JObject
             [(''data'', JObject [(''algorithm'', JString hash_name), (''digest'', JString (b64_encode cr (sb_digest sub)))]),
              (''signature'', JObject
                 [(''content'', JString (b64_encode cr (sb_signature sub))), (''verifier'', material)])])])])"

definition json_string :: "json \<Rightarrow> string \<Rightarrow> string option" where
  "json_string v field = Option.bind (json_get v field) json_as_str"

definition entry_submission :: "crypto \<Rightarrow> json \<Rightarrow> (submission \<times> string) option" where
  "entry_submission cr v =
     Option.bind (Option.bind (json_get v ''spec'') (\<lambda>s. json_get s ''hashedRekordV002'')) (\<lambda>hr.
     Option.bind (json_get hr ''data'') (\<lambda>data.
     Option.bind (json_get hr ''signature'') (\<lambda>sg.
     Option.bind (json_get sg ''verifier'') (\<lambda>ver.
     Option.bind (json_string data ''algorithm'') (\<lambda>hash_name.
     Option.bind (Option.bind (json_string data ''digest'') (b64_decode cr)) (\<lambda>hash.
     Option.bind (Option.bind (json_string sg ''content'') (b64_decode cr)) (\<lambda>content.
     Option.bind (json_string ver ''keyDetails'') (\<lambda>details.
     let (cert, key) = (case json_get ver ''publicKey'' of
                          Some key \<Rightarrow> (False, key)
                        | None \<Rightarrow> (True, case json_get ver ''x509Certificate'' of Some key \<Rightarrow> key | None \<Rightarrow> JNull))
     in Option.bind (Option.bind (json_string key ''rawBytes'') (b64_decode cr)) (\<lambda>der.
          Some (\<lparr>sb_digest = hash, sb_signature = content, sb_certificate = cert, sb_der = der,
                 sb_details = details\<rparr>, hash_name))))))))))"


subsection \<open>Laws of the library calls\<close>

text \<open>
  The text of a value with sorted members parses back to the value, and a digest can be imported
  exactly when it has the length of its algorithm.
\<close>

definition json_laws :: "rekor_lib \<Rightarrow> bool" where
  "json_laws lib \<longleftrightarrow> (\<forall>v bs. json_sorted v \<longrightarrow> rl_to_vec lib v = Some bs \<longrightarrow> rl_parse lib bs = Some v)"

definition digest_laws :: "rekor_lib \<Rightarrow> bool" where
  "digest_laws lib \<longleftrightarrow> (\<forall>h d. rl_import_digest lib h d \<longleftrightarrow> length d = digest_len h)"


subsection \<open>Facts\<close>

lemma string_less_Cons: "(c # s :: string) < d # t \<longleftrightarrow> (of_char c :: nat) < of_char d \<or> c = d \<and> s < t"
  by (auto simp: less_char_def)

lemmas string_less = string_less_Cons

lemma entry_json_eq:
  "json_set (json_object [(''publicKey'', json_object [(''rawBytes'', JString (b64_encode cr der))])])
       ''keyDetails'' (JString details) = Inr material \<Longrightarrow>
     entry_json cr hash_name hash sg material
       = submission_json cr \<lparr>sb_digest = hash, sb_signature = sg, sb_certificate = False, sb_der = der,
           sb_details = details\<rparr> hash_name"
  "json_set (json_object [(''x509Certificate'', json_object [(''rawBytes'', JString (b64_encode cr der))])])
       ''keyDetails'' (JString details) = Inr material \<Longrightarrow>
     entry_json cr hash_name hash sg material
       = submission_json cr \<lparr>sb_digest = hash, sb_signature = sg, sb_certificate = True, sb_der = der,
           sb_details = details\<rparr> hash_name"
  by (auto simp: json_object_def entry_json_def submission_json_def string_less)

lemma submission_json_sorted: "json_sorted (submission_json cr sub hash_name)"
  by (simp add: submission_json_def string_less Let_def)

lemma entry_submission_json:
  "b64_laws cr \<Longrightarrow> entry_submission cr (submission_json cr sub hash_name) = Some (sub, hash_name)"
  by (simp add: entry_submission_def submission_json_def json_string_def Let_def b64D(1))


definition material_of :: "crypto \<Rightarrow> bool \<Rightarrow> byte list \<Rightarrow> json" where
  "material_of cr cert der =
     (if cert then json_object [(''x509Certificate'', json_object [(''rawBytes'', JString (b64_encode cr der))])]
      else json_object [(''publicKey'', json_object [(''rawBytes'', JString (b64_encode cr der))])])"

lemma key_material_Inr_iff:
  "key_material cr lib ver = Inr (sp, material) \<longleftrightarrow>
     (\<exists>cert der. key_der lib ver = Inr (cert, der) \<and> material = material_of cr cert der
        \<and> (if cert then rl_certificate_spki lib else rl_spki_from_der lib) der = Some sp)"
  by (auto simp: key_material_def key_der_def material_of_def res_simps split: option.splits)

lemma material_set:
  "\<exists>material. json_set (material_of cr (sb_certificate sub) (sb_der sub)) ''keyDetails'' (JString (sb_details sub)) = Inr material
     \<and> entry_json cr hash_name (sb_digest sub) (sb_signature sub) material = submission_json cr sub hash_name"
  using entry_json_eq [of cr "sb_der sub" "sb_details sub" _ hash_name "sb_digest sub" "sb_signature sub"]
  by (cases sub) (auto simp: material_of_def json_object_def)

lemma check_signature_Inr_iff:
  "digest_laws lib \<Longrightarrow> key_algorithm_of details = Inr ka \<Longrightarrow>
     check_signature cr lib details ka raw hash sg = Inr () \<longleftrightarrow>
     length hash = digest_len (ka_hash ka)
     \<and> (if details = ''PKIX_ED25519_PH''
        then length raw = 32 \<and> ed_key_ok cr raw \<and> rl_dalek_signature lib sg \<and> rl_verify_prehashed lib raw hash sg
        else rl_verify_digest lib (ka_algorithm ka) raw hash sg)"
  by (auto simp: check_signature_def digest_laws_def key_algorithm_of_def digest_len_def)

lemma request_submission_Inr_iff:
  "request_submission lib body = Inr sub \<longleftrightarrow>
     (\<exists>request. Option.bind (rl_parse lib body) create_entry_request_of = Some request \<and>
        (let hr = hashed_rekord_request_v002 request; ver = signature_verifier (rekord_signature hr)
         in decode lib (signature_content (rekord_signature hr)) = Inr (sb_signature sub)
            \<and> decode lib (rekord_digest hr) = Inr (sb_digest sub)
            \<and> key_der lib ver = Inr (sb_certificate sub, sb_der sub)
            \<and> key_details_name (key_details ver) = Inr (sb_details sub)))"
proof -
  have "sub = \<lparr>sb_digest = sb_digest sub, sb_signature = sb_signature sub, sb_certificate = sb_certificate sub,
      sb_der = sb_der sub, sb_details = sb_details sub\<rparr>" by simp
  then show ?thesis by (cases sub) (auto simp: request_submission_def res_simps Let_def)
qed

lemma canonical_entry_sound:
  assumes "digest_laws lib" and "canonical_entry cr lib body = Inr bytes"
  shows "\<exists>sub ka. request_submission lib body = Inr sub \<and> genuine cr lib sub ka
    \<and> rl_to_vec lib (submission_json cr sub (ka_hash_name ka)) = Some bytes \<and> length bytes \<le> u16_max"
proof -
  obtain request sg hash sp material details ka raw material' where
    req: "Option.bind (rl_parse lib body) create_entry_request_of = Some request"
    and sg: "decode lib (signature_content (rekord_signature (hashed_rekord_request_v002 request))) = Inr sg"
    and hash: "decode lib (rekord_digest (hashed_rekord_request_v002 request)) = Inr hash"
    and mat: "key_material cr lib (signature_verifier (rekord_signature (hashed_rekord_request_v002 request))) = Inr (sp, material)"
    and det: "key_details_name (key_details (signature_verifier (rekord_signature (hashed_rekord_request_v002 request)))) = Inr details"
    and ka: "key_algorithm_of details = Inr ka" and raw: "spki_key sp = Some raw"
    and key: "check_key lib details ka sp raw = Inr ()"
    and sig: "check_signature cr lib details ka raw hash sg = Inr ()"
    and mat': "json_set material ''keyDetails'' (JString details) = Inr material'"
    and bytes: "rl_to_vec lib (entry_json cr (ka_hash_name ka) hash sg material') = Some bytes" "length bytes \<le> u16_max"
    using assms(2) by (auto simp: canonical_entry_def res_simps Let_def MAX_ENTRY_SIZE_def split: if_splits)
  obtain cert der where der: "key_der lib (signature_verifier (rekord_signature (hashed_rekord_request_v002 request))) = Inr (cert, der)"
    "material = material_of cr cert der" "(if cert then rl_certificate_spki lib else rl_spki_from_der lib) der = Some sp"
    using mat by (auto simp: key_material_Inr_iff)
  let ?sub = "\<lparr>sb_digest = hash, sb_signature = sg, sb_certificate = cert, sb_der = der, sb_details = details\<rparr>"
  have "request_submission lib body = Inr ?sub"
    using req sg hash der(1) det by (simp add: request_submission_Inr_iff Let_def)
  moreover have "genuine cr lib ?sub ka"
    using ka der(3) raw key sig check_signature_Inr_iff [OF assms(1) ka]
    by (auto simp: genuine_def submission_spki_def)
  moreover have "entry_json cr (ka_hash_name ka) hash sg material' = submission_json cr ?sub (ka_hash_name ka)"
    using material_set [of cr ?sub "ka_hash_name ka"] mat' der(2) by auto
  ultimately show ?thesis using bytes by auto
qed

lemma canonical_entry_complete:
  assumes "digest_laws lib" and "request_submission lib body = Inr sub" and "genuine cr lib sub ka"
    and bytes: "rl_to_vec lib (submission_json cr sub (ka_hash_name ka)) = Some bytes" "length bytes \<le> u16_max"
  shows "canonical_entry cr lib body = Inr bytes"
proof -
  obtain request where req: "Option.bind (rl_parse lib body) create_entry_request_of = Some request"
    and fields: "decode lib (signature_content (rekord_signature (hashed_rekord_request_v002 request))) = Inr (sb_signature sub)"
      "decode lib (rekord_digest (hashed_rekord_request_v002 request)) = Inr (sb_digest sub)"
      "key_der lib (signature_verifier (rekord_signature (hashed_rekord_request_v002 request))) = Inr (sb_certificate sub, sb_der sub)"
      "key_details_name (key_details (signature_verifier (rekord_signature (hashed_rekord_request_v002 request)))) = Inr (sb_details sub)"
    using assms(2) by (auto simp: request_submission_Inr_iff Let_def)
  obtain sp raw where ka: "key_algorithm_of (sb_details sub) = Inr ka" and sp: "submission_spki lib sub = Some sp"
    and key: "spki_key sp = Some raw" "check_key lib (sb_details sub) ka sp raw = Inr ()"
    and sig: "check_signature cr lib (sb_details sub) ka raw (sb_digest sub) (sb_signature sub) = Inr ()"
    using assms(3) check_signature_Inr_iff [OF assms(1)] unfolding genuine_def by metis
  have "key_material cr lib (signature_verifier (rekord_signature (hashed_rekord_request_v002 request)))
      = Inr (sp, material_of cr (sb_certificate sub) (sb_der sub))"
    using fields(3) sp by (auto simp: key_material_Inr_iff submission_spki_def)
  moreover obtain material where
    "json_set (material_of cr (sb_certificate sub) (sb_der sub)) ''keyDetails'' (JString (sb_details sub)) = Inr material"
    "entry_json cr (ka_hash_name ka) (sb_digest sub) (sb_signature sub) material = submission_json cr sub (ka_hash_name ka)"
    using material_set [of cr sub "ka_hash_name ka"] by auto
  ultimately show ?thesis
    using req fields ka key sig bytes by (simp add: canonical_entry_def Let_def MAX_ENTRY_SIZE_def)
qed

lemma genuine_algorithm: "genuine cr lib sub ka \<Longrightarrow> genuine cr lib sub ka' \<Longrightarrow> ka' = ka"
  by (auto simp: genuine_def)

lemma canonical_entry_iff:
  assumes "digest_laws lib"
  shows "canonical_entry cr lib body = Inr bytes \<longleftrightarrow>
    (\<exists>sub ka. request_submission lib body = Inr sub \<and> genuine cr lib sub ka
       \<and> rl_to_vec lib (submission_json cr sub (ka_hash_name ka)) = Some bytes \<and> length bytes \<le> u16_max)"
  using canonical_entry_sound [OF assms] canonical_entry_complete [OF assms] by blast

text \<open>Every accepted entry reads back as the submission of its request.\<close>

lemma canonical_entry_reads:
  assumes "b64_laws cr" and "json_laws lib" and "digest_laws lib" and "canonical_entry cr lib body = Inr bytes"
  shows "\<exists>v sub ka. rl_parse lib bytes = Some v \<and> entry_submission cr v = Some (sub, ka_hash_name ka)
    \<and> request_submission lib body = Inr sub \<and> genuine cr lib sub ka \<and> length bytes \<le> u16_max"
  using canonical_entry_sound [OF assms(3,4)] entry_submission_json [OF assms(1)] submission_json_sorted assms(2)
  unfolding json_laws_def by blast

lemma same_entry_iff:
  assumes "b64_laws cr" and "json_laws lib" and "digest_laws lib"
    and "canonical_entry cr lib body = Inr bytes" and "canonical_entry cr lib body' = Inr bytes'"
  shows "bytes = bytes' \<longleftrightarrow> request_submission lib body = request_submission lib body'"
proof
  assume "bytes = bytes'"
  then show "request_submission lib body = request_submission lib body'"
    using canonical_entry_reads [OF assms(1-3,4)] canonical_entry_reads [OF assms(1-3,5)] by auto
next
  assume "request_submission lib body = request_submission lib body'"
  then show "bytes = bytes'"
    using canonical_entry_sound [OF assms(3,4)] canonical_entry_sound [OF assms(3,5)]
    by (auto dest: genuine_algorithm)
qed

text \<open>C16. What the Rekor mode admits to the log, and that it is canonical: a request becomes an entry exactly
  when it is well formed, its signature verifies over its digest under a key of the kind it names,
  and the entry fits a bundle. The entry reads back as digest, signature and key, so a reader of the log can
  check the same signature; and two requests, however spelled (numbers or names, alternative field
  names, base64 variants, order of members), give the same entry exactly when they say the same.\<close>

theorem rekor_entries_canonical:
  assumes "b64_laws cr" and "json_laws lib" and "digest_laws lib"
  shows "(canonical_entry cr lib body = Inr bytes \<longleftrightarrow>
      (\<exists>sub ka. request_submission lib body = Inr sub \<and> genuine cr lib sub ka
         \<and> rl_to_vec lib (submission_json cr sub (ka_hash_name ka)) = Some bytes \<and> length bytes \<le> u16_max))
    \<and> (canonical_entry cr lib body = Inr bytes \<longrightarrow>
        (\<exists>v sub ka. rl_parse lib bytes = Some v \<and> entry_submission cr v = Some (sub, ka_hash_name ka)
          \<and> genuine cr lib sub ka) \<and>
        (canonical_entry cr lib body' = Inr bytes' \<longrightarrow>
          (bytes = bytes' \<longleftrightarrow> request_submission lib body = request_submission lib body')))"
  using canonical_entry_iff [OF assms(3)] canonical_entry_reads [OF assms] same_entry_iff [OF assms] by blast


text \<open>Examples: one submission, spelled in two ways.\<close>

definition demo_artifact :: "byte list" where "demo_artifact = replicate 64 0"

definition demo_submission :: submission where
  "demo_submission = \<lparr>sb_digest = demo_artifact, sb_signature = [7], sb_certificate = False, sb_der = [9],
     sb_details = ''PKIX_ED25519_PH''\<rparr>"

definition demo_request :: json where
  "demo_request =
     JObject [(''hashedRekordRequestV002'', JObject
       [(''digest'', JString (demo_encode (demo_artifact))),
        (''signature'', JObject
          [(''content'', JString (demo_encode [7])),
           (''verifier'', JObject
             [(''publicKey'', JObject [(''rawBytes'', JString (demo_encode [9]))]), (''keyDetails'', JNumber ''8'')])])])]"

definition demo_request_snake :: json where
  "demo_request_snake =
     JObject [(''hashed_rekord_request_v002'', JObject
       [(''signature'', JArray
          [JString (demo_encode [7]),
           JObject [(''x509_certificate'', JNull), (''key_details'', JString ''PKIX_ED25519_PH''),
             (''public_key'', JObject [(''raw_bytes'', JString (demo_encode [9]))])]]),
        (''digest'', JString (demo_encode (demo_artifact)))])]"

definition demo_rekor :: rekor_lib where
  "demo_rekor =
     \<lparr>rl_parse = (\<lambda>bs. if bs = [1] then Some demo_request else if bs = [2] then Some demo_request_snake
        else if bs = [3] then Some (submission_json demo_crypto demo_submission ''SHA2_512'') else None),
      rl_to_vec = (\<lambda>v. if v = submission_json demo_crypto demo_submission ''SHA2_512'' then Some [3] else None),
      rl_b64_standard = demo_decode, rl_b64_url_safe = (\<lambda>_. None),
      rl_spki_from_der = (\<lambda>der. if der = [9]
        then Some \<lparr>spki_oid = ''1.3.101.112'', spki_params = None, spki_key = Some (replicate 32 1)\<rparr> else None),
      rl_certificate_spki = (\<lambda>_. None), rl_modulus_len = (\<lambda>_. None),
      rl_import_digest = (\<lambda>h d. length d = digest_len h), rl_verify_digest = (\<lambda>_ _ _ _. False),
      rl_dalek_signature = (\<lambda>sg. True), rl_verify_prehashed = (\<lambda>key hash sg. sg = [7])\<rparr>"

lemma demo_rekor_laws: "json_laws demo_rekor" "digest_laws demo_rekor"
  by (simp_all add: json_laws_def digest_laws_def demo_rekor_def)

definition demo_parsed :: "json \<Rightarrow> create_entry_request" where
  "demo_parsed details = \<lparr>hashed_rekord_request_v002 = \<lparr>rekord_digest = demo_encode demo_artifact,
     rekord_signature = \<lparr>signature_content = demo_encode [7], signature_verifier =
       \<lparr>public_key_field = Some \<lparr>raw_bytes = demo_encode [9]\<rparr>, x509_certificate = None, key_details = details\<rparr>\<rparr>\<rparr>\<rparr>"

lemma demo_fields:
  "struct_fields [[''rawBytes'', ''raw_bytes'']] (JObject [(''rawBytes'', a)]) = Some [Some a]"
  "struct_fields [[''rawBytes'', ''raw_bytes'']] (JObject [(''raw_bytes'', a)]) = Some [Some a]"
  "struct_fields [[''publicKey'', ''public_key''], [''x509Certificate'', ''x509_certificate''],
       [''keyDetails'', ''key_details'']] (JObject [(''publicKey'', a), (''keyDetails'', b)]) = Some [Some a, None, Some b]"
  "struct_fields [[''publicKey'', ''public_key''], [''x509Certificate'', ''x509_certificate''],
       [''keyDetails'', ''key_details'']] (JObject [(''x509_certificate'', b), (''key_details'', c), (''public_key'', a)])
     = Some [Some a, Some b, Some c]"
  "struct_fields [[''content''], [''verifier'']] (JObject [(''content'', a), (''verifier'', b)]) = Some [Some a, Some b]"
  "struct_fields [[''content''], [''verifier'']] (JArray [a, b]) = Some [Some a, Some b]"
  "struct_fields [[''digest''], [''signature'']] (JObject [(''digest'', a), (''signature'', b)]) = Some [Some a, Some b]"
  "struct_fields [[''digest''], [''signature'']] (JObject [(''signature'', b), (''digest'', a)]) = Some [Some a, Some b]"
  "struct_fields [[''hashedRekordRequestV002'', ''hashed_rekord_request_v002'']]
     (JObject [(''hashedRekordRequestV002'', a)]) = Some [Some a]"
  "struct_fields [[''hashedRekordRequestV002'', ''hashed_rekord_request_v002'']]
     (JObject [(''hashed_rekord_request_v002'', a)]) = Some [Some a]"
  by (simp_all add: struct_fields_def)

lemma demo_requests_parse:
  "create_entry_request_of demo_request = Some (demo_parsed (JNumber ''8''))"
  "create_entry_request_of demo_request_snake = Some (demo_parsed (JString ''PKIX_ED25519_PH''))"
  by (simp_all only: create_entry_request_of_def hashed_rekord_of_def signature_of_def verifier_of_def encoded_key_of_def
      demo_request_def demo_request_snake_def demo_fields demo_parsed_def optional_field_def
      option.case option.map list.case json.case bind.simps)

lemma demo_submission_of:
  "body \<in> {[1], [2]} \<Longrightarrow> request_submission demo_rekor body = Inr demo_submission"
proof -
  have "parse_u64 ''8'' = Some 8" by (simp add: parse_u64_digits is_digit_def dec_val_def digit_val_def)
  then show "body \<in> {[1], [2]} \<Longrightarrow> request_submission demo_rekor body = Inr demo_submission"
    using demo_requests_parse
    by (auto simp: request_submission_def demo_rekor_def demo_parsed_def decode_def key_der_def key_details_name_def
        demo_decode_encode demo_submission_def Let_def)
qed

lemma demo_genuine: "\<exists>ka. genuine demo_crypto demo_rekor demo_submission ka \<and> ka_hash_name ka = ''SHA2_512''"
  by (simp add: genuine_def demo_submission_def key_algorithm_of_def digest_len_def submission_spki_def demo_rekor_def
      check_key_def demo_crypto_def demo_artifact_def)

lemma demo_canonical:
  assumes "body \<in> {[1], [2]}"
  shows "canonical_entry demo_crypto demo_rekor body = Inr [3]"
proof -
  obtain ka where "genuine demo_crypto demo_rekor demo_submission ka" "ka_hash_name ka = ''SHA2_512''"
    using demo_genuine by blast
  then show ?thesis
    using canonical_entry_complete [OF demo_rekor_laws(2) demo_submission_of [OF assms], of demo_crypto ka "[3]"]
    by (simp add: demo_rekor_def)
qed

theorem rekor_entries_canonical_witness:
  "canonical_entry demo_crypto demo_rekor [1] = Inr [3] \<and> canonical_entry demo_crypto demo_rekor [2] = Inr [3]
   \<and> (\<exists>v sub ka. rl_parse demo_rekor [3] = Some v \<and> entry_submission demo_crypto v = Some (sub, ka_hash_name ka)
        \<and> genuine demo_crypto demo_rekor sub ka)"
proof -
  have "canonical_entry demo_crypto demo_rekor [1] = Inr [3]" "canonical_entry demo_crypto demo_rekor [2] = Inr [3]"
    by (simp_all add: demo_canonical)
  with rekor_entries_canonical [OF demo_b64 demo_rekor_laws, of "[1]" "[3]" "[2]" "[3]"] show ?thesis by simp
qed

end
