(* ===== verification/Rekor_Submit.thy ===== *)
theory Rekor_Submit
  imports Rekor Publisher_Safety Sequencer
begin

text \<open>
  Submissions in the Rekor mode, the second half of \<^verbatim>\<open>src/api/rekor.rs\<close>: \<open>submit\<close> sequences the
  canonical entry, waits until a published checkpoint covers it, checks the checkpoint's signature
  and an inclusion proof, and answers with both; \<open>create_entry\<close> turns its result into a response.
  The answer of the sequencer is the argument \<open>add\<close>, with \<open>None\<close> when none comes in time. A poll is
  what the handler finds in storage: the state in which it reads the checkpoint, and the tiles as it
  reads them afterwards. The list of polls is as long as the time limit of 30 seconds allows, at
  most 600 at 50 milliseconds; when it ends without an answer, the request has timed out.
\<close>


subsection \<open>Waiting for inclusion\<close>

type_synonym 's poll = "'s \<times> tile_reader"

definition signed_by_log :: "crypto \<Rightarrow> checkpoint_signer \<Rightarrow> cosigned_checkpoint \<Rightarrow> bool" where
  "signed_by_log cr signer co =
     list_ex (\<lambda>sg. sig_name sg = signer_name signer \<and> sig_key_id sg = signer_key_id signer
         \<and> ed_verify cr (ed_public cr (signing_key signer)) (str_bytes (to_body cr (co_checkpoint co))) (sig_bytes sg))
       (co_signatures co)"

text \<open>The full key identifier of a signed note.\<close>

definition log_id :: "crypto \<Rightarrow> checkpoint_signer \<Rightarrow> byte list" where
  "log_id cr signer =
     sha256 cr (str_bytes (signer_name signer) @ [10, 1] @ ed_public cr (signing_key signer))"

definition rekor_answer ::
  "crypto \<Rightarrow> checkpoint_signer \<Rightarrow> byte list \<Rightarrow> nat \<Rightarrow> checkpoint \<Rightarrow> sha256_hash list \<Rightarrow> string \<Rightarrow> json" where
  "rekor_answer cr signer canonical index cp hashes envelope =
     json_object
       [(''logIndex'', JString (dec index)),
        (''logId'', json_object [(''keyId'', JString (b64_encode cr (log_id cr signer)))]),
        (''kindVersion'', json_object [(''kind'', JString ''hashedrekord''), (''version'', JString ''0.0.2'')]),
        (''canonicalizedBody'', JString (b64_encode cr canonical)),
        (''inclusionProof'', json_object
          [(''logIndex'', JString (dec index)), (''treeSize'', JString (dec (cp_size cp))),
           (''rootHash'', JString (b64_encode cr (hash_bytes (cp_root cp)))),
           (''hashes'', JArray (map (\<lambda>h. JString (b64_encode cr (hash_bytes h))) hashes)),
           (''checkpoint'', json_object [(''envelope'', JString envelope)])])]"

text \<open>One turn of the loop; \<open>None\<close> means to wait and poll again.\<close>

definition poll_once ::
  "crypto \<Rightarrow> hash_fn \<Rightarrow> inclusion_verifier \<Rightarrow> 's operator \<Rightarrow> checkpoint_signer \<Rightarrow> byte list \<Rightarrow> sha256_hash \<Rightarrow> nat
     \<Rightarrow> 's poll \<Rightarrow> json option res" where
  "poll_once cr hc verify_inclusion op signer canonical leaf index = (\<lambda>(s, rd).
     bind_res (read_checkpoint op s) (\<lambda>found.
       case found of
         None \<Rightarrow> Inr None
       | Some data \<Rightarrow>
           if \<not> utf8_ok data then Inl InvalidEntry
           else let envelope = bytes_str data
                in bind_res (from_text cr envelope) (\<lambda>signed.
                   let cp = co_checkpoint signed
                   in if cp_size cp \<le> index then Inr None
                      else if \<not> signed_by_log cr signer signed then Inl error.Internal
                      else bind_res (generate_inclusion_proof hc rd index (cp_size cp)) (\<lambda>hashes.
                        if \<not> verify_inclusion leaf index (cp_size cp) hashes (cp_root cp) then Inl Merkle
                        else Inr (Some (rekor_answer cr signer canonical index cp hashes envelope))))))"

fun poll_loop :: "('p \<Rightarrow> 'a option res) \<Rightarrow> 'p list \<Rightarrow> 'a res option" where
  "poll_loop f [] = None"
| "poll_loop f (p # ps) =
     (case f p of
        Inl e \<Rightarrow> Some (Inl e)
      | Inr (Some a) \<Rightarrow> Some (Inr a)
      | Inr None \<Rightarrow> poll_loop f ps)"

definition submit ::
  "crypto \<Rightarrow> hash_fn \<Rightarrow> (byte list \<Rightarrow> sha256_hash) \<Rightarrow> inclusion_verifier \<Rightarrow> rekor_lib \<Rightarrow> 's operator
     \<Rightarrow> (entry \<Rightarrow> nat res option) \<Rightarrow> 's poll list \<Rightarrow> 's app_state \<Rightarrow> checkpoint_signer \<Rightarrow> byte list option \<Rightarrow> byte list
     \<Rightarrow> json res option" where
  "submit cr hc hash_leaf verify_inclusion lib op add polls st signer authorization body =
     (case bind_res (authorize_write (as_api_key st) authorization) (\<lambda>_. canonical_entry cr lib body) of
        Inl e \<Rightarrow> Some (Inl e)
      | Inr canonical \<Rightarrow>
          let e = new_entry hash_leaf canonical
          in case add e of
               None \<Rightarrow> None
             | Some (Inl err) \<Rightarrow> Some (Inl err)
             | Some (Inr index) \<Rightarrow>
                 poll_loop (poll_once cr hc verify_inclusion op signer canonical (entry_leaf_hash e) index) polls)"


subsection \<open>Responses\<close>

definition rekor_error :: "nat \<Rightarrow> nat \<Rightarrow> string \<Rightarrow> api_response" where
  "rekor_error status code message =
     \<lparr>ar_status = status, ar_headers = [],
      ar_body = Json (json_object [(''code'', JNumber (dec code)), (''message'', JString message), (''details'', JArray [])])\<rparr>"

text \<open>The texts of \<open>InvalidEntry\<close> errors, which the errors here do not hold, are the argument \<open>message\<close>.\<close>

definition create_entry ::
  "crypto \<Rightarrow> hash_fn \<Rightarrow> (byte list \<Rightarrow> sha256_hash) \<Rightarrow> inclusion_verifier \<Rightarrow> rekor_lib \<Rightarrow> 's operator \<Rightarrow> string
     \<Rightarrow> (entry \<Rightarrow> nat res option) \<Rightarrow> 's poll list \<Rightarrow> 's app_state \<Rightarrow> checkpoint_signer \<Rightarrow> byte list option \<Rightarrow> byte list
     \<Rightarrow> api_response" where
  "create_entry cr hc hash_leaf verify_inclusion lib op message add polls st signer authorization body =
     (case submit cr hc hash_leaf verify_inclusion lib op add polls st signer authorization body of
        Some (Inr e) \<Rightarrow> \<lparr>ar_status = 201, ar_headers = [], ar_body = Json e\<rparr>
      | Some (Inl err) \<Rightarrow>
          (case err of
             Unauthorized \<Rightarrow> rekor_error 401 16 ''Unauthorized''
           | Duplicate index \<Rightarrow>
               (rekor_error 409 6 ''Entry already exists'')\<lparr>ar_headers := [(''x-log-index'', dec index)]\<rparr>
           | InvalidEntry \<Rightarrow> rekor_error 400 3 message
           | _ \<Rightarrow> rekor_error 500 13 ''Internal server error'')
      | None \<Rightarrow> rekor_error 504 4 ''Timed out waiting for inclusion; entry may still be integrated'')"


subsection \<open>What a client reads in an answer\<close>

text \<open>The index, the entry, the checkpoint and the proof, when all parts agree and the key is the log's.\<close>

record rekor_receipt =
  rr_index :: nat
  rr_entry :: "byte list"
  rr_checkpoint :: cosigned_checkpoint
  rr_hashes :: "sha256_hash list"

definition json_b64 :: "crypto \<Rightarrow> json \<Rightarrow> string \<Rightarrow> byte list option" where
  "json_b64 cr v field = Option.bind (json_string v field) (b64_decode cr)"

definition json_u64 :: "json \<Rightarrow> string \<Rightarrow> nat option" where
  "json_u64 v field = Option.bind (json_string v field) parse_u64"

definition json_hash :: "crypto \<Rightarrow> json \<Rightarrow> sha256_hash option" where
  "json_hash cr v = Option.bind (Option.bind (json_as_str v) (b64_decode cr)) try_from_slice"

definition json_hashes :: "crypto \<Rightarrow> json \<Rightarrow> string \<Rightarrow> sha256_hash list option" where
  "json_hashes cr v field = (case json_get v field of Some (JArray vs) \<Rightarrow> those (map (json_hash cr) vs) | _ \<Rightarrow> None)"

definition json_or_null :: "json \<Rightarrow> string \<Rightarrow> json" where
  "json_or_null v field = (case json_get v field of Some w \<Rightarrow> w | None \<Rightarrow> JNull)"

definition read_receipt :: "crypto \<Rightarrow> checkpoint_signer \<Rightarrow> json \<Rightarrow> rekor_receipt option" where
  "read_receipt cr signer v =
     (let pf = json_or_null v ''inclusionProof''
      in case (json_u64 v ''logIndex'', json_b64 cr v ''canonicalizedBody'', json_hashes cr pf ''hashes'',
               Option.bind (json_string (json_or_null pf ''checkpoint'') ''envelope'')
                 (\<lambda>t. case from_text cr t of Inr co \<Rightarrow> Some co | Inl _ \<Rightarrow> None)) of
           (Some index, Some canonical, Some hashes, Some co) \<Rightarrow>
             if json_b64 cr (json_or_null v ''logId'') ''keyId'' = Some (log_id cr signer)
                \<and> json_u64 pf ''logIndex'' = Some index \<and> json_u64 pf ''treeSize'' = Some (cp_size (co_checkpoint co))
                \<and> json_b64 cr pf ''rootHash'' = Some (hash_bytes (cp_root (co_checkpoint co)))
             then Some \<lparr>rr_index = index, rr_entry = canonical, rr_checkpoint = co, rr_hashes = hashes\<rparr> else None
         | _ \<Rightarrow> None)"

definition receipt_verifies ::
  "crypto \<Rightarrow> (byte list \<Rightarrow> sha256_hash) \<Rightarrow> inclusion_verifier \<Rightarrow> checkpoint_signer \<Rightarrow> rekor_receipt \<Rightarrow> bool" where
  "receipt_verifies cr hash_leaf verify_inclusion signer r \<longleftrightarrow>
     (let cp = co_checkpoint (rr_checkpoint r)
      in signed_by_log cr signer (rr_checkpoint r) \<and> rr_index r < cp_size cp
         \<and> verify_inclusion (hash_leaf (rr_entry r)) (rr_index r) (cp_size cp) (rr_hashes r) (cp_root cp))"


subsection \<open>Facts\<close>

lemma rekor_answer_eq:
  "rekor_answer cr signer canonical index cp hashes envelope =
     JObject [(''canonicalizedBody'', JString (b64_encode cr canonical)),
       (''inclusionProof'', JObject
         [(''checkpoint'', JObject [(''envelope'', JString envelope)]),
          (''hashes'', JArray (map (\<lambda>h. JString (b64_encode cr (hash_bytes h))) hashes)),
          (''logIndex'', JString (dec index)), (''rootHash'', JString (b64_encode cr (hash_bytes (cp_root cp)))),
          (''treeSize'', JString (dec (cp_size cp)))]),
       (''kindVersion'', JObject [(''kind'', JString ''hashedrekord''), (''version'', JString ''0.0.2'')]),
       (''logId'', JObject [(''keyId'', JString (b64_encode cr (log_id cr signer)))]),
       (''logIndex'', JString (dec index))]"
  by (simp add: rekor_answer_def json_object_def string_less)

lemma hashes_roundtrip:
  assumes "b64_laws cr"
  shows "those (map (json_hash cr) (map (\<lambda>h. JString (b64_encode cr (hash_bytes h))) hashes)) = Some hashes"
  by (induction hashes) (simp_all add: json_hash_def b64D(1) [OF assms] try_from_slice_def)

lemma from_text_size: "from_text cr t = Inr co \<Longrightarrow> cp_size (co_checkpoint co) \<le> u64_max"
  by (auto simp: from_text_def parse_body_def res_simps Let_def split: option.splits if_splits) (rule parse_u64_bound)

lemma read_receipt_answer:
  assumes "b64_laws cr" and "from_text cr envelope = Inr co" and "index < cp_size (co_checkpoint co)"
  shows "read_receipt cr signer (rekor_answer cr signer canonical index (co_checkpoint co) hashes envelope)
    = Some \<lparr>rr_index = index, rr_entry = canonical, rr_checkpoint = co, rr_hashes = hashes\<rparr>"
  using from_text_size [OF assms(2)] assms(2,3)
  by (simp add: read_receipt_def rekor_answer_eq json_or_null_def json_u64_def json_b64_def json_string_def
      json_hashes_def hashes_roundtrip [OF assms(1), unfolded map_map comp_def] b64D(1) [OF assms(1)] comp_def Let_def)

lemma poll_once_cases:
  "poll_once cr hc vi op signer canonical leaf index p = Inr (Some v) \<longleftrightarrow>
     (\<exists>data co hashes. read_checkpoint op (fst p) = Inr (Some data) \<and> utf8_ok data
        \<and> from_text cr (bytes_str data) = Inr co \<and> index < cp_size (co_checkpoint co) \<and> signed_by_log cr signer co
        \<and> generate_inclusion_proof hc (snd p) index (cp_size (co_checkpoint co)) = Inr hashes
        \<and> vi leaf index (cp_size (co_checkpoint co)) hashes (cp_root (co_checkpoint co))
        \<and> v = rekor_answer cr signer canonical index (co_checkpoint co) hashes (bytes_str data))"
  by (cases p) (auto simp: poll_once_def res_simps Let_def not_le split: option.splits if_splits)

lemma poll_loop_Inr: "poll_loop f ps = Some (Inr a) \<Longrightarrow> \<exists>p \<in> set ps. f p = Inr (Some a)"
  by (induction ps) (auto split: sum.splits option.splits)

lemma poll_loop_found:
  assumes "\<forall>p \<in> set ps. f p = Inr None \<or> (\<exists>a. f p = Inr (Some a))" and "\<exists>p \<in> set ps. f p \<noteq> Inr None"
  shows "\<exists>a. poll_loop f ps = Some (Inr a)"
  using assms
proof (induction ps)
  case (Cons p ps)
  then consider a where "f p = Inr (Some a)" | "f p = Inr None" "\<exists>q \<in> set ps. f q \<noteq> Inr None" by fastforce
  then show ?case using Cons by cases auto
qed simp

lemma poll_loop_none: "\<forall>p \<in> set ps. f p = Inr None \<Longrightarrow> poll_loop f ps = None"
  by (induction ps) auto


lemma submit_Inr:
  assumes "submit cr hc hash_leaf vi lib op add polls st signer authorization body = Some (Inr v)"
  shows "\<exists>canonical index p. canonical_entry cr lib body = Inr canonical \<and> p \<in> set polls
    \<and> add (new_entry hash_leaf canonical) = Some (Inr index)
    \<and> poll_once cr hc vi op signer canonical (hash_leaf canonical) index p = Inr (Some v)"
  using assms
  by (auto simp: submit_def Let_def res_simps new_entry_def dest!: poll_loop_Inr split: sum.splits option.splits)

lemma create_entry_201:
  assumes "ar_status (create_entry cr hc hash_leaf vi lib op message add polls st signer authorization body) = 201"
  shows "\<exists>v. submit cr hc hash_leaf vi lib op add polls st signer authorization body = Some (Inr v)
    \<and> create_entry cr hc hash_leaf vi lib op message add polls st signer authorization body
      = \<lparr>ar_status = 201, ar_headers = [], ar_body = Json v\<rparr>"
  using assms by (auto simp: create_entry_def rekor_error_def split: option.splits sum.splits error.splits)

lemma answer_proves:
  assumes "b64_laws cr" and "inclusion_laws hc vi"
    and "ar_status (create_entry cr hc hash_leaf vi lib op message add polls st signer authorization body) = 201"
  shows "\<exists>v canonical r. ar_body (create_entry cr hc hash_leaf vi lib op message add polls st signer authorization body) = Json v
    \<and> canonical_entry cr lib body = Inr canonical \<and> read_receipt cr signer v = Some r \<and> rr_entry r = canonical
    \<and> add (new_entry hash_leaf canonical) = Some (Inr (rr_index r))
    \<and> receipt_verifies cr hash_leaf vi signer r
    \<and> (\<forall>D. cp_size (co_checkpoint (rr_checkpoint r)) = length D
        \<longrightarrow> cp_root (co_checkpoint (rr_checkpoint r)) = mth hc empty_root_hash D
        \<longrightarrow> collision_free hc (mth_calls hc empty_root_hash D
              \<union> set (path_calls hc (rr_index r) (length D) (hash_leaf canonical) (rr_hashes r)))
        \<longrightarrow> D ! rr_index r = hash_leaf canonical)"
proof -
  obtain v where sub: "submit cr hc hash_leaf vi lib op add polls st signer authorization body = Some (Inr v)"
    and resp: "ar_body (create_entry cr hc hash_leaf vi lib op message add polls st signer authorization body) = Json v"
    using create_entry_201 [OF assms(3)] by auto
  obtain canonical index p where can: "canonical_entry cr lib body = Inr canonical"
    and add: "add (new_entry hash_leaf canonical) = Some (Inr index)"
    and poll: "poll_once cr hc vi op signer canonical (hash_leaf canonical) index p = Inr (Some v)"
    using submit_Inr [OF sub] by blast
  obtain envelope co hashes where co: "from_text cr envelope = Inr co" "index < cp_size (co_checkpoint co)"
    and signed: "signed_by_log cr signer co"
    and vi: "vi (hash_leaf canonical) index (cp_size (co_checkpoint co)) hashes (cp_root (co_checkpoint co))"
    and v: "v = rekor_answer cr signer canonical index (co_checkpoint co) hashes envelope"
    using poll unfolding poll_once_cases by blast
  let ?r = "\<lparr>rr_index = index, rr_entry = canonical, rr_checkpoint = co, rr_hashes = hashes\<rparr>"
  have "read_receipt cr signer v = Some ?r" unfolding v by (rule read_receipt_answer [OF assms(1) co])
  moreover have "receipt_verifies cr hash_leaf vi signer ?r"
    using co(2) signed vi by (simp add: receipt_verifies_def)
  moreover have "D ! index = hash_leaf canonical"
    if "cp_size (co_checkpoint co) = length D" "cp_root (co_checkpoint co) = mth hc empty_root_hash D"
      "collision_free hc (mth_calls hc empty_root_hash D \<union> set (path_calls hc index (length D) (hash_leaf canonical) hashes))" for D
    using vi that assms(2) path_root_binds [OF that(3), of index D hashes "hash_leaf canonical" empty_root_hash]
    by (auto simp: inclusion_laws_def)
  ultimately show ?thesis using resp can add by (intro exI [of _ v] exI [of _ canonical] exI [of _ ?r]) simp
qed


text \<open>C17. Every answer proves what it says: when a submission is answered with 201, the index in the answer
  is the sequencer's, and a client that reads the answer finds the canonical entry of its request, a
  checkpoint with the log's signature that covers the index, and an inclusion proof that verifies
  against this same checkpoint. So in the tree of the checkpoint the leaf at the index is the
  hash of the entry, barring a collision among the pairs hashed.\<close>

theorem rekor_answer_verifies:
  assumes "b64_laws cr" and "inclusion_laws hc vi"
    and "ar_status (create_entry cr hc hash_leaf vi lib op message add polls st signer authorization body) = 201"
  shows "\<exists>v canonical r. ar_body (create_entry cr hc hash_leaf vi lib op message add polls st signer authorization body) = Json v
    \<and> canonical_entry cr lib body = Inr canonical \<and> read_receipt cr signer v = Some r \<and> rr_entry r = canonical
    \<and> add (new_entry hash_leaf canonical) = Some (Inr (rr_index r))
    \<and> receipt_verifies cr hash_leaf vi signer r
    \<and> (\<forall>D. cp_size (co_checkpoint (rr_checkpoint r)) = length D
        \<longrightarrow> cp_root (co_checkpoint (rr_checkpoint r)) = mth hc empty_root_hash D
        \<longrightarrow> collision_free hc (mth_calls hc empty_root_hash D
              \<union> set (path_calls hc (rr_index r) (length D) (hash_leaf canonical) (rr_hashes r)))
        \<longrightarrow> D ! rr_index r = hash_leaf canonical)"
  using assms by (rule answer_proves)


subsection \<open>Submissions to an honest log\<close>

text \<open>The sequencer flushing a batch with the one entry.\<close>

definition batch_add :: "database \<Rightarrow> entry \<Rightarrow> nat res option" where
  "batch_add db e = map_of (sq_sent (flush_batch ((seq_start db)\<lparr>sq_batch := [(0, e)]\<rparr>))) 0"

lemma batch_add_ok:
  assumes "db_log db E m" and "db_mode db = Some ''rekor''" and "length E < i64_max"
  shows "batch_add db e = Some (if entry_leaf_hash e \<in> entry_leaf_hash ` set E
    then Inl (Duplicate (index_of E (entry_leaf_hash e))) else Inr (length E))"
  using sequence_entries_ok [OF assms(1) refl, of "[e]"] assms(2,3)
  by (auto simp: batch_add_def flush_batch_def seq_start_def split: if_splits)

text \<open>
  A poll of an honest log: no checkpoint yet, or one as the publisher writes it for some prefix of
  the log, and tiles that serve this prefix.
\<close>

definition log_checkpoint :: "crypto \<Rightarrow> hash_fn \<Rightarrow> checkpoint_signer \<Rightarrow> string \<Rightarrow> entry list \<Rightarrow> nat \<Rightarrow> cosigned_checkpoint \<Rightarrow> bool" where
  "log_checkpoint cr hc signer origin E m co \<longleftrightarrow>
     co_checkpoint co = \<lparr>cp_origin = origin, cp_size = m, cp_root = mth hc empty_root_hash (leaves E m)\<rparr>
     \<and> m \<le> length E \<and> checkpoint_wf (co_checkpoint co) \<and> utf8_ok (str_bytes origin)
     \<and> List.member (co_signatures co) (plain_signature cr signer (co_checkpoint co))
     \<and> list_all (\<lambda>sg. signature_wf sg \<and> utf8_ok (str_bytes (sig_name sg))) (co_signatures co)"

definition honest_poll ::
  "crypto \<Rightarrow> hash_fn \<Rightarrow> 's operator \<Rightarrow> checkpoint_signer \<Rightarrow> string \<Rightarrow> entry list \<Rightarrow> 's poll \<Rightarrow> bool" where
  "honest_poll cr hc op signer origin E p \<longleftrightarrow>
     read_checkpoint op (fst p) = Inr None \<or>
     (\<exists>co m s. read_checkpoint op (fst p) = Inr (Some (str_bytes (to_text cr co))) \<and> log_checkpoint cr hc signer origin E m co
        \<and> snd p = Tile_Store.read_tile op s \<and> store_serves hc op s (leaves E m))"

text \<open>The checkpoint that is read covers the index.\<close>

definition poll_covers :: "crypto \<Rightarrow> 's operator \<Rightarrow> nat \<Rightarrow> 's poll \<Rightarrow> bool" where
  "poll_covers cr op index p \<longleftrightarrow>
     (case read_checkpoint op (fst p) of
        Inr (Some data) \<Rightarrow> (case from_text cr (bytes_str data) of Inr co \<Rightarrow> index < cp_size (co_checkpoint co) | Inl _ \<Rightarrow> False)
      | _ \<Rightarrow> False)"

lemma log_checkpoint_read:
  assumes "b64_laws cr" and "ed_laws cr" and "log_checkpoint cr hc signer origin E m co"
  shows "utf8_ok (str_bytes (to_text cr co))" and "from_text cr (to_text cr co) = Inr co" and "signed_by_log cr signer co"
proof -
  have sigs: "\<forall>sg \<in> set (co_signatures co). signature_wf sg \<and> utf8_ok (str_bytes (sig_name sg))"
    and mem: "plain_signature cr signer (co_checkpoint co) \<in> set (co_signatures co)"
    using assms(3) by (auto simp: log_checkpoint_def list_all_iff)
  show "utf8_ok (str_bytes (to_text cr co))"
    using assms(3) sigs by (intro utf8_to_text [OF assms(1)]) (auto simp: log_checkpoint_def)
  show "from_text cr (to_text cr co) = Inr co"
    using assms(3) sigs mem by (intro text_roundtrip [OF assms(1)]) (auto simp: log_checkpoint_def)
  show "signed_by_log cr signer co"
    using mem assms(2) by (auto simp: signed_by_log_def list_ex_iff plain_signature_def ed_laws_def
        intro!: bexI [of _ "plain_signature cr signer (co_checkpoint co)"])
qed

lemma honest_poll_once:
  assumes "b64_laws cr" and "ed_laws cr" and "inclusion_laws hc vi" and "honest_poll cr hc op signer origin E p"
    and "index < length E" and "entry_leaf_hash (E ! index) = leaf"
  shows "if poll_covers cr op index p then \<exists>v. poll_once cr hc vi op signer canonical leaf index p = Inr (Some v)
    else poll_once cr hc vi op signer canonical leaf index p = Inr None"
proof (cases "read_checkpoint op (fst p) = Inr None")
  case True
  then show ?thesis by (cases p) (simp add: poll_covers_def poll_once_def)
next
  case False
  then obtain co m s where read: "read_checkpoint op (fst p) = Inr (Some (str_bytes (to_text cr co)))"
    and co: "log_checkpoint cr hc signer origin E m co" and rd: "snd p = Tile_Store.read_tile op s"
    and sv: "store_serves hc op s (leaves E m)"
    using assms(4) by (auto simp: honest_poll_def)
  note facts = log_checkpoint_read [OF assms(1,2) co]
  have cp: "cp_size (co_checkpoint co) = m" "cp_root (co_checkpoint co) = mth hc empty_root_hash (leaves E m)" "m \<le> length E"
    using co by (simp_all add: log_checkpoint_def)
  show ?thesis
  proof (cases "index < m")
    case True
    then have D: "index < length (leaves E m)" "leaves E m ! index = leaf"
      using cp(3) assms(6) by (simp_all add: leaves_def)
    have gen: "generate_inclusion_proof hc (snd p) index m = Inr (rfc_path hc empty_root_hash index (leaves E m))"
      using store.generate_inclusion_ok [OF sv D(1)] by (simp add: rd length_leaves [OF cp(3)])
    have "vi leaf index m (rfc_path hc empty_root_hash index (leaves E m)) (mth hc empty_root_hash (leaves E m))"
      using assms(3) True D path_root_rfc_path [OF D(1), of hc empty_root_hash] length_rfc_path [OF D(1), of hc empty_root_hash]
      by (simp add: inclusion_laws_def length_leaves [OF cp(3)])
    then show ?thesis
      using True read facts cp gen by (auto simp: poll_covers_def poll_once_cases)
  next
    case False
    then show ?thesis using read facts cp by (cases p) (simp add: poll_covers_def poll_once_def Let_def)
  qed
qed

lemma submit_outcome:
  assumes "b64_laws cr" and "ed_laws cr" and "inclusion_laws hc vi"
    and "authorize_write (as_api_key st) authorization = Inr ()" and "canonical_entry cr lib body = Inr canonical"
    and "add (new_entry hash_leaf canonical) = Some (Inr index)"
    and "index < length E" and "entry_leaf_hash (E ! index) = hash_leaf canonical"
    and "\<forall>p \<in> set polls. honest_poll cr hc op signer origin E p"
  shows "if \<exists>p \<in> set polls. poll_covers cr op index p
    then \<exists>v. submit cr hc hash_leaf vi lib op add polls st signer authorization body = Some (Inr v)
    else submit cr hc hash_leaf vi lib op add polls st signer authorization body = None"
proof -
  let ?f = "poll_once cr hc vi op signer canonical (hash_leaf canonical) index"
  have once: "if poll_covers cr op index p then \<exists>v. ?f p = Inr (Some v) else ?f p = Inr None" if "p \<in> set polls" for p
    using honest_poll_once [OF assms(1-3) _ assms(7,8)] assms(9) that by blast
  have "submit cr hc hash_leaf vi lib op add polls st signer authorization body = poll_loop ?f polls"
    using assms(4-6) by (simp add: submit_def new_entry_def)
  moreover have "\<exists>v. poll_loop ?f polls = Some (Inr v)" if "\<exists>p \<in> set polls. poll_covers cr op index p"
    using once that by (intro poll_loop_found) (metis option.distinct(1) sum.inject(2))+
  moreover have "poll_loop ?f polls = None" if "\<not> (\<exists>p \<in> set polls. poll_covers cr op index p)"
    using once that by (intro poll_loop_none) metis
  ultimately show ?thesis by simp
qed


text \<open>C18. A submission to an honest log. With an authorized, well-formed request, the sequencer of a
  database that holds the log \<open>E\<close> in Rekor mode, and polls of a log that extends it: when the entry is
  already in the log, the answer is 409 with its index; otherwise the entry gets the next index, and the
  answer is 201 as soon as a poll finds a checkpoint that covers this index, and 504 when none does.
  Nothing else can come of it.\<close>

theorem rekor_submission_outcome:
  assumes "b64_laws cr" and "ed_laws cr" and "inclusion_laws hc vi"
    and "db_log db E m" and "db_mode db = Some ''rekor''" and "length E < i64_max"
    and "authorize_write (as_api_key st) authorization = Inr ()" and "canonical_entry cr lib body = Inr canonical"
    and "E' = E @ new_entry hash_leaf canonical # F"
    and "\<forall>p \<in> set polls. honest_poll cr hc op signer origin E' p"
  shows "let resp = create_entry cr hc hash_leaf vi lib op message (batch_add db) polls st signer authorization body
    in if hash_leaf canonical \<in> entry_leaf_hash ` set E
       then \<exists>i < length E. entry_leaf_hash (E ! i) = hash_leaf canonical
              \<and> ar_status resp = 409 \<and> ar_headers resp = [(''x-log-index'', dec i)]
       else if \<exists>p \<in> set polls. poll_covers cr op (length E) p
       then ar_status resp = 201 \<and> (\<exists>v r. ar_body resp = Json v \<and> read_receipt cr signer v = Some r
              \<and> rr_index r = length E \<and> rr_entry r = canonical \<and> receipt_verifies cr hash_leaf vi signer r)
       else ar_status resp = 504"
proof (cases "hash_leaf canonical \<in> entry_leaf_hash ` set E")
  case True
  have "submit cr hc hash_leaf vi lib op (batch_add db) polls st signer authorization body
      = Some (Inl (Duplicate (index_of E (hash_leaf canonical))))"
    using True assms(7,8) batch_add_ok [OF assms(4-6), of "new_entry hash_leaf canonical"]
    by (simp add: submit_def new_entry_def)
  then show ?thesis
    using True index_of_nth [OF True] by (auto simp: create_entry_def rekor_error_def)
next
  case False
  have add: "batch_add db (new_entry hash_leaf canonical) = Some (Inr (length E))"
    using False batch_add_ok [OF assms(4-6), of "new_entry hash_leaf canonical"] by (simp add: new_entry_def)
  have idx: "length E < length E'" "entry_leaf_hash (E' ! length E) = hash_leaf canonical"
    by (simp_all add: assms(9) new_entry_def)
  note out = submit_outcome [where add = "batch_add db" and E = E', OF assms(1-3,7,8) add idx assms(10)]
  show ?thesis
  proof (cases "\<exists>p \<in> set polls. poll_covers cr op (length E) p")
    case covered: True
    then have "ar_status (create_entry cr hc hash_leaf vi lib op message (batch_add db) polls st signer authorization body) = 201"
      using out by (auto simp: create_entry_def)
    from this answer_proves [OF assms(1,3) this] show ?thesis
      using False covered assms(8) add by (auto simp: Let_def)
  next
    case uncovered: False
    then show ?thesis using False out by (auto simp: create_entry_def rekor_error_def)
  qed
qed


text \<open>An example: the first entry of a log, with a poll before and one after its checkpoint is published.\<close>

definition demo_open :: "(string \<times> byte list) list app_state" where
  "demo_open = demo_app\<lparr>as_api_key := None\<rparr>"

definition demo_published :: cosigned_checkpoint where
  "demo_published = cosigned_new demo_crypto (demo_cp [5]) demo_signer"

definition demo_polls :: "(string \<times> byte list) list poll list" where
  "demo_polls = [([], Tile_Store.read_tile memory_op (as_store demo_app)),
     ([(CHECKPOINT_PATH, str_bytes (to_text demo_crypto demo_published))], Tile_Store.read_tile memory_op (as_store demo_app))]"

definition demo_create :: "(string \<times> byte list) list poll list \<Rightarrow> api_response" where
  "demo_create polls = create_entry demo_crypto demo_hash (\<lambda>_. 5) demo_inclusion demo_rekor memory_op []
     (batch_add (empty_db (Some ''rekor''))) polls demo_open demo_signer None [1]"

lemma demo_log_checkpoint:
  "log_checkpoint demo_crypto demo_hash demo_signer ''log'' [new_entry (\<lambda>_. 5) [3]] 1 demo_published"
proof -
  have "leaves [new_entry (\<lambda>_. 5) [3]] 1 = [5 :: sha256_hash]" by (simp add: leaves_def new_entry_def)
  moreover have "utf8_ok (str_bytes ''log'')" by (intro utf8_ok_plain) (simp add: plain_def)
  moreover have "checkpoint_wf (demo_cp [5])" by (rule demo_cp_wf) simp
  ultimately show ?thesis
    using demo_signer_wf by (simp add: log_checkpoint_def demo_published_def cosigned_new_def demo_cp_def plain_signature_def
        demo_signer_def from_seed_def)
qed

lemma demo_polls_honest:
  "\<forall>p \<in> set demo_polls. honest_poll demo_crypto demo_hash memory_op demo_signer ''log'' [new_entry (\<lambda>_. 5) [3]] p"
proof -
  have "store_serves demo_hash memory_op (as_store demo_app) (leaves [new_entry (\<lambda>_. 5) [3]] 1)"
    using demo_served by (simp add: leaves_def new_entry_def)
  then show ?thesis
    using demo_log_checkpoint by (auto simp: demo_polls_def honest_poll_def read_checkpoint_def memory_op_def)
qed

lemma demo_polls_cover:
  "list_ex (poll_covers demo_crypto memory_op 0) demo_polls" "\<not> list_ex (poll_covers demo_crypto memory_op 0) (take 1 demo_polls)"
  using log_checkpoint_read(2) [OF demo_b64 demo_ed demo_log_checkpoint] demo_log_checkpoint
  by (simp_all add: demo_polls_def poll_covers_def read_checkpoint_def memory_op_def log_checkpoint_def)

theorem rekor_submission_outcome_witness:
  "ar_status (demo_create demo_polls) = 201
   \<and> (\<exists>v r. ar_body (demo_create demo_polls) = Json v \<and> read_receipt demo_crypto demo_signer v = Some r
        \<and> rr_index r = 0 \<and> rr_entry r = [3] \<and> receipt_verifies demo_crypto (\<lambda>_. 5) demo_inclusion demo_signer r)
   \<and> ar_status (demo_create (take 1 demo_polls)) = 504"
proof -
  have auth: "authorize_write (as_api_key demo_open) None = Inr ()" by (simp add: demo_open_def authorize_write_def)
  have can: "canonical_entry demo_crypto demo_rekor [1] = Inr [3]" by (simp add: demo_canonical)
  have db: "db_mode (empty_db (Some ''rekor'')) = Some ''rekor''" by (simp add: empty_db_def)
  have out: "if list_ex (poll_covers demo_crypto memory_op 0) polls
    then ar_status (demo_create polls) = 201 \<and> (\<exists>v r. ar_body (demo_create polls) = Json v
        \<and> read_receipt demo_crypto demo_signer v = Some r \<and> rr_index r = 0 \<and> rr_entry r = [3]
        \<and> receipt_verifies demo_crypto (\<lambda>_. 5) demo_inclusion demo_signer r)
    else ar_status (demo_create polls) = 504" if "set polls \<subseteq> set demo_polls" for polls
  proof -
    have "\<forall>p \<in> set polls. honest_poll demo_crypto demo_hash memory_op demo_signer ''log'' [new_entry (\<lambda>_. 5) [3]] p"
      using demo_polls_honest that by auto
    from rekor_submission_outcome [where E = "[]" and F = "[]" and hash_leaf = "\<lambda>_. 5" and message = "[]"
        and E' = "[new_entry (\<lambda>_. 5) [3]]",
        OF demo_b64 demo_ed demo_inclusion_laws empty_db_log db _ auth can _ this] show ?thesis
      by (simp add: demo_create_def list_ex_iff Let_def cong: if_cong)
  qed
  show ?thesis
    using out [OF subset_refl] out [OF set_take_subset, of 1] demo_polls_cover by simp
qed

theorem rekor_answer_verifies_witness:
  "\<exists>v r. ar_body (demo_create demo_polls) = Json v \<and> read_receipt demo_crypto demo_signer v = Some r
     \<and> rr_entry r = [3] \<and> receipt_verifies demo_crypto (\<lambda>_. 5) demo_inclusion demo_signer r"
proof -
  have auth: "authorize_write (as_api_key demo_open) None = Inr ()" by (simp add: demo_open_def authorize_write_def)
  have can: "canonical_entry demo_crypto demo_rekor [1] = Inr [3]" by (simp add: demo_canonical)
  have db: "db_mode (empty_db (Some ''rekor'')) = Some ''rekor''" by (simp add: empty_db_def)
  have add: "batch_add (empty_db (Some ''rekor'')) (new_entry (\<lambda>_. 5) [3]) = Some (Inr 0)"
    using batch_add_ok [OF empty_db_log db] by simp
  have covers: "\<exists>p \<in> set demo_polls. poll_covers demo_crypto memory_op 0 p"
    using demo_polls_cover(1) by (simp add: list_ex_iff)
  have "\<exists>v. submit demo_crypto demo_hash (\<lambda>_. 5) demo_inclusion demo_rekor memory_op
      (batch_add (empty_db (Some ''rekor''))) demo_polls demo_open demo_signer None [1] = Some (Inr v)"
    using submit_outcome [of demo_crypto demo_hash demo_inclusion demo_open None demo_rekor "[1]" "[3]"
        "batch_add (empty_db (Some ''rekor''))" "\<lambda>_. 5" 0 "[new_entry (\<lambda>_. 5) [3]]" demo_polls memory_op demo_signer "''log''",
        OF demo_b64 demo_ed demo_inclusion_laws auth can add _ _ demo_polls_honest] covers
    by (simp add: new_entry_def)
  then have "ar_status (demo_create demo_polls) = 201" by (auto simp: demo_create_def create_entry_def)
  from rekor_answer_verifies [OF demo_b64 demo_inclusion_laws this [unfolded demo_create_def]] can show ?thesis
    by (auto simp: demo_create_def)
qed

end
