(* ===== verification/Spec2Isabelle.thy ===== *)
theory Spec2Isabelle
  imports Publisher_Safety Worker_Cluster Bulk_Import Conda_Monitor Rekor_Submit
begin

text \<open>
  Siglog is a transparency log: clients submit entries, a sequencer gives each an index, a worker
  integrates them into a Merkle tree stored as tiles, a publisher signs the tree's root as a
  checkpoint and has witnesses cosign it. The same code base holds the witness that checks that a
  log only ever appends.

  Parts and theories, in the order data flows through them:

  \<^item> \<open>Types_Paths\<close>: \<^verbatim>\<open>types.rs\<close>, \<^verbatim>\<open>error.rs\<close>, \<^verbatim>\<open>api/paths.rs\<close>. Indices and sizes are naturals
    with their machine bounds written out, hashes are words of 256 bits, errors are the constructors
    of the source without their message texts. Storage paths are printed and parsed; distinct
    objects have distinct paths.
  \<^item> \<open>Tile_Codec\<close>: \<^verbatim>\<open>merkle/tiles.rs\<close>, the byte formats of hash tiles and entry bundles.
  \<^item> \<open>Merkle_Tree\<close> and \<open>Consistency\<close>: the tree hash \<open>mth\<close> of RFC 6962 and \<^verbatim>\<open>witness/proof.rs\<close>.
    The hash of two nodes is a parameter. Soundness assumes no collision only among the pairs that
    are actually hashed (\<open>collision_free\<close> on \<open>mth_calls\<close> and \<open>verify_calls\<close>), which real data can
    satisfy; a hash without any collision cannot exist.
  \<^item> \<open>Proof_Gen\<close>: \<^verbatim>\<open>merkle/proof.rs\<close> over any tile reader that keeps the contract of the locale
    \<open>tile_source\<close>.
  \<^item> \<open>Tile_Store\<close>: \<^verbatim>\<open>storage/opendal.rs\<close>. The object store is the parameter \<open>operator\<close> with the
    laws \<open>op_laws\<close>; the kinds of object are interpretations of the locale \<open>object_kv\<close>.
  \<^item> \<open>Integrate\<close>: \<^verbatim>\<open>merkle/integrate.rs\<close>, with the storage as interpretation of \<open>tile_source\<close>.
  \<^item> \<open>Log_Database\<close>: \<^verbatim>\<open>storage/database.rs\<close>; \<open>db_log db E m\<close> says that the database stands for
    the sequenced entries \<open>E\<close> of which \<open>m\<close> are integrated.
  \<^item> \<open>Sequencer\<close>: \<^verbatim>\<open>sequencer/queue.rs\<close>, a state machine over submissions, timer and closing.
  \<^item> \<open>Worker\<close>: the integration cycle of \<^verbatim>\<open>worker.rs\<close>; \<open>sys_ok\<close> is the invariant over database,
    tiles, bundles and root, kept by every cycle whichever call fails.
  \<^item> \<open>Text_Format\<close> and \<open>Checkpoint\<close>: strings as UTF-8 bytes, and \<^verbatim>\<open>checkpoint/signer.rs\<close>. Base64,
    SHA-256 and Ed25519 are the parameter \<open>crypto\<close> with the laws \<open>b64_laws\<close>, \<open>sha_laws\<close> and \<open>ed_laws\<close>.
  \<^item> \<open>Witness_Verifier\<close>: \<^verbatim>\<open>witness/verifier.rs\<close>, keys and signature checks.
  \<^item> \<open>Witness_Store\<close>: \<^verbatim>\<open>witness/state.rs\<close>, interpretation \<open>rows\<close> of the locale \<open>cas_table\<close>.
  \<^item> \<open>Witness\<close> and \<open>Witness_Safety\<close>: \<^verbatim>\<open>witness/mod.rs\<close> and \<^verbatim>\<open>witness/handlers.rs\<close>. \<open>add_checkpoint\<close>
    is the handler as written; \<open>witness_step\<close> interleaves any number of requests, one database
    statement at a time, with failures at every point.
  \<^item> \<open>Publisher\<close> and \<open>Publisher_Safety\<close>: the checkpoint publisher of \<^verbatim>\<open>worker.rs\<close>, with the HTTP
    exchange as a parameter, and its composition with the witness.

  What is shown. The log is append-only under every interleaving of sequencing, integration and
  failure, and its stored tiles always serve the tree of the integrated entries. Generated proofs are
  the RFC 6962 proofs and are accepted; accepted proofs mean a prefix. A witness never cosigns two
  histories of a log, never falls behind its own signatures, cosigns only what the log signed, and
  cosigns every honest request. The publisher writes a checkpoint only with a quorum of distinct
  verified witnesses, and what it writes is the root of the integrated log. Formats parse back what
  they print.

  Bounds. Sizes are at most \<open>i64_max\<close> where the database column limits them, and the verifier is
  shown not to overflow for sizes up to \<open>2 ^ 63\<close>. All functions are total: loops over bits, tiles
  and lines recurse on a measure, so no fuel is used.

  Not modelled: the verifiable index, the monitor, import, the HTTP API of the log, the HTTP tile
  client, migrations, and program startup. Log messages and texts of errors are left out
  throughout, as is the column \<open>updated_at\<close>, which no code reads.
\<close>

end
